(* ===== verification/Prelude.thy ===== *)
theory Prelude
  imports Main "HOL-Library.Word"
begin

section \<open>Shared vocabulary of the development\<close>

text \<open>
  What every component theory uses: the outcome type of a C++ operation, the machine
  integer types, the model of the iterator algorithms of the C++ standard library
  (\<open>std::find\<close> and its kin return the position \<^term>\<open>length xs\<close> where the C++
  returns the end iterator), and the generic facts on lists the component proofs share.

  Output that the program only prints (\<open>printf\<close>, \<open>std::cout\<close>, the \<open>LOG\<close>
  macros of \<open>alog.hpp\<close>) is not part of the models.
\<close>

subsection \<open>Outcomes\<close>

text \<open>
  \<open>Err_exit\<close> is the macro \<open>ERR_EXIT\<close>, which ends the process; \<open>Assertion\<close> a
  failed \<open>BOOST_ASSERT\<close> or \<open>assert\<close>; \<open>Thrown\<close> a C++ exception with its
  message; \<open>Undefined\<close> an access that the language leaves undefined (a read or a
  write out of the bounds of an object); \<open>Endless\<close> a call that was shown never to return.
\<close>

datatype fault = Err_exit string | Assertion | Thrown string | Undefined | Endless

type_synonym 'a outcome = "fault + 'a"

definition bind_ok :: "'a outcome \<Rightarrow> ('a \<Rightarrow> 'b outcome) \<Rightarrow> 'b outcome" where
  "bind_ok r f = (case r of Inl e \<Rightarrow> Inl e | Inr x \<Rightarrow> f x)"

lemma bind_ok_Inl [simp]: "bind_ok (Inl e) f = Inl e"
  by (simp add: bind_ok_def)

lemma bind_ok_Inr [simp]: "bind_ok (Inr x) f = f x"
  by (simp add: bind_ok_def)

lemma bind_ok_eq_Inr [simp]: "bind_ok r f = Inr y \<longleftrightarrow> (\<exists>x. r = Inr x \<and> f x = Inr y)"
  by (cases r) simp_all

definition is_ok :: "'a outcome \<Rightarrow> bool" where
  "is_ok r = (case r of Inl _ \<Rightarrow> False | Inr _ \<Rightarrow> True)"

lemma is_ok_simps [simp]: "is_ok (Inr x)" "\<not> is_ok (Inl e)"
  by (simp_all add: is_ok_def)

subsection \<open>Machine integers\<close>

type_synonym u8 = "8 word"
type_synonym u16 = "16 word"
type_synonym u32 = "32 word"
type_synonym u64 = "64 word"

text \<open>Division of signed integers truncates towards zero.\<close>

definition cdiv :: "int \<Rightarrow> int \<Rightarrow> int" where
  "cdiv a b = sgn a * sgn b * (\<bar>a\<bar> div \<bar>b\<bar>)"

definition cmod :: "int \<Rightarrow> int \<Rightarrow> int" where
  "cmod a b = a - b * cdiv a b"

lemma cdiv_nonneg [simp]: "0 \<le> a \<Longrightarrow> 0 < b \<Longrightarrow> cdiv a b = a div b"
  by (cases "a = 0") (auto simp: cdiv_def)

lemma cmod_nonneg [simp]: "0 \<le> a \<Longrightarrow> 0 < b \<Longrightarrow> cmod a b = a mod b"
  by (simp add: cmod_def minus_mult_div_eq_mod)

lemma uint_of_int32: "uint (word_of_int k :: u32) = k mod 4294967296"
  by (simp add: uint_word_of_int)

lemma uint_of_int16: "uint (word_of_int k :: u16) = k mod 65536"
  by (simp add: uint_word_of_int)

end
