(* ===== verification/Tetris_Board.thy ===== *)
theory Tetris_Board
  imports Prelude
begin

section \<open>The Tetris board (multi\_array\_tetris.cpp)\<close>

text \<open>
  The matrices of the game: \<open>Array2d\<close> and \<open>Array2dx\<close>, the rotation of a square
  piece, the collision test and the merge of a piece into the board.  A matrix is the
  list of its rows; a \<open>Point\<close> is a pair (row, column) of signed integers.
\<close>

unbundle bit_operations_syntax

type_synonym cell = "8 word"
type_synonym mat = "cell list list"
type_synonym point = "int \<times> int"

definition shape0 :: "mat \<Rightarrow> int" where
  "shape0 m = int (length m)"

definition shape1 :: "mat \<Rightarrow> int" where
  "shape1 m = (case m of [] \<Rightarrow> 0 | r # _ \<Rightarrow> int (length r))"

definition get_shape :: "mat \<Rightarrow> point" where
  "get_shape m = (shape0 m, shape1 m)"

text \<open>\<open>m(p)\<close>, read and written at a point inside the matrix.\<close>

definition mget :: "mat \<Rightarrow> point \<Rightarrow> cell" where
  "mget m p = m ! nat (fst p) ! nat (snd p)"

definition mset :: "mat \<Rightarrow> point \<Rightarrow> cell \<Rightarrow> mat" where
  "mset m p v = m[nat (fst p) := (m ! nat (fst p))[nat (snd p) := v]]"

definition mswap :: "point \<Rightarrow> point \<Rightarrow> mat \<Rightarrow> mat" where
  "mswap p q m = mset (mset m p (mget m q)) q (mget m p)"

text \<open>A matrix with \<open>h\<close> rows of \<open>w\<close> cells.\<close>

definition rect :: "nat \<Rightarrow> nat \<Rightarrow> mat \<Rightarrow> bool" where
  "rect h w m \<longleftrightarrow> length m = h \<and> (\<forall>r \<in> set m. length r = w)"

definition inside :: "nat \<Rightarrow> nat \<Rightarrow> point \<Rightarrow> bool" where
  "inside h w p \<longleftrightarrow> 0 \<le> fst p \<and> fst p < int h \<and> 0 \<le> snd p \<and> snd p < int w"

subsection \<open>Reads and writes\<close>

lemma rect_row [simp]: "rect h w m \<Longrightarrow> i < h \<Longrightarrow> length (m ! i) = w"
  by (auto simp: rect_def)

lemma rect_length: "rect h w m \<Longrightarrow> length m = h"
  by (simp add: rect_def)

lemma rect_mset [simp]:
  assumes "rect h w m" and "inside h w p"
  shows "rect h w (mset m p v)"
  using assms by (force simp: rect_def mset_def inside_def in_set_conv_nth nth_list_update)

lemma mget_mset:
  assumes "rect h w m" and "inside h w p" and "inside h w q"
  shows "mget (mset m p v) q = (if q = p then v else mget m q)"
proof -
  have "nat (fst p) < length m" "nat (snd p) < length (m ! nat (fst p))"
    using assms by (auto simp: inside_def rect_def)
  with assms show ?thesis
    by (cases p; cases q) (auto simp: mget_def mset_def nth_list_update inside_def)
qed

lemma mat_eqI:
  assumes "rect h w m" and "rect h w m'"
    and "\<And>p. inside h w p \<Longrightarrow> mget m p = mget m' p"
  shows "m = m'"
proof (rule nth_equalityI)
  show "length m = length m'" using assms by (simp add: rect_def)
  fix i assume i: "i < length m"
  show "m ! i = m' ! i"
  proof (rule nth_equalityI)
    show "length (m ! i) = length (m' ! i)" using assms i by (simp add: rect_def)
    fix j assume "j < length (m ! i)"
    then have "inside h w (int i, int j)"
      using assms(1) i by (simp add: inside_def rect_def)
    then show "m ! i ! j = m' ! i ! j" using assms(3) by (fastforce simp: mget_def)
  qed
qed

lemma rect_mswap [simp]:
  "rect h w m \<Longrightarrow> inside h w p \<Longrightarrow> inside h w q \<Longrightarrow> rect h w (mswap p q m)"
  by (simp add: mswap_def)

lemma mget_mswap:
  assumes "rect h w m" and "inside h w p" and "inside h w q" and "inside h w x"
  shows "mget (mswap p q m) x =
    (if x = q then mget m p else if x = p then mget m q else mget m x)"
  using assms by (simp add: mswap_def mget_mset [where h = h and w = w])

subsection \<open>Rotation\<close>

text \<open>
  \<open>rotate90_right\<close> turns the outer ring of a square matrix by swapping, for each
  offset \<open>i\<close> along the side, the corner run \<open>p4[0]\<close> with \<open>p4[1]\<close>,
  \<open>p4[2]\<close> and \<open>p4[3]\<close>, then calls itself on the view without that ring.  The view
  \<open>m[1..s-1)[1..s-1)\<close> shares its cells with \<open>m\<close>: here it is the offset \<open>o\<close> of its
  first cell in the whole matrix and its side \<open>s\<close>.
\<close>

definition rot_step :: "int \<Rightarrow> int \<Rightarrow> int \<Rightarrow> mat \<Rightarrow> mat" where
  "rot_step b s i m =
     (let p0 = (b, b + i); p1 = (b + i, b + s - 1);
          p2 = (b + s - 1, b + s - 1 - i); p3 = (b + s - 1 - i, b)
      in mswap p0 p3 (mswap p0 p2 (mswap p0 p1 m)))"

fun rot_ring :: "int \<Rightarrow> int \<Rightarrow> nat \<Rightarrow> mat \<Rightarrow> mat" where
  "rot_ring b s 0 m = m"
| "rot_ring b s (Suc k) m = rot_step b s (int k) (rot_ring b s k m)"

function rotate_view :: "int \<Rightarrow> int \<Rightarrow> mat \<Rightarrow> mat" where
  "rotate_view b s m =
     (if s \<le> 1 then m
      else let m' = rot_ring b s (nat (s - 1)) m
           in if s = 2 then m' else rotate_view (b + 1) (s - 2) m')"
  by pat_completeness auto
termination by (relation "measure (\<lambda>(b, s, m). nat s)") auto

declare rotate_view.simps [simp del]

definition rotate90_right :: "mat \<Rightarrow> mat outcome" where
  "rotate90_right m =
     (let s = get_shape m
      in if fst s \<noteq> snd s then Inl Assertion else Inr (rotate_view 0 (fst s) m))"

text \<open>
  The specification of the turn: the cell that ends at \<open>p\<close> comes from
  \<open>quarter b s p\<close>, the point a quarter turn before it around the centre of the view.
  \<open>turned b s k\<close> are the points of the outer ring that the first \<open>k\<close> steps reach.
\<close>

definition quarter :: "int \<Rightarrow> int \<Rightarrow> point \<Rightarrow> point" where
  "quarter b s p = (2 * b + s - 1 - snd p, fst p)"

definition turned :: "int \<Rightarrow> int \<Rightarrow> int \<Rightarrow> point \<Rightarrow> bool" where
  "turned b s k p \<longleftrightarrow>
     fst p = b \<and> b \<le> snd p \<and> snd p < b + k \<or>
     snd p = b + s - 1 \<and> b \<le> fst p \<and> fst p < b + k \<or>
     fst p = b + s - 1 \<and> b + s - 1 - k < snd p \<and> snd p \<le> b + s - 1 \<or>
     snd p = b \<and> b + s - 1 - k < fst p \<and> fst p \<le> b + s - 1"

definition in_view :: "int \<Rightarrow> int \<Rightarrow> point \<Rightarrow> bool" where
  "in_view b s p \<longleftrightarrow> b \<le> fst p \<and> fst p < b + s \<and> b \<le> snd p \<and> snd p < b + s"

lemma rot_step_cells:
  assumes m: "rect n n m" and v: "0 \<le> b" "b + s \<le> int n" "0 \<le> i" "i < s - 1"
  shows "rect n n (rot_step b s i m)"
    and "inside n n p \<Longrightarrow> mget (rot_step b s i m) p =
      (if p \<in> {(b, b + i), (b + i, b + s - 1), (b + s - 1, b + s - 1 - i), (b + s - 1 - i, b)}
       then mget m (quarter b s p) else mget m p)"
proof -
  have ins: "inside n n (b, b + i)" "inside n n (b + i, b + s - 1)"
    "inside n n (b + s - 1, b + s - 1 - i)" "inside n n (b + s - 1 - i, b)"
    using v by (auto simp: inside_def)
  then show "rect n n (rot_step b s i m)"
    using m by (simp add: rot_step_def Let_def)
  show "mget (rot_step b s i m) p =
      (if p \<in> {(b, b + i), (b + i, b + s - 1), (b + s - 1, b + s - 1 - i), (b + s - 1 - i, b)}
       then mget m (quarter b s p) else mget m p)" if "inside n n p"
    using m ins that v
    by (auto simp: rot_step_def Let_def mget_mswap [where h = n and w = n] quarter_def
          algebra_simps)
qed

lemma turned_Suc:
  assumes "0 \<le> k" "k < s - 1"
  shows "turned b s (k + 1) p \<longleftrightarrow> turned b s k p \<or>
    p \<in> {(b, b + k), (b + k, b + s - 1), (b + s - 1, b + s - 1 - k), (b + s - 1 - k, b)}"
proof -
  obtain x y where p: "p = (x, y)" by fastforce
  have side: "(u \<le> z \<and> z < u + (k + 1)) = (u \<le> z \<and> z < u + k \<or> z = u + k)"
    "(v - (k + 1) < z \<and> z \<le> v) = (v - k < z \<and> z \<le> v \<or> z = v - k)" for u v z :: int
    using assms by auto
  show ?thesis
    by (simp only: p turned_def side fst_conv snd_conv insert_iff empty_iff prod.inject) blast
qed

lemma not_turned_source:
  assumes "0 \<le> k" "k < s - 1"
    and "p \<in> {(b, b + k), (b + k, b + s - 1), (b + s - 1, b + s - 1 - k), (b + s - 1 - k, b)}"
  shows "\<not> turned b s k p" "\<not> turned b s k (quarter b s p)"
  using assms by (auto simp: turned_def quarter_def)

lemma quarter_inside:
  "0 \<le> b \<Longrightarrow> b + s \<le> int n \<Longrightarrow> in_view b s p \<Longrightarrow> inside n n (quarter b s p)"
  by (auto simp: inside_def quarter_def in_view_def)

lemma rot_ring_cells:
  assumes m: "rect n n m" and v: "0 \<le> b" "b + s \<le> int n" and k: "int k \<le> s - 1"
  shows "rect n n (rot_ring b s k m) \<and>
    (\<forall>p. inside n n p \<longrightarrow> mget (rot_ring b s k m) p =
      (if turned b s (int k) p then mget m (quarter b s p) else mget m p))"
  using k
proof (induction k)
  case 0
  then show ?case using m by (auto simp: turned_def)
next
  case (Suc k)
  let ?m = "rot_ring b s k m"
  let ?P = "{(b, b + int k), (b + int k, b + s - 1), (b + s - 1, b + s - 1 - int k), (b + s - 1 - int k, b)}"
  have ks: "0 \<le> int k" "int k < s - 1" using Suc.prems by auto
  have r: "rect n n ?m" and IH: "\<And>p. inside n n p \<Longrightarrow> mget ?m p =
      (if turned b s (int k) p then mget m (quarter b s p) else mget m p)"
    using Suc by auto
  note st = rot_step_cells [OF r v ks]
  show ?case
  proof (intro conjI allI impI)
    show "rect n n (rot_ring b s (Suc k) m)" using st(1) by simp
    fix p assume p: "inside n n p"
    show "mget (rot_ring b s (Suc k) m) p =
        (if turned b s (int (Suc k)) p then mget m (quarter b s p) else mget m p)"
    proof (cases "p \<in> ?P")
      case True
      have "inside n n (quarter b s p)" using True v ks by (auto simp: inside_def quarter_def)
      then have "mget (rot_ring b s (Suc k) m) p = mget m (quarter b s p)"
        using st(2) [OF p] True IH not_turned_source [OF ks True] by simp
      moreover have "turned b s (int (Suc k)) p"
        using turned_Suc [OF ks] True by (simp add: add.commute)
      ultimately show ?thesis by simp
    next
      case False
      then have "mget (rot_ring b s (Suc k) m) p = mget ?m p"
        using st(2) [OF p] by simp
      moreover have "turned b s (int (Suc k)) p = turned b s (int k) p"
        using turned_Suc [OF ks] False by (simp add: add.commute)
      ultimately show ?thesis using IH [OF p] by simp
    qed
  qed
qed

lemma turned_all: "2 \<le> s \<Longrightarrow> turned b s (s - 1) p \<longleftrightarrow> in_view b s p \<and> \<not> in_view (b + 1) (s - 2) p"
  by (auto simp: turned_def in_view_def)

lemma quarter_inner: "quarter (b + 1) (s - 2) p = quarter b s p"
  by (simp add: quarter_def)

lemma quarter_in_view [simp]: "in_view b s (quarter b s p) \<longleftrightarrow> in_view b s p"
  by (auto simp: in_view_def quarter_def)

lemma rotate_view_cells:
  assumes "rect n n m" and "0 \<le> b" and "b + s \<le> int n"
  shows "rect n n (rotate_view b s m) \<and>
    (\<forall>p. inside n n p \<longrightarrow> mget (rotate_view b s m) p =
      (if in_view b s p then mget m (quarter b s p) else mget m p))"
  using assms
proof (induction b s m rule: rotate_view.induct)
  case (1 b s m)
  show ?case
  proof (cases "s \<le> 1")
    case True
    then have "quarter b s p = p" if "in_view b s p" for p
      using that by (cases p) (auto simp: in_view_def quarter_def)
    then show ?thesis using True 1 by (auto simp: rotate_view.simps [of b s m])
  next
    case False
    let ?m = "rot_ring b s (nat (s - 1)) m"
    have r: "rect n n ?m" and ring: "\<And>p. inside n n p \<Longrightarrow> mget ?m p =
        (if in_view b s p \<and> \<not> in_view (b + 1) (s - 2) p then mget m (quarter b s p) else mget m p)"
      using rot_ring_cells [OF "1.prems", of "nat (s - 1)"] False by (auto simp: turned_all)
    show ?thesis
    proof (cases "s = 2")
      case True
      then have "\<not> in_view (b + 1) (s - 2) p" for p by (auto simp: in_view_def)
      moreover have "rotate_view b s m = ?m"
        using True by (simp add: rotate_view.simps [of b 2 m] Let_def del: rot_ring.simps)
      ultimately show ?thesis using r ring by simp
    next
      case ne: False
      let ?f = "rotate_view (b + 1) (s - 2) ?m"
      have eq: "rotate_view b s m = ?f"
        using False ne by (simp add: rotate_view.simps [of b s m] Let_def)
      have IH: "rect n n ?f" "\<And>p. inside n n p \<Longrightarrow> mget ?f p =
          (if in_view (b + 1) (s - 2) p then mget ?m (quarter b s p) else mget ?m p)"
        using "1.IH" [OF False refl ne r] "1.prems" by (auto simp: quarter_inner)
      have inner: "in_view b s p" "inside n n (quarter b s p)"
          "in_view (b + 1) (s - 2) (quarter b s p)" if "in_view (b + 1) (s - 2) p" for p
        using that "1.prems" by (auto simp: in_view_def inside_def quarter_def)
      have "mget ?f p = (if in_view b s p then mget m (quarter b s p) else mget m p)"
        if "inside n n p" for p
        using IH(2) [OF that] ring [OF that] ring [OF inner(2)] inner by auto
      then show ?thesis using eq IH(1) by simp
    qed
  qed
qed

lemma rect_shape1: "rect h w m \<Longrightarrow> 0 < h \<Longrightarrow> shape1 m = int w"
  by (cases m) (auto simp: shape1_def rect_def)

lemma rect_shape: "rect h w m \<Longrightarrow> 0 < h \<Longrightarrow> get_shape m = (int h, int w)"
  by (simp add: get_shape_def shape0_def rect_shape1 rect_length)

lemma rotate90_right_square:
  assumes "rect n n m"
  shows "\<exists>m'. rotate90_right m = Inr m' \<and> rect n n m' \<and>
    (\<forall>i < n. \<forall>j < n. m' ! i ! j = m ! (n - 1 - j) ! i)"
proof -
  let ?m' = "rotate_view 0 (int n) m"
  have sh: "get_shape m = (int n, int n)"
    using rect_shape [OF assms] assms by (cases n) (auto simp: rect_def get_shape_def shape0_def shape1_def)
  have c: "rect n n ?m'" "\<And>p. inside n n p \<Longrightarrow> mget ?m' p = mget m (quarter 0 (int n) p)"
    using rotate_view_cells [OF assms, of 0 "int n"] by (auto simp: in_view_def inside_def)
  have "?m' ! i ! j = m ! (n - 1 - j) ! i" if "i < n" "j < n" for i j
  proof -
    have "nat (int n - 1 - int j) = n - 1 - j" using that by simp
    then show ?thesis
      using c(2) [of "(int i, int j)"] that by (simp add: inside_def mget_def quarter_def)
  qed
  then show ?thesis using sh c(1) by (simp add: rotate90_right_def Let_def)
qed


lemma rotate90_right_view:
  assumes "rect n n m"
  shows "rotate90_right m = Inr (rotate_view 0 (int n) m)"
    and "rect n n (rotate_view 0 (int n) m)"
    and "inside n n p \<Longrightarrow> mget (rotate_view 0 (int n) m) p = mget m (int n - 1 - snd p, fst p)"
proof -
  have "get_shape m = (int n, int n)"
    using rect_shape [OF assms] assms by (cases n) (auto simp: rect_def get_shape_def shape0_def shape1_def)
  then show "rotate90_right m = Inr (rotate_view 0 (int n) m)"
    by (simp add: rotate90_right_def Let_def)
  show "rect n n (rotate_view 0 (int n) m)"
    and "inside n n p \<Longrightarrow> mget (rotate_view 0 (int n) m) p = mget m (int n - 1 - snd p, fst p)"
    using rotate_view_cells [OF assms, of 0 "int n"]
    by (cases p; auto simp: in_view_def inside_def quarter_def)+
qed

end
