(* ===== verification/Tetris_Game.thy ===== *)
theory Tetris_Game
  imports Tetris_Board
begin

section \<open>The Tetris game (multi\_array\_tetris.cpp)\<close>

text \<open>
  The operations of \<open>struct Main\<close> on the state \<open>game\<close>: the board \<open>vmat_\<close>, the
  falling piece \<open>smat_\<close> at \<open>p_\<close> and the next piece \<open>pv_\<close>.  \<open>rand()\<close> and
  \<open>time(0)\<close> are the arguments \<open>rnd\<close> and \<open>now\<close> of the operations that call them.
\<close>

unbundle bit_operations_syntax

subsection \<open>Cells, collision and merge\<close>

text \<open>
  \<open>Array2dx::at\<close>: outside the board to the left, to the right and below it answers 1
  (a wall), above it 0; only inside the board is the answer a reference to a cell.
\<close>

definition at_cell :: "mat \<Rightarrow> point \<Rightarrow> bool" where
  "at_cell va a \<longleftrightarrow>
     \<not> (snd a < 0 \<or> snd a \<ge> shape1 va \<or> fst a \<ge> shape0 va) \<and> \<not> fst a < 0"

definition at :: "mat \<Rightarrow> point \<Rightarrow> cell" where
  "at va a =
     (if snd a < 0 \<or> snd a \<ge> shape1 va \<or> fst a \<ge> shape0 va then 1
      else if fst a < 0 then 0
      else mget va a)"

definition offset :: "point \<Rightarrow> nat \<Rightarrow> nat \<Rightarrow> point" where
  "offset p i j = (fst p + int i, snd p + int j)"

definition is_collision :: "mat \<Rightarrow> point \<Rightarrow> mat \<Rightarrow> bool" where
  "is_collision va bp n =
     (let s = get_shape n
      in list_ex (\<lambda>i. list_ex (\<lambda>j. n ! i ! j \<noteq> 0 \<and> at va (offset bp i j) \<noteq> 0)
           [0..<nat (snd s)]) [0..<nat (fst s)])"

text \<open>
  The assignment \<open>va.at(p) |= n(p - bp)\<close>: outside the board it writes the scratch cell
  \<open>dummy_\<close>, which \<open>at\<close> overwrites before every use.
\<close>

definition or_cell :: "point \<Rightarrow> cell \<Rightarrow> mat \<Rightarrow> mat" where
  "or_cell a v va = (if at_cell va a then mset va a (mget va a OR v) else va)"

definition or_assign :: "mat \<Rightarrow> point \<Rightarrow> mat \<Rightarrow> mat" where
  "or_assign va bp n =
     (let s = get_shape n
      in fold (\<lambda>i. fold (\<lambda>j. or_cell (offset bp i j) (n ! i ! j)) [0..<nat (snd s)])
           [0..<nat (fst s)] va)"

subsection \<open>Completed rows\<close>

definition full_row :: "cell list \<Rightarrow> bool" where
  "full_row r \<longleftrightarrow> 0 \<notin> set r"

definition clear :: "nat \<Rightarrow> mat \<Rightarrow> mat" where
  "clear row m = m[row := map (\<lambda>_. 0) (m ! row)]"

text \<open>
  \<open>collapse\<close> walks up from row \<open>rb\<close>; \<open>nc\<close> counts the rows completed so far.  The
  inner \<open>case\<close> is the early \<open>return\<close> at the first row of the window.
\<close>

fun collapse :: "nat \<Rightarrow> int \<Rightarrow> nat \<Rightarrow> mat \<Rightarrow> mat" where
  "collapse rb r0 nc m =
     (let row = m ! rb
      in case (if int rb \<ge> r0 then
                 (if full_row row then Some (nc + 1, clear rb m)
                  else if nc > 0 then Some (nc, clear rb (m[rb + nc := row]))
                  else if int rb = r0 \<and> nc = 0 then None
                  else Some (nc, m))
               else if nc > 0 then Some (nc, clear rb (m[rb + nc := row]))
               else Some (nc, m))
         of None \<Rightarrow> m
          | Some (nc', m') \<Rightarrow> (if rb > 0 then collapse (rb - 1) r0 nc' m' else m'))"

declare collapse.simps [simp del]

subsection \<open>The game\<close>

record game =
  vmat :: mat
  pos :: point
  smat :: mat
  pv :: mat
  tb :: int
  td :: int

definition const_mats :: "cell list list" where
  "const_mats =
    [[1,1,
      1,1],
     [0,1,0,
      1,1,1,
      0,0,0],
     [1,1,0,
      0,1,1,
      0,0,0],
     [0,1,1,
      1,1,0,
      0,0,0],
     [1,1,0,
      0,1,0,
      0,1,0],
     [0,1,1,
      0,1,0,
      0,1,0],
     [0,1,0,0,
      0,1,0,0,
      0,1,0,0,
      0,1,0,0]]"

text \<open>\<open>int x = ::sqrt(p.second)\<close>, truncated, and the fill of an \<open>x\<close> by \<open>x\<close> matrix.\<close>

fun isqrt :: "nat \<Rightarrow> nat" where
  "isqrt 0 = 0"
| "isqrt (Suc n) = (let r = isqrt n in if (r + 1) * (r + 1) \<le> Suc n then r + 1 else r)"

definition assign_square :: "cell list \<Rightarrow> mat" where
  "assign_square cs = (let x = isqrt (length cs) in map (\<lambda>i. take x (drop (i * x) cs)) [0..<x])"

definition pop_preview :: "nat \<Rightarrow> bool \<Rightarrow> game \<Rightarrow> game" where
  "pop_preview rnd a g =
     (let g' = (if a then g\<lparr>smat := pv g\<rparr> else g)
      in g'\<lparr>pv := assign_square (const_mats ! (rnd mod length const_mats))\<rparr>)"

definition new_game :: "nat \<Rightarrow> nat \<Rightarrow> nat \<Rightarrow> int \<Rightarrow> game \<Rightarrow> game" where
  "new_game h w rnd now g =
     (let g1 = g\<lparr>vmat := replicate h (replicate w 0)\<rparr>;
          g2 = pop_preview rnd False g1
      in g2\<lparr>tb := now\<rparr>)"

text \<open>The loop of \<open>next_round\<close>: the piece enters from above the board.\<close>

function enter :: "game \<Rightarrow> bool \<times> game" where
  "enter g =
     (if fst (pos g) \<le> 0 then
        if is_collision (vmat g) (pos g) (smat g) then
          (False, g\<lparr>vmat := or_assign (vmat g) (pos g) (smat g)\<rparr>)
        else if fst (pos g) = 0 then (True, g)
        else enter (g\<lparr>pos := (fst (pos g) + 1, snd (pos g))\<rparr>)
      else (True, g))"
  by pat_completeness auto
termination by (relation "measure (\<lambda>g. nat (1 - fst (pos g)))") auto

declare enter.simps [simp del]

definition next_round :: "nat \<Rightarrow> int \<Rightarrow> game \<Rightarrow> bool \<times> game" where
  "next_round rnd now g =
     (let g1 = pop_preview rnd True g;
          g2 = g1\<lparr>pos := (- (shape0 (smat g1) - 1),
                          cdiv (shape1 (vmat g1) - shape1 (smat g1)) 2)\<rparr>
      in case enter g2 of
           (False, g3) \<Rightarrow> (False, g3)
         | (True, g3) \<Rightarrow> (True, g3\<lparr>td := now\<rparr>))"

definition moved :: "int \<Rightarrow> point \<Rightarrow> point" where
  "moved di p = (if di = 0 then (fst p + 1, snd p)
                 else if di < 0 then (fst p, snd p - 1) else (fst p, snd p + 1))"

definition land :: "game \<Rightarrow> game" where
  "land g =
     (let va = or_assign (vmat g) (pos g) (smat g);
          sv = get_shape va; sa = get_shape (smat g)
      in g\<lparr>vmat := collapse (nat (min (fst (pos g) + fst sa) (fst sv - 1)))
                     (max 0 (fst (pos g))) 0 va\<rparr>)"

definition Move :: "int \<Rightarrow> int \<Rightarrow> game \<Rightarrow> bool \<times> game" where
  "Move di now g =
     (let tmp = moved di (pos g)
      in if is_collision (vmat g) tmp (smat g) then
           (False, if di = 0 then land g else g)
         else (True, let g' = g\<lparr>pos := tmp\<rparr> in if di = 0 then g'\<lparr>td := now\<rparr> else g'))"

definition rotate_piece :: "game \<Rightarrow> (bool \<times> game) outcome" where
  "rotate_piece g =
     bind_ok (rotate90_right (smat g)) (\<lambda>tmp.
       if is_collision (vmat g) (pos g) tmp then Inr (False, g)
       else Inr (True, g\<lparr>smat := tmp\<rparr>))"


text \<open>
  The inner loop of \<open>main\<close>, \<open>while (M.Move(0)) ;\<close>: \<open>clk k\<close> is what
  \<open>time(0)\<close> answers at the \<open>k\<close>th call.  \<open>None\<close> would be a loop that never ends.
\<close>

partial_function (option) hard_drop :: "(nat \<Rightarrow> int) \<Rightarrow> nat \<Rightarrow> game \<Rightarrow> game option" where
  "hard_drop clk k g =
     (case Move 0 (clk k) g of (moving, g') \<Rightarrow>
        if moving then hard_drop clk (Suc k) g' else Some g')"

text \<open>One pass of the loop of \<open>main\<close>; the first component is the loop's condition.\<close>

definition main_round :: "nat \<Rightarrow> int \<Rightarrow> (nat \<Rightarrow> int) \<Rightarrow> game \<Rightarrow> (bool \<times> game) option outcome" where
  "main_round rnd now clk g =
     (case next_round rnd now g of (playing, g1) \<Rightarrow>
        if \<not> playing then Inr (Some (False, g1))
        else bind_ok (rotate_piece g1) (\<lambda>(_, g2).
               Inr (map_option (Pair True) (hard_drop clk 0 g2))))"

subsection \<open>Collision and merge, cell by cell\<close>

text \<open>The cell of the piece \<open>n\<close>, placed at \<open>bp\<close>, that lies on the board point \<open>q\<close>.\<close>

definition piece_at :: "mat \<Rightarrow> point \<Rightarrow> point \<Rightarrow> cell" where
  "piece_at n bp q =
     (let i = fst q - fst bp; j = snd q - snd bp
      in if 0 \<le> i \<and> i < shape0 n \<and> 0 \<le> j \<and> j < shape1 n then n ! nat i ! nat j else 0)"

lemma at_cell_inside: "rect h w va \<Longrightarrow> 0 < h \<Longrightarrow> at_cell va a \<longleftrightarrow> inside h w a"
  by (auto simp: at_cell_def inside_def rect_shape1 shape0_def rect_length)

lemma at_nonzero:
  "rect h w va \<Longrightarrow> 0 < h \<Longrightarrow> at va a \<noteq> 0 \<longleftrightarrow>
    snd a < 0 \<or> int w \<le> snd a \<or> int h \<le> fst a \<or> inside h w a \<and> mget va a \<noteq> 0"
  by (auto simp: at_def inside_def rect_shape1 shape0_def rect_length)

lemma is_collision_iff:
  assumes "rect h' w' n" and "0 < h'"
  shows "is_collision va bp n \<longleftrightarrow>
    (\<exists>i < h'. \<exists>j < w'. n ! i ! j \<noteq> 0 \<and> at va (offset bp i j) \<noteq> 0)"
  using assms by (simp add: is_collision_def rect_shape list_ex_iff Bex_def)

definition placements :: "point \<Rightarrow> mat \<Rightarrow> nat \<Rightarrow> nat \<Rightarrow> (point \<times> cell) list" where
  "placements bp n h' w' =
     concat (map (\<lambda>i. map (\<lambda>j. (offset bp i j, n ! i ! j)) [0..<w']) [0..<h'])"

lemma fold_concat_map: "fold f (concat xss) s = fold (fold f) xss s"
  by (induction xss arbitrary: s) auto

lemma or_assign_placements:
  assumes "rect h' w' n" and "0 < h'"
  shows "or_assign va bp n = fold (\<lambda>(a, v). or_cell a v) (placements bp n h' w') va"
  using assms
  by (simp add: or_assign_def rect_shape placements_def fold_concat_map fold_map comp_def)

lemma or_cell_rect [simp]: "rect h w va \<Longrightarrow> 0 < h \<Longrightarrow> rect h w (or_cell a v va)"
  by (simp add: or_cell_def at_cell_inside)

lemma mget_or_cell:
  assumes "rect h w va" and "0 < h" and "inside h w q"
  shows "mget (or_cell a v va) q = (if q = a then mget va q OR v else mget va q)"
  using assms by (auto simp: or_cell_def at_cell_inside mget_mset [where h = h and w = w])

lemma fold_or_cell:
  assumes "rect h w va" and "0 < h" and "distinct (map fst xs)"
  shows "rect h w (fold (\<lambda>(a, v). or_cell a v) xs va) \<and>
    (\<forall>q. inside h w q \<longrightarrow> mget (fold (\<lambda>(a, v). or_cell a v) xs va) q =
      mget va q OR (case map_of xs q of None \<Rightarrow> 0 | Some v \<Rightarrow> v))"
  using assms(1,3)
proof (induction xs arbitrary: va)
  case (Cons x xs)
  obtain a v where x: "x = (a, v)" by fastforce
  have "map_of xs a = None" using Cons.prems(2) x by (simp add: map_of_eq_None_iff)
  then show ?case
    using Cons.IH [of "or_cell a v va"] Cons.prems assms(2) x
    by (auto simp: mget_or_cell [where h = h and w = w])
qed simp

lemma offset_inj [simp]: "offset bp i j = offset bp i' j' \<longleftrightarrow> i = i' \<and> j = j'"
  by (auto simp: offset_def)

lemma distinct_placements: "distinct (map fst (placements bp n h' w'))"
proof -
  have m: "map fst (placements bp n h' w') =
      concat (map (\<lambda>i. map (offset bp i) [0..<w']) [0..<h'])"
    by (simp add: placements_def map_concat comp_def)
  have "distinct (map (offset bp i) [0..<w'])" for i
    by (simp add: distinct_map inj_on_def)
  moreover have "distinct (concat (map (\<lambda>i. map (offset bp i) [0..<w']) [0..<k]))" for k
    by (induction k) (auto simp: distinct_map inj_on_def)
  ultimately show ?thesis using m by simp
qed

lemma map_of_placements:
  assumes "rect h' w' n" and "0 < h'"
  shows "(case map_of (placements bp n h' w') q of None \<Rightarrow> 0 | Some v \<Rightarrow> v) = piece_at n bp q"
proof (cases "\<exists>i < h'. \<exists>j < w'. q = offset bp i j")
  case True
  then obtain i j where ij: "i < h'" "j < w'" "q = offset bp i j" by auto
  have "(q, n ! i ! j) \<in> set (placements bp n h' w')"
    using ij by (auto simp: placements_def intro!: bexI [of _ i] image_eqI [of _ _ j])
  then have "map_of (placements bp n h' w') q = Some (n ! i ! j)"
    using distinct_placements by (simp add: map_of_eq_Some_iff)
  then show ?thesis
    using ij assms by (simp add: piece_at_def offset_def rect_shape1 shape0_def rect_length)
next
  case False
  then have "map_of (placements bp n h' w') q = None"
    by (force simp: map_of_eq_None_iff placements_def)
  moreover have "piece_at n bp q = 0"
  proof (rule ccontr)
    assume "piece_at n bp q \<noteq> 0"
    then have "0 \<le> fst q - fst bp \<and> fst q - fst bp < int h' \<and>
        0 \<le> snd q - snd bp \<and> snd q - snd bp < int w'"
      using assms by (auto simp: piece_at_def Let_def rect_shape1 shape0_def rect_length
          split: if_splits)
    then have "nat (fst q - fst bp) < h'" "nat (snd q - snd bp) < w'"
      "q = offset bp (nat (fst q - fst bp)) (nat (snd q - snd bp))"
      by (auto simp: offset_def prod_eq_iff)
    with False show False by blast
  qed
  ultimately show ?thesis by simp
qed

lemma or_assign_cells:
  assumes "rect h w va" and "0 < h" and "rect h' w' n" and "0 < h'"
  shows "rect h w (or_assign va bp n)"
    and "inside h w q \<Longrightarrow> mget (or_assign va bp n) q = mget va q OR piece_at n bp q"
proof -
  note f = fold_or_cell [OF assms(1,2) distinct_placements, of bp n h' w']
  show "rect h w (or_assign va bp n)"
    using f by (simp add: or_assign_placements [OF assms(3,4)])
  show "inside h w q \<Longrightarrow> mget (or_assign va bp n) q = mget va q OR piece_at n bp q"
    using f [THEN conjunct2, rule_format, of q]
    by (simp add: or_assign_placements [OF assms(3,4)] map_of_placements [OF assms(3,4)])
qed

subsection \<open>Counting filled cells\<close>

definition filled :: "mat \<Rightarrow> nat" where
  "filled m = sum_list (map (\<lambda>r. length (filter (\<lambda>c. c \<noteq> 0) r)) m)"

definition cells_of :: "nat \<Rightarrow> nat \<Rightarrow> mat \<Rightarrow> point set" where
  "cells_of h w m = {p. inside h w p \<and> mget m p \<noteq> 0}"

lemma cells_of_finite [simp]: "finite (cells_of h w m)"
proof -
  have "cells_of h w m \<subseteq> {0..<int h} \<times> {0..<int w}"
    by (auto simp: cells_of_def inside_def)
  then show ?thesis by (rule finite_subset) simp
qed

lemma filled_card:
  assumes "rect h w m"
  shows "filled m = card (cells_of h w m)"
proof -
  let ?S = "Sigma {0..<h} (\<lambda>i. {j. j < w \<and> m ! i ! j \<noteq> 0})"
  have "filled m = (\<Sum>i = 0..<h. card {j. j < w \<and> m ! i ! j \<noteq> 0})"
    using assms
    by (simp add: filled_def sum_list_sum_nth length_filter_conv_card rect_length)
  also have "\<dots> = card ?S" by simp
  also have "\<dots> = card (cells_of h w m)"
  proof (rule bij_betw_same_card [of "\<lambda>(i, j). (int i, int j)"])
    show "bij_betw (\<lambda>(i, j). (int i, int j)) ?S (cells_of h w m)"
      by (rule bij_betw_byWitness [where f' = "\<lambda>(i, j). (nat i, nat j)"])
        (auto simp: cells_of_def inside_def mget_def)
  qed
  finally show ?thesis .
qed

lemma piece_cells_card:
  assumes n: "rect h' w' n" "0 < h'"
    and all_in: "\<And>i j. i < h' \<Longrightarrow> j < w' \<Longrightarrow> n ! i ! j \<noteq> 0 \<Longrightarrow> inside h w (offset bp i j)"
  shows "card {q. inside h w q \<and> piece_at n bp q \<noteq> 0} = filled n"
proof -
  have "bij_betw (\<lambda>p. (fst p + fst bp, snd p + snd bp)) (cells_of h' w' n)
      {q. inside h w q \<and> piece_at n bp q \<noteq> 0}"
  proof (rule bij_betw_byWitness [where f' = "\<lambda>q. (fst q - fst bp, snd q - snd bp)"])
    show "(\<lambda>p. (fst p + fst bp, snd p + snd bp)) ` cells_of h' w' n
        \<subseteq> {q. inside h w q \<and> piece_at n bp q \<noteq> 0}"
    proof clarify
      fix x y assume "(x, y) \<in> cells_of h' w' n"
      then have xy: "inside h' w' (x, y)" "n ! nat x ! nat y \<noteq> 0"
        by (auto simp: cells_of_def mget_def)
      then have "inside h w (offset bp (nat x) (nat y))"
        using all_in [of "nat x" "nat y"] by (auto simp: inside_def)
      then show "inside h w (fst (x, y) + fst bp, snd (x, y) + snd bp) \<and>
          piece_at n bp (fst (x, y) + fst bp, snd (x, y) + snd bp) \<noteq> 0"
        using xy n by (auto simp: inside_def offset_def piece_at_def rect_shape1 shape0_def
            rect_length add.commute)
    qed
    show "(\<lambda>q. (fst q - fst bp, snd q - snd bp)) ` {q. inside h w q \<and> piece_at n bp q \<noteq> 0}
        \<subseteq> cells_of h' w' n"
      using n by (auto simp: cells_of_def inside_def mget_def piece_at_def Let_def rect_shape1
          shape0_def rect_length split: if_splits)
  qed auto
  then show ?thesis using filled_card [OF n(1)] by (simp add: bij_betw_same_card)
qed

lemma filled_or_assign:
  assumes va: "rect h w va" "0 < h" and n: "rect h' w' n" "0 < h'"
    and free: "\<not> is_collision va bp n" and low: "0 \<le> fst bp"
  shows "filled (or_assign va bp n) = filled va + filled n"
proof -
  let ?P = "{q. inside h w q \<and> piece_at n bp q \<noteq> 0}"
  have no_at: "at va (offset bp i j) = 0" if "i < h'" "j < w'" "n ! i ! j \<noteq> 0" for i j
    using free that is_collision_iff [OF n] by auto
  have ins: "inside h w (offset bp i j)" if "i < h'" "j < w'" "n ! i ! j \<noteq> 0" for i j
    using no_at [OF that] at_nonzero [OF va, of "offset bp i j"] low
    by (auto simp: inside_def offset_def)
  have disj: "cells_of h w va \<inter> ?P = {}"
  proof -
    have False if q: "inside h w q" "mget va q \<noteq> 0" "piece_at n bp q \<noteq> 0" for q
    proof -
      let ?i = "nat (fst q - fst bp)" and ?j = "nat (snd q - snd bp)"
      have "?i < h'" "?j < w'" "n ! ?i ! ?j \<noteq> 0" "offset bp ?i ?j = q"
        using q(3) n by (auto simp: piece_at_def Let_def offset_def rect_shape1 shape0_def
            rect_length prod_eq_iff split: if_splits)
      with no_at [of ?i ?j] q at_nonzero [OF va, of q] show False by auto
    qed
    then show ?thesis by (auto simp: cells_of_def)
  qed
  have "mget (or_assign va bp n) q \<noteq> 0 \<longleftrightarrow> mget va q \<noteq> 0 \<or> piece_at n bp q \<noteq> 0"
    if "inside h w q" for q
    by (simp add: or_assign_cells(2) [OF va n that] or_eq_0_iff)
  then have "cells_of h w (or_assign va bp n) = cells_of h w va \<union> ?P"
    by (auto simp: cells_of_def)
  moreover have "finite ?P"
    using cells_of_finite [of h w "or_assign va bp n"] calculation by (metis finite_Un)
  ultimately have "card (cells_of h w (or_assign va bp n)) = card (cells_of h w va) + card ?P"
    using disj by (simp add: card_Un_disjoint)
  then show ?thesis
    using filled_card [OF va(1)] filled_card [OF or_assign_cells(1) [OF va n]]
      piece_cells_card [OF n ins] by simp
qed

end
