(* ===== verification/Tetris_Rules.thy ===== *)
theory Tetris_Rules
  imports Tetris_Game
begin

section \<open>The rules the Tetris game keeps\<close>

text \<open>
  What \<open>collapse\<close>, \<open>Move\<close>, \<open>rotate\<close> and \<open>next_round\<close> of
  \<open>multi_array_tetris.cpp\<close> guarantee: completed rows vanish and the rest keeps its order,
  no cell is lost or invented, and the falling piece never overlaps the board.
\<close>

subsection \<open>collapse removes exactly the completed rows of its window\<close>

definition kept :: "int \<Rightarrow> mat \<Rightarrow> mat" where
  "kept r0 rows = take (nat r0) rows @ filter (\<lambda>r. \<not> full_row r) (drop (nat r0) rows)"

definition dropped :: "int \<Rightarrow> mat \<Rightarrow> nat" where
  "dropped r0 rows = length (filter full_row (drop (nat r0) rows))"

lemma kept_snoc:
  "kept r0 (A @ [r]) = (if int (length A) < r0 then A @ [r]
     else kept r0 A @ (if full_row r then [] else [r]))"
  by (auto simp: kept_def)

lemma dropped_snoc:
  "dropped r0 (A @ [r]) = dropped r0 A + (if int (length A) < r0 \<or> \<not> full_row r then 0 else 1)"
  by (cases "nat r0 - length A") (auto simp: dropped_def)

lemma kept_below: "int (length A) \<le> r0 \<Longrightarrow> kept r0 A = A" "int (length A) \<le> r0 \<Longrightarrow> dropped r0 A = 0"
  by (simp_all add: kept_def dropped_def)

lemma length_kept: "length (kept r0 rows) + dropped r0 rows = length rows"
proof -
  have "length (filter (\<lambda>r. \<not> full_row r) xs) + length (filter full_row xs) = length xs" for xs
    using sum_length_filter_compl [of full_row xs] by simp
  from this [of "drop (nat r0) rows"] show ?thesis by (simp add: kept_def dropped_def)
qed

lemma clear_at:
  "length A = rb \<Longrightarrow> length row = w \<Longrightarrow> clear rb (A @ row # R) = A @ replicate w 0 # R"
  by (auto simp: clear_def nth_append map_replicate_const)

lemma shift_at:
  assumes "length A = rb" and "length row = w" and "0 < nc"
  shows "clear rb ((A @ row # replicate nc (replicate w 0) @ B)[rb + nc := row]) =
    A @ replicate nc (replicate w 0) @ row # B"
proof -
  obtain k where nc: "nc = Suc k" using assms(3) by (cases nc) auto
  let ?z = "replicate w (0 :: cell)"
  have e: "A @ row # replicate nc ?z @ B = (A @ row # replicate k ?z) @ ?z # B"
    and i: "rb + nc = length (A @ row # replicate k ?z)"
    using nc assms(1) by (simp_all add: replicate_app_Cons_same)
  have "(A @ row # replicate nc ?z @ B)[rb + nc := row] = A @ row # replicate k ?z @ row # B"
    by (simp only: e i list_update_length) simp
  then show ?thesis using assms nc by (simp add: clear_at replicate_app_Cons_same)
qed

lemma collapse_rows:
  assumes "length A = rb" and "\<forall>r \<in> set (A @ [row]). length r = w" and "0 \<le> r0"
  shows "collapse rb r0 nc (A @ row # replicate nc (replicate w 0) @ B) =
    replicate (nc + dropped r0 (A @ [row])) (replicate w 0) @ kept r0 (A @ [row]) @ B"
  using assms(1,2)
proof (induction rb arbitrary: A row nc B)
  case 0
  then show ?case
    using assms(3) shift_at [of "[]" 0 row w nc B] clear_at [of "[]" 0 row w]
    by (auto simp: collapse.simps [of 0] kept_def dropped_def)
next
  case (Suc rb)
  let ?z = "replicate w (0 :: cell)"
  let ?m = "A @ row # replicate nc ?z @ B"
  have row: "?m ! Suc rb = row" using Suc.prems(1) by (simp add: nth_append)
  obtain A' row' where A: "A = A' @ [row']" "length A' = rb"
    using Suc.prems(1) by (cases A rule: rev_cases) auto
  have next_row: "collapse rb r0 nc' (A @ replicate nc' ?z @ B') =
      replicate (nc' + dropped r0 A) ?z @ kept r0 A @ B'" for nc' B'
    using Suc.IH [of A' row' nc' B'] Suc.prems A by simp
  have c: "clear (Suc rb) ?m = A @ replicate (Suc nc) ?z @ B"
    using clear_at [of A "Suc rb" row w "replicate nc ?z @ B"] Suc.prems by simp
  have sh: "0 < nc \<Longrightarrow> clear (Suc rb) (?m[Suc rb + nc := row]) = A @ replicate nc ?z @ row # B"
    using shift_at [of A "Suc rb" row w nc B] Suc.prems by simp
  consider (full) "r0 \<le> int (Suc rb)" "full_row row"
    | (keep) "\<not> (r0 \<le> int (Suc rb) \<and> full_row row)" "0 < nc"
    | (stop) "int (Suc rb) = r0" "\<not> full_row row" "nc = 0"
    | (skip) "\<not> (r0 \<le> int (Suc rb) \<and> full_row row)" "nc = 0" "int (Suc rb) \<noteq> r0"
    by (cases "full_row row"; cases "nc = 0"; cases "r0 \<le> int (Suc rb)") auto
  then show ?case
  proof cases
    case full
    then show ?thesis
      using next_row [of "Suc nc" B] c Suc.prems
      by (simp add: collapse.simps [of "Suc rb"] row kept_snoc dropped_snoc)
  next
    case keep
    have "collapse (Suc rb) r0 nc ?m = collapse rb r0 nc (A @ replicate nc ?z @ row # B)"
      using keep sh by (auto simp: collapse.simps [of "Suc rb"] row)
    then show ?thesis
      using next_row [of nc "row # B"] keep Suc.prems
      by (auto simp: kept_snoc dropped_snoc kept_below)
  next
    case stop
    then have "collapse (Suc rb) r0 nc ?m = ?m"
      using row by (simp add: collapse.simps [of "Suc rb"] Let_def)
    then show ?thesis
      using stop Suc.prems by (simp add: kept_snoc dropped_snoc kept_below)
  next
    case skip
    have "collapse (Suc rb) r0 nc ?m = collapse rb r0 0 (A @ row # B)"
      using skip row by (auto simp: collapse.simps [of "Suc rb"] Let_def)
    then show ?thesis
      using next_row [of 0 "row # B"] skip Suc.prems
      by (auto simp: kept_snoc dropped_snoc kept_below)
  qed
qed

text \<open>The whole board: the window is the rows \<open>r0\<close> to \<open>rb\<close>.\<close>

lemma collapse_board:
  assumes "rect h w m" and "rb < h" and "0 \<le> r0"
  shows "collapse rb r0 0 m =
    replicate (dropped r0 (take (Suc rb) m)) (replicate w 0)
      @ kept r0 (take (Suc rb) m) @ drop (Suc rb) m"
proof -
  have m: "take rb m @ m ! rb # drop (Suc rb) m = m"
    and t: "take (Suc rb) m = take rb m @ [m ! rb]"
    using assms by (simp_all add: rect_def id_take_nth_drop [symmetric] take_Suc_conv_app_nth)
  have "\<forall>r \<in> set (take rb m @ [m ! rb]). length r = w"
    using assms by (auto simp: rect_def dest: in_set_takeD)
  from collapse_rows [OF _ this assms(3), of rb 0 "drop (Suc rb) m"] show ?thesis
    using assms m t by (simp add: rect_def)
qed

lemma collapse_rect:
  assumes "rect h w m" and "rb < h" and "0 \<le> r0"
  shows "rect h w (collapse rb r0 0 m)"
proof -
  have "length (kept r0 (take (Suc rb) m)) + dropped r0 (take (Suc rb) m) = Suc rb"
    using length_kept [of r0 "take (Suc rb) m"] assms by (simp add: rect_def)
  moreover have "set (kept r0 (take (Suc rb) m)) \<subseteq> set m"
    by (auto simp: kept_def dest: in_set_takeD in_set_dropD)
  ultimately show ?thesis
    unfolding collapse_board [OF assms] using assms by (auto simp: rect_def dest: in_set_dropD)
qed

lemma filled_append [simp]: "filled (a @ b) = filled a + filled b"
  by (simp add: filled_def)

lemma filled_zero_rows [simp]: "filled (replicate k (replicate w 0)) = 0"
  by (simp add: filled_def)

lemma full_row_count: "full_row r \<Longrightarrow> length (filter (\<lambda>c. c \<noteq> 0) r) = length r"
  by (subst filter_True) (auto simp: full_row_def)

lemma filled_filter_full:
  "\<forall>r \<in> set rows. length r = w \<Longrightarrow>
   filled (filter (\<lambda>r. \<not> full_row r) rows) + w * length (filter full_row rows) = filled rows"
  by (induction rows) (auto simp: filled_def full_row_count)

lemma collapse_filled:
  assumes "rect h w m" and "rb < h" and "0 \<le> r0"
  shows "filled (collapse rb r0 0 m) + w * dropped r0 (take (Suc rb) m) = filled m"
proof -
  let ?t = "take (Suc rb) m" and ?k = "nat r0"
  have "\<forall>r \<in> set (drop ?k ?t). length r = w"
    using assms by (auto simp: rect_def dest: in_set_takeD in_set_dropD)
  note f = filled_filter_full [OF this]
  have "filled m = filled (take ?k ?t) + filled (drop ?k ?t) + filled (drop (Suc rb) m)"
    by (metis append_take_drop_id filled_append)
  then show ?thesis
    using f assms by (simp add: collapse_board kept_def dropped_def)
qed


subsection \<open>The state of a running game\<close>

definition no_full :: "mat \<Rightarrow> bool" where
  "no_full m \<longleftrightarrow> (\<forall>r \<in> set m. \<not> full_row r)"

definition piece_ok :: "mat \<Rightarrow> bool" where
  "piece_ok n \<longleftrightarrow> rect (length n) (length n) n \<and> filled n = 4"

definition game_ok :: "nat \<Rightarrow> nat \<Rightarrow> game \<Rightarrow> bool" where
  "game_ok h w g \<longleftrightarrow> 0 < h \<and> 0 < w \<and> rect h w (vmat g) \<and> no_full (vmat g)
     \<and> piece_ok (smat g) \<and> piece_ok (pv g)"

definition board_ok :: "nat \<Rightarrow> nat \<Rightarrow> game \<Rightarrow> bool" where
  "board_ok h w g \<longleftrightarrow> 0 < h \<and> 0 < w \<and> rect h w (vmat g) \<and> no_full (vmat g) \<and> piece_ok (pv g)"

text \<open>The piece does not overlap the board, and its first row is on the board.\<close>

definition falling :: "game \<Rightarrow> bool" where
  "falling g \<longleftrightarrow> \<not> is_collision (vmat g) (pos g) (smat g) \<and> 0 \<le> fst (pos g)"

lemma game_ok_board: "game_ok h w g \<Longrightarrow> board_ok h w g"
  by (simp add: game_ok_def board_ok_def)

lemma piece_ok_shape:
  assumes "piece_ok n"
  shows "rect (length n) (length n) n" and "0 < length n" and "filled n = 4"
  using assms by (cases n; auto simp: piece_ok_def filled_def)+

subsection \<open>Landing\<close>

lemma or_assign_row:
  assumes va: "rect h w va" "0 < h" and n: "rect h' w' n" "0 < h'"
    and i: "i < h" "int i < fst bp \<or> fst bp + int h' \<le> int i"
  shows "or_assign va bp n ! i = va ! i"
proof (rule nth_equalityI)
  note c = or_assign_cells [OF va n, where bp = bp]
  show l: "length (or_assign va bp n ! i) = length (va ! i)" using c(1) va i by simp
  fix j assume "j < length (or_assign va bp n ! i)"
  then have j: "inside h w (int i, int j)" using l va i by (simp add: inside_def)
  moreover have "piece_at n bp (int i, int j) = 0"
    using i n by (auto simp: piece_at_def shape0_def rect_length)
  ultimately show "or_assign va bp n ! i ! j = va ! i ! j"
    using c(2) [where q = "(int i, int j)"] by (simp add: mget_def)
qed

lemma no_full_collapse:
  assumes m: "rect h w m" "0 < w" "rb < h" and r0: "0 \<le> r0"
    and out: "\<And>i. i < h \<Longrightarrow> int i < r0 \<or> rb < i \<Longrightarrow> \<not> full_row (m ! i)"
  shows "no_full (collapse rb r0 0 m)"
proof -
  have z: "\<not> full_row (replicate w 0)" using m(2) by (simp add: full_row_def)
  have "\<not> full_row r" if "r \<in> set (take (nat r0) (take (Suc rb) m))" for r
    using that m r0 out by (auto simp: in_set_conv_nth rect_def)
  moreover have "\<not> full_row r" if "r \<in> set (drop (Suc rb) m)" for r
    using that m out by (auto simp: in_set_conv_nth rect_def)
  ultimately show ?thesis
    using z by (auto simp: no_full_def collapse_board [OF m(1,3) r0] kept_def)
qed

definition completed :: "game \<Rightarrow> nat" where
  "completed g =
     (let va = or_assign (vmat g) (pos g) (smat g) in length (filter full_row va))"

lemma land_board:
  assumes g: "game_ok h w g" and f: "falling g"
  shows "board_ok h w (land g)"
    and "filled (vmat (land g)) + w * completed g = filled (vmat g) + filled (smat g)"
proof -
  let ?n = "smat g" and ?va = "or_assign (vmat g) (pos g) (smat g)" and ?p = "fst (pos g)"
  have va: "rect h w (vmat g)" "0 < h" "0 < w" "no_full (vmat g)"
    and n: "rect (length ?n) (length ?n) ?n" "0 < length ?n"
    using g piece_ok_shape by (auto simp: game_ok_def)
  let ?rb = "nat (min (?p + int (length ?n)) (int h - 1))" and ?r0 = "max 0 ?p"
  have p: "0 \<le> ?p" and free: "\<not> is_collision (vmat g) (pos g) ?n"
    using f by (auto simp: falling_def)
  have r: "rect h w ?va" using or_assign_cells(1) va n by blast
  have eq: "vmat (land g) = collapse ?rb ?r0 0 ?va"
    using rect_shape [OF r va(2)] rect_shape [OF n] by (simp add: land_def Let_def)
  have rb: "?rb < h" using va(2) p by auto
  have out: "\<not> full_row (?va ! i)" if "i < h" "int i < ?r0 \<or> ?rb < i" for i
  proof -
    have "?va ! i = vmat g ! i"
      using that p by (intro or_assign_row [OF va(1,2) n]) auto
    moreover have "vmat g ! i \<in> set (vmat g)" using va that by (simp add: rect_def)
    ultimately show ?thesis using va by (simp add: no_full_def)
  qed
  show "board_ok h w (land g)"
    using g no_full_collapse [OF r va(3) rb _ out] collapse_rect [OF r rb] eq
    by (simp add: board_ok_def game_ok_def land_def Let_def)
  have "filter full_row ?va = filter full_row (drop (nat ?r0) (take (Suc ?rb) ?va))"
  proof -
    have parts: "?va = take (nat ?r0) (take (Suc ?rb) ?va) @
        drop (nat ?r0) (take (Suc ?rb) ?va) @ drop (Suc ?rb) ?va"
      by (metis append.assoc append_take_drop_id)
    have "filter full_row (take (nat ?r0) (take (Suc ?rb) ?va)) = []"
      "filter full_row (drop (Suc ?rb) ?va) = []"
      using out r by (auto simp: filter_empty_conv in_set_conv_nth rect_def)
    then show ?thesis by (subst parts) (simp only: filter_append append_Nil append_Nil2)
  qed
  then have "completed g = dropped ?r0 (take (Suc ?rb) ?va)"
    by (simp add: completed_def dropped_def)
  then show "filled (vmat (land g)) + w * completed g = filled (vmat g) + filled (smat g)"
    using collapse_filled [OF r rb, of ?r0] filled_or_assign [OF va(1,2) n free p] eq by simp
qed

subsection \<open>Moves and turns\<close>

lemma Move_accepts:
  assumes "Move di now g = (True, g')"
  shows "\<not> is_collision (vmat g') (pos g') (smat g') \<and> pos g' = moved di (pos g) \<and>
    vmat g' = vmat g \<and> smat g' = smat g \<and> pv g' = pv g"
  using assms by (auto simp: Move_def Let_def split: if_splits)

lemma Move_falling:
  assumes "game_ok h w g" and "falling g" and "Move di now g = (True, g')"
  shows "game_ok h w g' \<and> falling g'"
  using Move_accepts [OF assms(3)] assms(1,2)
  by (auto simp: game_ok_def falling_def moved_def)

lemma Move_sideways_rejected:
  "di \<noteq> 0 \<Longrightarrow> Move di now g = (False, g') \<Longrightarrow> g' = g"
  by (auto simp: Move_def Let_def split: if_splits)

lemma filled_rotate:
  assumes "rect n n m"
  shows "filled (rotate_view 0 (int n) m) = filled m"
proof -
  note v = rotate90_right_view [OF assms]
  have "bij_betw (\<lambda>p. (int n - 1 - snd p, fst p)) (cells_of n n (rotate_view 0 (int n) m)) (cells_of n n m)"
  proof (rule bij_betw_byWitness [where f' = "\<lambda>p. (snd p, int n - 1 - fst p)"])
    show "(\<lambda>p. (int n - 1 - snd p, fst p)) ` cells_of n n (rotate_view 0 (int n) m) \<subseteq> cells_of n n m"
      using v(3) by (auto simp: cells_of_def) (auto simp: inside_def)
    show "(\<lambda>p. (snd p, int n - 1 - fst p)) ` cells_of n n m \<subseteq> cells_of n n (rotate_view 0 (int n) m)"
      using v(3) by (auto simp: cells_of_def inside_def)
  qed auto
  then show ?thesis
    using filled_card [OF assms] filled_card [OF v(2)] by (simp add: bij_betw_same_card)
qed

lemma rotate_piece_cases:
  assumes "game_ok h w g"
  shows "\<exists>b g'. rotate_piece g = Inr (b, g') \<and> game_ok h w g' \<and>
    (falling g \<longrightarrow> falling g') \<and> vmat g' = vmat g \<and> pos g' = pos g \<and> (\<not> b \<longrightarrow> g' = g)"
proof -
  let ?n = "length (smat g)"
  have s: "rect ?n ?n (smat g)" "filled (smat g) = 4"
    using assms piece_ok_shape by (auto simp: game_ok_def)
  note v = rotate90_right_view [OF s(1)]
  have "piece_ok (rotate_view 0 (int ?n) (smat g))"
    using v(2) filled_rotate [OF s(1)] s(2) by (simp add: piece_ok_def rect_length [OF v(2)])
  then show ?thesis
    using assms v(1) by (auto simp: rotate_piece_def game_ok_def falling_def)
qed


subsection \<open>Rounds\<close>

lemma preview_pieces: "piece_ok (assign_square (const_mats ! (rnd mod length const_mats)))"
proof -
  have "\<forall>c \<in> set const_mats. piece_ok (assign_square c)"
    by (simp add: const_mats_def assign_square_def piece_ok_def rect_def filled_def
        numeral_eq_Suc upt_rec)
  moreover have "rnd mod length const_mats < length const_mats"
    by (simp add: const_mats_def)
  ultimately show ?thesis by simp
qed

lemma new_game_board: "0 < h \<Longrightarrow> 0 < w \<Longrightarrow> board_ok h w (new_game h w rnd now g)"
  by (simp add: board_ok_def new_game_def pop_preview_def Let_def preview_pieces rect_def
      no_full_def full_row_def)

lemma enter_cases:
  assumes "fst (pos g) \<le> 0"
  shows "case enter g of (b, g') \<Rightarrow>
    smat g' = smat g \<and> pv g' = pv g \<and>
    (if b then vmat g' = vmat g \<and> fst (pos g') = 0 \<and> \<not> is_collision (vmat g) (pos g') (smat g)
     else is_collision (vmat g) (pos g') (smat g) \<and> vmat g' = or_assign (vmat g) (pos g') (smat g))"
  using assms
proof (induction g rule: enter.induct)
  case (1 g)
  let ?g1 = "g\<lparr>pos := (fst (pos g) + 1, snd (pos g))\<rparr>"
  show ?case
  proof (cases "is_collision (vmat g) (pos g) (smat g) \<or> fst (pos g) = 0")
    case True
    then show ?thesis using "1.prems" by (auto simp: enter.simps [of g])
  next
    case False
    then have "enter g = enter ?g1" using "1.prems" by (auto simp: enter.simps [of g])
    moreover have "fst (pos ?g1) \<le> 0" using False "1.prems" by simp
    moreover obtain b g' where "enter ?g1 = (b, g')" by fastforce
    ultimately show ?thesis
      using "1.IH" False "1.prems" by (auto split: if_splits)
  qed
qed

lemma next_round_cases:
  assumes g: "board_ok h w g" and r: "next_round rnd now g = (b, g')"
  shows "smat g' = pv g \<and> piece_ok (pv g') \<and>
    (if b then game_ok h w g' \<and> falling g' \<and> vmat g' = vmat g
     else is_collision (vmat g) (pos g') (smat g') \<and> vmat g' = or_assign (vmat g) (pos g') (smat g'))"
proof -
  let ?g1 = "pop_preview rnd True g"
  let ?g2 = "?g1\<lparr>pos := (- (shape0 (smat ?g1) - 1),
      cdiv (shape1 (vmat ?g1) - shape1 (smat ?g1)) 2)\<rparr>"
  have g1: "smat ?g1 = pv g" "vmat ?g1 = vmat g" "piece_ok (pv ?g1)"
    by (simp_all add: pop_preview_def Let_def preview_pieces)
  have "0 < length (pv g)" using g piece_ok_shape by (simp add: board_ok_def)
  then have "fst (pos ?g2) \<le> 0" using g1 by (simp add: shape0_def Suc_le_eq)
  note e = enter_cases [OF this]
  obtain b3 g3 where e3: "enter ?g2 = (b3, g3)" by fastforce
  then have "b = b3" "g' = (if b3 then g3\<lparr>td := now\<rparr> else g3)"
    using r by (auto simp: next_round_def Let_def split: bool.splits)
  then show ?thesis
    using e e3 g1 g by (auto simp: game_ok_def board_ok_def falling_def)
qed

lemma falling_on_board:
  assumes "game_ok h w g" and "falling g"
  shows "fst (pos g) < int h"
proof -
  let ?n = "smat g"
  have va: "rect h w (vmat g)" "0 < h"
    and n: "rect (length ?n) (length ?n) ?n" "0 < length ?n" "filled ?n = 4"
    using assms piece_ok_shape by (auto simp: game_ok_def)
  have "cells_of (length ?n) (length ?n) ?n \<noteq> {}"
    using filled_card [OF n(1)] n(3) by auto
  then obtain i j where ij: "i < length ?n" "j < length ?n" "?n ! i ! j \<noteq> 0"
    by (fastforce simp: cells_of_def inside_def mget_def nat_less_iff)
  then have "at (vmat g) (offset (pos g) i j) = 0"
    using assms(2) is_collision_iff [OF n(1,2)] by (auto simp: falling_def)
  then show ?thesis
    using at_nonzero [OF va, of "offset (pos g) i j"] by (auto simp: offset_def)
qed

lemma hard_drop_lands:
  assumes "game_ok h w g" and "falling g"
  shows "\<exists>g' c. hard_drop clk k g = Some g' \<and> board_ok h w g' \<and>
    filled (vmat g') + w * c = filled (vmat g) + 4"
  using assms
proof (induction "nat (int h - fst (pos g))" arbitrary: g k rule: less_induct)
  case less
  obtain b g1 where m: "Move 0 (clk k) g = (b, g1)" by fastforce
  show ?case
  proof (cases b)
    case True
    then have m1: "Move 0 (clk k) g = (True, g1)" using m by simp
    note a = Move_accepts [OF m1] Move_falling [OF less.prems m1]
    have "nat (int h - fst (pos g1)) < nat (int h - fst (pos g))"
      using a falling_on_board [OF less.prems] by (simp add: moved_def)
    from less.hyps [OF this] a obtain g' c where
      "hard_drop clk (Suc k) g1 = Some g'" "board_ok h w g'"
      "filled (vmat g') + w * c = filled (vmat g) + 4" by fastforce
    then show ?thesis using m1 by (subst hard_drop.simps) auto
  next
    case False
    then have "g1 = land g" using m by (auto simp: Move_def Let_def split: if_splits)
    moreover have "filled (smat g) = 4" using less.prems piece_ok_shape by (auto simp: game_ok_def)
    ultimately show ?thesis
      using land_board [OF less.prems] m False by (subst hard_drop.simps) auto
  qed
qed

lemma main_round_cases:
  assumes "board_ok h w g"
  shows "\<exists>b g'. main_round rnd now clk g = Inr (Some (b, g')) \<and>
    (b \<longrightarrow> board_ok h w g' \<and> (\<exists>c. filled (vmat g') + w * c = filled (vmat g) + 4))"
proof -
  obtain b g1 where r: "next_round rnd now g = (b, g1)" by fastforce
  note n = next_round_cases [OF assms r]
  show ?thesis
  proof (cases b)
    case False
    then show ?thesis using r by (auto simp: main_round_def)
  next
    case True
    then have g1: "game_ok h w g1" "falling g1" "vmat g1 = vmat g" using n by auto
    from rotate_piece_cases [OF g1(1)] obtain b2 g2 where
      r2: "rotate_piece g1 = Inr (b2, g2)" "game_ok h w g2" "falling g2" "vmat g2 = vmat g"
      using g1 by auto
    from hard_drop_lands [OF r2(2,3), of clk 0] obtain g' c where
      "hard_drop clk 0 g2 = Some g'" "board_ok h w g'"
      "filled (vmat g') + w * c = filled (vmat g) + 4"
      using r2(4) by auto
    then show ?thesis using r True r2(1) by (auto simp: main_round_def)
  qed
qed


subsection \<open>Properties of the game\<close>

text \<open>
  C26: \<open>rotate90_right\<close> is a quarter turn to the right: on an \<open>n\<close> by \<open>n\<close> matrix its
  in-place swaps, ring after ring, never fail and put at row \<open>i\<close>, column \<open>j\<close> the cell
  that was at row \<open>n-1-j\<close>, column \<open>i\<close>.
\<close>

theorem rotate90_right_quarter_turn:
  assumes "rect n n m"
  shows "\<exists>m'. rotate90_right m = Inr m' \<and> rect n n m' \<and>
    (\<forall>i < n. \<forall>j < n. m' ! i ! j = m ! (n - 1 - j) ! i)"
  using assms by (rule rotate90_right_square)

theorem rotate90_right_quarter_turn_witness:
  "\<exists>m'. rotate90_right [[1, 2, 3], [4, 5, 6], [7, 8, 9]] = Inr m' \<and> rect 3 3 m' \<and>
    (\<forall>i < 3. \<forall>j < 3. m' ! i ! j = [[1, 2, 3], [4, 5, 6], [7, 8, 9]] ! (3 - 1 - j) ! i)"
  by (rule rotate90_right_quarter_turn) (simp add: rect_def)

text \<open>
  four turns of a square piece give the piece back.
\<close>

theorem rotate90_right_four_times:
  assumes "rect n n m"
  shows "bind_ok (bind_ok (bind_ok (rotate90_right m) rotate90_right) rotate90_right)
    rotate90_right = Inr m"
proof -
  let ?r = "rotate_view 0 (int n)"
  note v1 = rotate90_right_view [OF assms]
  note v2 = rotate90_right_view [OF v1(2)]
  note v3 = rotate90_right_view [OF v2(2)]
  note v4 = rotate90_right_view [OF v3(2)]
  have "?r (?r (?r (?r m))) = m"
  proof (rule mat_eqI [OF v4(2) assms])
    fix p assume p: "inside n n p"
    define q where "q = (\<lambda>p :: point. (int n - 1 - snd p, fst p))"
    have q: "inside n n (q p)" "inside n n (q (q p))" "inside n n (q (q (q p)))"
      using p by (auto simp: inside_def q_def)
    have "mget (?r (?r (?r (?r m)))) p = mget m (q (q (q (q p))))"
      using v4(3) [OF p] v3(3) [OF q(1)] v2(3) [OF q(2)] v1(3) [OF q(3)] by (simp add: q_def)
    then show "mget (?r (?r (?r (?r m)))) p = mget m p" by (simp add: q_def)
  qed
  then show ?thesis using v1(1) v2(1) v3(1) v4(1) by simp
qed

theorem rotate90_right_four_times_witness:
  "bind_ok (bind_ok (bind_ok (rotate90_right [[1, 1], [0, 1]]) rotate90_right) rotate90_right)
    rotate90_right = Inr [[1, 1], [0, 1]]"
  by (rule rotate90_right_four_times [where n = 2]) (simp add: rect_def)

text \<open>
  C35: \<open>collapse(rb, r0)\<close> deletes exactly the completed rows between \<open>r0\<close> and \<open>rb\<close>,
  keeps every other row in its order, lets the rows above sink and fills up with as many
  empty rows at the top; the number of filled cells drops by the width for each deleted row.
\<close>

theorem collapse_deletes_completed_rows:
  assumes "rect h w m" and "rb < h" and "0 \<le> r0"
  shows "collapse rb r0 0 m =
      replicate (dropped r0 (take (Suc rb) m)) (replicate w 0)
        @ kept r0 (take (Suc rb) m) @ drop (Suc rb) m \<and>
    filled (collapse rb r0 0 m) + w * dropped r0 (take (Suc rb) m) = filled m"
  using collapse_board [OF assms] collapse_filled [OF assms] by simp

theorem collapse_deletes_completed_rows_witness:
  "collapse 2 1 0 [[0, 1], [1, 1], [1, 0], [1, 1]] =
      replicate (dropped 1 (take (Suc 2) [[0, 1], [1, 1], [1, 0], [1, 1]])) (replicate 2 0)
        @ kept 1 (take (Suc 2) [[0, 1], [1, 1], [1, 0], [1, 1]])
        @ drop (Suc 2) [[0, 1], [1, 1], [1, 0], [1, 1 :: cell]] \<and>
    filled (collapse 2 1 0 [[0, 1], [1, 1], [1, 0], [1, 1]])
      + 2 * dropped 1 (take (Suc 2) [[0, 1], [1, 1], [1, 0], [1, 1]])
      = filled [[0, 1], [1, 1], [1, 0], [1, 1]]"
  by (rule collapse_deletes_completed_rows [where h = 4]) (simp_all add: rect_def)

text \<open>
  when a falling piece cannot move down, \<open>Move(0)\<close> merges it and removes the
  completed rows: the board keeps its size, no completed row is left anywhere on it
  although \<open>collapse\<close> only looks at the rows the piece touched, and no cell is lost:
  old board plus piece is new board plus one row's width for each completed row.
\<close>

theorem Move_down_lands:
  assumes "game_ok h w g" and "falling g" and "Move 0 now g = (False, g')"
  shows "rect h w (vmat g') \<and> no_full (vmat g') \<and>
    filled (vmat g') + w * completed g = filled (vmat g) + filled (smat g)"
proof -
  have "g' = land g" using assms(3) by (auto simp: Move_def Let_def split: if_splits)
  then show ?thesis using land_board [OF assms(1,2)] by (simp add: board_ok_def)
qed

definition demo_game :: game where
  "demo_game = \<lparr>vmat = [[0, 0, 0], [0, 0, 0], [1, 0, 0]], pos = (1, 1),
     smat = [[1, 1], [1, 1]], pv = [[1, 1], [1, 1]], tb = 0, td = 0\<rparr>"

lemma demo_game_ok: "game_ok 3 3 demo_game" "falling demo_game"
  by (simp_all add: game_ok_def demo_game_def rect_def no_full_def full_row_def piece_ok_def
      filled_def falling_def is_collision_def get_shape_def shape0_def shape1_def at_def mget_def
      offset_def upt_rec)

theorem Move_down_lands_witness:
  "rect 3 3 (vmat (land demo_game)) \<and> no_full (vmat (land demo_game)) \<and>
    filled (vmat (land demo_game)) + 3 * completed demo_game
      = filled (vmat demo_game) + filled (smat demo_game)"
proof -
  have "Move 0 0 demo_game = (False, land demo_game)"
    by (simp add: Move_def moved_def demo_game_def is_collision_def get_shape_def shape0_def
        shape1_def at_def mget_def offset_def upt_rec)
  from Move_down_lands [OF demo_game_ok this] show ?thesis .
qed

text \<open>
  C8: one pass of the main loop always ends (the drop loop terminates, the rotation's
  assertion holds) and, while the game goes on, keeps the rules: a board of the same size
  without completed rows, whose filled cells are the old ones plus the piece's four, less
  one width for each completed row.
\<close>

theorem main_round_keeps_rules:
  assumes "board_ok h w g"
  shows "\<exists>playing g'. main_round rnd now clk g = Inr (Some (playing, g')) \<and>
    (playing \<longrightarrow> board_ok h w g' \<and> (\<exists>c. filled (vmat g') + w * c = filled (vmat g) + 4))"
  using assms by (rule main_round_cases)

theorem main_round_keeps_rules_witness:
  "\<exists>playing g'. main_round 3 7 int (new_game 20 10 5 0 demo_game) = Inr (Some (playing, g')) \<and>
    (playing \<longrightarrow> board_ok 20 10 g' \<and>
      (\<exists>c. filled (vmat g') + 10 * c = filled (vmat (new_game 20 10 5 0 demo_game)) + 4))"
  by (rule main_round_keeps_rules, rule new_game_board) simp_all

end
