(* ===== verification/Net_Buffer.thy ===== *)
theory Net_Buffer
  imports Prelude
begin

section \<open>Byte buffers (network/epoll/buffer.hpp)\<close>

text \<open>
  \<open>buffer_ref\<close> is a block of memory from \<open>begin()\<close> to \<open>end_\<close> whose first
  \<open>size()\<close> bytes are in use.  The model keeps the bytes of the block (\<open>store\<close>) and the
  number in use (\<open>used\<close>); a pointer into the block is its offset from \<open>begin()\<close>.
\<close>

type_synonym byte = u8

record buffer =
  store :: "byte list"
  used :: nat

definition contents :: "buffer \<Rightarrow> byte list" where
  "contents b = take (used b) (store b)"

definition buf_empty :: "buffer \<Rightarrow> bool" where
  "buf_empty b \<longleftrightarrow> used b = 0"

text \<open>\<open>size_fr(p)\<close> is the distance to \<open>end_\<close> as an \<open>unsigned\<close>.\<close>

definition size_fr :: "buffer \<Rightarrow> nat \<Rightarrow> nat" where
  "size_fr b p = nat ((int (length (store b)) - int p) mod 4294967296)"

definition capacity :: "buffer \<Rightarrow> nat" where
  "capacity b = size_fr b 0"

text \<open>A range of the block, or the buffer object itself (\<open>&sub == this\<close>).\<close>

datatype subrange = Self | Sub nat nat

definition spaces :: "buffer \<Rightarrow> subrange" where
  "spaces b = Sub (used b) (length (store b))"

definition commit :: "subrange \<Rightarrow> nat \<Rightarrow> buffer \<Rightarrow> buffer outcome" where
  "commit sub len b =
     (if (case sub of Self \<Rightarrow> False
          | Sub sb se \<Rightarrow> sb \<noteq> used b \<or> len > size_fr b (used b) \<or> se - sb \<noteq> size_fr b (used b))
      then Inl (Err_exit ''buffer_ref:commit'')
      else Inr (b\<lparr>used := used b + len\<rparr>))"

text \<open>\<open>memcpy\<close> into the block: writing past its end is undefined.\<close>

definition memcpy_at :: "nat \<Rightarrow> byte list \<Rightarrow> buffer \<Rightarrow> buffer outcome" where
  "memcpy_at p d b =
     (if p + length d \<le> length (store b)
      then Inr (b\<lparr>store := take p (store b) @ d @ drop (p + length d) (store b)\<rparr>)
      else Inl Undefined)"

definition put :: "byte list \<Rightarrow> buffer \<Rightarrow> buffer outcome" where
  "put d b =
     (if length d > size_fr b (used b) then Inl (Err_exit ''buffer_ref:put'')
      else bind_ok (memcpy_at (used b) d b) (\<lambda>b'. Inr (b'\<lparr>used := used b' + length d\<rparr>)))"

definition consume :: "nat \<Rightarrow> buffer \<Rightarrow> buffer outcome" where
  "consume len b =
     (if len > used b then Inl (Err_exit ''buffer_ref:consume'')
      else let b' = (if 0 < len \<and> len < used b
                     then b\<lparr>store := take (used b - len) (drop len (store b))
                                     @ drop (used b - len) (store b)\<rparr>
                     else b)
           in Inr (b'\<lparr>used := used b' - len\<rparr>))"

definition reserve :: "nat \<Rightarrow> buffer \<Rightarrow> buffer outcome" where
  "reserve siz b = (if siz > capacity b then Inl (Err_exit ''size'') else Inr b)"

text \<open>\<open>array_buf<Capacity>\<close> rounds the capacity up to whole 32-bit words.\<close>

definition array_buf :: "nat \<Rightarrow> buffer" where
  "array_buf cap = \<lparr>store = replicate (4 * ((cap + 3) div 4)) 0, used = 0\<rparr>"

definition malloc_buf :: "nat \<Rightarrow> buffer" where
  "malloc_buf cap = \<lparr>store = replicate cap 0, used = 0\<rparr>"

subsection \<open>The move assignment of malloc\_buf\<close>

text \<open>
  At the level of the three pointers.  The assignment takes over the source's \<open>begin\<close>
  and \<open>end\<close> but its own \<open>end_\<close>, then resets the source with
  \<open>rhs = malloc_buf()\<close>, which is the same operator on the source and a new temporary.
  \<open>mal k\<close> is what the \<open>k\<close>th \<open>malloc\<close> answers.
\<close>

record bufref =
  br_begin :: nat
  br_end :: nat
  br_cap :: nat

definition malloc_ref :: "nat \<Rightarrow> nat \<Rightarrow> bufref" where
  "malloc_ref cap p = \<lparr>br_begin = p, br_end = p, br_cap = p + cap\<rparr>"

partial_function (option) malloc_assign ::
  "nat \<Rightarrow> (nat \<Rightarrow> nat) \<Rightarrow> nat \<Rightarrow> bool \<Rightarrow> bufref \<Rightarrow> bufref \<Rightarrow> (bufref \<times> bufref) option" where
  "malloc_assign cap mal k same this rhs =
     (if same then Some (this, rhs)
      else let this' = \<lparr>br_begin = br_begin rhs, br_end = br_end rhs, br_cap = br_cap this\<rparr>
           in Option.bind (malloc_assign cap mal (Suc k) False rhs (malloc_ref cap (mal k)))
                (\<lambda>(rhs', tmp). Some (this', rhs')))"

lemma malloc_assign_diverges: "malloc_assign cap mal k False this rhs = None"
proof (rule ccontr)
  assume "malloc_assign cap mal k False this rhs \<noteq> None"
  then obtain r where r: "malloc_assign cap mal k False this rhs = Some r" by auto
  have "False = True"
  proof (rule malloc_assign.raw_induct
      [where P = "\<lambda>cap mal k same this rhs r. same = True", OF _ r])
    fix f cap mal k same this rhs r
    assume IH: "\<And>cap mal k same this rhs r. f cap mal k same this rhs = Some r \<Longrightarrow> same = True"
      and eq: "(if same then Some (this, rhs)
        else let this' = \<lparr>br_begin = br_begin rhs, br_end = br_end rhs, br_cap = br_cap this\<rparr>
             in Option.bind (f cap mal (Suc k) False rhs (malloc_ref cap (mal k)))
                  (\<lambda>(rhs', tmp). Some (this', rhs'))) = Some r"
    show "same = True"
    proof (rule ccontr)
      assume "same \<noteq> True"
      with eq obtain x where "f cap mal (Suc k) False rhs (malloc_ref cap (mal k)) = Some x"
        by (auto simp: Option.bind_eq_Some_conv Let_def)
      from IH [OF this] show False by simp
    qed
  qed
  then show False by simp
qed

subsection \<open>Laws\<close>

text \<open>Blocks below 4 GiB, so that no size wraps, with the used part inside.\<close>

definition buf_ok :: "buffer \<Rightarrow> bool" where
  "buf_ok b \<longleftrightarrow> used b \<le> length (store b) \<and> length (store b) < 2147483648"

lemma size_fr_ok [simp]:
  "buf_ok b \<Longrightarrow> p \<le> length (store b) \<Longrightarrow> size_fr b p = length (store b) - p"
  by (simp add: size_fr_def buf_ok_def)

lemma capacity_ok [simp]: "buf_ok b \<Longrightarrow> capacity b = length (store b)"
  by (simp add: capacity_def)

lemma length_contents [simp]: "buf_ok b \<Longrightarrow> length (contents b) = used b"
  by (simp add: contents_def buf_ok_def)

lemma buf_empty_contents: "buf_ok b \<Longrightarrow> buf_empty b \<longleftrightarrow> contents b = []"
  by (auto simp: buf_empty_def contents_def buf_ok_def)

lemma put_ok:
  assumes "buf_ok b" and "used b + length d \<le> length (store b)"
  shows "\<exists>b'. put d b = Inr b' \<and> buf_ok b' \<and> contents b' = contents b @ d \<and>
    length (store b') = length (store b)"
  using assms by (auto simp: put_def memcpy_at_def buf_ok_def contents_def)

lemma put_full:
  assumes "buf_ok b" and "used b + length d > length (store b)"
  shows "put d b = Inl (Err_exit ''buffer_ref:put'')"
  using assms by (auto simp: put_def buf_ok_def)

lemma put_Inr:
  assumes "buf_ok b" and "put d b = Inr b'"
  shows "buf_ok b' \<and> contents b' = contents b @ d \<and> length (store b') = length (store b)"
proof (cases "used b + length d \<le> length (store b)")
  case True
  from put_ok [OF assms(1) this] assms(2) show ?thesis by auto
next
  case False
  with put_full [OF assms(1), of d] assms(2) show ?thesis by simp
qed

lemma consume_ok:
  assumes "buf_ok b" and "len \<le> used b"
  shows "\<exists>b'. consume len b = Inr b' \<and> buf_ok b' \<and> contents b' = drop len (contents b) \<and>
    length (store b') = length (store b)"
  using assms by (auto simp: consume_def buf_ok_def contents_def Let_def drop_take min_def)

lemma consume_Inr:
  assumes "buf_ok b" and "consume len b = Inr b'"
  shows "len \<le> used b \<and> buf_ok b' \<and> contents b' = drop len (contents b) \<and>
    length (store b') = length (store b)"
proof -
  have "len \<le> used b" using assms(2) by (auto simp: consume_def split: if_splits)
  with consume_ok [OF assms(1) this] assms(2) show ?thesis by auto
qed

lemma consume_all:
  "buf_ok b \<Longrightarrow> consume (used b) b = Inr (b\<lparr>used := 0\<rparr>)"
  by (simp add: consume_def Let_def)

text \<open>Data that arrives in \<open>spaces()\<close> is written there and then committed.\<close>

definition receive_into :: "byte list \<Rightarrow> buffer \<Rightarrow> buffer outcome" where
  "receive_into d b = bind_ok (memcpy_at (used b) d b) (commit (spaces b) (length d))"

lemma receive_into_ok:
  assumes "buf_ok b" and "used b + length d \<le> length (store b)"
  shows "\<exists>b'. receive_into d b = Inr b' \<and> buf_ok b' \<and> contents b' = contents b @ d \<and>
    length (store b') = length (store b)"
  using assms
  by (auto simp: receive_into_def memcpy_at_def commit_def spaces_def size_fr_def buf_ok_def
      contents_def)


subsection \<open>Properties of the buffers\<close>

text \<open>
  assigning one \<open>malloc_buf\<close> to another never returns: the operator resets its source
  by assigning a temporary to it, which calls the operator again, without end.
\<close>

theorem malloc_assign_never_returns: "malloc_assign cap mal k False this rhs = None"
  by (rule malloc_assign_diverges)

text \<open>
  \<open>put\<close> appends exactly its bytes when they fit, and ends the process when they do
  not: it never writes past the end of the block.
\<close>

theorem put_appends_or_exits:
  assumes "buf_ok b"
  shows "case put d b of
      Inr b' \<Rightarrow> used b + length d \<le> length (store b) \<and> buf_ok b' \<and> contents b' = contents b @ d
    | Inl e \<Rightarrow> e = Err_exit ''buffer_ref:put'' \<and> length (store b) < used b + length d"
proof (cases "used b + length d \<le> length (store b)")
  case True
  from put_ok [OF assms True] True show ?thesis by auto
next
  case False
  then show ?thesis using put_full [OF assms, of d] by simp
qed

theorem put_appends_or_exits_witness:
  "case put [1, 2, 3] (malloc_buf 2) of
      Inr b' \<Rightarrow> used (malloc_buf 2) + length [1, 2, 3 :: byte] \<le> length (store (malloc_buf 2)) \<and>
        buf_ok b' \<and> contents b' = contents (malloc_buf 2) @ [1, 2, 3]
    | Inl e \<Rightarrow> e = Err_exit ''buffer_ref:put'' \<and>
        length (store (malloc_buf 2)) < used (malloc_buf 2) + length [1, 2, 3 :: byte]"
  by (rule put_appends_or_exits) (simp add: buf_ok_def malloc_buf_def)

end
