(* ===== verification/Cycle_Queue.thy ===== *)
theory Cycle_Queue
  imports Net_Buffer "HOL-Library.Sublist"
begin

section \<open>The frame queue between two threads (network/epoll/buffer.hpp)\<close>

text \<open>
  \<open>cycle_buffer_queue<Buffer,BufCount>\<close>: a ring of \<open>BufCount\<close> buffers.  One thread takes
  the next buffer with \<open>alloc\<close>, fills it and hands it over with \<open>done\<close>; the other gets
  the oldest filled buffer with \<open>wait\<close> and gives it back with \<open>done\<close> or \<open>fail\<close>.  An
  iterator is the index of its buffer, \<open>end()\<close> is \<open>BufCount\<close>.  The members
  \<open>ip_\<close>, \<open>ialloc_\<close> and \<open>iusing_\<close> keep their names without the underscore.
\<close>

record cq =
  bufs :: "buffer list"
  ip :: nat
  ialloc :: nat
  iusing :: nat

definition cq_end :: "cq \<Rightarrow> nat" where
  "cq_end q = length (bufs q)"

definition cq_new :: "buffer list \<Rightarrow> cq" where
  "cq_new bs = \<lparr>bufs = bs, ip = 0, ialloc = length bs, iusing = length bs\<rparr>"

definition cq_make :: "(buffer \<Rightarrow> buffer) \<Rightarrow> buffer list \<Rightarrow> cq" where
  "cq_make mk bs = cq_new (map mk bs)"

definition incr :: "cq \<Rightarrow> nat \<Rightarrow> nat" where
  "incr q i = (if Suc i = cq_end q then 0 else Suc i)"

definition decr :: "cq \<Rightarrow> nat \<Rightarrow> nat" where
  "decr q i = (if i = 0 then cq_end q - 1 else i - 1)"

text \<open>A call of a buffer's own operation through an iterator.\<close>

definition on_buf :: "nat \<Rightarrow> (buffer \<Rightarrow> buffer outcome) \<Rightarrow> cq \<Rightarrow> cq outcome" where
  "on_buf j f q =
     (if j < cq_end q
      then bind_ok (f (bufs q ! j)) (\<lambda>b. Inr (q\<lparr>bufs := (bufs q)[j := b]\<rparr>))
      else Inl Undefined)"

definition alloc :: "nat \<Rightarrow> cq \<Rightarrow> (nat \<times> cq) outcome" where
  "alloc siz q =
     (if ialloc q \<noteq> cq_end q then Inl Assertion
      else let q1 = (if ip q = iusing q then q\<lparr>ip := incr q (ip q)\<rparr> else q)
           in if ip q = iusing q \<and> ip q1 = iusing q1 then Inl (Err_exit ''gt1 using'')
              else bind_ok (on_buf (ip q1) (\<lambda>b. consume (used b) b) q1) (\<lambda>q2.
                   bind_ok (on_buf (ip q2) (reserve siz) q2) (\<lambda>q3.
                   Inr (ip q3, q3\<lparr>ialloc := ip q3\<rparr>))))"

text \<open>
  \<open>_findusable(p, eop)\<close>: the loop runs while \<open>p\<close> is not \<open>eop\<close>; both are buffers of the
  ring, the guard on them makes the definition total.
\<close>

definition usable :: "cq \<Rightarrow> nat \<Rightarrow> bool" where
  "usable q p \<longleftrightarrow> p \<noteq> ialloc q \<and> \<not> buf_empty (bufs q ! p)"

function findusable :: "cq \<Rightarrow> nat \<Rightarrow> nat \<Rightarrow> nat" where
  "findusable q p eop =
     (if cq_end q \<le> p \<or> cq_end q \<le> eop then cq_end q
      else if usable q p then p
      else if p \<noteq> eop then findusable q (incr q p) eop
      else cq_end q)"
  by pat_completeness auto
termination
proof (relation "measure (\<lambda>(q, p, e). (if p \<le> e then e - p else e + cq_end q - p))")
  fix q p eop
  assume "\<not> (cq_end q \<le> p \<or> cq_end q \<le> eop)" and "p \<noteq> eop"
  then show "((q, incr q p, eop), q, p, eop)
    \<in> measure (\<lambda>(q, p, e). if p \<le> e then e - p else e + cq_end q - p)"
    by (auto simp: incr_def)
qed simp

declare findusable.simps [simp del]

text \<open>
  \<open>wait(millis)\<close>: \<open>meanwhile\<close> is what the other thread does while \<open>cond_.wait\<close> has
  released the mutex.
\<close>

definition wait :: "(cq \<Rightarrow> cq) \<Rightarrow> nat \<Rightarrow> cq \<Rightarrow> (nat \<times> cq) outcome" where
  "wait meanwhile millis q =
     (if iusing q \<noteq> cq_end q then Inl Assertion
      else let j = findusable q (ip q) (decr q (ip q));
               (j', q') = (if j = cq_end q \<and> 0 < millis
                           then let q1 = meanwhile q
                                in (findusable q1 (ip q1) (decr q1 (ip q1)), q1)
                           else (j, q))
           in Inr (j', q'\<lparr>iusing := j'\<rparr>))"

text \<open>The member function \<open>done\<close>; that name is a keyword here.\<close>

definition done_with :: "nat \<Rightarrow> cq \<Rightarrow> cq outcome" where
  "done_with j q =
     (if j = ialloc q then
        (if ip q \<noteq> ialloc q then Inl (Err_exit ''fatal'')
         else Inr (q\<lparr>ip := incr q j, ialloc := cq_end q\<rparr>))
      else if j = iusing q then
        bind_ok (on_buf j (\<lambda>b. consume (used b) b) q) (\<lambda>q'. Inr (q'\<lparr>iusing := cq_end q'\<rparr>))
      else Inl (Err_exit ''fatal''))"

definition fail_with :: "nat \<Rightarrow> cq \<Rightarrow> cq outcome" where
  "fail_with j q =
     (if j = ialloc q then
        (if ip q \<noteq> ialloc q then Inl (Err_exit ''fatal'') else Inr (q\<lparr>ialloc := cq_end q\<rparr>))
      else if j = iusing q then Inr (q\<lparr>iusing := cq_end q\<rparr>)
      else Inl (Err_exit ''fatal''))"

subsection \<open>The ring and what is in it\<close>

definition cq_ok :: "cq \<Rightarrow> bool" where
  "cq_ok q \<longleftrightarrow> 2 \<le> cq_end q \<and> ip q < cq_end q \<and>
     (ialloc q = cq_end q \<or> ialloc q = ip q) \<and> iusing q \<le> cq_end q \<and>
     (ialloc q < cq_end q \<longrightarrow> iusing q \<noteq> ialloc q) \<and>
     (iusing q < cq_end q \<longrightarrow> \<not> buf_empty (bufs q ! iusing q)) \<and>
     (\<forall>b \<in> set (bufs q). buf_ok b)"

text \<open>The same without the frame being read: that buffer is empty while \<open>done\<close> gives it back.\<close>

definition cq_wf :: "cq \<Rightarrow> bool" where
  "cq_wf q \<longleftrightarrow> 2 \<le> cq_end q \<and> ip q < cq_end q \<and>
     (ialloc q = cq_end q \<or> ialloc q = ip q) \<and> iusing q \<le> cq_end q \<and>
     (ialloc q < cq_end q \<longrightarrow> iusing q \<noteq> ialloc q) \<and> (\<forall>b \<in> set (bufs q). buf_ok b)"

lemma cq_ok_wf: "cq_ok q \<longleftrightarrow> cq_wf q \<and> (iusing q < cq_end q \<longrightarrow> \<not> buf_empty (bufs q ! iusing q))"
  by (auto simp: cq_ok_def cq_wf_def)

definition ring :: "nat \<Rightarrow> nat \<Rightarrow> nat list" where
  "ring p n = [p..<n] @ [0..<p]"

definition pending :: "cq \<Rightarrow> nat list" where
  "pending q = filter (\<lambda>i. usable q i \<and> i \<noteq> iusing q) (ring (ip q) (cq_end q))"

text \<open>The frames that wait to be taken, oldest first, and the frame being read.\<close>

definition waiting :: "cq \<Rightarrow> byte list list" where
  "waiting q = map (\<lambda>i. contents (bufs q ! i)) (pending q)"

definition reading :: "cq \<Rightarrow> byte list option" where
  "reading q = (if iusing q < cq_end q then Some (contents (bufs q ! iusing q)) else None)"

definition writing :: "cq \<Rightarrow> byte list option" where
  "writing q = (if ialloc q < cq_end q then Some (contents (bufs q ! ialloc q)) else None)"

lemma cq_end_update [simp]:
  "cq_end (q\<lparr>ip := i\<rparr>) = cq_end q" "cq_end (q\<lparr>ialloc := i\<rparr>) = cq_end q"
  "cq_end (q\<lparr>iusing := i\<rparr>) = cq_end q" "cq_end (q\<lparr>bufs := bs\<rparr>) = length bs"
  by (simp_all add: cq_end_def)

lemma ring_Cons: "p < n \<Longrightarrow> ring p n = p # [Suc p..<n] @ [0..<p]"
  by (simp add: ring_def upt_conv_Cons)

lemma ring_incr:
  assumes "p < cq_end q"
  shows "ring (incr q p) (cq_end q) = [Suc p..<cq_end q] @ [0..<p] @ [p]"
proof (cases "Suc p = cq_end q")
  case True
  then have "[0..<cq_end q] = [0..<p] @ [p]" by (simp flip: True)
  then show ?thesis using True by (simp add: ring_def incr_def)
next
  case False
  then show ?thesis by (simp add: ring_def incr_def)
qed

lemma set_ring [simp]: "p \<le> n \<Longrightarrow> set (ring p n) = {0..<n}"
  by (auto simp: ring_def)

lemma incr_less: "p < cq_end q \<Longrightarrow> incr q p < cq_end q"
  by (auto simp: incr_def)

lemma incr_neq: "2 \<le> cq_end q \<Longrightarrow> p < cq_end q \<Longrightarrow> incr q p \<noteq> p"
  by (auto simp: incr_def)

subsection \<open>The search finds the oldest frame\<close>

definition first_from :: "cq \<Rightarrow> nat list \<Rightarrow> nat" where
  "first_from q is = (case filter (usable q) is of [] \<Rightarrow> cq_end q | i # _ \<Rightarrow> i)"

lemma findusable_up:
  "p \<le> e \<Longrightarrow> e < cq_end q \<Longrightarrow> findusable q p e = first_from q [p..<Suc e]"
proof (induction "e - p" arbitrary: p)
  case 0
  then have "p = e" by simp
  then show ?case using 0 findusable.simps [of q e e] by (simp add: first_from_def)
next
  case (Suc d)
  then have "incr q p = Suc p" by (simp add: incr_def)
  moreover have "[p..<Suc e] = p # [Suc p..<Suc e]" using Suc by (simp add: upt_rec)
  moreover have "findusable q (Suc p) e = first_from q [Suc p..<Suc e]"
    by (rule Suc.hyps(1)) (use Suc in auto)
  ultimately show ?case using Suc by (simp add: findusable.simps [of q p e] first_from_def)
qed

lemma findusable_wrap:
  "e < p \<Longrightarrow> p < cq_end q \<Longrightarrow>
   findusable q p e = first_from q ([p..<cq_end q] @ [0..<Suc e])"
proof (induction "cq_end q - p" arbitrary: p)
  case 0
  then show ?case by simp
next
  case (Suc d)
  have up: "[p..<cq_end q] = p # [Suc p..<cq_end q]" using Suc by (simp add: upt_rec)
  show ?case
  proof (cases "Suc p = cq_end q")
    case True
    then have "incr q p = 0" by (simp add: incr_def)
    then show ?thesis using Suc up True findusable_up [of 0 e q]
      by (simp add: findusable.simps [of q p e] first_from_def)
  next
    case False
    then have "incr q p = Suc p" by (simp add: incr_def)
    moreover have "findusable q (Suc p) e = first_from q ([Suc p..<cq_end q] @ [0..<Suc e])"
      by (rule Suc.hyps(1)) (use Suc False in auto)
    ultimately show ?thesis using Suc up
      by (simp add: findusable.simps [of q p e] first_from_def)
  qed
qed

lemma findusable_ring:
  assumes "p < cq_end q"
  shows "findusable q p (decr q p) = first_from q (ring p (cq_end q))"
proof (cases p)
  case 0
  then show ?thesis using assms findusable_up [of 0 "cq_end q - 1" q]
    by (simp add: decr_def ring_def)
next
  case (Suc k)
  then show ?thesis using assms findusable_wrap [of k p q] by (simp add: decr_def ring_def)
qed


subsection \<open>What each operation does to the frames\<close>

definition frames :: "cq \<Rightarrow> nat list \<Rightarrow> byte list list" where
  "frames q is = map (\<lambda>i. contents (bufs q ! i)) (filter (\<lambda>i. usable q i \<and> i \<noteq> iusing q) is)"

lemma waiting_frames: "waiting q = frames q (ring (ip q) (cq_end q))"
  by (simp add: waiting_def pending_def frames_def)

lemma frames_append [simp]: "frames q (xs @ ys) = frames q xs @ frames q ys"
  by (simp add: frames_def)

lemma frames_Nil [simp]: "frames q [] = []"
  by (simp add: frames_def)

lemma frames_Cons:
  "frames q (i # is) =
     (if usable q i \<and> i \<noteq> iusing q then [contents (bufs q ! i)] else []) @ frames q is"
  by (simp add: frames_def)

lemma frames_cong:
  assumes "\<And>i. i \<in> set is \<Longrightarrow> bufs q' ! i = bufs q ! i"
    and "\<And>i. i \<in> set is \<Longrightarrow> i = ialloc q' \<longleftrightarrow> i = ialloc q"
    and "\<And>i. i \<in> set is \<Longrightarrow> i = iusing q' \<longleftrightarrow> i = iusing q"
  shows "frames q' is = frames q is"
  using assms by (induction "is") (simp_all add: frames_Cons usable_def)

lemma frames_skip_alloc: "frames q [ialloc q] = []"
  by (simp add: frames_def usable_def)

lemma frames_skip_using: "frames q [iusing q] = []"
  by (simp add: frames_def)

lemma ring_not_self:
  "i \<in> set ([Suc p..<n] @ [0..<p]) \<Longrightarrow> p < n \<Longrightarrow> i < n \<and> i \<noteq> p"
  by auto

text \<open>The next buffer, where \<open>alloc\<close> writes: the one after \<open>ip\<close> while \<open>ip\<close> is read.\<close>

definition slot :: "cq \<Rightarrow> nat" where
  "slot q = (if ip q = iusing q then incr q (ip q) else ip q)"

lemma slot_less_wf: "cq_wf q \<Longrightarrow> slot q < cq_end q"
  by (auto simp: slot_def cq_wf_def intro: incr_less)

lemma slot_less: "cq_ok q \<Longrightarrow> slot q < cq_end q"
  by (simp add: cq_ok_wf slot_less_wf)

lemma slot_not_using_wf: "cq_wf q \<Longrightarrow> slot q \<noteq> iusing q"
  by (metis cq_wf_def incr_neq slot_def)

lemma slot_not_using: "cq_ok q \<Longrightarrow> slot q \<noteq> iusing q"
  by (simp add: cq_ok_wf slot_not_using_wf)

lemma buf_ok_nth_wf: "cq_wf q \<Longrightarrow> i < cq_end q \<Longrightarrow> buf_ok (bufs q ! i)"
  by (simp add: cq_wf_def cq_end_def)

lemma buf_ok_nth: "cq_ok q \<Longrightarrow> i < cq_end q \<Longrightarrow> buf_ok (bufs q ! i)"
  by (simp add: cq_ok_wf buf_ok_nth_wf)

lemma waiting_rotate_wf:
  assumes "cq_wf q" and "ip q = iusing q"
  shows "waiting q = frames q (ring (incr q (ip q)) (cq_end q))"
proof -
  have "ip q < cq_end q" using assms by (simp add: cq_wf_def)
  then have "waiting q = frames q ([iusing q] @ [Suc (ip q)..<cq_end q] @ [0..<ip q])"
    using assms(2) by (simp add: waiting_frames ring_Cons)
  also have "\<dots> = frames q (([Suc (ip q)..<cq_end q] @ [0..<ip q]) @ [ip q])"
    using assms(2) by (simp add: frames_Cons)
  finally show ?thesis using ring_incr [of "ip q" q] \<open>ip q < cq_end q\<close> by simp
qed

lemma waiting_rotate:
  assumes "cq_ok q" and "ip q = iusing q"
  shows "waiting q = frames q (ring (incr q (ip q)) (cq_end q))"
  using waiting_rotate_wf assms by (simp add: cq_ok_wf)

lemma waiting_from_slot_wf:
  assumes "cq_wf q" and "ialloc q = cq_end q"
  shows "waiting q =
    (if buf_empty (bufs q ! slot q) then [] else [contents (bufs q ! slot q)])
      @ frames q ([Suc (slot q)..<cq_end q] @ [0..<slot q])"
proof -
  have "waiting q = frames q (ring (slot q) (cq_end q))"
    using waiting_rotate_wf [OF assms(1)] by (auto simp: slot_def waiting_frames)
  then show ?thesis
    using slot_less_wf [OF assms(1)] slot_not_using_wf [OF assms(1)] assms(2)
    by (auto simp: ring_Cons frames_Cons usable_def)
qed

lemma waiting_from_slot:
  assumes "cq_ok q" and "ialloc q = cq_end q"
  shows "waiting q =
    (if buf_empty (bufs q ! slot q) then [] else [contents (bufs q ! slot q)])
      @ frames q ([Suc (slot q)..<cq_end q] @ [0..<slot q])"
  using waiting_from_slot_wf assms by (simp add: cq_ok_wf)

lemma cq_ok_reading: "cq_ok q \<longleftrightarrow> cq_wf q \<and> reading q \<noteq> Some []"
  using buf_ok_nth_wf [of q "iusing q"] by (auto simp: cq_ok_wf reading_def contents_def buf_empty_def buf_ok_def)

lemma on_buf_ok:
  assumes "j < cq_end q" and "f (bufs q ! j) = Inr b"
  shows "on_buf j f q = Inr (q\<lparr>bufs := (bufs q)[j := b]\<rparr>)"
  using assms by (simp add: on_buf_def)

text \<open>The capacity every buffer of the queue has.\<close>

definition cq_room :: "nat \<Rightarrow> cq \<Rightarrow> bool" where
  "cq_room c q \<longleftrightarrow> (\<forall>b \<in> set (bufs q). c \<le> length (store b))"

lemma cq_room_update:
  "cq_room c q \<Longrightarrow> c \<le> length (store b) \<Longrightarrow> cq_room c (q\<lparr>bufs := (bufs q)[j := b]\<rparr>)"
  by (auto simp: cq_room_def dest: set_update_subset_insert [THEN subsetD])

lemma cq_room_nth: "cq_room c q \<Longrightarrow> i < cq_end q \<Longrightarrow> c \<le> length (store (bufs q ! i))"
  by (simp add: cq_room_def cq_end_def)

definition emptied :: "nat \<Rightarrow> cq \<Rightarrow> cq" where
  "emptied j q = q\<lparr>bufs := (bufs q)[j := (bufs q ! j)\<lparr>used := 0\<rparr>]\<rparr>"

lemma alloc_result_wf:
  assumes "cq_wf q" and "ialloc q = cq_end q" and "siz \<le> length (store (bufs q ! slot q))"
  shows "alloc siz q = Inr (slot q, (emptied (slot q) q)\<lparr>ip := slot q, ialloc := slot q\<rparr>)"
proof -
  let ?q1 = "if ip q = iusing q then q\<lparr>ip := incr q (ip q)\<rparr> else q"
  have s: "ip ?q1 = slot q" "iusing ?q1 = iusing q" "bufs ?q1 = bufs q" "cq_end ?q1 = cq_end q"
    by (simp_all add: slot_def cq_end_def)
  have less: "slot q < cq_end q" and ne: "slot q \<noteq> iusing q"
    using slot_less_wf slot_not_using_wf assms(1) by auto
  have bok: "buf_ok (bufs q ! slot q)" by (rule buf_ok_nth_wf [OF assms(1) less])
  have bok': "buf_ok ((bufs q ! slot q)\<lparr>used := 0\<rparr>)" using bok by (simp add: buf_ok_def)
  have res: "reserve siz ((bufs q ! slot q)\<lparr>used := 0\<rparr>) = Inr ((bufs q ! slot q)\<lparr>used := 0\<rparr>)"
    using capacity_ok [OF bok'] assms(3) by (simp add: reserve_def)
  have len: "slot q < length (bufs q)" using less by (simp add: cq_end_def)
  show ?thesis
    using s less ne consume_all [OF bok] res len assms(2)
    by (simp add: alloc_def Let_def on_buf_def emptied_def)
qed

lemma alloc_result:
  assumes "cq_ok q" and "ialloc q = cq_end q" and "siz \<le> length (store (bufs q ! slot q))"
  shows "alloc siz q = Inr (slot q, (emptied (slot q) q)\<lparr>ip := slot q, ialloc := slot q\<rparr>)"
  using alloc_result_wf assms by (simp add: cq_ok_wf)

lemma alloc_ok_wf:
  assumes "cq_wf q" and "ialloc q = cq_end q" and "siz \<le> length (store (bufs q ! slot q))"
  shows "\<exists>q'. alloc siz q = Inr (slot q, q') \<and> cq_wf q' \<and> ialloc q' = slot q \<and> ip q' = slot q \<and>
    cq_end q' = cq_end q \<and> iusing q' = iusing q \<and> reading q' = reading q \<and> writing q' = Some [] \<and>
    waiting q' = (if buf_empty (bufs q ! slot q) then waiting q else tl (waiting q)) \<and>
    (\<forall>c. cq_room c q \<longrightarrow> cq_room c q')"
proof -
  let ?s = "slot q"
  let ?q' = "(emptied ?s q)\<lparr>ip := ?s, ialloc := ?s\<rparr>"
  have less: "?s < cq_end q" and ne: "?s \<noteq> iusing q"
    using slot_less_wf slot_not_using_wf assms(1) by auto
  have len: "?s < length (bufs q)" using less by (simp add: cq_end_def)
  have end': "cq_end ?q' = cq_end q" by (simp add: emptied_def cq_end_def)
  have bok: "buf_ok ((bufs q ! ?s)\<lparr>used := 0\<rparr>)"
    using buf_ok_nth_wf [OF assms(1) less] by (simp add: buf_ok_def)
  have oth: "bufs ?q' ! i = bufs q ! i" if "i \<noteq> ?s" for i
    using that by (simp add: emptied_def)
  have "cq_wf ?q'"
    using assms(1) less ne bok end' oth [of "iusing q"]
    by (auto simp: cq_wf_def emptied_def dest: set_update_subset_insert [THEN subsetD])
  moreover have "reading ?q' = reading q"
    using ne end' oth [of "iusing q"] by (simp add: reading_def emptied_def)
  moreover have "writing ?q' = Some []"
    using less len end' by (simp add: writing_def emptied_def contents_def)
  moreover have "waiting ?q' = frames q ([Suc ?s..<cq_end q] @ [0..<?s])"
  proof -
    have "waiting ?q' = frames ?q' (ring ?s (cq_end q))"
      by (simp add: waiting_frames emptied_def cq_end_def)
    also have "\<dots> = frames ?q' [ialloc ?q'] @ frames ?q' ([Suc ?s..<cq_end q] @ [0..<?s])"
      using less by (simp add: ring_Cons frames_Cons)
    also have "\<dots> = frames ?q' ([Suc ?s..<cq_end q] @ [0..<?s])"
      by (simp only: frames_skip_alloc append_Nil)
    also have "\<dots> = frames q ([Suc ?s..<cq_end q] @ [0..<?s])"
      using assms(2) less by (intro frames_cong) (auto simp: emptied_def)
    finally show ?thesis .
  qed
  moreover have "\<forall>c. cq_room c q \<longrightarrow> cq_room c ?q'"
    using less by (auto simp: emptied_def cq_room_def cq_end_def
        dest!: set_update_subset_insert [THEN subsetD])
  ultimately show ?thesis
    using alloc_result_wf [OF assms] end' waiting_from_slot_wf [OF assms(1,2)]
    by (simp add: emptied_def)
qed


lemma alloc_ok:
  assumes "cq_ok q" and "ialloc q = cq_end q" and "siz \<le> length (store (bufs q ! slot q))"
  shows "\<exists>q'. alloc siz q = Inr (slot q, q') \<and> cq_ok q' \<and> ialloc q' = slot q \<and> ip q' = slot q \<and>
    cq_end q' = cq_end q \<and> iusing q' = iusing q \<and> reading q' = reading q \<and> writing q' = Some [] \<and>
    waiting q' = (if buf_empty (bufs q ! slot q) then waiting q else tl (waiting q)) \<and>
    (\<forall>c. cq_room c q \<longrightarrow> cq_room c q')"
  using alloc_ok_wf [of q siz] assms by (auto simp: cq_ok_reading)

text \<open>A buffer operation on the buffer being written.\<close>

lemma on_alloc_ok_wf:
  assumes "cq_wf q" and "ialloc q < cq_end q" and "f (bufs q ! ialloc q) = Inr b" and "buf_ok b"
  shows "\<exists>q'. on_buf (ialloc q) f q = Inr q' \<and> cq_wf q' \<and> ialloc q' = ialloc q \<and> ip q' = ip q \<and>
    cq_end q' = cq_end q \<and> iusing q' = iusing q \<and> reading q' = reading q \<and>
    writing q' = Some (contents b) \<and> waiting q' = waiting q \<and> bufs q' ! ialloc q = b \<and>
    (\<forall>c. cq_room c q \<longrightarrow> c \<le> length (store b) \<longrightarrow> cq_room c q')"
proof -
  let ?a = "ialloc q" and ?q' = "q\<lparr>bufs := (bufs q)[ialloc q := b]\<rparr>"
  have a: "?a = ip q" "?a \<noteq> iusing q" using assms(1,2) by (auto simp: cq_wf_def)
  have len: "?a < length (bufs q)" using assms(2) by (simp add: cq_end_def)
  have end': "cq_end ?q' = cq_end q" by (simp add: cq_end_def)
  have "cq_wf ?q'"
    using assms(1,4) a end'
    by (auto simp: cq_wf_def dest: set_update_subset_insert [THEN subsetD])
  moreover have "waiting ?q' = waiting q"
  proof -
    have r: "ring (ip q) (cq_end q) = [?a] @ [Suc ?a..<cq_end q] @ [0..<?a]"
      using a(1) assms(2) by (simp add: ring_Cons)
    have "frames ?q' ([Suc ?a..<cq_end q] @ [0..<?a]) = frames q ([Suc ?a..<cq_end q] @ [0..<?a])"
      by (intro frames_cong) auto
    moreover have "frames ?q' [?a] = frames q [?a]"
      by (simp add: frames_Cons usable_def)
    ultimately have "frames ?q' (ring (ip q) (cq_end q)) = frames q (ring (ip q) (cq_end q))"
      unfolding r by (simp only: frames_append)
    then show ?thesis by (simp add: waiting_frames cq_end_def)
  qed
  ultimately show ?thesis
    using assms a len end'
    by (simp add: on_buf_def reading_def writing_def cq_room_update)
qed

lemma on_alloc_ok:
  assumes "cq_ok q" and "ialloc q < cq_end q" and "f (bufs q ! ialloc q) = Inr b" and "buf_ok b"
  shows "\<exists>q'. on_buf (ialloc q) f q = Inr q' \<and> cq_ok q' \<and> ialloc q' = ialloc q \<and> ip q' = ip q \<and>
    cq_end q' = cq_end q \<and> iusing q' = iusing q \<and> reading q' = reading q \<and>
    writing q' = Some (contents b) \<and> waiting q' = waiting q \<and> bufs q' ! ialloc q = b \<and>
    (\<forall>c. cq_room c q \<longrightarrow> c \<le> length (store b) \<longrightarrow> cq_room c q')"
  using on_alloc_ok_wf [of q f b] assms by (auto simp: cq_ok_reading)

lemma done_alloc_ok_wf:
  assumes "cq_wf q" and "ialloc q < cq_end q" and "writing q = Some d"
  shows "\<exists>q'. done_with (ialloc q) q = Inr q' \<and> cq_wf q' \<and> ialloc q' = cq_end q' \<and>
    bufs q' = bufs q \<and> cq_end q' = cq_end q \<and> iusing q' = iusing q \<and> reading q' = reading q \<and>
    writing q' = None \<and> waiting q' = waiting q @ (if d = [] then [] else [d])"
proof -
  let ?a = "ialloc q"
  let ?q' = "q\<lparr>ip := incr q ?a, ialloc := cq_end q\<rparr>"
  have a: "?a = ip q" "?a \<noteq> iusing q" using assms(1,2) by (auto simp: cq_wf_def)
  have d: "d = contents (bufs q ! ?a)" using assms(2,3) by (simp add: writing_def)
  have bok: "buf_ok (bufs q ! ?a)" by (rule buf_ok_nth_wf [OF assms(1,2)])
  have i: "incr q ?a < cq_end q" by (rule incr_less [OF assms(2)])
  have "cq_wf ?q'" using assms(1) i by (auto simp: cq_wf_def)
  moreover have "waiting ?q' = waiting q @ (if d = [] then [] else [d])"
  proof -
    let ?r = "[Suc ?a..<cq_end q] @ [0..<?a]"
    have "waiting q = frames q [?a] @ frames q ?r"
      using a(1) assms(2) by (simp add: waiting_frames ring_Cons frames_Cons)
    then have w: "waiting q = frames q ?r" by (simp only: frames_skip_alloc append_Nil)
    have "waiting ?q' = frames ?q' ?r @ frames ?q' [?a]"
      using ring_incr [OF assms(2)] by (simp add: waiting_frames)
    also have "frames ?q' ?r = frames q ?r"
      using assms(2) by (intro frames_cong) auto
    also have "frames ?q' [?a] = (if d = [] then [] else [d])"
      using a d bok assms(2) by (simp add: frames_Cons usable_def buf_empty_contents)
    finally show ?thesis using w by simp
  qed
  ultimately show ?thesis
    using assms(2) a by (simp add: done_with_def reading_def writing_def)
qed


lemma done_alloc_ok:
  assumes "cq_ok q" and "ialloc q < cq_end q" and "writing q = Some d"
  shows "\<exists>q'. done_with (ialloc q) q = Inr q' \<and> cq_ok q' \<and> ialloc q' = cq_end q' \<and>
    bufs q' = bufs q \<and> cq_end q' = cq_end q \<and> iusing q' = iusing q \<and> reading q' = reading q \<and>
    writing q' = None \<and> waiting q' = waiting q @ (if d = [] then [] else [d])"
  using done_alloc_ok_wf [of q d] assms by (auto simp: cq_ok_reading)

lemma distinct_ring [simp]: "distinct (ring p n)"
  by (auto simp: ring_def)

lemma filter_tail:
  assumes "distinct xs" and "filter P xs = x # ys"
  shows "filter (\<lambda>i. P i \<and> i \<noteq> x) xs = ys"
proof -
  have "filter (\<lambda>i. P i \<and> i \<noteq> x) xs = filter (\<lambda>i. i \<noteq> x) (filter P xs)"
    by (simp add: conj_commute)
  also have "\<dots> = filter (\<lambda>i. i \<noteq> x) ys" using assms(2) by simp
  also have "\<dots> = ys"
    using distinct_filter [OF assms(1), of P] assms(2) by (auto simp: filter_id_conv)
  finally show ?thesis .
qed

lemma pending_usable:
  assumes "cq_ok q" and "iusing q = cq_end q"
  shows "pending q = filter (usable q) (ring (ip q) (cq_end q))"
proof -
  have "\<And>i. i \<in> set (ring (ip q) (cq_end q)) \<Longrightarrow> i \<noteq> iusing q"
    using assms by (auto simp: cq_ok_def)
  then show ?thesis unfolding pending_def by (intro filter_cong) auto
qed

lemma first_pending:
  assumes "cq_ok q" and "iusing q = cq_end q"
  shows "findusable q (ip q) (decr q (ip q)) =
    (case pending q of [] \<Rightarrow> cq_end q | i # _ \<Rightarrow> i)"
  using assms findusable_ring [of "ip q" q] pending_usable [OF assms]
  by (simp add: first_from_def cq_ok_def)

definition take_first :: "cq \<Rightarrow> nat \<times> cq" where
  "take_first q = (let j = findusable q (ip q) (decr q (ip q)) in (j, q\<lparr>iusing := j\<rparr>))"

lemma take_first_ok:
  assumes "cq_ok q" and "iusing q = cq_end q" and "take_first q = (j, q')"
  shows "cq_ok q' \<and> ialloc q' = ialloc q \<and> ip q' = ip q \<and> bufs q' = bufs q \<and> iusing q' = j \<and>
    writing q' = writing q \<and> waiting q' = tl (waiting q) \<and>
    (if waiting q = [] then j = cq_end q \<and> reading q' = None
     else j < cq_end q \<and> reading q' = Some (hd (waiting q)))"
proof -
  have q': "q' = q\<lparr>iusing := j\<rparr>" and j: "j = findusable q (ip q) (decr q (ip q))"
    using assms(3) by (auto simp: take_first_def Let_def)
  note jp = first_pending [OF assms(1,2)]
  show ?thesis
  proof (cases "pending q")
    case Nil
    then have "j = iusing q" using jp j assms(2) by simp
    then have "q' = q" using q' by simp
    then show ?thesis using Nil assms \<open>j = iusing q\<close> by (simp add: waiting_def reading_def)
  next
    case (Cons i r)
    then have ji: "j = i" using jp j by simp
    have fl: "filter (usable q) (ring (ip q) (cq_end q)) = i # r"
      using Cons pending_usable [OF assms(1,2)] by simp
    then have "i \<in> set (filter (usable q) (ring (ip q) (cq_end q)))" by simp
    then have i: "usable q i" "i < cq_end q" using assms(1) by (auto simp: cq_ok_def)
    have "pending q' = r"
      using filter_tail [OF distinct_ring fl] q' ji by (simp add: pending_def usable_def)
    then show ?thesis
      using i q' ji Cons assms(1) by (auto simp: cq_ok_def usable_def waiting_def reading_def writing_def)
  qed
qed

lemma wait_result:
  assumes "cq_ok q" and "iusing q = cq_end q"
  shows "wait m ms q = Inr (if waiting q = [] \<and> 0 < ms then take_first (m q) else take_first q)"
proof -
  let ?j = "findusable q (ip q) (decr q (ip q))"
  have tf: "take_first q = (?j, q\<lparr>iusing := ?j\<rparr>)" by (simp add: take_first_def Let_def)
  from take_first_ok [OF assms tf] have "?j = cq_end q \<longleftrightarrow> waiting q = []"
    by (auto split: if_splits)
  then show ?thesis using assms(2) tf by (simp add: wait_def take_first_def Let_def)
qed

lemma done_using_ok:
  assumes "cq_ok q" and "iusing q < cq_end q"
  shows "\<exists>q'. done_with (iusing q) q = Inr q' \<and> cq_ok q' \<and> ialloc q' = ialloc q \<and> ip q' = ip q \<and>
    cq_end q' = cq_end q \<and> iusing q' = cq_end q' \<and> reading q' = None \<and> writing q' = writing q \<and>
    waiting q' = waiting q \<and> (\<forall>c. cq_room c q \<longrightarrow> cq_room c q')"
proof -
  let ?u = "iusing q" and ?q' = "(emptied (iusing q) q)\<lparr>iusing := cq_end q\<rparr>"
  have bok: "buf_ok (bufs q ! ?u)" by (rule buf_ok_nth [OF assms])
  have ne: "?u \<noteq> ialloc q" using assms by (auto simp: cq_ok_def)
  have len: "?u < length (bufs q)" using assms(2) by (simp add: cq_end_def)
  have end': "cq_end ?q' = cq_end q" by (simp add: emptied_def cq_end_def)
  have eq: "done_with ?u q = Inr ?q'"
    using ne consume_all [OF bok] assms(2) by (simp add: done_with_def on_buf_def emptied_def cq_end_def)
  have bok': "buf_ok ((bufs q ! ?u)\<lparr>used := 0\<rparr>)" using bok by (simp add: buf_ok_def)
  have "cq_ok ?q'"
    using assms(1) bok' end'
    by (auto simp: cq_ok_def emptied_def dest: set_update_subset_insert [THEN subsetD])
  moreover have "waiting ?q' = waiting q"
  proof -
    have "usable ?q' i \<and> i \<noteq> iusing ?q' \<longleftrightarrow> usable q i \<and> i \<noteq> iusing q" if "i < cq_end q" for i
      using that len by (cases "i = ?u") (auto simp: usable_def emptied_def buf_empty_def)
    then have "pending ?q' = pending q"
      using assms(1) unfolding pending_def end' by (intro filter_cong) (auto simp: emptied_def cq_ok_def)
    moreover have "map (\<lambda>i. contents (bufs ?q' ! i)) (pending q) = waiting q"
      unfolding waiting_def by (intro map_cong) (auto simp: emptied_def pending_def)
    ultimately show ?thesis by (simp add: waiting_def)
  qed
  moreover have "\<forall>c. cq_room c q \<longrightarrow> cq_room c ?q'"
    using len by (auto simp: emptied_def cq_room_def dest!: set_update_subset_insert [THEN subsetD])
  ultimately show ?thesis
    using eq end' ne by (simp add: reading_def writing_def emptied_def)
qed

lemma fail_using_ok:
  assumes "cq_ok q" and "iusing q < cq_end q"
  shows "\<exists>q'. fail_with (iusing q) q = Inr q' \<and> cq_ok q' \<and> ialloc q' = ialloc q \<and> ip q' = ip q \<and>
    bufs q' = bufs q \<and> iusing q' = cq_end q' \<and> reading q' = None \<and> writing q' = writing q"
proof -
  have "iusing q \<noteq> ialloc q" using assms by (auto simp: cq_ok_def)
  then show ?thesis using assms
    by (auto simp: fail_with_def cq_ok_def reading_def writing_def cq_end_def)
qed

lemma fail_alloc_ok:
  assumes "cq_ok q" and "ialloc q < cq_end q"
  shows "\<exists>q'. fail_with (ialloc q) q = Inr q' \<and> cq_ok q' \<and> ialloc q' = cq_end q' \<and> ip q' = ip q \<and>
    bufs q' = bufs q \<and> iusing q' = iusing q \<and> reading q' = reading q \<and> writing q' = None"
  using assms by (auto simp: fail_with_def cq_ok_def reading_def writing_def cq_end_def)


subsection \<open>The two threads\<close>

text \<open>
  The steps of the thread that fills the buffers, in any order: \<open>alloc\<close>, writing into the
  buffer it got, \<open>done\<close> or \<open>fail\<close> on it. \<open>done\<close> is one step here, for a reader that holds a
  frame and does not look at the members \<open>done\<close> assigns; \<open>Queue_Threads\<close> has its assignments,
  and those of a search, as steps of their own.
\<close>

inductive producer_step :: "cq \<Rightarrow> cq \<Rightarrow> bool" where
  prod_alloc: "alloc siz q = Inr (j, q') \<Longrightarrow> producer_step q q'"
| prod_put: "on_buf (ialloc q) (put d) q = Inr q' \<Longrightarrow> producer_step q q'"
| prod_done: "ialloc q < cq_end q \<Longrightarrow> done_with (ialloc q) q = Inr q' \<Longrightarrow> producer_step q q'"
| prod_fail: "ialloc q < cq_end q \<Longrightarrow> fail_with (ialloc q) q = Inr q' \<Longrightarrow> producer_step q q'"

inductive_cases producer_stepE: "producer_step q q'"

lemma alloc_Inr_wf:
  assumes "cq_wf q" and "alloc siz q = Inr (j, q')"
  shows "ialloc q = cq_end q \<and> siz \<le> length (store (bufs q ! slot q))"
proof -
  let ?q1 = "if ip q = iusing q then q\<lparr>ip := incr q (ip q)\<rparr> else q"
  have s: "ip ?q1 = slot q" "bufs ?q1 = bufs q" "cq_end ?q1 = cq_end q"
    by (simp_all add: slot_def cq_end_def)
  have less: "slot q < cq_end q" using slot_less_wf assms(1) by auto
  then have len: "slot q < length (bufs q)" by (simp add: cq_end_def)
  have bok: "buf_ok (bufs q ! slot q)" by (rule buf_ok_nth_wf [OF assms(1) less])
  then have bok': "buf_ok ((bufs q ! slot q)\<lparr>used := 0\<rparr>)" by (simp add: buf_ok_def)
  have a: "ialloc q = cq_end q" using assms(2) by (auto simp: alloc_def split: if_splits)
  let ?q2 = "?q1\<lparr>bufs := (bufs q)[slot q := (bufs q ! slot q)\<lparr>used := 0\<rparr>]\<rparr>"
  have "on_buf (ip ?q1) (\<lambda>b. consume (used b) b) ?q1 = Inr ?q2"
    using s less consume_all [OF bok] by (simp add: on_buf_def)
  then have "\<exists>q3. on_buf (ip ?q2) (reserve siz) ?q2 = Inr q3"
    using assms(2) by (auto simp: alloc_def Let_def split: if_splits)
  then have "\<exists>b. reserve siz ((bufs q ! slot q)\<lparr>used := 0\<rparr>) = Inr b"
    using s len by (auto simp: on_buf_def split: if_splits)
  then have "siz \<le> length (store (bufs q ! slot q))"
    using capacity_ok [OF bok'] by (auto simp: reserve_def split: if_splits)
  with a show ?thesis by simp
qed

lemma alloc_Inr:
  assumes "cq_ok q" and "alloc siz q = Inr (j, q')"
  shows "ialloc q = cq_end q \<and> siz \<le> length (store (bufs q ! slot q))"
  using alloc_Inr_wf assms by (simp add: cq_ok_wf)

lemma on_buf_Inr:
  assumes "on_buf j f q = Inr q'"
  shows "j < cq_end q \<and> (\<exists>b. f (bufs q ! j) = Inr b \<and> q' = q\<lparr>bufs := (bufs q)[j := b]\<rparr>)"
  using assms by (auto simp: on_buf_def split: if_splits)

lemma producer_put_ok:
  assumes "cq_ok q" and "on_buf (ialloc q) (put d) q = Inr q'"
  shows "cq_ok q' \<and> ialloc q < cq_end q \<and> ialloc q' = ialloc q \<and> iusing q' = iusing q \<and>
    cq_end q' = cq_end q \<and> reading q' = reading q \<and> waiting q' = waiting q \<and>
    writing q' = Some (contents (bufs q ! ialloc q) @ d)"
proof -
  from on_buf_Inr [OF assms(2)] obtain b where
    b: "ialloc q < cq_end q" "put d (bufs q ! ialloc q) = Inr b" by auto
  note p = put_Inr [OF buf_ok_nth [OF assms(1) b(1)] b(2)]
  from on_alloc_ok [OF assms(1) b(1), of "put d" b] p assms(2) b show ?thesis by auto
qed

lemma producer_step_safe:
  assumes "cq_ok q" and "producer_step q q'"
  shows "cq_ok q' \<and> iusing q' = iusing q \<and> cq_end q' = cq_end q \<and> reading q' = reading q"
  using assms(2)
proof cases
  case (prod_alloc siz j)
  from alloc_ok [of q siz] alloc_Inr [OF assms(1) this] assms(1) this show ?thesis by auto
next
  case (prod_put d)
  from producer_put_ok [OF assms(1) this] show ?thesis by simp
next
  case prod_done
  from done_alloc_ok [OF assms(1) this(1)] this show ?thesis by (auto simp: writing_def)
next
  case prod_fail
  from fail_alloc_ok [OF assms(1) this(1)] this show ?thesis by (auto simp: cq_end_def)
qed

text \<open>
  What a reader of a frame may rely on, whatever the other thread does in the meantime:
  the frame it holds stays as it is.
\<close>

locale frame_source =
  fixes inv :: "'q \<Rightarrow> bool"
    and frame :: "'q \<Rightarrow> byte list option"
    and other :: "'q \<Rightarrow> 'q \<Rightarrow> bool"
  assumes other_inv: "inv q \<Longrightarrow> other q q' \<Longrightarrow> inv q'"
    and other_frame: "inv q \<Longrightarrow> other q q' \<Longrightarrow> frame q' = frame q"
begin

lemma others_keep: "other\<^sup>*\<^sup>* q q' \<Longrightarrow> inv q \<Longrightarrow> inv q' \<and> frame q' = frame q"
  by (induction rule: rtranclp_induct) (auto dest: other_inv other_frame)

end

interpretation producer: frame_source cq_ok reading producer_step
  by unfold_locales (auto dest: producer_step_safe)

lemma cq_new_ok:
  assumes "2 \<le> length bs" and "\<forall>b \<in> set bs. buf_ok b \<and> used b = 0"
  shows "cq_ok (cq_new bs)" "waiting (cq_new bs) = []" "reading (cq_new bs) = None"
    "writing (cq_new bs) = None"
  using assms by (auto simp: cq_ok_def cq_new_def cq_end_def waiting_def pending_def usable_def
      buf_empty_def reading_def writing_def filter_empty_conv)


subsection \<open>Properties of the queue\<close>

definition demo_queue :: cq where
  "demo_queue = cq_new [malloc_buf 2, malloc_buf 2]"

definition demo_full :: cq where
  "demo_full = \<lparr>bufs = [\<lparr>store = [7, 0], used = 1\<rparr>, \<lparr>store = [8, 9], used = 2\<rparr>],
     ip = 0, ialloc = 2, iusing = 2\<rparr>"

lemma demo_queue_ok: "cq_ok demo_queue" "cq_ok demo_full"
  by (auto simp: cq_ok_def demo_queue_def demo_full_def cq_new_def cq_end_def malloc_buf_def
      buf_ok_def)

text \<open>
  \<open>alloc\<close> gives the next buffer, empty and ready to be written; it is never the one
  being read (the exit with "gt1 using" cannot happen with two buffers or more).  Only when
  that buffer still holds a frame, that frame, the oldest one waiting, is given up.
\<close>

theorem alloc_overwrites_oldest:
  assumes "cq_ok q" and "ialloc q = cq_end q" and "siz \<le> length (store (bufs q ! slot q))"
  shows "\<exists>q'. alloc siz q = Inr (slot q, q') \<and> cq_ok q' \<and> slot q \<noteq> iusing q \<and>
    reading q' = reading q \<and> writing q' = Some [] \<and>
    waiting q' = (if buf_empty (bufs q ! slot q) then waiting q else tl (waiting q))"
  using alloc_ok [OF assms] slot_not_using [OF assms(1)] by auto

theorem alloc_overwrites_oldest_witness:
  "\<exists>q'. alloc 2 demo_full = Inr (slot demo_full, q') \<and> cq_ok q' \<and>
    slot demo_full \<noteq> iusing demo_full \<and> reading q' = reading demo_full \<and> writing q' = Some [] \<and>
    waiting q' = (if buf_empty (bufs demo_full ! slot demo_full) then waiting demo_full
      else tl (waiting demo_full))"
  by (rule alloc_overwrites_oldest [OF demo_queue_ok(2)])
    (simp_all add: demo_full_def cq_end_def slot_def)

text \<open>
  \<open>wait\<close> returns the oldest waiting frame, and \<open>end()\<close> only when none waits, after
  a second look if it was to wait and found none at first.
\<close>

theorem wait_takes_oldest:
  assumes "cq_ok q" and "iusing q = cq_end q"
    and "q1 = (if waiting q = [] \<and> 0 < ms then m q else q)"
    and "cq_ok q1" and "iusing q1 = cq_end q1"
  shows "\<exists>j q'. wait m ms q = Inr (j, q') \<and> cq_ok q' \<and> writing q' = writing q1 \<and>
    (case waiting q1 of
       [] \<Rightarrow> j = cq_end q1 \<and> reading q' = None \<and> waiting q' = []
     | f # fs \<Rightarrow> j < cq_end q1 \<and> reading q' = Some f \<and> waiting q' = fs)"
proof -
  obtain j q' where t: "take_first q1 = (j, q')" by fastforce
  from take_first_ok [OF assms(4,5) t] wait_result [OF assms(1,2), of m ms] assms(3) t
  show ?thesis by (cases "waiting q1") auto
qed

theorem wait_takes_oldest_witness:
  "\<exists>j q'. wait (\<lambda>_. demo_full) 5 demo_queue = Inr (j, q') \<and> cq_ok q' \<and>
    writing q' = writing demo_full \<and>
    (case waiting demo_full of
       [] \<Rightarrow> j = cq_end demo_full \<and> reading q' = None \<and> waiting q' = []
     | f # fs \<Rightarrow> j < cq_end demo_full \<and> reading q' = Some f \<and> waiting q' = fs)"
proof (rule wait_takes_oldest [OF demo_queue_ok(1)])
  have "waiting demo_queue = []" by code_simp
  then show "demo_full = (if waiting demo_queue = [] \<and> 0 < (5 :: nat) then demo_full else demo_queue)"
    by simp
qed (simp_all add: demo_queue_ok, simp_all add: demo_queue_def demo_full_def cq_new_def cq_end_def)

text \<open>
  the frame being read is safe: however many times the other thread allocates, writes,
  hands over or fails in the meantime, the reader sees the same bytes.
\<close>

theorem reader_frame_is_stable:
  assumes "cq_ok q" and "producer_step\<^sup>*\<^sup>* q q'"
  shows "reading q' = reading q \<and> cq_ok q'"
  using producer.others_keep [OF assms(2,1)] by simp

theorem reader_frame_is_stable_witness:
  "reading (demo_full\<lparr>bufs := [\<lparr>store = [7, 0], used = 1\<rparr>, \<lparr>store = [8, 9], used = 0\<rparr>],
      ip := 1, ialloc := 1, iusing := 0\<rparr>) = reading (demo_full\<lparr>iusing := 0\<rparr>) \<and>
   cq_ok (demo_full\<lparr>bufs := [\<lparr>store = [7, 0], used = 1\<rparr>, \<lparr>store = [8, 9], used = 0\<rparr>],
      ip := 1, ialloc := 1, iusing := 0\<rparr>)"
proof (rule reader_frame_is_stable)
  show "cq_ok (demo_full\<lparr>iusing := 0\<rparr>)"
    using demo_queue_ok(2) by (simp add: cq_ok_def demo_full_def cq_end_def buf_empty_def)
  have "alloc 2 (demo_full\<lparr>iusing := 0\<rparr>) = Inr (1, demo_full\<lparr>bufs := [\<lparr>store = [7, 0], used = 1\<rparr>,
      \<lparr>store = [8, 9], used = 0\<rparr>], ip := 1, ialloc := 1, iusing := 0\<rparr>)"
    by code_simp
  then show "producer_step\<^sup>*\<^sup>* (demo_full\<lparr>iusing := 0\<rparr>) (demo_full\<lparr>bufs := [\<lparr>store = [7, 0],
      used = 1\<rparr>, \<lparr>store = [8, 9], used = 0\<rparr>], ip := 1, ialloc := 1, iusing := 0\<rparr>)"
    by (intro r_into_rtranclp prod_alloc)
qed

text \<open>
  \<open>fail\<close> on the buffer being written does not empty it, so what was written so far
  becomes a waiting frame, ahead of all others.
\<close>

theorem fail_alloc_leaves_frame:
  assumes "cq_ok q" and "writing q = Some d" and "d \<noteq> []"
  shows "\<exists>q'. fail_with (ialloc q) q = Inr q' \<and> waiting q' = d # waiting q"
proof -
  have a: "ialloc q < cq_end q" using assms(2) by (auto simp: writing_def split: if_splits)
  then have i: "ialloc q = ip q" "ialloc q \<noteq> iusing q" using assms(1) by (auto simp: cq_ok_def)
  let ?q' = "q\<lparr>ialloc := cq_end q\<rparr>" and ?r = "[Suc (ip q)..<cq_end q] @ [0..<ip q]"
  have d: "d = contents (bufs q ! ip q)" using assms(2) a i(1) by (simp add: writing_def)
  have "waiting q = frames q [ialloc q] @ frames q ?r"
    using i(1) a by (simp add: waiting_frames ring_Cons frames_Cons)
  then have w: "waiting q = frames q ?r" by (simp only: frames_skip_alloc append_Nil)
  have "waiting ?q' = frames ?q' [ip q] @ frames ?q' ?r"
    using i(1) a by (simp add: waiting_frames ring_Cons frames_Cons)
  also have "frames ?q' ?r = frames q ?r" using i(1) a by (intro frames_cong) auto
  also have "frames ?q' [ip q] = [d]"
    using i a d assms(3) buf_ok_nth [OF assms(1) a]
    by (simp add: frames_Cons usable_def buf_empty_contents)
  finally show ?thesis using w i a by (simp add: fail_with_def)
qed

theorem fail_alloc_leaves_frame_witness:
  "\<exists>q'. fail_with (ialloc (demo_full\<lparr>ialloc := 0\<rparr>)) (demo_full\<lparr>ialloc := 0\<rparr>) = Inr q' \<and>
    waiting q' = [7] # waiting (demo_full\<lparr>ialloc := 0\<rparr>)"
  by (rule fail_alloc_leaves_frame)
    (simp_all add: demo_full_def cq_ok_def cq_end_def writing_def contents_def buf_ok_def)

end
