(* ===== verification/Queue_Threads.thy ===== *)
theory Queue_Threads
  imports Cycle_Queue "HOL-Library.Multiset"
begin

section \<open>Two threads at the frame queue (network/epoll/buffer.hpp)\<close>

text \<open>
  \<open>alloc\<close> and \<open>wait\<close> hold the mutex, \<open>done\<close> and \<open>fail\<close> do not: the assignments of \<open>done\<close> can
  fall between any two looks of a search. Here each read and each assignment that the other
  thread can see is a step. A member is read and written as a whole and in program order.
  \<open>alloc\<close> is one step: \<open>wait\<close> is kept out by the mutex, and the other thread outside of
  \<open>wait\<close> writes only the buffer it reads and, at the end, \<open>iusing_\<close>, which \<open>alloc\<close> looks at
  once before it changes anything (a second look can only see that it has moved away). A wait
  for the condition variable gives the mutex back between two searches, so it is two of them.
\<close>

datatype reader_stage = Outside | Has_begin nat | Has_end nat | Looking nat nat | Giving_back

text \<open>
  \<open>th_writer\<close> is the buffer whose \<open>done\<close> has assigned \<open>ip_\<close> and not yet \<open>ialloc_\<close>;
  \<open>th_in\<close> and \<open>th_out\<close> are the frames handed over and the frames taken so far.
\<close>

record threads =
  th_queue :: cq
  th_writer :: "nat option"
  th_reader :: reader_stage
  th_in :: "byte list list"
  th_out :: "byte list list"

datatype event = Alloc | Write | Advance | Publish | Read_ip | Read_other | Look | Empty_buffer | Release | Give_up

definition searching :: "threads \<Rightarrow> bool" where
  "searching s = (case th_reader s of Outside \<Rightarrow> False | Giving_back \<Rightarrow> False | _ \<Rightarrow> True)"

definition threads_new :: "buffer list \<Rightarrow> threads" where
  "threads_new bs = \<lparr>th_queue = cq_new bs, th_writer = None, th_reader = Outside, th_in = [], th_out = []\<rparr>"

text \<open>One look of \<open>_findusable\<close>, and the assignment of its result.\<close>

definition look :: "nat \<Rightarrow> nat \<Rightarrow> threads \<Rightarrow> threads" where
  "look p e s =
     (let q = th_queue s in
      if usable q p then s\<lparr>th_queue := q\<lparr>iusing := p\<rparr>, th_reader := Outside, th_out := th_out s @ [contents (bufs q ! p)]\<rparr>
      else if p \<noteq> e then s\<lparr>th_reader := Looking (incr q p) e\<rparr>
      else s\<lparr>th_queue := q\<lparr>iusing := cq_end q\<rparr>, th_reader := Outside\<rparr>)"

text \<open>The two assignments of \<open>done\<close> on the buffer that was written, and those on the one that was read.\<close>

definition advance :: "cq \<Rightarrow> cq outcome" where
  "advance q = (if ip q \<noteq> ialloc q then Inl (Err_exit ''fatal'') else Inr (q\<lparr>ip := incr q (ialloc q)\<rparr>))"

definition publish :: "cq \<Rightarrow> cq" where
  "publish q = q\<lparr>ialloc := cq_end q\<rparr>"

definition give_back :: "cq \<Rightarrow> cq outcome" where
  "give_back q = on_buf (iusing q) (\<lambda>b. consume (used b) b) q"

text \<open>The writer writes whatever it likes, but only into its buffer; the order of the arguments of a search is open.\<close>

inductive queue_step :: "event \<Rightarrow> threads \<Rightarrow> threads \<Rightarrow> bool" where
  t_alloc: "th_writer s = None \<Longrightarrow> \<not> searching s \<Longrightarrow> alloc siz (th_queue s) = Inr (j, q') \<Longrightarrow>
    queue_step Alloc s (s\<lparr>th_queue := q'\<rparr>)"
| t_write: "th_writer s = None \<Longrightarrow> ialloc (th_queue s) < cq_end (th_queue s) \<Longrightarrow>
    used b \<le> length (store b) \<Longrightarrow> length (store b) = length (store (bufs (th_queue s) ! ialloc (th_queue s))) \<Longrightarrow>
    queue_step Write s (s\<lparr>th_queue := (th_queue s)\<lparr>bufs := (bufs (th_queue s))[ialloc (th_queue s) := b]\<rparr>\<rparr>)"
| t_advance: "th_writer s = None \<Longrightarrow> ialloc (th_queue s) < cq_end (th_queue s) \<Longrightarrow> advance (th_queue s) = Inr q' \<Longrightarrow>
    queue_step Advance s (s\<lparr>th_queue := q', th_writer := Some (ialloc (th_queue s))\<rparr>)"
| t_publish: "th_writer s = Some j \<Longrightarrow>
    queue_step Publish s (s\<lparr>th_queue := publish (th_queue s), th_writer := None,
      th_in := th_in s @ [contents (bufs (th_queue s) ! j)]\<rparr>)"
| t_begin: "th_reader s = Outside \<Longrightarrow> iusing (th_queue s) = cq_end (th_queue s) \<Longrightarrow>
    queue_step Read_ip s (s\<lparr>th_reader := Has_begin (ip (th_queue s))\<rparr>)"
| t_begin': "th_reader s = Outside \<Longrightarrow> iusing (th_queue s) = cq_end (th_queue s) \<Longrightarrow>
    queue_step Read_ip s (s\<lparr>th_reader := Has_end (decr (th_queue s) (ip (th_queue s)))\<rparr>)"
| t_args: "th_reader s = Has_begin p \<Longrightarrow>
    queue_step Read_other s (s\<lparr>th_reader := Looking p (decr (th_queue s) (ip (th_queue s)))\<rparr>)"
| t_args': "th_reader s = Has_end e \<Longrightarrow> queue_step Read_other s (s\<lparr>th_reader := Looking (ip (th_queue s)) e\<rparr>)"
| t_look: "th_reader s = Looking p e \<Longrightarrow> queue_step Look s (look p e s)"
| t_empty: "th_reader s = Outside \<Longrightarrow> iusing (th_queue s) < cq_end (th_queue s) \<Longrightarrow> give_back (th_queue s) = Inr q' \<Longrightarrow>
    queue_step Empty_buffer s (s\<lparr>th_queue := q', th_reader := Giving_back\<rparr>)"
| t_release: "th_reader s = Giving_back \<Longrightarrow>
    queue_step Release s (s\<lparr>th_queue := (th_queue s)\<lparr>iusing := cq_end (th_queue s)\<rparr>, th_reader := Outside\<rparr>)"
| t_fail: "th_reader s = Outside \<Longrightarrow> iusing (th_queue s) < cq_end (th_queue s) \<Longrightarrow>
    fail_with (iusing (th_queue s)) (th_queue s) = Inr q' \<Longrightarrow> queue_step Give_up s (s\<lparr>th_queue := q'\<rparr>)"

text \<open>
  A step of a calm run: \<open>done\<close> hands nothing over while a search is under way (it may be half
  done before the search and completed after it), and the reader does not \<open>fail\<close>.
\<close>

definition calm_step :: "threads \<Rightarrow> threads \<Rightarrow> bool" where
  "calm_step s t \<longleftrightarrow> (\<exists>l. queue_step l s t \<and> l \<noteq> Give_up \<and> (l = Advance \<or> l = Publish \<longrightarrow> \<not> searching s))"

subsection \<open>The steps together are the operations\<close>

lemma done_two_steps:
  "ialloc q < cq_end q \<Longrightarrow> done_with (ialloc q) q = bind_ok (advance q) (\<lambda>q1. Inr (publish q1))"
  by (auto simp: done_with_def advance_def publish_def)

lemma give_back_two_steps:
  assumes "cq_ok q" "iusing q < cq_end q"
  shows "done_with (iusing q) q = bind_ok (give_back q) (\<lambda>q1. Inr (q1\<lparr>iusing := cq_end q1\<rparr>))"
  using assms by (auto simp: done_with_def give_back_def cq_ok_def)

subsection \<open>The invariant of calm runs\<close>

text \<open>The queue as it was before a half-done \<open>done\<close>.\<close>

definition settled :: "threads \<Rightarrow> cq" where
  "settled s = (case th_writer s of None \<Rightarrow> th_queue s | Some j \<Rightarrow> (th_queue s)\<lparr>ip := j\<rparr>)"

text \<open>What holds in every run without \<open>fail\<close>: the frames taken and those waiting were all handed over.\<close>

definition writer_ok :: "threads \<Rightarrow> bool" where
  "writer_ok s \<longleftrightarrow> (case th_writer s of None \<Rightarrow> True
     | Some j \<Rightarrow> ialloc (th_queue s) = j \<and> j < cq_end (th_queue s) \<and> ip (th_queue s) = incr (th_queue s) j)"

definition reader_ok :: "threads \<Rightarrow> bool" where
  "reader_ok s \<longleftrightarrow>
     (case th_reader s of
        Outside \<Rightarrow> reading (th_queue s) \<noteq> Some []
      | Giving_back \<Rightarrow> reading (th_queue s) = Some []
      | Has_begin p \<Rightarrow> iusing (th_queue s) = cq_end (th_queue s) \<and> p < cq_end (th_queue s)
      | Has_end e \<Rightarrow> iusing (th_queue s) = cq_end (th_queue s) \<and> e < cq_end (th_queue s)
      | Looking p e \<Rightarrow> iusing (th_queue s) = cq_end (th_queue s) \<and> p < cq_end (th_queue s) \<and> e < cq_end (th_queue s))"

definition threads_ok :: "threads \<Rightarrow> bool" where
  "threads_ok s \<longleftrightarrow> cq_wf (settled s) \<and> writer_ok s \<and> reader_ok s"

definition frames_known :: "threads \<Rightarrow> bool" where
  "frames_known s \<longleftrightarrow> mset (th_out s @ waiting (settled s)) \<subseteq># mset (th_in s)"

text \<open>What holds in calm runs besides: the search ends where a search of the moment would end.\<close>

definition in_order :: "threads \<Rightarrow> bool" where
  "in_order s \<longleftrightarrow> subseq (th_out s @ waiting (settled s)) (th_in s) \<and>
     (case th_reader s of
        Has_begin p \<Rightarrow> p = ip (th_queue s)
      | Has_end e \<Rightarrow> e = decr (th_queue s) (ip (th_queue s))
      | Looking p e \<Rightarrow> findusable (th_queue s) p e =
          findusable (th_queue s) (ip (th_queue s)) (decr (th_queue s) (ip (th_queue s)))
      | _ \<Rightarrow> True)"

lemma settled_simps [simp]:
  "settled (s\<lparr>th_reader := r\<rparr>) = settled s" "settled (s\<lparr>th_in := i\<rparr>) = settled s" "settled (s\<lparr>th_out := i\<rparr>) = settled s"
  by (simp_all add: settled_def split: option.split)

lemma writer_ok_reader [simp]: "writer_ok (s\<lparr>th_reader := r\<rparr>) = writer_ok s"
  by (simp add: writer_ok_def split: option.split)

lemma settled_None: "th_writer s = None \<Longrightarrow> settled s = th_queue s"
  by (simp add: settled_def)

lemma settled_fields [simp]:
  "bufs (settled s) = bufs (th_queue s)" "iusing (settled s) = iusing (th_queue s)" "ialloc (settled s) = ialloc (th_queue s)"
  "cq_end (settled s) = cq_end (th_queue s)" "reading (settled s) = reading (th_queue s)"
  by (simp_all add: settled_def cq_end_def reading_def split: option.split)

lemma usable_settled [simp]: "usable (settled s) = usable (th_queue s)"
  by (simp add: usable_def fun_eq_iff)

lemma decr_less: "p < cq_end q \<Longrightarrow> decr q p < cq_end q"
  by (auto simp: decr_def)

lemma threads_ok_ip: "threads_ok s \<Longrightarrow> ip (th_queue s) < cq_end (th_queue s)"
  by (auto simp: threads_ok_def writer_ok_def settled_def cq_wf_def intro: incr_less split: option.splits)

text \<open>A search that ends between the two assignments finds what it would have found before them.\<close>

lemma search_settled:
  assumes "threads_ok s"
  shows "findusable (th_queue s) (ip (th_queue s)) (decr (th_queue s) (ip (th_queue s))) =
    findusable (settled s) (ip (settled s)) (decr (settled s) (ip (settled s)))"
proof (cases "th_writer s")
  case None
  then show ?thesis by (simp add: settled_def)
next
  case (Some j)
  let ?q = "th_queue s" and ?n = "cq_end (th_queue s)"
  have j: "ialloc ?q = j" "j < ?n" "ip ?q = incr ?q j" "ip (settled s) = j"
    using assms Some by (auto simp: threads_ok_def writer_ok_def settled_def)
  have "\<not> usable ?q j" using j(1) by (simp add: usable_def)
  then have "first_from ?q (ring (incr ?q j) ?n) = first_from (settled s) (ring j ?n)"
    using ring_incr [OF j(2)] ring_Cons [OF j(2)] by (simp add: first_from_def split: list.split)
  then show ?thesis
    using findusable_ring [of "ip ?q" ?q] findusable_ring [of "ip (settled s)" "settled s"] j incr_less [OF j(2)] by simp
qed

lemma findusable_cong:
  assumes "\<And>i. i < cq_end q \<Longrightarrow> usable q' i = usable q i" and "cq_end q' = cq_end q"
  shows "findusable q' p e = findusable q p e"
  using assms
proof (induction q p e rule: findusable.induct)
  case (1 q p e)
  then show ?case
    by (simp add: findusable.simps [of q p e] findusable.simps [of q' p e] incr_def)
qed

lemma threads_ok_new:
  assumes "2 \<le> length bs" and "\<forall>b \<in> set bs. buf_ok b \<and> used b = 0"
  shows "threads_ok (threads_new bs)" "frames_known (threads_new bs)" "in_order (threads_new bs)"
  using cq_new_ok [OF assms]
  by (simp_all add: threads_ok_def frames_known_def in_order_def writer_ok_def reader_ok_def threads_new_def
      settled_def cq_ok_reading)

subsection \<open>What a step does to the frames\<close>

definition moves_on :: "threads \<Rightarrow> threads \<Rightarrow> bool" where
  "moves_on s t \<longleftrightarrow>
     (let w = waiting (settled s); w' = waiting (settled t) in
      th_in t = th_in s \<and> (w' = w \<or> w' = tl w) \<or>
      (\<exists>d. th_in t = th_in s @ [d] \<and> w' = w @ (if d = [] then [] else [d])))"

lemma tl_subseq: "subseq (tl w) w"
  by (cases w) (simp_all add: list_emb_Cons)

lemma subseq_mset: "subseq xs ys \<Longrightarrow> mset xs \<subseteq># mset ys"
  by (induction rule: list_emb.induct) (auto intro: subset_mset.order_trans)

lemma moves_on_keeps:
  assumes "moves_on s t" and "th_out t = th_out s"
  shows "frames_known s \<Longrightarrow> frames_known t"
    and "subseq (th_out s @ waiting (settled s)) (th_in s) \<Longrightarrow> subseq (th_out t @ waiting (settled t)) (th_in t)"
proof -
  let ?w = "waiting (settled s)"
  have tl: "subseq (th_out s @ tl ?w) (th_out s @ ?w)" by (simp add: subseq_append' tl_subseq)
  then have tlm: "mset (th_out s @ tl ?w) \<subseteq># mset (th_out s @ ?w)" by (rule subseq_mset)
  have mono: "mset (th_out s @ ?w @ v) \<subseteq># mset (th_in s @ d)" if "frames_known s" "mset v \<subseteq># mset d" for v d
    using subset_mset.add_mono [OF that(1) [unfolded frames_known_def] that(2)] by (simp add: add.assoc)
  show "frames_known t" if k: "frames_known s"
  proof -
    have "mset (th_out s @ tl ?w) \<subseteq># mset (th_in s)"
      using k tlm unfolding frames_known_def by (rule subset_mset.order_trans [rotated])
    moreover have "mset (th_out s @ ?w @ (if d = [] then [] else [d])) \<subseteq># mset (th_in s @ [d])" for d
      by (rule mono [OF k]) simp
    ultimately show ?thesis
      using assms k unfolding moves_on_def frames_known_def Let_def by (elim disjE conjE exE) (simp_all only: append_assoc)
  qed
  show "subseq (th_out t @ waiting (settled t)) (th_in t)" if "subseq (th_out s @ ?w) (th_in s)"
    using assms that subseq_order.order_trans [OF tl that] list_emb_append_mono [OF that]
    unfolding moves_on_def Let_def by auto
qed

lemma alloc_step:
  assumes "threads_ok s" and "th_writer s = None" and "\<not> searching s" and "alloc siz (th_queue s) = Inr (j, q')"
  shows "threads_ok (s\<lparr>th_queue := q'\<rparr>) \<and> moves_on s (s\<lparr>th_queue := q'\<rparr>)"
proof -
  let ?q = "th_queue s"
  have wf: "cq_wf ?q" using assms(1,2) by (simp add: threads_ok_def settled_None)
  note a = alloc_Inr_wf [OF wf assms(4)]
  have e: "cq_wf q'" "cq_end q' = cq_end ?q" "iusing q' = iusing ?q" "reading q' = reading ?q"
      "waiting q' = waiting ?q \<or> waiting q' = tl (waiting ?q)"
    using alloc_ok_wf [OF wf, of siz] a assms(4) by (auto split: if_splits)
  then show ?thesis
    using assms(1-3)
    by (auto simp: threads_ok_def moves_on_def settled_def writer_ok_def reader_ok_def searching_def split: reader_stage.splits)
qed

lemma write_step:
  assumes "threads_ok s" and "th_writer s = None" and "ialloc (th_queue s) < cq_end (th_queue s)" and "buf_ok b"
    and "q' = (th_queue s)\<lparr>bufs := (bufs (th_queue s))[ialloc (th_queue s) := b]\<rparr>"
  shows "threads_ok (s\<lparr>th_queue := q'\<rparr>) \<and> moves_on s (s\<lparr>th_queue := q'\<rparr>) \<and>
    findusable q' p e = findusable (th_queue s) p e"
proof -
  let ?q = "th_queue s"
  have wf: "cq_wf ?q" using assms(1,2) by (simp add: threads_ok_def settled_None)
  have "on_buf (ialloc ?q) (\<lambda>_. Inr b) ?q = Inr q'" using assms(3,5) by (simp add: on_buf_def)
  then have e: "cq_wf q'" "cq_end q' = cq_end ?q" "iusing q' = iusing ?q" "reading q' = reading ?q"
      "waiting q' = waiting ?q" using on_alloc_ok_wf [OF wf assms(3) refl assms(4)] by auto
  have "findusable q' p e = findusable ?q p e"
    using assms(5) e(2) by (intro findusable_cong) (auto simp: usable_def nth_list_update)
  then show ?thesis
    using assms(1,2) e
    by (auto simp: threads_ok_def moves_on_def settled_def writer_ok_def reader_ok_def split: reader_stage.splits)
qed

lemma advance_step:
  assumes "threads_ok s" and "th_writer s = None" and "ialloc (th_queue s) < cq_end (th_queue s)"
    and "advance (th_queue s) = Inr q'"
  shows "threads_ok (s\<lparr>th_queue := q', th_writer := Some (ialloc (th_queue s))\<rparr>) \<and>
    settled (s\<lparr>th_queue := q', th_writer := Some (ialloc (th_queue s))\<rparr>) = settled s"
proof -
  let ?q = "th_queue s" and ?t = "s\<lparr>th_queue := q', th_writer := Some (ialloc (th_queue s))\<rparr>"
  have a: "ip ?q = ialloc ?q" "q' = ?q\<lparr>ip := incr ?q (ialloc ?q)\<rparr>"
    using assms(4) by (auto simp: advance_def split: if_splits)
  have se: "settled ?t = settled s" using a assms(2) by (simp add: settled_def)
  have "reading q' = reading ?q" "iusing q' = iusing ?q" "cq_end q' = cq_end ?q"
    using a(2) by (simp_all add: reading_def)
  then have "reader_ok ?t" using assms(1) by (auto simp: threads_ok_def reader_ok_def split: reader_stage.splits)
  moreover have "writer_ok ?t" using a assms(3) by (simp add: writer_ok_def incr_def)
  ultimately show ?thesis using assms(1) se by (simp add: threads_ok_def)
qed

lemma publish_step:
  assumes "threads_ok s" and "th_writer s = Some j"
    and "t = s\<lparr>th_queue := publish (th_queue s), th_writer := None,
      th_in := th_in s @ [contents (bufs (th_queue s) ! j)]\<rparr>"
  shows "threads_ok t \<and> moves_on s t"
proof -
  let ?q = "th_queue s" and ?z = "settled s" and ?d = "contents (bufs (th_queue s) ! j)"
  have w: "ialloc ?q = j" "j < cq_end ?q" "ip ?q = incr ?q j" and wf: "cq_wf ?z"
    using assms(1,2) by (auto simp: threads_ok_def writer_ok_def)
  have ip0: "ip ?z = j" using assms(2) by (simp add: settled_def)
  have q0: "?z = ?q\<lparr>ip := j\<rparr>" using assms(2) by (simp add: settled_def)
  have "done_with j (?q\<lparr>ip := j\<rparr>) = Inr (publish ?q)"
    using w by (auto simp: done_with_def publish_def incr_def intro!: cq.equality)
  then have "done_with (ialloc ?z) ?z = Inr (publish ?q)" using q0 w(1) by simp
  moreover have "writing ?z = Some ?d" using w by (simp add: writing_def)
  ultimately have e: "cq_wf (publish ?q)" "reading (publish ?q) = reading ?z"
      "waiting (publish ?q) = waiting ?z @ (if ?d = [] then [] else [?d])"
    using done_alloc_ok_wf [OF wf, of ?d] w by auto
  have se: "settled t = publish ?q" using assms(3) by (simp add: settled_def)
  have "reader_ok t" using assms(1,3) e(2)
    by (auto simp: threads_ok_def reader_ok_def publish_def cq_end_def split: reader_stage.splits)
  then have "threads_ok t" using e(1) se assms(3) by (simp add: threads_ok_def writer_ok_def)
  moreover have "th_in t = th_in s @ [?d]" using assms(3) by simp
  ultimately show ?thesis using e(3) se unfolding moves_on_def Let_def by auto
qed

lemma empty_step:
  assumes "threads_ok s" and "th_reader s = Outside" and "iusing (th_queue s) < cq_end (th_queue s)"
    and "give_back (th_queue s) = Inr q'" and "t = s\<lparr>th_queue := q', th_reader := Giving_back\<rparr>"
  shows "threads_ok t \<and> waiting (settled t) = waiting (settled s) \<and> q' = emptied (iusing (th_queue s)) (th_queue s)"
proof -
  let ?q = "th_queue s" and ?u = "iusing (th_queue s)"
  have wf: "cq_wf (settled s)" using assms(1) by (simp add: threads_ok_def)
  have bok: "buf_ok (bufs ?q ! ?u)" using buf_ok_nth_wf [OF wf, of ?u] assms(3) by simp
  have q': "q' = emptied ?u ?q"
    using assms(3,4) consume_all [OF bok] by (simp add: give_back_def on_buf_def emptied_def)
  have se: "settled t = emptied ?u (settled s)"
    using assms(5) q' by (simp add: settled_def emptied_def split: option.split)
  have len: "?u < length (bufs ?q)" using assms(3) by (simp add: cq_end_def)
  have bok': "buf_ok ((bufs ?q ! ?u)\<lparr>used := 0\<rparr>)" using bok by (simp add: buf_ok_def)
  have "cq_wf (settled t)"
    using wf bok' unfolding se by (auto simp: cq_wf_def emptied_def cq_end_def dest: set_update_subset_insert [THEN subsetD])
  moreover have "writer_ok t" "reader_ok t"
    using assms(1,5) q' len by (auto simp: threads_ok_def writer_ok_def reader_ok_def emptied_def reading_def cq_end_def
        contents_def incr_def split: option.splits)
  moreover have "waiting (settled t) = waiting (settled s)"
  proof -
    have "frames (settled t) is = frames (settled s) is" for "is"
      unfolding se by (induction "is") (auto simp: frames_Cons usable_def emptied_def nth_list_update)
    then show ?thesis unfolding waiting_frames se by (simp add: emptied_def cq_end_def)
  qed
  ultimately show ?thesis using q' by (simp add: threads_ok_def)
qed

lemma release_step:
  assumes "threads_ok s" and "th_reader s = Giving_back"
    and "t = s\<lparr>th_queue := (th_queue s)\<lparr>iusing := cq_end (th_queue s)\<rparr>, th_reader := Outside\<rparr>"
  shows "threads_ok t \<and> waiting (settled t) = waiting (settled s)"
proof -
  let ?q = "th_queue s" and ?u = "iusing (th_queue s)"
  have wf: "cq_wf (settled s)" and u: "?u < cq_end ?q" "contents (bufs ?q ! ?u) = []"
    using assms(1,2) by (auto simp: threads_ok_def reader_ok_def reading_def split: if_splits)
  have e: "buf_empty (bufs ?q ! ?u)" using buf_ok_nth_wf [OF wf, of ?u] u buf_empty_contents by simp
  have se: "settled t = (settled s)\<lparr>iusing := cq_end ?q\<rparr>"
    using assms(3) by (simp add: settled_def split: option.split)
  have "cq_wf (settled t)" using wf unfolding se by (auto simp: cq_wf_def)
  moreover have "writer_ok t" "reader_ok t"
    using assms(1,3) by (auto simp: threads_ok_def writer_ok_def reader_ok_def reading_def incr_def cq_end_def split: option.splits)
  moreover have "waiting (settled t) = waiting (settled s)"
  proof -
    have "i < cq_end ?q \<Longrightarrow> usable ?q i \<and> i \<noteq> cq_end ?q \<longleftrightarrow> usable ?q i \<and> i \<noteq> ?u" for i
      using e by (auto simp: usable_def)
    then have "pending (settled t) = pending (settled s)"
      using wf unfolding pending_def se by (intro filter_cong) (auto simp: usable_def cq_wf_def)
    then show ?thesis by (simp add: waiting_def se)
  qed
  ultimately show ?thesis by (simp add: threads_ok_def)
qed

text \<open>Taking a usable buffer, whichever it is; a search of the moment takes the oldest.\<close>

lemma take_any:
  assumes "cq_wf q" and "iusing q = cq_end q" and "usable q p" and "p < cq_end q"
  shows "cq_wf (q\<lparr>iusing := p\<rparr>)" "reading (q\<lparr>iusing := p\<rparr>) = Some (contents (bufs q ! p))"
    "contents (bufs q ! p) \<noteq> []"
    "mset (waiting q) = add_mset (contents (bufs q ! p)) (mset (waiting (q\<lparr>iusing := p\<rparr>)))"
proof -
  have ok: "cq_ok q" using assms(1,2) by (simp add: cq_ok_wf)
  show "cq_wf (q\<lparr>iusing := p\<rparr>)" using assms by (auto simp: cq_wf_def usable_def)
  show "reading (q\<lparr>iusing := p\<rparr>) = Some (contents (bufs q ! p))" using assms(4) by (simp add: reading_def)
  show "contents (bufs q ! p) \<noteq> []"
    using assms(3) buf_empty_contents [OF buf_ok_nth [OF ok assms(4)]] by (simp add: usable_def)
  note pu = pending_usable [OF ok assms(2)]
  have in_p: "p \<in> set (pending q)" and d: "distinct (pending q)"
    using ok assms(3,4) distinct_ring unfolding pu by (auto simp: cq_ok_def)
  have "pending (q\<lparr>iusing := p\<rparr>) = filter (\<lambda>i. p \<noteq> i) (pending q)"
    unfolding pu by (auto simp: pending_def usable_def intro: filter_cong)
  also have "\<dots> = remove1 p (pending q)"
    using d by (simp add: distinct_remove1_removeAll removeAll_filter_not_eq)
  finally have "mset (pending q) = add_mset p (mset (pending (q\<lparr>iusing := p\<rparr>)))" using in_p by simp
  then show "mset (waiting q) = add_mset (contents (bufs q ! p)) (mset (waiting (q\<lparr>iusing := p\<rparr>)))"
    by (simp add: waiting_def)
qed

lemma look_found:
  assumes "threads_ok s" and "th_reader s = Looking p e" and "usable (th_queue s) p"
  shows "threads_ok (look p e s)" "frames_known s \<Longrightarrow> frames_known (look p e s)" "in_order s \<Longrightarrow> in_order (look p e s)"
proof -
  let ?q = "th_queue s" and ?z = "settled s" and ?c = "contents (bufs (th_queue s) ! p)" and ?t = "look p e s"
  have r: "iusing ?z = cq_end ?z" "p < cq_end ?z" "e < cq_end ?q" and wf: "cq_wf ?z"
    using assms(1,2) by (auto simp: threads_ok_def reader_ok_def)
  have u: "usable ?z p" using assms(3) by simp
  note tk = take_any [OF wf r(1) u r(2)]
  have t: "?t = s\<lparr>th_queue := ?q\<lparr>iusing := p\<rparr>, th_reader := Outside, th_out := th_out s @ [?c]\<rparr>"
    using assms(3) by (simp add: look_def Let_def)
  then have se: "settled ?t = ?z\<lparr>iusing := p\<rparr>" by (simp add: settled_def split: option.split)
  have "reading (th_queue ?t) = Some ?c" using tk(2) settled_fields(5) [of ?t] se by simp
  then have "reader_ok ?t" using tk(3) t by (simp add: reader_ok_def)
  moreover have "writer_ok ?t" using assms(1) t by (simp add: threads_ok_def writer_ok_def incr_def split: option.splits)
  ultimately show "threads_ok ?t" using tk(1) se by (simp add: threads_ok_def)
  show "frames_known ?t" if "frames_known s"
    using that tk(4) t se by (simp add: frames_known_def)
  show "in_order ?t" if o: "in_order s"
  proof -
    have "findusable ?q p e = p" using assms(3) r by (simp add: findusable.simps [of ?q p e])
    then have "findusable ?z (ip ?z) (decr ?z (ip ?z)) = p"
      using o assms(2) search_settled [OF assms(1)] by (simp add: in_order_def)
    then have "take_first ?z = (p, ?z\<lparr>iusing := p\<rparr>)" by (simp add: take_first_def Let_def)
    from take_first_ok [OF _ r(1) this] wf r have
      "waiting ?z \<noteq> [] \<and> waiting (?z\<lparr>iusing := p\<rparr>) = tl (waiting ?z) \<and> Some (hd (waiting ?z)) = reading (?z\<lparr>iusing := p\<rparr>)"
      by (simp add: cq_ok_wf split: if_splits)
    then have "waiting ?z = ?c # waiting (?z\<lparr>iusing := p\<rparr>)" using tk(2) by (cases "waiting ?z") auto
    then show ?thesis using o t se by (simp add: in_order_def)
  qed
qed

lemma look_on:
  assumes "threads_ok s" and "th_reader s = Looking p e" and "\<not> usable (th_queue s) p"
  shows "threads_ok (look p e s)" "frames_known s \<Longrightarrow> frames_known (look p e s)" "in_order s \<Longrightarrow> in_order (look p e s)"
proof -
  let ?q = "th_queue s"
  have r: "iusing ?q = cq_end ?q" "p < cq_end ?q" "e < cq_end ?q"
    using assms(1,2) by (auto simp: threads_ok_def reader_ok_def)
  have q: "?q\<lparr>iusing := cq_end ?q\<rparr> = ?q" using r(1) by (intro cq.equality) auto
  have q': "s\<lparr>th_queue := ?q\<rparr> = s" by simp
  have t: "look p e s = s\<lparr>th_reader := (if p \<noteq> e then Looking (incr ?q p) e else Outside)\<rparr>"
    using assms(3) q by (simp add: look_def Let_def)
  have f: "p \<noteq> e \<Longrightarrow> findusable ?q (incr ?q p) e = findusable ?q p e"
    using assms(3) r by (simp add: findusable.simps [of ?q p e])
  have rd: "reading ?q = None" using r(1) by (simp add: reading_def)
  show "threads_ok (look p e s)"
    using assms(1) r rd t by (auto simp: threads_ok_def reader_ok_def intro: incr_less)
  show "frames_known (look p e s)" if "frames_known s" using that t by (simp add: frames_known_def)
  show "in_order (look p e s)" if "in_order s" using that assms(2) t f by (auto simp: in_order_def)
qed

lemma begin_steps:
  assumes "threads_ok s" and "iusing (th_queue s) = cq_end (th_queue s)" and "t = s\<lparr>th_reader := r\<rparr>"
    and "r = Has_begin (ip (th_queue s)) \<or> r = Has_end (decr (th_queue s) (ip (th_queue s))) \<or>
      r = Looking (ip (th_queue s)) e \<and> e < cq_end (th_queue s) \<or>
      r = Looking p (decr (th_queue s) (ip (th_queue s))) \<and> p < cq_end (th_queue s)"
  shows "threads_ok t"
proof -
  have ip: "ip (th_queue s) < cq_end (th_queue s)" by (rule threads_ok_ip [OF assms(1)])
  note d = decr_less [OF ip]
  have "cq_wf (settled t)" "writer_ok t" using assms(1,3) by (simp_all add: threads_ok_def)
  moreover have "reader_ok t"
    using assms(4) by (elim disjE conjE) (simp_all add: assms(2,3) ip d reader_ok_def)
  ultimately show ?thesis by (simp add: threads_ok_def)
qed

subsection \<open>Every run\<close>

text \<open>A step of a run in which the reader gives back what it took with \<open>done\<close>, as every reader does that is not closed.\<close>

definition done_step :: "threads \<Rightarrow> threads \<Rightarrow> bool" where
  "done_step s t \<longleftrightarrow> (\<exists>l. queue_step l s t \<and> l \<noteq> Give_up)"

inductive_cases queue_stepE: "queue_step l s t"

lemma step_keeps:
  assumes "threads_ok s" and "queue_step l s t" and "l \<noteq> Give_up"
  shows "threads_ok t \<and> (frames_known s \<longrightarrow> frames_known t) \<and>
    (in_order s \<and> (l = Advance \<or> l = Publish \<longrightarrow> \<not> searching s) \<longrightarrow> in_order t)"
  using assms(2)
proof cases
  case (t_alloc siz j q')
  note a = alloc_step [OF assms(1) t_alloc(3,4,5)]
  then show ?thesis using moves_on_keeps [of s t] t_alloc
    by (auto simp: in_order_def searching_def split: reader_stage.splits)
next
  case (t_write b)
  let ?q' = "(th_queue s)\<lparr>bufs := (bufs (th_queue s))[ialloc (th_queue s) := b]\<rparr>"
  have "cq_wf (settled s)" using assms(1) by (simp add: threads_ok_def)
  then have "buf_ok (bufs (th_queue s) ! ialloc (th_queue s))" using buf_ok_nth_wf [of "settled s"] t_write(4) by simp
  then have b: "buf_ok b" using t_write(5,6) by (simp add: buf_ok_def)
  have a: "threads_ok t" "moves_on s t" "findusable ?q' p e = findusable (th_queue s) p e" for p e
    using write_step [OF assms(1) t_write(3,4) b refl] t_write(2) by auto
  have "decr ?q' p = decr (th_queue s) p" for p by (simp add: decr_def cq_end_def)
  then show ?thesis using moves_on_keeps [of s t] t_write a
    by (auto simp: in_order_def split: reader_stage.splits)
next
  case (t_advance q')
  note a = advance_step [OF assms(1) t_advance(3,4,5)]
  then show ?thesis using t_advance
    by (auto simp: in_order_def frames_known_def searching_def split: reader_stage.splits)
next
  case (t_publish j)
  note a = publish_step [OF assms(1) t_publish(3) t_publish(2)]
  then show ?thesis using moves_on_keeps [of s t] t_publish
    by (auto simp: in_order_def searching_def split: reader_stage.splits)
next
  case t_begin
  then show ?thesis using begin_steps [OF assms(1), of t] by (auto simp: in_order_def frames_known_def)
next
  case t_begin'
  then show ?thesis using begin_steps [OF assms(1), of t] by (auto simp: in_order_def frames_known_def)
next
  case (t_args p)
  then have "iusing (th_queue s) = cq_end (th_queue s)" "p < cq_end (th_queue s)"
    using assms(1) by (auto simp: threads_ok_def reader_ok_def)
  then show ?thesis using t_args begin_steps [OF assms(1), of t] by (auto simp: in_order_def frames_known_def)
next
  case (t_args' e)
  then have "iusing (th_queue s) = cq_end (th_queue s)" "e < cq_end (th_queue s)"
    using assms(1) by (auto simp: threads_ok_def reader_ok_def)
  then show ?thesis using t_args' begin_steps [OF assms(1), of t] by (auto simp: in_order_def frames_known_def)
next
  case (t_look p e)
  then show ?thesis using look_found [OF assms(1) t_look(3)] look_on [OF assms(1) t_look(3)] by blast
next
  case (t_empty q')
  then show ?thesis using empty_step [OF assms(1) t_empty(3,4,5) t_empty(2)]
    by (simp add: in_order_def frames_known_def)
next
  case t_release
  then show ?thesis using release_step [OF assms(1) t_release(3,2)]
    by (simp add: in_order_def frames_known_def)
qed (use assms(3) in simp)

lemma done_run:
  assumes "done_step\<^sup>*\<^sup>* s t" and "threads_ok s" and "frames_known s"
  shows "threads_ok t \<and> frames_known t"
  using assms by (induction rule: rtranclp_induct) (auto simp: done_step_def dest: step_keeps)

lemma calm_run:
  assumes "calm_step\<^sup>*\<^sup>* s t" and "threads_ok s" and "in_order s"
  shows "threads_ok t \<and> in_order t"
  using assms by (induction rule: rtranclp_induct) (auto simp: calm_step_def dest: step_keeps)

subsection \<open>Properties\<close>

text \<open>
  C2: frames reach the reader in the order they were handed over: starting from an empty queue
  of at least two buffers, whatever the two threads do in whatever order, assignment by
  assignment, as long as \<open>done\<close> hands nothing over while a search of \<open>wait\<close> is under way (it
  may have made the first of its two assignments before it) and the reader does not \<open>fail\<close>,
  the frames taken so far are a subsequence of the frames handed over, none twice, none altered
  by the writer; and the frames still waiting continue it.
\<close>

theorem queue_frames_in_order:
  assumes "2 \<le> length bs" and "\<forall>b \<in> set bs. buf_ok b \<and> used b = 0"
    and "calm_step\<^sup>*\<^sup>* (threads_new bs) s"
  shows "subseq (th_out s @ waiting (settled s)) (th_in s)"
  using calm_run [OF assms(3)] threads_ok_new [OF assms(1,2)] by (simp add: in_order_def)

definition one_frame :: "nat \<Rightarrow> byte list \<Rightarrow> buffer" where
  "one_frame n d = \<lparr>store = d @ replicate (n - length d) 0, used = length d\<rparr>"

lemma one_frame_simps [simp]:
  "used (one_frame n d) = length d" "contents (one_frame n d) = d" "length d \<le> n \<Longrightarrow> length (store (one_frame n d)) = n"
  "buf_empty (one_frame n d) \<longleftrightarrow> d = []"
  by (auto simp: one_frame_def contents_def buf_empty_def)

text \<open>One frame written and handed over by a thread that finds the queue as it is.\<close>

definition two_bufs :: "buffer \<Rightarrow> buffer \<Rightarrow> nat \<Rightarrow> nat \<Rightarrow> nat \<Rightarrow> cq" where
  "two_bufs a b i j u = \<lparr>bufs = [a, b], ip = i, ialloc = j, iusing = u\<rparr>"

lemma two_bufs_simps [simp]:
  "bufs (two_bufs a b i j u) = [a, b]" "ip (two_bufs a b i j u) = i" "ialloc (two_bufs a b i j u) = j"
  "iusing (two_bufs a b i j u) = u" "cq_end (two_bufs a b i j u) = 2"
  "(two_bufs a b i j u)\<lparr>ip := i'\<rparr> = two_bufs a b i' j u" "(two_bufs a b i j u)\<lparr>ialloc := j'\<rparr> = two_bufs a b i j' u"
  "(two_bufs a b i j u)\<lparr>iusing := u'\<rparr> = two_bufs a b i j u'" "(two_bufs a b i j u)\<lparr>bufs := [a', b']\<rparr> = two_bufs a' b' i j u"
  by (simp_all add: two_bufs_def cq_end_def)

lemma two_bufs_incr [simp]:
  "incr (two_bufs a b i j u) 0 = 1" "incr (two_bufs a b i j u) (Suc 0) = 0"
  "decr (two_bufs a b i j u) 0 = 1" "decr (two_bufs a b i j u) (Suc 0) = 0"
  by (simp_all add: incr_def decr_def)

lemma two_bufs_alloc:
  assumes "buf_ok a" "used a = 0" "buf_ok b" "used b = 0"
  shows "alloc 0 (two_bufs a c 0 2 2) = Inr (0, two_bufs a c 0 0 2)" "alloc 0 (two_bufs c b 1 2 2) = Inr (1, two_bufs c b 1 1 2)"
  using assms consume_all [OF assms(1)] consume_all [OF assms(3)]
  by (auto simp: alloc_def on_buf_def reserve_def)

definition moment :: "cq \<Rightarrow> nat option \<Rightarrow> reader_stage \<Rightarrow> byte list list \<Rightarrow> byte list list \<Rightarrow> threads" where
  "moment q w r i out = \<lparr>th_queue = q, th_writer = w, th_reader = r, th_in = i, th_out = out\<rparr>"

lemma writer_moments:
  "alloc siz q = Inr (j, q') \<Longrightarrow> queue_step Alloc (moment q None Outside i out) (moment q' None Outside i out)"
  "ialloc q < cq_end q \<Longrightarrow> used b \<le> length (store b) \<Longrightarrow> length (store b) = length (store (bufs q ! ialloc q)) \<Longrightarrow>
    queue_step Write (moment q None r i out) (moment (q\<lparr>bufs := (bufs q)[ialloc q := b]\<rparr>) None r i out)"
  "ialloc q < cq_end q \<Longrightarrow> ip q = ialloc q \<Longrightarrow>
    queue_step Advance (moment q None r i out) (moment (q\<lparr>ip := incr q (ialloc q)\<rparr>) (Some (ialloc q)) r i out)"
  "queue_step Publish (moment q (Some j) r i out) (moment (q\<lparr>ialloc := cq_end q\<rparr>) None r (i @ [contents (bufs q ! j)]) out)"
  using t_alloc [of "moment q None Outside i out"] t_write [of "moment q None r i out"]
    t_advance [of "moment q None r i out"] t_publish [of "moment q (Some j) r i out"]
  by (simp_all add: moment_def searching_def advance_def publish_def)

lemma reader_moments:
  "iusing q = cq_end q \<Longrightarrow> queue_step Read_ip (moment q w Outside i out) (moment q w (Has_begin (ip q)) i out)"
  "queue_step Read_other (moment q w (Has_begin p) i out) (moment q w (Looking p (decr q (ip q))) i out)"
  "usable q p \<Longrightarrow> queue_step Look (moment q w (Looking p e) i out)
    (moment (q\<lparr>iusing := p\<rparr>) w Outside i (out @ [contents (bufs q ! p)]))"
  "iusing q < cq_end q \<Longrightarrow> buf_ok (bufs q ! iusing q) \<Longrightarrow>
    queue_step Empty_buffer (moment q w Outside i out) (moment (emptied (iusing q) q) w Giving_back i out)"
  "queue_step Release (moment q w Giving_back i out) (moment (q\<lparr>iusing := cq_end q\<rparr>) w Outside i out)"
  using t_begin [of "moment q w Outside i out"] t_args [of "moment q w (Has_begin p) i out" p]
    t_look [of "moment q w (Looking p e) i out" p e] t_empty [of "moment q w Outside i out"]
    t_release [of "moment q w Giving_back i out"]
  by (simp_all add: moment_def look_def Let_def give_back_def on_buf_def consume_all emptied_def)

lemma done_then: "queue_step l s t \<Longrightarrow> l \<noteq> Give_up \<Longrightarrow> done_step\<^sup>*\<^sup>* t u \<Longrightarrow> done_step\<^sup>*\<^sup>* s u"
  by (rule converse_rtranclp_into_rtranclp) (auto simp: done_step_def)

lemma calm_then:
  "queue_step l s t \<Longrightarrow> l \<noteq> Give_up \<Longrightarrow> l = Advance \<or> l = Publish \<longrightarrow> \<not> searching s \<Longrightarrow> calm_step\<^sup>*\<^sup>* t u \<Longrightarrow> calm_step\<^sup>*\<^sup>* s u"
  by (rule converse_rtranclp_into_rtranclp) (auto simp: calm_step_def)

lemma calm_is_done: "calm_step\<^sup>*\<^sup>* s t \<Longrightarrow> done_step\<^sup>*\<^sup>* s t"
  by (erule rtranclp_mono [THEN predicate2D, rotated]) (auto simp: calm_step_def done_step_def)

lemma not_searching [simp]: "\<not> searching (moment q w Outside i out)"
  by (simp add: searching_def moment_def)

lemma written_and_handed_over:
  assumes "buf_ok a" "used a = 0" "buf_ok b" "used b = 0" "length d \<le> length (store a)"
  shows "calm_step\<^sup>*\<^sup>* (moment (two_bufs a b 0 2 2) None Outside i out)
    (moment (two_bufs (one_frame (length (store a)) d) b 1 2 2) None Outside (i @ [d]) out)"
proof -
  let ?f = "one_frame (length (store a)) d"
  have 1: "queue_step Alloc (moment (two_bufs a b 0 2 2) None Outside i out) (moment (two_bufs a b 0 0 2) None Outside i out)"
    by (rule writer_moments(1) [OF two_bufs_alloc(1)]) (use assms in auto)
  have 2: "queue_step Write (moment (two_bufs a b 0 0 2) None Outside i out) (moment (two_bufs ?f b 0 0 2) None Outside i out)"
    using writer_moments(2) [of "two_bufs a b 0 0 2" ?f] assms(5) by simp
  have 3: "queue_step Advance (moment (two_bufs ?f b 0 0 2) None Outside i out) (moment (two_bufs ?f b 1 0 2) (Some 0) Outside i out)"
    using writer_moments(3) [of "two_bufs ?f b 0 0 2"] by simp
  have 4: "queue_step Publish (moment (two_bufs ?f b 1 0 2) (Some 0) Outside i out) (moment (two_bufs ?f b 1 2 2) None Outside (i @ [d]) out)"
    using writer_moments(4) [of "two_bufs ?f b 1 0 2" 0] by simp
  show ?thesis
    by (rule calm_then [OF 1 _ _ calm_then [OF 2 _ _ calm_then [OF 3 _ _ calm_then [OF 4]]]]) simp_all
qed

lemma first_frame_taken:
  assumes "buf_empty b" "contents a = d" "\<not> buf_empty a"
  shows "calm_step\<^sup>*\<^sup>* (moment (two_bufs a b 1 2 2) None Outside i out) (moment (two_bufs a b 1 2 0) None Outside i (out @ [d]))"
proof -
  let ?q = "two_bufs a b 1 2 2"
  have 1: "queue_step Read_ip (moment ?q None Outside i out) (moment ?q None (Has_begin 1) i out)"
    using reader_moments(1) [of ?q] by simp
  have 2: "queue_step Read_other (moment ?q None (Has_begin 1) i out) (moment ?q None (Looking 1 0) i out)"
    using reader_moments(2) [of ?q None 1] by simp
  have 3: "queue_step Look (moment ?q None (Looking 1 0) i out) (moment ?q None (Looking 0 0) i out)"
    using t_look [of "moment ?q None (Looking 1 0) i out" 1 0] assms(1) by (simp add: moment_def look_def usable_def)
  have 4: "queue_step Look (moment ?q None (Looking 0 0) i out) (moment (two_bufs a b 1 2 0) None Outside i (out @ [d]))"
    using reader_moments(3) [of ?q 0] assms(2,3) by (simp add: usable_def)
  show ?thesis
    by (rule calm_then [OF 1 _ _ calm_then [OF 2 _ _ calm_then [OF 3 _ _ calm_then [OF 4]]]]) simp_all
qed

text \<open>The second frame is handed over while the reader, who has read \<open>ip_\<close>, has not looked at it yet.\<close>

lemma handed_over_within_search:
  assumes "buf_ok b" "used b = 0" "length d \<le> length (store b)" "d \<noteq> []"
  shows "done_step\<^sup>*\<^sup>* (moment (two_bufs a b 1 2 2) None Outside i out)
    (moment (two_bufs a (one_frame (length (store b)) d) 0 2 1) None Outside (i @ [d]) (out @ [d]))"
proof -
  let ?f = "one_frame (length (store b)) d"
  have 1: "queue_step Alloc (moment (two_bufs a b 1 2 2) None Outside i out) (moment (two_bufs a b 1 1 2) None Outside i out)"
    by (rule writer_moments(1) [OF two_bufs_alloc(2) [OF assms(1,2,1,2)]])
  have 2: "queue_step Write (moment (two_bufs a b 1 1 2) None Outside i out) (moment (two_bufs a ?f 1 1 2) None Outside i out)"
    using writer_moments(2) [of "two_bufs a b 1 1 2" ?f] assms(3) by simp
  have 3: "queue_step Read_ip (moment (two_bufs a ?f 1 1 2) None Outside i out) (moment (two_bufs a ?f 1 1 2) None (Has_begin 1) i out)"
    using reader_moments(1) [of "two_bufs a ?f 1 1 2"] by simp
  have 4: "queue_step Read_other (moment (two_bufs a ?f 1 1 2) None (Has_begin 1) i out) (moment (two_bufs a ?f 1 1 2) None (Looking 1 0) i out)"
    using reader_moments(2) [of "two_bufs a ?f 1 1 2" None 1] by simp
  have 5: "queue_step Advance (moment (two_bufs a ?f 1 1 2) None (Looking 1 0) i out)
      (moment (two_bufs a ?f 0 1 2) (Some 1) (Looking 1 0) i out)"
    using writer_moments(3) [of "two_bufs a ?f 1 1 2"] by simp
  have 6: "queue_step Publish (moment (two_bufs a ?f 0 1 2) (Some 1) (Looking 1 0) i out)
      (moment (two_bufs a ?f 0 2 2) None (Looking 1 0) (i @ [d]) out)"
    using writer_moments(4) [of "two_bufs a ?f 0 1 2" 1] by simp
  have 7: "queue_step Look (moment (two_bufs a ?f 0 2 2) None (Looking 1 0) (i @ [d]) out)
      (moment (two_bufs a ?f 0 2 1) None Outside (i @ [d]) (out @ [d]))"
    using reader_moments(3) [of "two_bufs a ?f 0 2 2" 1] assms(4) by (simp add: usable_def)
  show ?thesis
    by (rule done_then [OF 1 _ done_then [OF 2 _ done_then [OF 3 _ done_then [OF 4 _ done_then [OF 5 _
      done_then [OF 6 _ done_then [OF 7]]]]]]]) simp_all
qed

lemma given_back_and_next:
  assumes "buf_ok b" "contents a = d" "\<not> buf_empty a"
  shows "\<exists>q. done_step\<^sup>*\<^sup>* (moment (two_bufs a b 0 2 1) None Outside i out) (moment q None Outside i (out @ [d]))"
proof -
  let ?e = "b\<lparr>used := 0\<rparr>"
  have 1: "queue_step Empty_buffer (moment (two_bufs a b 0 2 1) None Outside i out) (moment (two_bufs a ?e 0 2 1) None Giving_back i out)"
    using reader_moments(4) [of "two_bufs a b 0 2 1"] assms(1) by (simp add: emptied_def)
  have 2: "queue_step Release (moment (two_bufs a ?e 0 2 1) None Giving_back i out) (moment (two_bufs a ?e 0 2 2) None Outside i out)"
    using reader_moments(5) [of "two_bufs a ?e 0 2 1"] by simp
  have 3: "queue_step Read_ip (moment (two_bufs a ?e 0 2 2) None Outside i out) (moment (two_bufs a ?e 0 2 2) None (Has_begin 0) i out)"
    using reader_moments(1) [of "two_bufs a ?e 0 2 2"] by simp
  have 4: "queue_step Read_other (moment (two_bufs a ?e 0 2 2) None (Has_begin 0) i out) (moment (two_bufs a ?e 0 2 2) None (Looking 0 1) i out)"
    using reader_moments(2) [of "two_bufs a ?e 0 2 2" None 0] by simp
  have 5: "queue_step Look (moment (two_bufs a ?e 0 2 2) None (Looking 0 1) i out)
      (moment (two_bufs a ?e 0 2 0) None Outside i (out @ [d]))"
    using reader_moments(3) [of "two_bufs a ?e 0 2 2" 0] assms(2,3) by (simp add: usable_def)
  show ?thesis
    by (rule exI [of _ "two_bufs a ?e 0 2 0"], rule done_then [OF 1 _ done_then [OF 2 _ done_then [OF 3 _ done_then [OF 4 _ done_then [OF 5]]]]]) simp_all
qed

theorem queue_frames_in_order_witness:
  "\<exists>s. calm_step\<^sup>*\<^sup>* (threads_new [malloc_buf 3, malloc_buf 3]) s \<and> th_in s = [[7, 8]] \<and> th_out s = [[7, 8]] \<and>
    subseq (th_out s @ waiting (settled s)) (th_in s)"
proof -
  let ?b = "malloc_buf 3" and ?d = "one_frame 3 [7, 8]"
  let ?s = "moment (two_bufs ?d ?b 1 2 0) None Outside [[7, 8]] [[7, 8]]"
  have b: "buf_ok ?b" "used ?b = 0" "length (store ?b) = 3" "buf_empty ?b" by (simp_all add: malloc_buf_def buf_ok_def buf_empty_def)
  have n: "threads_new [?b, ?b] = moment (two_bufs ?b ?b 0 2 2) None Outside [] []"
    by (simp add: threads_new_def moment_def two_bufs_def cq_new_def)
  have "calm_step\<^sup>*\<^sup>* (threads_new [?b, ?b]) (moment (two_bufs ?d ?b 1 2 2) None Outside [[7, 8]] [])"
    using written_and_handed_over [OF b(1,2) b(1,2), of "[7, 8]" "[]" "[]"] b(3) n by simp
  moreover have "calm_step\<^sup>*\<^sup>* (moment (two_bufs ?d ?b 1 2 2) None Outside [[7, 8]] []) ?s"
    using first_frame_taken [OF b(4), of ?d "[7, 8]" "[[7, 8]]" "[]"] by simp
  ultimately have run: "calm_step\<^sup>*\<^sup>* (threads_new [?b, ?b]) ?s" by (rule rtranclp_trans)
  show ?thesis
    using queue_frames_in_order [OF _ _ run] b run by (intro exI [of _ ?s]) (simp add: moment_def)
qed

text \<open>
  in every run of the two threads in which the reader does not \<open>fail\<close>, also when \<open>done\<close>
  hands a frame over in the middle of a search, the frames taken and those still waiting are
  among the frames handed over, each as often as it was handed over at most: no frame is taken
  twice, invented or mixed with another.
\<close>

theorem frames_taken_once:
  assumes "2 \<le> length bs" and "\<forall>b \<in> set bs. buf_ok b \<and> used b = 0"
    and "done_step\<^sup>*\<^sup>* (threads_new bs) s"
  shows "mset (th_out s @ waiting (settled s)) \<subseteq># mset (th_in s) \<and> cq_wf (settled s)"
  using done_run [OF assms(3)] threads_ok_new [OF assms(1,2)] by (simp add: frames_known_def threads_ok_def)

theorem frames_taken_once_witness:
  "\<exists>s. done_step\<^sup>*\<^sup>* (threads_new [malloc_buf 3, malloc_buf 3]) s \<and> th_in s = [[7, 8], [9]] \<and> th_out s = [[9]] \<and>
    mset (th_out s @ waiting (settled s)) \<subseteq># mset (th_in s)"
proof -
  let ?b = "malloc_buf 3" and ?d = "one_frame 3 [7, 8]" and ?e = "one_frame 3 [9]"
  let ?s = "moment (two_bufs ?d ?e 0 2 1) None Outside [[7, 8], [9]] [[9]]"
  have b: "buf_ok ?b" "used ?b = 0" "length (store ?b) = 3" by (simp_all add: malloc_buf_def buf_ok_def)
  have n: "threads_new [?b, ?b] = moment (two_bufs ?b ?b 0 2 2) None Outside [] []"
    by (simp add: threads_new_def moment_def two_bufs_def cq_new_def)
  have "done_step\<^sup>*\<^sup>* (threads_new [?b, ?b]) (moment (two_bufs ?d ?b 1 2 2) None Outside [[7, 8]] [])"
    using written_and_handed_over [OF b(1,2) b(1,2), of "[7, 8]" "[]" "[]"] b(3) n by (intro calm_is_done) simp
  moreover have "done_step\<^sup>*\<^sup>* (moment (two_bufs ?d ?b 1 2 2) None Outside [[7, 8]] []) ?s"
    using handed_over_within_search [OF b(1,2), of "[9]" ?d "[[7, 8]]" "[]"] b(3) by simp
  ultimately have run: "done_step\<^sup>*\<^sup>* (threads_new [?b, ?b]) ?s" by (rule rtranclp_trans)
  show ?thesis
    using frames_taken_once [OF _ _ run] b run by (intro exI [of _ ?s]) (simp add: moment_def)
qed

text \<open>
  C31: \<open>done\<close> takes no mutex, so a frame can be handed over in the middle of a search, and then
  the reader gets a newer frame before an older one: with two empty buffers of \<open>n\<close> bytes and any
  two frames that are not empty and fit there is a run in which they are handed over in one
  order and taken in the other.
\<close>

theorem done_within_search_reorders:
  assumes "n < 2147483648" and "d \<noteq> []" and "length d \<le> n" and "e \<noteq> []" and "length e \<le> n"
  shows "\<exists>s. done_step\<^sup>*\<^sup>* (threads_new [malloc_buf n, malloc_buf n]) s \<and> th_in s = [d, e] \<and> th_out s = [e, d]"
proof -
  let ?b = "malloc_buf n" and ?d = "one_frame n d" and ?e = "one_frame n e"
  have b: "buf_ok ?b" "used ?b = 0" "length (store ?b) = n" using assms(1) by (simp_all add: malloc_buf_def buf_ok_def)
  have eo: "buf_ok ?e" using assms(1,5) by (simp add: buf_ok_def)
  have n: "threads_new [?b, ?b] = moment (two_bufs ?b ?b 0 2 2) None Outside [] []"
    by (simp add: threads_new_def moment_def two_bufs_def cq_new_def)
  obtain q where "done_step\<^sup>*\<^sup>* (moment (two_bufs ?d ?e 0 2 1) None Outside [d, e] [e]) (moment q None Outside [d, e] [e, d])"
    using given_back_and_next [OF eo, of ?d d "[d, e]" "[e]"] assms(2) by auto
  moreover have "done_step\<^sup>*\<^sup>* (moment (two_bufs ?d ?b 1 2 2) None Outside [d] []) (moment (two_bufs ?d ?e 0 2 1) None Outside [d, e] [e])"
    using handed_over_within_search [OF b(1,2), of e ?d "[d]" "[]"] assms(4,5) b(3) by simp
  moreover have "done_step\<^sup>*\<^sup>* (threads_new [?b, ?b]) (moment (two_bufs ?d ?b 1 2 2) None Outside [d] [])"
    using written_and_handed_over [OF b(1,2) b(1,2), of d "[]" "[]"] assms(3) b(3) n by (intro calm_is_done) simp
  ultimately have "done_step\<^sup>*\<^sup>* (threads_new [?b, ?b]) (moment q None Outside [d, e] [e, d])"
    by (meson rtranclp_trans)
  then show ?thesis by (intro exI [of _ "moment q None Outside [d, e] [e, d]"]) (simp add: moment_def)
qed

theorem done_within_search_reorders_witness:
  "\<exists>s. done_step\<^sup>*\<^sup>* (threads_new [malloc_buf 2, malloc_buf 2]) s \<and> th_in s = [[7], [8, 9]] \<and> th_out s = [[8, 9], [7]]"
  by (rule done_within_search_reorders) simp_all

end
