(* ===== verification/Net_Thread.thy ===== *)
theory Net_Thread
  imports Prelude
begin

section \<open>Threads (network/epoll/thread.hpp)\<close>

text \<open>
  The flag set \<open>BitMask\<close>, the life cycle that \<open>Thread\<close> keeps in one, and the deadline
  that \<open>pthread_cond_type::wait\<close> computes.  The mutex wrappers only forward to pthread.
\<close>

unbundle bit_operations_syntax

subsection \<open>BitMask\<close>

text \<open>
  \<open>ValueType(1<<x)\<close>: the \<open>int\<close> \<open>1<<x\<close> is cut to the width of the mask; for \<open>unsigned char\<close>
  this is the bit \<open>x\<close> of the word, or nothing for \<open>8 \<le> x < 31\<close>.
\<close>

type_synonym mask = u8

definition bit_of :: "nat \<Rightarrow> mask" where
  "bit_of x = push_bit x 1"

definition bm_new :: mask where
  "bm_new = 0"

definition bm_set :: "nat \<Rightarrow> bool \<Rightarrow> mask \<Rightarrow> mask" where
  "bm_set x yn v = (if yn then v OR bit_of x else v AND NOT (bit_of x))"

definition bm_mask :: "nat \<Rightarrow> mask \<Rightarrow> mask" where
  "bm_mask x v = v AND bit_of x"

definition bm_test :: "nat \<Rightarrow> mask \<Rightarrow> bool" where
  "bm_test x v \<longleftrightarrow> bm_mask x v \<noteq> 0"

definition bm_reset :: "mask \<Rightarrow> mask" where
  "bm_reset v = 0"

definition bm_reset_to :: "mask \<Rightarrow> mask \<Rightarrow> mask" where
  "bm_reset_to w v = w"

lemma bm_test_bit: "bm_test x v \<longleftrightarrow> bit v x"
  by (auto simp: bm_test_def bm_mask_def bit_of_def bit_eq_iff [where ?'a = "8 word"] bit_simps dest: bit_imp_le_length)

lemma bm_test_set:
  assumes "x < 8"
  shows "bm_test y (bm_set x yn v) \<longleftrightarrow> (if x = y then yn else bm_test y v)"
  using assms by (auto simp: bm_test_bit bm_set_def bit_of_def bit_simps dest: bit_imp_le_length)

lemma bm_test_new [simp]: "\<not> bm_test x bm_new"
  by (simp add: bm_test_bit bm_new_def)

subsection \<open>Thread\<close>

definition Xcreated :: nat where "Xcreated = 1"
definition Xdetached :: nat where "Xdetached = 2"
definition Xjoined :: nat where "Xjoined = 3"

text \<open>\<open>calls\<close> records the pthread calls made on the thread's handle.\<close>

datatype pthread_call = Create | Detach | Join

record thread =
  stopped :: bool
  msk :: mask
  calls :: "pthread_call list"

definition thread_new :: thread where
  "thread_new = \<lparr>stopped = False, msk = bm_new, calls = []\<rparr>"

definition stop :: "thread \<Rightarrow> thread" where
  "stop t = t\<lparr>stopped := True\<rparr>"

definition detach :: "int \<Rightarrow> thread \<Rightarrow> int \<times> thread" where
  "detach ec t = (ec, t\<lparr>msk := bm_set Xdetached True (msk t), calls := calls t @ [Detach]\<rparr>)"

definition join :: "int \<Rightarrow> thread \<Rightarrow> (int \<times> thread) outcome" where
  "join ec t =
     (if \<not> bm_test Xcreated (msk t) \<or> bm_test Xdetached (msk t) \<or> bm_test Xjoined (msk t)
      then Inr (0, t)
      else if ec \<noteq> 0 then Inl (Err_exit ''pthread_join'')
      else Inr (0, t\<lparr>msk := bm_set Xjoined True (msk t), calls := calls t @ [Join]\<rparr>))"

definition start :: "int \<Rightarrow> thread \<Rightarrow> (int \<times> thread) outcome" where
  "start ec t =
     (if ec \<noteq> 0 then Inl (Err_exit ''pthread_create'')
      else Inr (0, t\<lparr>msk := bm_set Xcreated True (msk t), calls := calls t @ [Create]\<rparr>))"

text \<open>The destructor joins.\<close>

definition thread_destroy :: "int \<Rightarrow> thread \<Rightarrow> thread outcome" where
  "thread_destroy ec t = bind_ok (join ec t) (\<lambda>(_, t'). Inr t')"

inductive thread_step :: "thread \<Rightarrow> thread \<Rightarrow> bool" where
  ts_stop: "thread_step t (stop t)"
| ts_detach: "detach ec t = (r, t') \<Longrightarrow> thread_step t t'"
| ts_join: "join ec t = Inr (r, t') \<Longrightarrow> thread_step t t'"
| ts_start: "start ec t = Inr (r, t') \<Longrightarrow> thread_step t t'"

inductive_cases thread_stepE: "thread_step t t'"

text \<open>The flags tell what was called; after a join or a detach there is no join.\<close>

definition joins_ok :: "pthread_call list \<Rightarrow> bool" where
  "joins_ok cs \<longleftrightarrow>
     (\<forall>i < length cs. cs ! i = Join \<longrightarrow>
        Create \<in> set (take i cs) \<and> Join \<notin> set (take i cs) \<and> Detach \<notin> set (take i cs))"

definition thread_inv :: "thread \<Rightarrow> bool" where
  "thread_inv t \<longleftrightarrow>
     (bm_test Xcreated (msk t) \<longleftrightarrow> Create \<in> set (calls t)) \<and>
     (bm_test Xdetached (msk t) \<longleftrightarrow> Detach \<in> set (calls t)) \<and>
     (bm_test Xjoined (msk t) \<longleftrightarrow> Join \<in> set (calls t)) \<and> joins_ok (calls t)"

lemma joins_ok_snoc:
  "joins_ok (cs @ [c]) \<longleftrightarrow> joins_ok cs \<and>
     (c = Join \<longrightarrow> Create \<in> set cs \<and> Join \<notin> set cs \<and> Detach \<notin> set cs)"
  by (auto simp: joins_ok_def nth_append less_Suc_eq)

lemmas flag_defs = Xcreated_def Xdetached_def Xjoined_def

lemma thread_new_inv: "thread_inv thread_new"
  by (simp add: thread_inv_def thread_new_def joins_ok_def)

lemma thread_step_inv: "thread_step t t' \<Longrightarrow> thread_inv t \<Longrightarrow> thread_inv t'"
  by (erule thread_stepE)
    (auto simp: thread_inv_def stop_def detach_def join_def start_def bm_test_set flag_defs
      joins_ok_snoc split: if_splits)

subsection \<open>The deadline of a condition wait\<close>

text \<open>
  \<open>wait(m, microsec)\<close> adds the \<open>unsigned\<close> product \<open>1000*microsec\<close> to the nanoseconds of
  the current time; \<open>pthread_cond_timedwait\<close> wants them below \<open>10^9\<close>.
\<close>

record timespec =
  ts_sec :: int
  ts_nsec :: int

definition cond_deadline :: "timespec \<Rightarrow> u32 \<Rightarrow> timespec" where
  "cond_deadline now microsec = now\<lparr>ts_nsec := ts_nsec now + uint (1000 * microsec)\<rparr>"

definition timespec_valid :: "timespec \<Rightarrow> bool" where
  "timespec_valid ts \<longleftrightarrow> 0 \<le> ts_nsec ts \<and> ts_nsec ts < 1000000000"

subsection \<open>Properties of threads\<close>

text \<open>
  whatever sequence of \<open>start\<close>, \<open>stop\<close>, \<open>detach\<close> and \<open>join\<close> is called, and when the
  destructor joins at the end, \<open>pthread_join\<close> is called at most once, only on a thread
  that was created and never on a detached one.
\<close>

theorem thread_joined_once:
  assumes "thread_step\<^sup>*\<^sup>* thread_new t" and "thread_destroy ec t = Inr t'"
  shows "joins_ok (calls t')"
proof -
  have "thread_inv t"
    using assms(1) by (induction rule: rtranclp_induct) (auto intro: thread_new_inv thread_step_inv)
  moreover from assms(2) obtain r where "join ec t = Inr (r, t')"
    by (auto simp: thread_destroy_def)
  ultimately have "thread_inv t'" by (meson ts_join thread_step_inv)
  then show ?thesis by (simp add: thread_inv_def)
qed

theorem thread_joined_once_witness: "joins_ok [Create, Join]"
proof -
  let ?t = "\<lparr>stopped = False, msk = 2, calls = [Create]\<rparr>"
  have "start 0 thread_new = Inr (0, ?t)" by code_simp
  then have s: "thread_step\<^sup>*\<^sup>* thread_new ?t" by (intro r_into_rtranclp ts_start)
  have "thread_destroy 0 ?t = Inr \<lparr>stopped = False, msk = 10, calls = [Create, Join]\<rparr>" by code_simp
  from thread_joined_once [OF s this] show ?thesis by simp
qed

text \<open>
  the deadline of a timed wait does not carry into the seconds: for a wait of some
  microseconds near the end of a second the result is no valid time.
\<close>

theorem cond_deadline_no_carry:
  assumes "timespec_valid now" and "us \<le> 4294967" and "1000000000 \<le> ts_nsec now + 1000 * uint us"
  shows "\<not> timespec_valid (cond_deadline now us)"
proof -
  have "uint us \<le> 4294967" using assms(2) by (simp add: word_le_def)
  then have "uint (1000 * us) = 1000 * uint us" by (simp add: uint_mult_lem uint_word_ariths)
  then show ?thesis using assms by (simp add: timespec_valid_def cond_deadline_def)
qed

theorem cond_deadline_no_carry_witness:
  "\<not> timespec_valid (cond_deadline \<lparr>ts_sec = 5, ts_nsec = 999999000\<rparr> 1)"
  by (rule cond_deadline_no_carry) (simp_all add: timespec_valid_def)

end
