(* ===== verification/Net_Socket.thy ===== *)
theory Net_Socket
  imports Net_Buffer
begin

section \<open>Sockets (network/epoll/epoll.hpp, EPollSocket and EPoll)\<close>

text \<open>
  The state that \<open>EPollSocket\<close> keeps, and what it makes of the answers of the system calls,
  which are arguments here: a return code and, where it is looked at, \<open>errno\<close>.  \<open>xlive\<close>
  is false once \<open>xbuf_\<close> has been assigned from a temporary \<open>array_buf\<close>, whose memory
  is gone afterwards.
\<close>

unbundle bit_operations_syntax

datatype errno = EAGAIN | EPIPE | EINTR | EINPROGRESS | E_other nat

definition EPOLLIN :: u32 where "EPOLLIN = 1"
definition EPOLLOUT :: u32 where "EPOLLOUT = 4"

lemmas epoll_flags = EPOLLIN_def EPOLLOUT_def

datatype sock_type = SOCK_STREAM | SOCK_DGRAM

record sock =
  fd :: int
  events :: u32
  xbuf :: buffer
  xlive :: bool
  peer_port :: u16

definition sock_new :: "int \<Rightarrow> buffer \<Rightarrow> sock" where
  "sock_new ofd b = \<lparr>fd = ofd, events = 0, xbuf = b, xlive = True, peer_port = 0\<rparr>"

definition ok_events :: "u32 \<Rightarrow> sock \<Rightarrow> bool" where
  "ok_events m sk \<longleftrightarrow> events sk AND m \<noteq> 0"

definition is_open :: "sock \<Rightarrow> bool" where
  "is_open sk \<longleftrightarrow> 0 \<le> fd sk"

definition sock_close :: "sock \<Rightarrow> sock" where
  "sock_close sk = (if is_open sk then sk\<lparr>fd := -1, events := 0\<rparr> else sk)"

definition sock_open :: "int \<Rightarrow> sock \<Rightarrow> sock outcome" where
  "sock_open sfd sk =
     (if is_open sk then Inl (Err_exit ''already open'')
      else if sfd < 0 then Inl (Err_exit ''socket:SOCK_DGRAM'')
      else Inr (sk\<lparr>events := 0, fd := sfd\<rparr>))"

definition on_events :: "u32 \<Rightarrow> sock \<Rightarrow> sock" where
  "on_events evts sk = sk\<lparr>events := evts\<rparr>"

subsection \<open>What a transfer returns\<close>

definition recv_ret :: "sock_type \<Rightarrow> int \<Rightarrow> int \<Rightarrow> errno \<Rightarrow> sock \<Rightarrow> int \<times> errno \<times> sock" where
  "recv_ret ty ret xlen en sk =
     (let sk1 = (if ret < 0 \<or> ty = SOCK_STREAM \<and> ret < xlen
                 then sk\<lparr>events := events sk AND NOT EPOLLIN\<rparr> else sk)
      in if ret < 0 then (if en = EAGAIN then (0, en, sk1) else (ret, en, sk1))
         else if ty = SOCK_STREAM \<and> ret = 0 then (-1, EPIPE, sk1)
         else (ret, en, sk1))"

definition send_ret :: "sock_type \<Rightarrow> int \<Rightarrow> int \<Rightarrow> errno \<Rightarrow> sock \<Rightarrow> int \<times> errno \<times> sock" where
  "send_ret ty ret xlen en sk =
     (let sk1 = (if ret < xlen \<or> ty = SOCK_DGRAM
                 then sk\<lparr>events := events sk AND NOT EPOLLOUT\<rparr> else sk)
      in if ret < 0 \<and> en = EAGAIN then (0, en, sk1) else (ret, en, sk1))"

fun iovlen_sum :: "byte list list \<Rightarrow> int" where
  "iovlen_sum [] = 0"
| "iovlen_sum (v # vs) = int (length v) + iovlen_sum vs"

subsection \<open>Setting up\<close>

definition connect :: "int \<Rightarrow> errno \<Rightarrow> int outcome" where
  "connect ec en =
     (if ec < 0 then (if en = EINPROGRESS then Inr ec else Inl (Err_exit ''connect'')) else Inr ec)"

definition bind_socket :: "int \<Rightarrow> int outcome" where
  "bind_socket rc = (if rc < 0 then Inl (Err_exit ''bind'') else Inr rc)"

definition listen :: "int \<Rightarrow> int \<Rightarrow> int \<Rightarrow> int outcome" where
  "listen reuse_rc bind_rc listen_rc =
     (if reuse_rc < 0 then Inl (Err_exit ''setsockopt'')
      else bind_ok (bind_socket bind_rc) (\<lambda>rc.
        if rc < 0 then Inl (Err_exit ''bind'')
        else if listen_rc < 0 then Inl (Err_exit ''listen'') else Inr listen_rc))"

text \<open>
  \<open>fcntl(msk, yn)\<close> reads the flags and writes them back only when they change: the answers
  are those of \<open>F_GETFL\<close> and \<open>F_SETFL\<close>; the result is what it writes, if anything.
\<close>

definition fcntl :: "u32 \<Rightarrow> bool \<Rightarrow> int \<Rightarrow> int \<Rightarrow> u32 option outcome" where
  "fcntl m yn getfl setfl =
     (if getfl < 0 then Inl (Err_exit ''F_GETFL'')
      else let flags = (word_of_int getfl :: u32);
               flags' = (if yn then flags OR m else flags AND NOT m)
           in if flags' = flags then Inr None
              else if setfl < 0 then Inl (Err_exit ''F_SETFL'') else Inr (Some flags'))"

definition O_NONBLOCK :: u32 where "O_NONBLOCK = 2048"

definition nonblocking :: "int \<Rightarrow> int \<Rightarrow> u32 option outcome" where
  "nonblocking getfl setfl = fcntl O_NONBLOCK True getfl setfl"

definition tcp_nodelay :: "int \<Rightarrow> unit outcome" where
  "tcp_nodelay rc = (if rc < 0 then Inl (Err_exit ''tcp_nodelay'') else Inr ())"

text \<open>
  The answers to a new connection's calls: the descriptor (or a negative number and
  \<open>errno\<close>), \<open>setsockopt\<close>, \<open>F_GETFL\<close> and \<open>F_SETFL\<close>.
\<close>

record accepted =
  acc_fd :: int
  acc_errno :: errno
  acc_nodelay :: int
  acc_getfl :: int
  acc_setfl :: int

definition init_accepted :: "accepted \<Rightarrow> sock \<Rightarrow> sock outcome" where
  "init_accepted a sk =
     bind_ok (tcp_nodelay (acc_nodelay a)) (\<lambda>_.
     bind_ok (nonblocking (acc_getfl a) (acc_setfl a)) (\<lambda>_.
     Inr (sk\<lparr>fd := acc_fd a, events := 0\<rparr>)))"

definition accept :: "accepted \<Rightarrow> sock \<Rightarrow> sock \<Rightarrow> (int \<times> sock \<times> sock) outcome" where
  "accept a lisk sk =
     (if acc_fd a < 0 then
        (if acc_errno a = EAGAIN then Inr (0, lisk\<lparr>events := 0\<rparr>, sk)
         else Inl (Err_exit ''accept''))
      else bind_ok (init_accepted a sk) (\<lambda>sk'. Inr (1, lisk, sk')))"

text \<open>
  Moving a socket.  The record of the source keeps its buffer: moving that is the buffer's
  own operation.  The second result of the assignment is the descriptor it closes.
\<close>

definition sock_move :: "sock \<Rightarrow> sock \<times> sock" where
  "sock_move rhs = (rhs, rhs\<lparr>fd := -1, events := 0\<rparr>)"

definition sock_move_assign ::
  "(buffer \<Rightarrow> buffer \<Rightarrow> (buffer \<times> buffer) outcome) \<Rightarrow> bool \<Rightarrow> sock \<Rightarrow> sock \<Rightarrow>
   ((sock \<times> sock) \<times> int option) outcome" where
  "sock_move_assign move_buf same this rhs =
     (if same then Inr ((this, rhs), None)
      else bind_ok (move_buf (xbuf this) (xbuf rhs)) (\<lambda>(bt, br).
        Inr ((this\<lparr>fd := fd rhs, events := events rhs, xbuf := bt, peer_port := peer_port rhs\<rparr>,
              rhs\<lparr>fd := -1, events := 0, xbuf := br\<rparr>),
             if 0 \<le> fd this then Some (fd this) else None)))"

text \<open>
  \<open>make_sa(ip, port)\<close>: the address as four bytes, zeroed at first.  \<open>pton ip\<close> is the answer of
  \<open>inet_pton\<close>: a code (1: written, 0: no address, negative: error) and the bytes it writes.
\<close>

record sockaddr =
  sin_addr :: "byte list"
  sin_port :: u16

definition htons :: "u16 \<Rightarrow> u16" where
  "htons x = push_bit 8 x OR drop_bit 8 x"

definition make_sa :: "(string \<Rightarrow> int \<times> byte list) \<Rightarrow> string option \<Rightarrow> u16 \<Rightarrow> sockaddr outcome" where
  "make_sa pton ip port =
     (let any = Inr \<lparr>sin_addr = [0, 0, 0, 0], sin_port = htons port\<rparr>
      in case ip of None \<Rightarrow> any
         | Some s \<Rightarrow>
             if s = [] \<or> hd s = CHR ''*'' then any
             else (case pton s of (rc, bs) \<Rightarrow>
               if rc < 0 then Inl (Err_exit ''inet_pton'')
               else Inr \<lparr>sin_addr = (if rc = 0 then [0, 0, 0, 0] else bs), sin_port = htons port\<rparr>))"

subsection \<open>EPoll\<close>

text \<open>
  The descriptors registered with the epoll instance.  \<open>add\<close> and \<open>del\<close> end the process when
  \<open>epoll_ctl\<close> (its answer is the argument \<open>rc\<close>) refuses.
\<close>

definition epoll_create_fd :: "int \<Rightarrow> int outcome" where
  "epoll_create_fd rc = (if rc < 0 then Inl (Err_exit ''epoll_create'') else Inr rc)"

definition epoll_add :: "int \<Rightarrow> sock \<Rightarrow> int list \<Rightarrow> int list outcome" where
  "epoll_add rc sk reg = (if rc < 0 then Inl (Err_exit ''epoll_ctl'') else Inr (fd sk # reg))"

definition epoll_del :: "int \<Rightarrow> sock \<Rightarrow> int list \<Rightarrow> int list outcome" where
  "epoll_del rc sk reg = (if rc < 0 then Inl (Err_exit ''epoll_ctl'') else Inr (removeAll (fd sk) reg))"

subsection \<open>Laws\<close>

lemma send_ret_dgram_clears:
  "send_ret SOCK_DGRAM ret xlen en sk = (n, en', sk') \<Longrightarrow> \<not> ok_events EPOLLOUT sk'"
  by (auto simp: send_ret_def ok_events_def epoll_flags Let_def bit_eq_iff [where ?'a = "32 word"]
      bit_simps split: if_splits)

lemma and_not_mask: "(e AND NOT m) AND m = (0 :: u32)"
  by (auto simp: bit_eq_iff [where ?'a = "32 word"] bit_simps)

lemma and_not_other: "m AND k = 0 \<Longrightarrow> (e AND NOT m) AND k = (e AND k :: u32)"
  by (auto simp: bit_eq_iff [where ?'a = "32 word"] bit_simps)

lemma recv_ret_sock:
  "recv_ret ty ret xlen en sk = (n, en', sk') \<Longrightarrow>
    fd sk' = fd sk \<and> xbuf sk' = xbuf sk \<and> xlive sk' = xlive sk \<and> peer_port sk' = peer_port sk"
  by (auto simp: recv_ret_def Let_def split: if_splits)

lemma send_ret_sock:
  "send_ret ty ret xlen en sk = (n, en', sk') \<Longrightarrow>
    fd sk' = fd sk \<and> xbuf sk' = xbuf sk \<and> xlive sk' = xlive sk \<and> peer_port sk' = peer_port sk"
  by (auto simp: send_ret_def Let_def split: if_splits)

lemma htons_htons: "htons (htons x) = x"
  by (rule bit_eqI) (auto simp: htons_def bit_simps)

end
