(* ===== verification/Net_Udp.thy ===== *)
theory Net_Udp
  imports Net_Socket Cycle_Queue
begin

section \<open>Frames over UDP (network/epoll/epoll.hpp, udp::io\_basic)\<close>

text \<open>
  A frame of the queue is sent as datagrams of at most \<open>MTU\<close> bytes: a head of two 16-bit
  numbers in network order, the first holding the number of the datagram within the frame
  and, in its top bit, the mark of the last one.  The receiver appends the bodies in its
  buffer and hands the buffer to \<open>NetworkIO::process_recvd\<close> at the end of a frame; any
  gap makes it start over at the next datagram number 0.

  Memory is little-endian, as on the machines the program runs on.
\<close>

unbundle bit_operations_syntax

subsection \<open>NetworkIO::process\_recvd\<close>

text \<open>
  The sink (\<open>rxsink\<close>) looks at the buffer and the transmit queue, may overwrite bytes in
  place and answers how many bytes it is done with.
\<close>

type_synonym 'a sink = "buffer \<Rightarrow> 'a \<Rightarrow> (int \<times> buffer \<times> 'a) outcome"

partial_function (option) process_loop ::
  "'a sink \<Rightarrow> buffer \<Rightarrow> 'a \<Rightarrow> (buffer \<times> 'a) outcome option" where
  "process_loop rx rb a =
     (if buf_empty rb then Some (Inr (rb, a))
      else case rx rb a of
          Inl e \<Rightarrow> Some (Inl e)
        | Inr (len, rb1, a1) \<Rightarrow>
            if 0 < len then
              (if int (used rb1) < len then Some (Inl (Err_exit ''process_recvd''))
               else case consume (nat len) rb1 of
                   Inl e \<Rightarrow> Some (Inl e)
                 | Inr rb2 \<Rightarrow> process_loop rx rb2 a1)
            else Some (Inr (rb1, a1)))"

definition process_recvd :: "'a sink \<Rightarrow> buffer \<Rightarrow> 'a \<Rightarrow> (buffer \<times> 'a) outcome" where
  "process_recvd rx rb a = (case process_loop rx rb a of None \<Rightarrow> Inl Endless | Some r \<Rightarrow> r)"

text \<open>A sink that does not change the number of bytes in the buffer ends the loop.\<close>

definition sink_keeps_size :: "'a sink \<Rightarrow> bool" where
  "sink_keeps_size rx \<longleftrightarrow>
     (\<forall>rb a len rb' a'. rx rb a = Inr (len, rb', a') \<longrightarrow> used rb' = used rb)"

lemma consume_used: "consume n b = Inr b' \<Longrightarrow> used b' = used b - n \<and> n \<le> used b"
  by (auto simp: consume_def Let_def split: if_splits)

lemma process_loop_returns:
  assumes "sink_keeps_size rx"
  shows "\<exists>r. process_loop rx rb a = Some r"
proof (induction "used rb" arbitrary: rb a rule: less_induct)
  case less
  show ?case
  proof (cases "buf_empty rb")
    case True
    then show ?thesis by (simp add: process_loop.simps [of rx rb a])
  next
    case ne: False
    show ?thesis
    proof (cases "rx rb a")
      case (Inl e)
      then show ?thesis using ne by (simp add: process_loop.simps [of rx rb a])
    next
      case (Inr t)
      obtain len rb1 a1 where t: "t = (len, rb1, a1)" by (cases t) auto
      have u: "used rb1 = used rb" using assms Inr t unfolding sink_keeps_size_def by blast
      show ?thesis
      proof (cases "0 < len \<and> len \<le> int (used rb1)")
        case False
        then show ?thesis using ne Inr t
          by (auto simp: process_loop.simps [of rx rb a])
      next
        case True
        show ?thesis
        proof (cases "consume (nat len) rb1")
          case (Inl e)
          then show ?thesis using ne Inr \<open>rx rb a = Inr t\<close> t True
            by (simp add: process_loop.simps [of rx rb a])
        next
          case (Inr rb2)
          then have "used rb2 < used rb" using consume_used [OF Inr] True u by auto
          from less [OF this, of a1] obtain r where "process_loop rx rb2 a1 = Some r" ..
          then show ?thesis using ne Inr \<open>rx rb a = Inr t\<close> t True
            by (simp add: process_loop.simps [of rx rb a])
        qed
      qed
    qed
  qed
qed

subsection \<open>The state of an endpoint\<close>

record 'a udp =
  usk :: sock
  uq :: cq
  uapp :: 'a
  txbuf :: nat
  txpos :: nat
  txbytes :: u32
  xh0 :: u16
  xh1 :: u16
  atime :: int
  reg :: "int list"
  sent :: "byte list list"

definition udp_new :: "sock \<Rightarrow> cq \<Rightarrow> 'a \<Rightarrow> 'a udp" where
  "udp_new sk q a = \<lparr>usk = sk, uq = q, uapp = a, txbuf = cq_end q, txpos = 0, txbytes = 0,
     xh0 = 0, xh1 = 0, atime = 0, reg = [], sent = []\<rparr>"

text \<open>
  The answers of the system calls at set-up: \<open>socket\<close>, \<open>bind\<close>, \<open>F_GETFL\<close>,
  \<open>F_SETFL\<close> and \<open>epoll_ctl\<close>.
\<close>

record setup_answers =
  sa_fd :: int
  sa_bind :: int
  sa_getfl :: int
  sa_setfl :: int
  sa_add :: int

definition udp_client ::
  "setup_answers \<Rightarrow> (string \<Rightarrow> int \<times> byte list) \<Rightarrow> string option \<Rightarrow> u16 \<Rightarrow>
   sock \<Rightarrow> cq \<Rightarrow> 'a \<Rightarrow> 'a udp outcome" where
  "udp_client k pton host port sk q a =
     bind_ok (make_sa pton host port) (\<lambda>sa.
     bind_ok (sock_open (sa_fd k) (sk\<lparr>peer_port := sin_port sa\<rparr>)) (\<lambda>sk1.
     bind_ok (nonblocking (sa_getfl k) (sa_setfl k)) (\<lambda>_.
     bind_ok (epoll_add (sa_add k) sk1 []) (\<lambda>r.
     Inr ((udp_new sk1 q a)\<lparr>reg := r\<rparr>)))))"

definition udp_server ::
  "setup_answers \<Rightarrow> (string \<Rightarrow> int \<times> byte list) \<Rightarrow> string option \<Rightarrow> u16 \<Rightarrow>
   sock \<Rightarrow> cq \<Rightarrow> 'a \<Rightarrow> 'a udp outcome" where
  "udp_server k pton host port sk q a =
     bind_ok (sock_open (sa_fd k) (sk\<lparr>peer_port := 0\<rparr>)) (\<lambda>sk1.
     bind_ok (make_sa pton host port) (\<lambda>_.
     bind_ok (bind_socket (sa_bind k)) (\<lambda>_.
     bind_ok (nonblocking (sa_getfl k) (sa_setfl k)) (\<lambda>_.
     bind_ok (epoll_add (sa_add k) sk1 []) (\<lambda>r.
     Inr ((udp_new sk1 q a)\<lparr>reg := r\<rparr>))))))"

definition has_peer :: "sock \<Rightarrow> bool" where
  "has_peer sk \<longleftrightarrow> peer_port sk \<noteq> 0"

subsection \<open>Closing\<close>

text \<open>
  \<open>sk.xbuf() = xbuffer_type{}\<close>: for an \<open>array_buf\<close> the pointers of a temporary are copied,
  so the buffer is dead afterwards; for a \<open>malloc_buf\<close> it is the endless assignment.
\<close>

datatype rbuf = Array_buf nat | Malloc_buf nat

definition xbuf_reset :: "rbuf \<Rightarrow> (buffer \<times> bool) outcome" where
  "xbuf_reset K = (case K of
      Array_buf cap \<Rightarrow> Inr (array_buf cap, False)
    | Malloc_buf cap \<Rightarrow>
        (case malloc_assign cap (\<lambda>_. 0) 0 False (malloc_ref cap 0) (malloc_ref cap 0) of
           None \<Rightarrow> Inl Endless
         | Some _ \<Rightarrow> Inr (malloc_buf cap, True)))"

definition l2close :: "rbuf \<Rightarrow> int \<Rightarrow> 'a udp \<Rightarrow> 'a udp outcome" where
  "l2close K delrc s =
     (if \<not> is_open (usk s) then Inl Assertion
      else bind_ok (epoll_del delrc (usk s) (reg s)) (\<lambda>r.
           bind_ok (if txbuf s \<noteq> cq_end (uq s)
                    then bind_ok (fail_with (txbuf s) (uq s)) (\<lambda>q.
                           Inr (s\<lparr>reg := r, uq := q, txbuf := cq_end q\<rparr>))
                    else Inr (s\<lparr>reg := r\<rparr>)) (\<lambda>s1.
           bind_ok (xbuf_reset K) (\<lambda>(b, live).
           Inr (s1\<lparr>usk := sock_close ((usk s1)\<lparr>xbuf := b, xlive := live, peer_port := 0\<rparr>)\<rparr>)))))"

subsection \<open>Sending\<close>

definition MTU :: nat where "MTU = 1456"

definition le16 :: "u16 \<Rightarrow> byte list" where
  "le16 w = [ucast w, ucast (drop_bit 8 w)]"

definition of_le16 :: "byte list \<Rightarrow> u16" where
  "of_le16 b = ucast (b ! 0) OR push_bit 8 (ucast (b ! 1))"

definition head_bytes :: "u16 \<Rightarrow> u16 \<Rightarrow> byte list" where
  "head_bytes h0 h1 = le16 (htons h0) @ le16 (htons h1)"

text \<open>The answers of \<open>sendmsg\<close> (code and \<open>errno\<close>) and of \<open>epoll_ctl\<close> if it closes.\<close>

record kernel =
  k_ret :: int
  k_errno :: errno
  k_del :: int

text \<open>What follows the call of \<open>sendmsg\<close>.\<close>

definition l2sent :: "rbuf \<Rightarrow> int \<Rightarrow> nat \<Rightarrow> nat \<Rightarrow> int \<Rightarrow> 'a udp \<Rightarrow> 'a udp outcome" where
  "l2sent K delrc datasize xlen slen s =
     (if slen < 0 then l2close K delrc s
      else if slen < int (4 + xlen) then l2close K delrc s
      else let s' = s\<lparr>txpos := txpos s + xlen, txbytes := txbytes s + of_nat xlen\<rparr>
           in if txpos s' = datasize
              then bind_ok (done_with (txbuf s') (uq s')) (\<lambda>q.
                     Inr (s'\<lparr>txpos := 0, uq := q, txbuf := cq_end q\<rparr>))
              else Inr s')"

text \<open>
  The block that copies the last twelve bytes of a frame for a log line reads them where
  they are, also when the frame is shorter.
\<close>

definition l2send :: "rbuf \<Rightarrow> kernel \<Rightarrow> 'a udp \<Rightarrow> 'a udp outcome" where
  "l2send K k s =
     (if \<not> ok_events EPOLLOUT (usk s) then Inl Assertion
      else if cq_end (uq s) \<le> txbuf s then Inl Undefined
      else let data = contents (bufs (uq s) ! txbuf s) in
        if data = [] \<or> length data \<le> txpos s then Inl Assertion
        else let datalen = length data - txpos s;
                 xlen = min (MTU - 4) datalen;
                 chunk = take xlen (drop (txpos s) data)
             in if xlen = datalen \<and> length data < 12 then Inl Undefined
                else let h0 = (if xlen = datalen then xh0 s OR 0x8000 else xh0 s);
                         head = head_bytes h0 (xh1 s);
                         (slen, _, sk') = send_ret SOCK_DGRAM (k_ret k) (iovlen_sum [head, chunk])
                                            (k_errno k) (usk s)
                     in l2sent K (k_del k) (length data) xlen slen
                          (s\<lparr>xh0 := xh0 s + 1, usk := sk',
                             sent := (if 0 \<le> k_ret k then sent s @ [head @ chunk] else sent s)\<rparr>))"

subsection \<open>Receiving\<close>

text \<open>
  What \<open>recvmsg\<close> answers: a datagram with the port it came from, of which it stores as much
  as there is room for, or an error.
\<close>

datatype arrival = Dgram u16 "byte list" | No_data errno

text \<open>The code after the label \<open>Pos_incr_recv__\<close>.\<close>

definition pos_incr_recv :: "(cq \<times> 'a) sink \<Rightarrow> u16 \<Rightarrow> 'a udp \<Rightarrow> 'a udp outcome" where
  "pos_incr_recv rx h0 s =
     (let s1 = s\<lparr>xh1 := xh1 s + 1\<rparr>
      in if h0 AND 0x8000 \<noteq> 0 then
           (if used (xbuf (usk s1)) < 12 then Inl Undefined
            else bind_ok (process_recvd rx (xbuf (usk s1)) (uq s1, uapp s1)) (\<lambda>(rb, q, a).
                   Inr (s1\<lparr>xh1 := 0, usk := (usk s1)\<lparr>xbuf := rb\<rparr>, uq := q, uapp := a\<rparr>)))
         else Inr s1)"

text \<open>A datagram with its head read and its body committed to the buffer.\<close>

definition accept_body :: "(cq \<times> 'a) sink \<Rightarrow> u16 \<Rightarrow> nat \<Rightarrow> 'a udp \<Rightarrow> 'a udp outcome" where
  "accept_body rx h0 rlen s =
     (if h0 AND 0x7fff = xh1 s then pos_incr_recv rx h0 s
      else let s1 = s\<lparr>xh1 := 0\<rparr>; b = xbuf (usk s1)
           in if h0 AND 0x7fff = 0
              then bind_ok (consume (used b - rlen) b) (\<lambda>b'.
                     pos_incr_recv rx h0 (s1\<lparr>usk := (usk s1)\<lparr>xbuf := b'\<rparr>\<rparr>))
              else bind_ok (consume (used b) b) (\<lambda>b'. Inr (s1\<lparr>usk := (usk s1)\<lparr>xbuf := b'\<rparr>\<rparr>)))"

definition l2recv_one ::
  "rbuf \<Rightarrow> int \<Rightarrow> (cq \<times> 'a) sink \<Rightarrow> arrival \<Rightarrow> 'a udp \<Rightarrow> (bool \<times> 'a udp) outcome" where
  "l2recv_one K delrc rx arr s =
     (let b = xbuf (usk s);
          room = length (store b) - used b;
          xlen = 4 + int room;
          stop = (\<lambda>s'. bind_ok (l2close K delrc s') (\<lambda>s''. Inr (False, s'')))
      in case arr of
           No_data en \<Rightarrow>
             (case recv_ret SOCK_DGRAM (-1) xlen en (usk s) of (rlen, _, sk1) \<Rightarrow>
                if rlen < 0 then stop (s\<lparr>usk := sk1\<rparr>) else Inr (False, s\<lparr>usk := sk1\<rparr>))
         | Dgram port d \<Rightarrow>
             (case recv_ret SOCK_DGRAM (int (min (length d) (4 + room))) xlen EAGAIN
                     ((usk s)\<lparr>peer_port := port\<rparr>) of (rlen, _, sk1) \<Rightarrow>
                let s1 = s\<lparr>usk := sk1\<rparr>; body = take room (drop 4 d)
                in if rlen = 0 then Inr (False, s1)
                   else if rlen < 4 then stop s1
                   else if \<not> xlive (usk s) then Inl Undefined
                   else bind_ok (memcpy_at (used b) body b) (\<lambda>b1.
                        let s2 = s1\<lparr>usk := sk1\<lparr>xbuf := b1\<rparr>\<rparr>
                        in if of_le16 (take 2 d) = 0xffff then
                             (if 8 < rlen then stop s2 else Inr (True, s2))
                           else let h0 = htons (of_le16 (take 2 d))
                                in bind_ok (commit (spaces b1) (nat (rlen - 4)) b1) (\<lambda>b2.
                                   bind_ok (accept_body rx h0 (nat (rlen - 4))
                                              (s2\<lparr>usk := sk1\<lparr>xbuf := b2\<rparr>\<rparr>)) (\<lambda>s3.
                                   Inr (True, s3))))))"

text \<open>
  \<open>while (l2recv_one(sk)) ;\<close> on the datagrams that are there; after them \<open>recvmsg\<close>
  answers \<open>EAGAIN\<close>.
\<close>

fun l2recv ::
  "rbuf \<Rightarrow> int \<Rightarrow> (cq \<times> 'a) sink \<Rightarrow> arrival list \<Rightarrow> 'a udp \<Rightarrow> 'a udp outcome" where
  "l2recv K delrc rx [] s = bind_ok (l2recv_one K delrc rx (No_data EAGAIN) s) (\<lambda>(_, s'). Inr s')"
| "l2recv K delrc rx (a # as) s =
     bind_ok (l2recv_one K delrc rx a s) (\<lambda>(more, s').
       if more then l2recv K delrc rx as s' else Inr s')"

subsection \<open>The event handlers\<close>

definition udp_process_io ::
  "rbuf \<Rightarrow> kernel \<Rightarrow> int \<Rightarrow> (cq \<times> 'a) sink \<Rightarrow> arrival list \<Rightarrow> 'a udp \<Rightarrow> 'a udp outcome" where
  "udp_process_io K k now rx as s =
     bind_ok (if ok_events EPOLLIN (usk s)
              then bind_ok (l2recv K (k_del k) rx as s) (\<lambda>s'. Inr (s'\<lparr>atime := now\<rparr>))
              else Inr s) (\<lambda>s1.
     if ok_events EPOLLOUT (usk s1) \<and> txbuf s1 \<noteq> cq_end (uq s1)
     then bind_ok (l2send K k s1) (\<lambda>s2. Inr (s2\<lparr>atime := now\<rparr>))
     else Inr s1)"

text \<open>One event of \<open>xpoll\<close>: \<open>on_events\<close> stores the flags and calls \<open>process_io\<close>.\<close>

definition udp_event ::
  "rbuf \<Rightarrow> u32 \<Rightarrow> kernel \<Rightarrow> int \<Rightarrow> (cq \<times> 'a) sink \<Rightarrow> arrival list \<Rightarrow> 'a udp \<Rightarrow> 'a udp outcome" where
  "udp_event K evts k now rx as s = udp_process_io K k now rx as (s\<lparr>usk := on_events evts (usk s)\<rparr>)"

subsection \<open>Closing and the write flag\<close>

lemma xbuf_reset_malloc [simp]: "xbuf_reset (Malloc_buf cap) = Inl Endless"
  by (simp add: xbuf_reset_def malloc_assign_diverges)

lemma xbuf_reset_array [simp]: "xbuf_reset (Array_buf cap) = Inr (array_buf cap, False)"
  by (simp add: xbuf_reset_def)

lemma l2close_Inr:
  assumes "l2close K d s = Inr s'"
  shows "is_open (usk s) \<and> (\<exists>cap. K = Array_buf cap \<and>
    usk s' = (usk s)\<lparr>xbuf := array_buf cap, xlive := False, peer_port := 0, fd := -1, events := 0\<rparr>)
    \<and> sent s' = sent s"
proof -
  have o: "is_open (usk s)" using assms by (auto simp: l2close_def split: if_splits)
  from assms o obtain r s1 b live where
    s1: "(if txbuf s \<noteq> cq_end (uq s)
          then bind_ok (fail_with (txbuf s) (uq s)) (\<lambda>q.
                 Inr (s\<lparr>reg := r, uq := q, txbuf := cq_end q\<rparr>))
          else Inr (s\<lparr>reg := r\<rparr>)) = Inr s1"
    and x: "xbuf_reset K = Inr (b, live)"
    and s': "s' = s1\<lparr>usk := sock_close ((usk s1)\<lparr>xbuf := b, xlive := live, peer_port := 0\<rparr>)\<rparr>"
    by (auto simp: l2close_def)
  have "usk s1 = usk s \<and> sent s1 = sent s" using s1 by (auto split: if_splits)
  moreover obtain cap where "K = Array_buf cap" "b = array_buf cap" "\<not> live"
    using x by (cases K) auto
  ultimately show ?thesis using s' o by (auto simp: sock_close_def is_open_def)
qed

lemma l2close_malloc:
  "is_open (usk s) \<Longrightarrow> K = Malloc_buf cap \<Longrightarrow> \<exists>e. l2close K d s = Inl e"
  by (cases "l2close K d s") (auto dest: l2close_Inr)

lemma l2sent_clears:
  assumes "l2sent K d n xlen slen s = Inr s'" and "\<not> ok_events EPOLLOUT (usk s)"
  shows "\<not> ok_events EPOLLOUT (usk s')"
  using assms l2close_Inr [of K d s s']
  by (auto simp: l2sent_def Let_def ok_events_def split: if_splits)

lemma l2send_clears:
  assumes "l2send K k s = Inr s'"
  shows "\<not> ok_events EPOLLOUT (usk s')"
  using assms
  by (auto simp: l2send_def Let_def split: if_splits prod.splits elim!: l2sent_clears
      dest!: send_ret_dgram_clears)


subsection \<open>Before each wait for events\<close>

function prewait_loop ::
  "rbuf \<Rightarrow> (cq \<Rightarrow> cq) \<Rightarrow> nat \<Rightarrow> kernel \<Rightarrow> int \<Rightarrow> bool \<Rightarrow> 'a udp \<Rightarrow> (bool \<times> 'a udp) outcome" where
  "prewait_loop K m millis k now was_sent s =
     (if ok_events EPOLLOUT (usk s) then
        if txbuf s = cq_end (uq s) then
          (case wait m millis (uq s) of
             Inl e \<Rightarrow> Inl e
           | Inr (j, q) \<Rightarrow>
               if j = cq_end q then Inr (was_sent, s\<lparr>uq := q, txbuf := j\<rparr>)
               else prewait_loop K m millis k now was_sent
                      (s\<lparr>uq := q, txbuf := j, txpos := 0, xh0 := 0\<rparr>))
        else
          (case l2send K k s of
             Inl e \<Rightarrow> Inl e
           | Inr s1 \<Rightarrow> prewait_loop K m millis k now True (s1\<lparr>atime := now\<rparr>))
      else Inr (was_sent, s))"
  by pat_completeness auto
termination
  by (relation "measure (\<lambda>(K, m, millis, k, now, was_sent, s).
        if ok_events EPOLLOUT (usk s) then (if txbuf s = cq_end (uq s) then 2 else 1) else 0)")
    (auto dest: l2send_clears)

declare prewait_loop.simps [simp del]

text \<open>\<open>kk\<close> is the kernel's answer to the four bytes sent to keep the peer alive.\<close>

definition prewait ::
  "rbuf \<Rightarrow> (cq \<Rightarrow> cq) \<Rightarrow> nat \<Rightarrow> kernel \<Rightarrow> kernel \<Rightarrow> int \<Rightarrow> 'a udp \<Rightarrow> 'a udp outcome" where
  "prewait K m millis k kk now s =
     (if \<not> has_peer (usk s) then Inr s
      else bind_ok (prewait_loop K m millis k now False s) (\<lambda>(was_sent, s1).
           if \<not> was_sent \<and> 4 < now - atime s1
           then (case send_ret SOCK_DGRAM (k_ret kk) 4 (k_errno kk) (usk s1) of (_, _, sk') \<Rightarrow>
                   Inr (s1\<lparr>usk := sk', atime := now,
                        sent := (if 0 \<le> k_ret kk then sent s1 @ [replicate 4 0xff] else sent s1)\<rparr>))
           else Inr s1))"

text \<open>
  One turn of the thread's loop \<open>NetworkIO::xpoll\<close>: \<open>prewait\<close>, then the events that
  \<open>epoll_wait\<close> reports, each with the answers of the calls its handler makes.
\<close>

datatype ready = Wait_error errno | Ready "(u32 \<times> kernel \<times> arrival list) list"

fun udp_events ::
  "rbuf \<Rightarrow> int \<Rightarrow> (cq \<times> 'a) sink \<Rightarrow> (u32 \<times> kernel \<times> arrival list) list \<Rightarrow> 'a udp \<Rightarrow> 'a udp outcome"
  where
  "udp_events K now rx [] s = Inr s"
| "udp_events K now rx ((evts, k, as) # es) s =
     bind_ok (udp_event K evts k now rx as s) (udp_events K now rx es)"

definition xpoll_turn ::
  "rbuf \<Rightarrow> (cq \<Rightarrow> cq) \<Rightarrow> kernel \<Rightarrow> kernel \<Rightarrow> int \<Rightarrow> (cq \<times> 'a) sink \<Rightarrow> ready \<Rightarrow> 'a udp \<Rightarrow>
   'a udp outcome" where
  "xpoll_turn K m k kk now rx w s =
     bind_ok (prewait K m 0 k kk now s) (\<lambda>s1.
       case w of
         Wait_error e \<Rightarrow> if e = EINTR then Inr s1 else Inl (Err_exit ''epoll_wait'')
       | Ready es \<Rightarrow> udp_events K now rx es s1)"

subsection \<open>The fragments of a frame\<close>

function fragments :: "u16 \<Rightarrow> byte list \<Rightarrow> (u16 \<times> byte list) list" where
  "fragments seq d =
     (if length d \<le> MTU - 4 then [(seq OR 0x8000, d)]
      else (seq, take (MTU - 4) d) # fragments (seq + 1) (drop (MTU - 4) d))"
  by pat_completeness auto
termination by (relation "measure (\<lambda>(_, d). length d)") (auto simp: MTU_def)

declare fragments.simps [simp del]

text \<open>Head number and body of a datagram.\<close>

definition dg_split :: "byte list \<Rightarrow> u16 \<times> byte list" where
  "dg_split dg = (htons (of_le16 (take 2 dg)), drop 4 dg)"

lemma of_le16_le16: "of_le16 (le16 w) = w"
  by (rule bit_eqI) (auto simp: of_le16_def le16_def bit_simps)

lemma length_head_bytes [simp]: "length (head_bytes h0 h1) = 4"
  by (simp add: head_bytes_def le16_def)

lemma take2_head_bytes [simp]: "take 2 (head_bytes h0 h1) = le16 (htons h0)"
  by (simp add: head_bytes_def le16_def)

lemma dg_split_head_bytes [simp]: "dg_split (head_bytes h0 h1 @ b) = (h0, b)"
  by (simp add: dg_split_def of_le16_le16 htons_htons)

lemma fragments_concat: "concat (map snd (fragments seq d)) = d"
proof (induction seq d rule: fragments.induct)
  case (1 seq d)
  then show ?case by (subst fragments.simps) auto
qed

subsection \<open>What one call of l2send sends\<close>

lemma l2send_step:
  assumes q: "cq_ok (uq s)" and t: "txbuf s = iusing (uq s)" and r: "reading (uq s) = Some d"
    and n: "12 \<le> length d" "txpos s < length d"
    and o: "ok_events EPOLLOUT (usk s)"
    and x: "x = min (MTU - 4) (length d - txpos s)" and k: "k_ret k = int (4 + x)"
  shows "\<exists>s'. l2send K k s = Inr s' \<and>
    sent s' = sent s @ [head_bytes (if x = length d - txpos s then xh0 s OR 0x8000 else xh0 s)
                          (xh1 s) @ take x (drop (txpos s) d)] \<and>
    xh0 s' = xh0 s + 1 \<and> cq_ok (uq s') \<and> waiting (uq s') = waiting (uq s) \<and>
    cq_end (uq s') = cq_end (uq s) \<and>
    (if x = length d - txpos s then txbuf s' = cq_end (uq s') \<and> reading (uq s') = None
     else txpos s' = txpos s + x \<and> uq s' = uq s \<and> txbuf s' = txbuf s)"
proof -
  let ?last = "x = length d - txpos s"
  let ?h = "head_bytes (if ?last then xh0 s OR 0x8000 else xh0 s) (xh1 s)"
  let ?c = "take x (drop (txpos s) d)"
  have u: "iusing (uq s) < cq_end (uq s)" "d = contents (bufs (uq s) ! iusing (uq s))"
    using r by (auto simp: reading_def split: if_splits)
  have ne: "d \<noteq> []" using n by auto
  have len: "iovlen_sum [?h, ?c] = int (4 + x)" using x by simp
  obtain n' en sk' where sr: "send_ret SOCK_DGRAM (k_ret k) (iovlen_sum [?h, ?c]) (k_errno k) (usk s)
      = (n', en, sk')" by (metis prod_cases3)
  then have n': "n' = int (4 + x)" using len k by (auto simp: send_ret_def Let_def)
  let ?s1 = "s\<lparr>xh0 := xh0 s + 1, usk := sk', sent := sent s @ [?h @ ?c]\<rparr>"
  have eq: "l2send K k s = l2sent K (k_del k) (length d) x n' ?s1"
    using t u o ne n x k sr by (simp add: l2send_def Let_def split del: if_split)
  show ?thesis
  proof (cases ?last)
    case False
    then have "txpos s + x \<noteq> length d" using n by auto
    then show ?thesis using eq n' q False by (simp add: l2sent_def Let_def)
  next
    case True
    then have "txpos s + x = length d" using n by auto
    moreover from done_using_ok [OF q u(1)] obtain q' where
      "done_with (iusing (uq s)) (uq s) = Inr q'" "cq_ok q'" "cq_end q' = cq_end (uq s)"
      "reading q' = None" "waiting q' = waiting (uq s)" by auto
    ultimately show ?thesis using eq n' t True by (simp add: l2sent_def Let_def)
  qed
qed


subsection \<open>Sending a whole frame\<close>

text \<open>
  A frame goes out over several calls; between them the other thread works on the queue.
  The kernel takes each datagram whole.
\<close>

definition next_len :: "'a udp \<Rightarrow> nat" where
  "next_len s = min (MTU - 4) (length (contents (bufs (uq s) ! txbuf s)) - txpos s)"

inductive tx_step :: "rbuf \<Rightarrow> 'a udp \<Rightarrow> 'a udp \<Rightarrow> bool" for K where
  tx_other: "producer_step (uq s) q' \<Longrightarrow> tx_step K s (s\<lparr>uq := q'\<rparr>)"
| tx_send: "k_ret k = int (4 + next_len s) \<Longrightarrow>
    l2send K k (s\<lparr>usk := on_events evts (usk s)\<rparr>) = Inr s' \<Longrightarrow> tx_step K s s'"

definition in_flight :: "byte list \<Rightarrow> 'a udp \<Rightarrow> bool" where
  "in_flight d s \<longleftrightarrow> cq_ok (uq s) \<and> txbuf s = iusing (uq s) \<and> reading (uq s) = Some d \<and>
     txpos s < length d"

definition all_sent :: "'a udp \<Rightarrow> bool" where
  "all_sent s \<longleftrightarrow> cq_ok (uq s) \<and> txbuf s = cq_end (uq s) \<and> reading (uq s) = None"

definition whole_heads :: "byte list list \<Rightarrow> bool" where
  "whole_heads ds \<longleftrightarrow> list_all (\<lambda>dg. 4 \<le> length dg) ds"

text \<open>What has been sent so far and what is still to come is the frame, cut up.\<close>

definition tx_inv :: "byte list list \<Rightarrow> byte list \<Rightarrow> 'a udp \<Rightarrow> bool" where
  "tx_inv w d s \<longleftrightarrow>
     (\<exists>ds. sent s = w @ ds \<and> whole_heads ds \<and>
       (in_flight d s \<and> map dg_split ds @ fragments (xh0 s) (drop (txpos s) d) = fragments 0 d \<or>
        all_sent s \<and> map dg_split ds = fragments 0 d))"

lemma fragments_step:
  assumes "pos < length d" and "x = min (MTU - 4) (length d - pos)"
  shows "fragments h (drop pos d) =
    (if x = length d - pos then [(h OR 0x8000, take x (drop pos d))]
     else (h, take x (drop pos d)) # fragments (h + 1) (drop (pos + x) d))"
  using assms by (subst fragments.simps) (auto simp: add.commute min_def)

lemma tx_step_inv:
  assumes "12 \<le> length d" and "tx_inv w d s" and "tx_step K s s'"
  shows "tx_inv w d s'"
  using assms(3)
proof cases
  case (tx_other q')
  have "cq_ok (uq s)" using assms(2) by (auto simp: tx_inv_def in_flight_def all_sent_def)
  from producer_step_safe [OF this tx_other(2)] assms(2) tx_other(1)
  show ?thesis by (auto simp: tx_inv_def in_flight_def all_sent_def)
next
  case (tx_send k evts)
  let ?s = "s\<lparr>usk := on_events evts (usk s)\<rparr>"
  from assms(2) obtain ds where ds: "sent s = w @ ds" "whole_heads ds"
    and c: "in_flight d s \<and> map dg_split ds @ fragments (xh0 s) (drop (txpos s) d) = fragments 0 d \<or>
            all_sent s \<and> map dg_split ds = fragments 0 d"
    by (auto simp: tx_inv_def)
  have o: "ok_events EPOLLOUT (usk ?s)" and "txbuf s < cq_end (uq s)"
    using tx_send(2) by (auto simp: l2send_def split: if_splits)
  then have f: "in_flight d s" and
    g: "map dg_split ds @ fragments (xh0 s) (drop (txpos s) d) = fragments 0 d"
    using c by (auto simp: all_sent_def)
  have d: "d = contents (bufs (uq s) ! txbuf s)"
    using f by (auto simp: in_flight_def reading_def split: if_splits)
  let ?x = "next_len s"
  have x: "?x = min (MTU - 4) (length d - txpos ?s)" using d by (simp add: next_len_def)
  have p: "txpos s < length d" using f by (simp add: in_flight_def)
  from l2send_step [of ?s d ?x k K] f assms(1) o x tx_send(1,2) obtain
    h: "sent s' = sent s @ [head_bytes (if ?x = length d - txpos s then xh0 s OR 0x8000 else xh0 s)
                          (xh1 s) @ take ?x (drop (txpos s) d)]"
      "xh0 s' = xh0 s + 1" "cq_ok (uq s')"
      "if ?x = length d - txpos s then txbuf s' = cq_end (uq s') \<and> reading (uq s') = None
       else txpos s' = txpos s + ?x \<and> uq s' = uq s \<and> txbuf s' = txbuf s"
    by (auto simp: in_flight_def)
  note fs = fragments_step [OF p x [simplified], of "xh0 s"]
  show ?thesis
  proof (cases "?x = length d - txpos s")
    case True
    then show ?thesis using h fs g ds by (auto simp: tx_inv_def all_sent_def whole_heads_def)
  next
    case False
    then have "in_flight d s'" using h f x by (auto simp: in_flight_def)
    then show ?thesis using False h fs g ds by (auto simp: tx_inv_def whole_heads_def)
  qed
qed

lemma tx_steps_inv:
  "(tx_step K)\<^sup>*\<^sup>* s s' \<Longrightarrow> 12 \<le> length d \<Longrightarrow> tx_inv w d s \<Longrightarrow> tx_inv w d s'"
  by (induction rule: rtranclp_induct) (auto intro: tx_step_inv)

subsection \<open>Receiving a whole frame\<close>

definition rx_ready :: "'a udp \<Rightarrow> bool" where
  "rx_ready s \<longleftrightarrow> xlive (usk s) \<and> buf_ok (xbuf (usk s))"

lemma recv_ret_dgram:
  "0 \<le> n \<Longrightarrow> recv_ret SOCK_DGRAM n xlen en sk = (n, en, sk)"
  by (simp add: recv_ret_def)

lemma l2recv_one_body:
  assumes "rx_ready s" and "used (xbuf (usk s)) + length body \<le> length (store (xbuf (usk s)))"
    and "dg_split dg = (h0, body)" and "4 \<le> length dg" and "h0 \<noteq> 0xffff"
  shows "\<exists>b. buf_ok b \<and> contents b = contents (xbuf (usk s)) @ body \<and>
    length (store b) = length (store (xbuf (usk s))) \<and>
    l2recv_one K dr rx (Dgram port dg) s =
      bind_ok (accept_body rx h0 (length body)
        (s\<lparr>usk := (usk s)\<lparr>peer_port := port, xbuf := b\<rparr>\<rparr>)) (\<lambda>s3. Inr (True, s3))"
proof -
  let ?b = "xbuf (usk s)"
  let ?room = "length (store ?b) - used ?b"
  have bok: "buf_ok ?b" using assms(1) by (simp add: rx_ready_def)
  have bd: "drop 4 dg = body" "htons (of_le16 (take 2 dg)) = h0" using assms(3) by (auto simp: dg_split_def)
  have nk: "of_le16 (take 2 dg) \<noteq> 0xffff"
  proof
    assume "of_le16 (take 2 dg) = 0xffff"
    then have "h0 = htons 0xffff" using bd(2) by simp
    then show False using assms(5) by (simp add: htons_def)
  qed
  have ld: "length dg = 4 + length body" using bd(1) assms(4) by auto
  have m: "min (length dg) (4 + ?room) = 4 + length body" using ld assms(2) by auto
  have tk: "take ?room (drop 4 dg) = body" using bd(1) assms(2) by simp
  from receive_into_ok [OF bok assms(2)] obtain b2 where
    b2: "receive_into body ?b = Inr b2" "buf_ok b2" "contents b2 = contents ?b @ body"
      "length (store b2) = length (store ?b)" by auto
  then obtain b1 where b1: "memcpy_at (used ?b) body ?b = Inr b1"
    and "commit (spaces ?b) (length body) b1 = Inr b2" by (auto simp: receive_into_def)
  moreover have "spaces b1 = spaces ?b"
    using b1 by (auto simp: memcpy_at_def spaces_def split: if_splits)
  ultimately have c: "commit (spaces b1) (length body) b1 = Inr b2" by simp
  let ?sk = "(usk s)\<lparr>peer_port := port\<rparr>"
  have r: "recv_ret SOCK_DGRAM (int (4 + length body)) (4 + int ?room) EAGAIN ?sk
      = (int (4 + length body), EAGAIN, ?sk)"
    by (rule recv_ret_dgram) simp
  have nt: "nat (int (4 + length body) - 4) = length body" by simp
  have "l2recv_one K dr rx (Dgram port dg) s =
      bind_ok (accept_body rx h0 (length body) (s\<lparr>usk := ?sk\<lparr>xbuf := b2\<rparr>\<rparr>)) (\<lambda>s3. Inr (True, s3))"
    using assms(1) bd nk b1 c tk [unfolded bd(1)]
    by (simp add: l2recv_one_def Let_def m r rx_ready_def nt del: of_nat_add)
  then show ?thesis using b2 by auto
qed


text \<open>Numbers below \<open>0x7fff\<close>: with the mark of the last datagram they are still no \<open>0xffff\<close>.\<close>

definition seq_ok :: "u16 \<Rightarrow> bool" where
  "seq_ok h \<longleftrightarrow> h < 0x7fff"

lemma seq_ok_bit: "seq_ok h \<Longrightarrow> \<not> bit h 15"
proof
  assume "seq_ok h" and "bit h 15"
  then have "uint h < 32767" and "bit (uint h) 15" by (auto simp: seq_ok_def word_less_def bit_simps)
  then show False by (simp add: bit_iff_odd div_pos_pos_trivial)
qed

lemma top_bit: "(0x8000 :: u16) = push_bit 15 1"
  by simp

lemma bit_top: "bit (0x8000 :: u16) n \<longleftrightarrow> n = 15"
  unfolding top_bit bit_push_bit_iff by (auto simp: bit_simps)

lemma bit_top_int: "bit (0x8000 :: int) n \<longleftrightarrow> n = 15"
proof -
  have "(0x8000 :: int) = push_bit 15 1" by simp
  then show ?thesis by (simp only: bit_push_bit_iff bit_1_iff) auto
qed

lemma low_bits: "(0x7fff :: u16) = mask 15"
  by (simp add: mask_eq_exp_minus_1)

lemma less16: "n < 16 \<longleftrightarrow> n < 15 \<or> n = (15 :: nat)"
  by auto

lemma head_number:
  assumes "seq_ok h"
  shows "h AND 0x7fff = h" "h AND 0x8000 = 0" "h \<noteq> 0xffff"
    "(h OR 0x8000) AND 0x7fff = h" "(h OR 0x8000) AND 0x8000 \<noteq> 0" "h OR 0x8000 \<noteq> 0xffff"
proof -
  note b = seq_ok_bit [OF assms]
  show l: "h AND 0x7fff = h" unfolding low_bits
    by (rule bit_eqI) (use b in \<open>auto simp: bit_simps less16\<close>)
  show "h AND 0x8000 = 0"
    by (rule bit_eqI) (use b in \<open>auto simp: bit_and_iff bit_top bit_top_int\<close>)
  show "h \<noteq> 0xffff" using assms by (auto simp: seq_ok_def)
  show m: "(h OR 0x8000) AND 0x7fff = h" unfolding low_bits
    by (rule bit_eqI) (use b in \<open>auto simp: bit_simps bit_top bit_top_int less16\<close>)
  have "bit ((h OR 0x8000) AND 0x8000) 15" by (simp add: bit_and_iff bit_or_iff bit_top bit_top_int)
  then show "(h OR 0x8000) AND 0x8000 \<noteq> 0" by auto
  show "h OR 0x8000 \<noteq> 0xffff"
  proof
    assume "h OR 0x8000 = 0xffff"
    then have "h = 0xffff AND 0x7fff" using m by simp
    then show False using assms by (simp add: seq_ok_def)
  qed
qed


text \<open>The state in which a frame's last datagram leaves the endpoint.\<close>

definition delivered :: "u16 \<Rightarrow> 'a udp \<Rightarrow> buffer \<times> cq \<times> 'a \<Rightarrow> 'a udp" where
  "delivered port s r = (case r of (rb, q, a) \<Rightarrow>
     s\<lparr>xh1 := 0, usk := (usk s)\<lparr>peer_port := port, xbuf := rb\<rparr>, uq := q, uapp := a\<rparr>)"

lemma accept_body_next:
  assumes "seq_ok (xh1 s)"
  shows "accept_body rx (xh1 s) n s = Inr (s\<lparr>xh1 := xh1 s + 1\<rparr>)"
  using head_number [OF assms] by (simp add: accept_body_def pos_incr_recv_def Let_def)

lemma accept_body_last:
  assumes "seq_ok (xh1 s)" and "12 \<le> used (xbuf (usk s))" and "peer_port (usk s) = port"
  shows "accept_body rx (xh1 s OR 0x8000) n s =
    bind_ok (process_recvd rx (xbuf (usk s)) (uq s, uapp s)) (\<lambda>r. Inr (delivered port s r))"
proof -
  have "(usk s)\<lparr>peer_port := port\<rparr> = usk s" using assms(3) by (cases "usk s") simp
  then have "(usk s)\<lparr>peer_port := port, xbuf := rb\<rparr> = (usk s)\<lparr>xbuf := rb\<rparr>" for rb
    by (metis sock.update_convs(3))
  then show ?thesis using head_number [OF assms(1)] assms(2)
    by (simp add: accept_body_def pos_incr_recv_def delivered_def split_def)
qed

lemma l2recv_fragments:
  assumes "rx_ready s" and "whole_heads ds" and "map dg_split ds = fragments (xh1 s) d"
    and "unat (xh1 s) + length d div (MTU - 4) < 0x7fff"
    and "used (xbuf (usk s)) + length d \<le> length (store (xbuf (usk s)))"
    and "12 \<le> used (xbuf (usk s)) + length d"
  shows "\<exists>b. buf_ok b \<and> contents b = contents (xbuf (usk s)) @ d \<and>
    length (store b) = length (store (xbuf (usk s))) \<and>
    l2recv K dr rx (map (Dgram port) ds @ rest) s =
      bind_ok (process_recvd rx b (uq s, uapp s)) (\<lambda>r. l2recv K dr rx rest (delivered port s r))"
  using assms
proof (induction "xh1 s" d arbitrary: s ds rule: fragments.induct)
  case (1 d s)
  let ?b = "xbuf (usk s)"
  have sq: "seq_ok (xh1 s)" using 1(5) by (simp add: seq_ok_def word_less_nat_alt)
  note hn = head_number [OF sq]
  show ?case
  proof (cases "length d \<le> MTU - 4")
    case True
    then have f: "fragments (xh1 s) d = [(xh1 s OR 0x8000, d)]" by (simp add: fragments.simps)
    then obtain dg where ds: "ds = [dg]" "dg_split dg = (xh1 s OR 0x8000, d)" using 1(4) by auto
    have l: "4 \<le> length dg" using 1(3) ds(1) by (simp add: whole_heads_def)
    from l2recv_one_body [OF 1(2) 1(6) ds(2) l hn(6), of K dr rx port] obtain b where
      b: "buf_ok b" "contents b = contents ?b @ d" "length (store b) = length (store ?b)"
      "l2recv_one K dr rx (Dgram port dg) s = bind_ok (accept_body rx (xh1 s OR 0x8000) (length d)
        (s\<lparr>usk := (usk s)\<lparr>peer_port := port, xbuf := b\<rparr>\<rparr>)) (\<lambda>s3. Inr (True, s3))" by auto
    let ?s1 = "s\<lparr>usk := (usk s)\<lparr>peer_port := port, xbuf := b\<rparr>\<rparr>"
    have "used b = used ?b + length d"
      using b(1,2) 1(2) length_contents [of b] length_contents [of ?b] by (simp add: rx_ready_def)
    then have "accept_body rx (xh1 ?s1 OR 0x8000) (length d) ?s1 =
      bind_ok (process_recvd rx (xbuf (usk ?s1)) (uq ?s1, uapp ?s1)) (\<lambda>r. Inr (delivered port ?s1 r))"
      using sq 1(7) by (intro accept_body_last) simp_all
    moreover have "delivered port ?s1 r = delivered port s r" for r
      by (cases r) (simp add: delivered_def)
    ultimately have "l2recv K dr rx (map (Dgram port) ds @ rest) s =
      bind_ok (process_recvd rx b (uq s, uapp s)) (\<lambda>r. l2recv K dr rx rest (delivered port s r))"
      using b(4) ds(1) by (cases "process_recvd rx b (uq s, uapp s)") simp_all
    then show ?thesis using b by blast
  next
    case False
    let ?h = "take (MTU - 4) d" and ?t = "drop (MTU - 4) d"
    have f: "fragments (xh1 s) d = (xh1 s, ?h) # fragments (xh1 s + 1) ?t"
      using False by (subst fragments.simps) simp
    then obtain dg ds' where ds: "ds = dg # ds'" "dg_split dg = (xh1 s, ?h)"
      "map dg_split ds' = fragments (xh1 s + 1) ?t" using 1(4) by auto
    have l: "4 \<le> length dg" "whole_heads ds'" using 1(3) ds(1) by (simp_all add: whole_heads_def)
    have "used ?b + length ?h \<le> length (store ?b)" using 1(6) by simp
    from l2recv_one_body [OF 1(2) this ds(2) l(1) hn(3), of K dr rx port] obtain b where
      b: "buf_ok b" "contents b = contents ?b @ ?h" "length (store b) = length (store ?b)"
      "l2recv_one K dr rx (Dgram port dg) s = bind_ok (accept_body rx (xh1 s) (length ?h)
        (s\<lparr>usk := (usk s)\<lparr>peer_port := port, xbuf := b\<rparr>\<rparr>)) (\<lambda>s3. Inr (True, s3))" by auto
    let ?s1 = "s\<lparr>usk := (usk s)\<lparr>peer_port := port, xbuf := b\<rparr>, xh1 := xh1 s + 1\<rparr>"
    have one: "l2recv_one K dr rx (Dgram port dg) s = Inr (True, ?s1)"
      using b(4) accept_body_next [of "s\<lparr>usk := (usk s)\<lparr>peer_port := port, xbuf := b\<rparr>\<rparr>" rx] sq by simp
    have ub: "used b = used ?b + length ?h"
      using b(1,2) 1(2) length_contents [of b] length_contents [of ?b] by (simp add: rx_ready_def)
    have un: "unat (xh1 s + 1) = unat (xh1 s) + 1"
      using 1(5) by (simp add: unat_word_ariths)
    have dv: "length d div (MTU - 4) = Suc (length ?t div (MTU - 4))"
      using False by (simp add: MTU_def le_div_geq)
    have bd: "rx_ready ?s1" "unat (xh1 ?s1) + length ?t div (MTU - 4) < 32767"
      "used (xbuf (usk ?s1)) + length ?t \<le> length (store (xbuf (usk ?s1)))"
      "12 \<le> used (xbuf (usk ?s1)) + length ?t"
      using 1(2,5,6,7) b(1,3) ub un dv False by (auto simp: rx_ready_def)
    have "\<exists>b'. buf_ok b' \<and> contents b' = contents (xbuf (usk ?s1)) @ ?t \<and>
      length (store b') = length (store (xbuf (usk ?s1))) \<and>
      l2recv K dr rx (map (Dgram port) ds' @ rest) ?s1 =
        bind_ok (process_recvd rx b' (uq ?s1, uapp ?s1)) (\<lambda>r. l2recv K dr rx rest (delivered port ?s1 r))"
      by (rule 1(1) [OF False _ bd(1) l(2) _ bd(2,3,4)]) (simp_all add: ds(3))
    then obtain b' where b': "buf_ok b'" "contents b' = contents b @ ?t"
      "length (store b') = length (store b)"
      "l2recv K dr rx (map (Dgram port) ds' @ rest) ?s1 =
        bind_ok (process_recvd rx b' (uq s, uapp s)) (\<lambda>r. l2recv K dr rx rest (delivered port ?s1 r))"
      by auto
    moreover have "delivered port ?s1 r = delivered port s r" for r
      by (cases r) (simp add: delivered_def)
    ultimately have "l2recv K dr rx (map (Dgram port) ds @ rest) s =
      bind_ok (process_recvd rx b' (uq s, uapp s)) (\<lambda>r. l2recv K dr rx rest (delivered port s r))"
      using one ds(1) by simp
    moreover have "contents b' = contents ?b @ d" using b'(2) b(2) by simp
    ultimately show ?thesis using b' b(3) by auto
  qed
qed


subsection \<open>Starting over at a new frame\<close>

lemma accept_body_restart:
  assumes "xh1 s \<noteq> 0" and "h0 AND 0x7fff = 0" and "buf_ok (xbuf (usk s))"
    and "n \<le> used (xbuf (usk s))"
  shows "\<exists>b. buf_ok b \<and> contents b = drop (used (xbuf (usk s)) - n) (contents (xbuf (usk s))) \<and>
    length (store b) = length (store (xbuf (usk s))) \<and>
    accept_body rx h0 n s = accept_body rx h0 n (s\<lparr>xh1 := 0, usk := (usk s)\<lparr>xbuf := b\<rparr>\<rparr>)"
proof -
  let ?b = "xbuf (usk s)"
  from consume_ok [OF assms(3), of "used ?b - n"] obtain b where
    b: "consume (used ?b - n) ?b = Inr b" "buf_ok b" "contents b = drop (used ?b - n) (contents ?b)"
      "length (store b) = length (store ?b)" by auto
  then show ?thesis using assms(1,2) by (auto simp: accept_body_def Let_def)
qed

lemma seq_ok_0: "seq_ok 0"
  by (simp add: seq_ok_def)

lemma l2recv_frame:
  assumes "rx_ready s" and "whole_heads ds" and "map dg_split ds = fragments 0 d"
    and "xh1 s = 0 \<longrightarrow> used (xbuf (usk s)) = 0"
    and "used (xbuf (usk s)) + min (MTU - 4) (length d) \<le> length (store (xbuf (usk s)))"
    and "12 \<le> length d" and "length d \<le> length (store (xbuf (usk s)))"
    and "length d div (MTU - 4) < 0x7fff"
  shows "\<exists>b. buf_ok b \<and> contents b = d \<and> length (store b) = length (store (xbuf (usk s))) \<and>
    l2recv K dr rx (map (Dgram port) ds @ rest) s =
      bind_ok (process_recvd rx b (uq s, uapp s)) (\<lambda>r. l2recv K dr rx rest (delivered port s r))"
proof (cases "xh1 s = 0")
  case True
  then have u: "used (xbuf (usk s)) = 0" using assms(4) by simp
  then have "contents (xbuf (usk s)) = []" by (simp add: contents_def)
  then show ?thesis
    using l2recv_fragments [OF assms(1,2), of d K dr rx port rest] assms(3,6,7,8) True u by simp
next
  case ne: False
  let ?b = "xbuf (usk s)"
  define x where "x = take (MTU - 4) d"
  define h where "h = (if length d \<le> MTU - 4 then 0 OR 0x8000 else (0 :: u16))"
  have f: "fragments 0 d = (h, x) # (if length d \<le> MTU - 4 then [] else fragments 1 (drop (MTU - 4) d))"
    by (subst fragments.simps) (simp add: x_def h_def)
  then obtain dg ds' where ds: "ds = dg # ds'" "dg_split dg = (h, x)"
    "map dg_split ds' = (if length d \<le> MTU - 4 then [] else fragments 1 (drop (MTU - 4) d))"
    using assms(3) by auto
  have l: "4 \<le> length dg" "whole_heads ds'" using assms(2) ds(1) by (simp_all add: whole_heads_def)
  note hn = head_number [OF seq_ok_0]
  have hz: "h AND 0x7fff = 0" "h \<noteq> 0xffff" using hn by (auto simp: h_def)
  have lx: "length x = min (MTU - 4) (length d)" by (simp add: x_def min.commute)
  have "used ?b + length x \<le> length (store ?b)" using assms(5) lx by simp
  from l2recv_one_body [OF assms(1) this ds(2) l(1) hz(2), of K dr rx port] obtain b1 where
    b1: "buf_ok b1" "contents b1 = contents ?b @ x" "length (store b1) = length (store ?b)"
    "l2recv_one K dr rx (Dgram port dg) s = bind_ok (accept_body rx h (length x)
      (s\<lparr>usk := (usk s)\<lparr>peer_port := port, xbuf := b1\<rparr>\<rparr>)) (\<lambda>s3. Inr (True, s3))" by auto
  let ?s1 = "s\<lparr>usk := (usk s)\<lparr>peer_port := port, xbuf := b1\<rparr>\<rparr>"
  have bok: "buf_ok ?b" using assms(1) by (simp add: rx_ready_def)
  have ub: "used b1 = used ?b + length x"
    using b1(1,2) bok length_contents [of b1] length_contents [of ?b] by simp
  have "\<exists>b. buf_ok b \<and> contents b = drop (used (xbuf (usk ?s1)) - length x) (contents (xbuf (usk ?s1))) \<and>
    length (store b) = length (store (xbuf (usk ?s1))) \<and> accept_body rx h (length x) ?s1 =
      accept_body rx h (length x) (?s1\<lparr>xh1 := 0, usk := (usk ?s1)\<lparr>xbuf := b\<rparr>\<rparr>)"
    by (rule accept_body_restart) (use ne hz b1(1) ub in simp_all)
  then obtain b where b: "buf_ok b" "contents b = x" "length (store b) = length (store ?b)"
    "accept_body rx h (length x) ?s1 =
      accept_body rx h (length x) (?s1\<lparr>xh1 := 0, usk := (usk ?s1)\<lparr>xbuf := b\<rparr>\<rparr>)"
    using b1 ub bok by auto
  let ?s2 = "s\<lparr>xh1 := 0, usk := (usk s)\<lparr>peer_port := port, xbuf := b\<rparr>\<rparr>"
  have s2: "?s1\<lparr>xh1 := 0, usk := (usk ?s1)\<lparr>xbuf := b\<rparr>\<rparr> = ?s2" by simp
  have one: "l2recv_one K dr rx (Dgram port dg) s =
      bind_ok (accept_body rx h (length x) ?s2) (\<lambda>s3. Inr (True, s3))"
    using b1(4) b(4) s2 by simp
  have uxb: "used b = length x" using b(1,2) length_contents [of b] by simp
  show ?thesis
  proof (cases "length d \<le> MTU - 4")
    case True
    then have "accept_body rx (xh1 ?s2 OR 0x8000) (length x) ?s2 =
      bind_ok (process_recvd rx (xbuf (usk ?s2)) (uq ?s2, uapp ?s2)) (\<lambda>r. Inr (delivered port ?s2 r))"
      using assms(6) lx uxb by (intro accept_body_last) (simp_all add: seq_ok_0)
    moreover have "delivered port ?s2 r = delivered port s r" for r
      by (cases r) (simp add: delivered_def)
    ultimately have "l2recv K dr rx (map (Dgram port) ds @ rest) s =
      bind_ok (process_recvd rx b (uq s, uapp s)) (\<lambda>r. l2recv K dr rx rest (delivered port s r))"
      using one ds True by (cases "process_recvd rx b (uq s, uapp s)") (simp_all add: h_def)
    then show ?thesis using b True by (auto simp: x_def)
  next
    case False
    let ?s3 = "?s2\<lparr>xh1 := 1\<rparr>" and ?t = "drop (MTU - 4) d"
    have "l2recv_one K dr rx (Dgram port dg) s = Inr (True, ?s3)"
      using one accept_body_next [of ?s2 rx] False by (simp add: seq_ok_0 h_def)
    moreover have "length d div (MTU - 4) = Suc (length ?t div (MTU - 4))"
      using False by (simp add: MTU_def le_div_geq)
    then have "\<exists>b'. buf_ok b' \<and> contents b' = contents (xbuf (usk ?s3)) @ ?t \<and>
      length (store b') = length (store (xbuf (usk ?s3))) \<and>
      l2recv K dr rx (map (Dgram port) ds' @ rest) ?s3 =
        bind_ok (process_recvd rx b' (uq ?s3, uapp ?s3)) (\<lambda>r. l2recv K dr rx rest (delivered port ?s3 r))"
      using assms(1,6,7,8) l(2) ds(3) False b uxb lx
      by (intro l2recv_fragments) (auto simp: rx_ready_def)
    moreover have "delivered port ?s3 r = delivered port s r" for r
      by (cases r) (simp add: delivered_def)
    ultimately show ?thesis using ds(1) b by (auto simp: x_def)
  qed
qed


subsection \<open>Properties of the transport\<close>

lemma frame_transfer:
  assumes "tx_inv (sent s) d s" and "12 \<le> length d" and "(tx_step K)\<^sup>*\<^sup>* s s'" and "all_sent s'"
    and "rx_ready r" and "xh1 r = 0 \<longrightarrow> used (xbuf (usk r)) = 0"
    and "used (xbuf (usk r)) + min (MTU - 4) (length d) \<le> length (store (xbuf (usk r)))"
    and "length d \<le> length (store (xbuf (usk r)))" and "length d div (MTU - 4) < 0x7fff"
  shows "\<exists>ds b. sent s' = sent s @ ds \<and> concat (map (drop 4) ds) = d \<and> buf_ok b \<and> contents b = d \<and>
    length (store b) = length (store (xbuf (usk r))) \<and>
    l2recv K' dr rx (map (Dgram port) ds @ rest) r =
      bind_ok (process_recvd rx b (uq r, uapp r)) (\<lambda>t. l2recv K' dr rx rest (delivered port r t))"
proof -
  from tx_steps_inv [OF assms(3,2,1)] obtain ds where
    ds: "sent s' = sent s @ ds" "whole_heads ds"
    "in_flight d s' \<or> map dg_split ds = fragments 0 d" by (auto simp: tx_inv_def)
  have m: "map dg_split ds = fragments 0 d"
    using ds(3) assms(4) by (auto simp: in_flight_def all_sent_def)
  have "map (drop 4) ds = map snd (map dg_split ds)" by (simp add: dg_split_def)
  then have "concat (map (drop 4) ds) = d" using m by (simp only: fragments_concat)
  moreover from l2recv_frame [OF assms(5) ds(2) m assms(6,7,2,8,9), of K' dr rx port rest]
  obtain b where "buf_ok b" "contents b = d" "length (store b) = length (store (xbuf (usk r)))"
    "l2recv K' dr rx (map (Dgram port) ds @ rest) r =
      bind_ok (process_recvd rx b (uq r, uapp r)) (\<lambda>t. l2recv K' dr rx rest (delivered port r t))"
    by auto
  ultimately show ?thesis using ds(1) by blast
qed

text \<open>
  C6: a frame arrives as it was sent.  The sender's calls of \<open>l2send\<close>, with any work of the
  encoder thread on the queue in between, send it in datagrams of at most \<open>MTU\<close> bytes; a
  receiver at the start of a frame, or in the middle of one whose end was lost, that gets these
  datagrams calls \<open>process_recvd\<close> once, with exactly the bytes of the frame in its buffer.
\<close>

theorem udp_frame_arrives:
  assumes "in_flight d s" and "txpos s = 0" and "xh0 s = 0" and "12 \<le> length d"
    and "(tx_step K)\<^sup>*\<^sup>* s s'" and "all_sent s'"
    and "rx_ready r" and "xh1 r = 0 \<longrightarrow> used (xbuf (usk r)) = 0"
    and "used (xbuf (usk r)) + min (MTU - 4) (length d) \<le> length (store (xbuf (usk r)))"
    and "length d \<le> length (store (xbuf (usk r)))" and "length d div (MTU - 4) < 0x7fff"
  shows "\<exists>ds b. sent s' = sent s @ ds \<and> concat (map (drop 4) ds) = d \<and> buf_ok b \<and> contents b = d \<and>
    l2recv K' dr rx (map (Dgram port) ds @ rest) r =
      bind_ok (process_recvd rx b (uq r, uapp r)) (\<lambda>t. l2recv K' dr rx rest (delivered port r t))"
proof -
  have "tx_inv (sent s) d s" using assms(1,2,3) by (auto simp: tx_inv_def whole_heads_def)
  from frame_transfer [OF this assms(4,5,6,7,8,9,10,11), of K' dr rx port rest] show ?thesis by blast
qed

definition demo_frame :: "byte list" where
  "demo_frame = [0, 0, 0, 8, 1, 2, 3, 4, 5, 6, 7, 8]"

definition demo_sender :: "unit udp" where
  "demo_sender = (udp_new ((sock_new 3 (array_buf 16))\<lparr>events := 4, peer_port := 7\<rparr>)
     \<lparr>bufs = [\<lparr>store = demo_frame, used = 12\<rparr>, malloc_buf 12], ip = 1, ialloc = 2, iusing = 0\<rparr> ())
     \<lparr>txbuf := 0\<rparr>"

definition demo_receiver :: "unit udp" where
  "demo_receiver = udp_new (sock_new 4 (malloc_buf 20)) (cq_new [malloc_buf 16, malloc_buf 16]) ()"

definition demo_done :: "unit udp" where
  "demo_done = (demo_sender\<lparr>usk := (usk demo_sender)\<lparr>events := 0\<rparr>, txbuf := 2, txbytes := 12,
     xh0 := 1, uq := \<lparr>bufs = [\<lparr>store = demo_frame, used = 0\<rparr>, malloc_buf 12], ip = 1, ialloc = 2,
       iusing = 2\<rparr>, sent := [[0x80, 0, 0, 0] @ demo_frame]\<rparr>)"

lemma demo_tx: "(tx_step (Malloc_buf 12))\<^sup>*\<^sup>* demo_sender demo_done"
proof (intro r_into_rtranclp tx_send)
  let ?k = "\<lparr>k_ret = 16, k_errno = EAGAIN, k_del = 0\<rparr>"
  show "k_ret ?k = int (4 + next_len demo_sender)" by code_simp
  show "l2send (Malloc_buf 12) ?k (demo_sender\<lparr>usk := on_events 4 (usk demo_sender)\<rparr>) = Inr demo_done"
    by (simp add: l2send_def demo_sender_def demo_done_def udp_new_def ok_events_def epoll_flags
        on_events_def cq_end_def contents_def demo_frame_def MTU_def send_ret_def Let_def l2sent_def
        done_with_def on_buf_def consume_def head_bytes_def le16_def htons_def sock_new_def)
qed

theorem udp_frame_arrives_witness:
  "\<exists>ds b. sent demo_done = sent demo_sender @ ds \<and> concat (map (drop 4) ds) = demo_frame \<and>
    buf_ok b \<and> contents b = demo_frame \<and>
    l2recv (Array_buf 16) 0 (\<lambda>rb a. Inr (0, rb, a)) (map (Dgram 9) ds @ []) demo_receiver =
      bind_ok (process_recvd (\<lambda>rb a. Inr (0, rb, a)) b (uq demo_receiver, uapp demo_receiver))
        (\<lambda>t. l2recv (Array_buf 16) 0 (\<lambda>rb a. Inr (0, rb, a)) [] (delivered 9 demo_receiver t))"
proof (rule udp_frame_arrives [OF _ _ _ _ demo_tx])
  show "in_flight demo_frame demo_sender"
    by (auto simp: in_flight_def demo_sender_def udp_new_def cq_ok_def cq_end_def reading_def
        contents_def demo_frame_def buf_ok_def malloc_buf_def buf_empty_def)
  show "all_sent demo_done"
    by (auto simp: all_sent_def demo_done_def demo_sender_def udp_new_def cq_ok_def cq_end_def
        reading_def demo_frame_def buf_ok_def malloc_buf_def)
  show "rx_ready demo_receiver"
    by (simp add: rx_ready_def demo_receiver_def udp_new_def sock_new_def malloc_buf_def buf_ok_def)
qed (simp_all add: demo_sender_def demo_receiver_def udp_new_def sock_new_def demo_frame_def
    malloc_buf_def MTU_def)


text \<open>
  \<open>process_recvd\<close> ends for every sink that leaves the number of bytes in the buffer
  alone, and then the buffer is empty or the sink has asked for more.
\<close>

theorem process_recvd_ends:
  assumes "sink_keeps_size rx"
  shows "\<exists>r. process_loop rx rb a = Some r \<and> process_recvd rx rb a = r \<and>
    (case r of Inl _ \<Rightarrow> True
     | Inr (rb', a') \<Rightarrow> buf_empty rb' \<or> (\<exists>rb0 a0 len. rx rb0 a0 = Inr (len, rb', a') \<and> len \<le> 0))"
proof -
  have "process_loop rx rb a = Some (Inr (rb', a')) \<Longrightarrow>
      buf_empty rb' \<or> (\<exists>rb0 a0 len. rx rb0 a0 = Inr (len, rb', a') \<and> len \<le> 0)" for rb' a'
  proof (induction "used rb" arbitrary: rb a rule: less_induct)
    case less
    show ?case
    proof (rule ccontr)
      assume no: "\<not> ?case"
      then obtain len rb1 a1 where r: "rx rb a = Inr (len, rb1, a1)"
        using less(2) by (cases "rx rb a") (auto simp: process_loop.simps [of rx rb a] split: if_splits)
      have u: "used rb1 = used rb" using assms r unfolding sink_keeps_size_def by blast
      have "0 < len"
      proof (rule ccontr)
        assume "\<not> 0 < len"
        moreover from this have "buf_empty rb \<or> rb1 = rb' \<and> a1 = a'"
          using less(2) r by (auto simp: process_loop.simps [of rx rb a] split: if_splits)
        moreover have "\<not> buf_empty rb"
          using less(2) no by (auto simp: process_loop.simps [of rx rb a])
        ultimately show False using no r by (metis linorder_not_le)
      qed
      with less(2) r no obtain rb2 where c: "consume (nat len) rb1 = Inr rb2"
        and l: "process_loop rx rb2 a1 = Some (Inr (rb', a'))"
        by (auto simp: process_loop.simps [of rx rb a] split: if_splits sum.splits)
      have "used rb2 < used rb" using consume_used [OF c] u \<open>0 < len\<close> by auto
      then show False using less(1) l no by blast
    qed
  qed
  moreover obtain r where "process_loop rx rb a = Some r"
    using process_loop_returns [OF assms] by blast
  ultimately show ?thesis by (auto simp: process_recvd_def split: sum.splits)
qed

theorem process_recvd_ends_witness:
  "\<exists>r. process_loop (\<lambda>rb a. Inr (1, rb, a + 1)) (array_buf 4) (0 :: nat) = Some r \<and>
    process_recvd (\<lambda>rb a. Inr (1, rb, a + 1)) (array_buf 4) (0 :: nat) = r \<and>
    (case r of Inl _ \<Rightarrow> True
     | Inr (rb', a') \<Rightarrow> buf_empty rb' \<or>
         (\<exists>rb0 a0 len. (\<lambda>rb a. Inr (1, rb, a + 1)) rb0 a0 = (Inr (len, rb', a') :: (int \<times> buffer \<times> nat) outcome)
            \<and> len \<le> 0))"
  by (rule process_recvd_ends) (simp add: sink_keeps_size_def)

text \<open>
  a datagram the kernel cannot take at the moment (\<open>EAGAIN\<close>) is not tried again:
  \<open>send_ret_\<close> turns the error into 0, \<open>l2send\<close> sees a short write and closes the endpoint.  With
  the server's \<open>array_buf\<close> the socket is closed and its receive buffer dead; with the client's
  \<open>malloc_buf\<close> the call never returns.
\<close>

theorem refused_send_closes:
  assumes "in_flight d s" and "12 \<le> length d" and "ok_events EPOLLOUT (usk s)"
    and "is_open (usk s)" and "k_ret k = -1" and "k_errno k = EAGAIN" and "0 \<le> k_del k"
  shows "case K of
      Malloc_buf cap \<Rightarrow> l2send K k s = Inl Endless
    | Array_buf cap \<Rightarrow> (\<exists>s'. l2send K k s = Inr s' \<and> \<not> is_open (usk s') \<and> \<not> xlive (usk s') \<and>
        reading (uq s') = None \<and> txbuf s' = cq_end (uq s') \<and> sent s' = sent s)"
proof -
  have q: "cq_ok (uq s)" and t: "txbuf s = iusing (uq s)" "txpos s < length d"
    and u: "iusing (uq s) < cq_end (uq s)" "d = contents (bufs (uq s) ! iusing (uq s))"
    using assms(1) by (auto simp: in_flight_def reading_def split: if_splits)
  let ?sk = "(usk s)\<lparr>events := events (usk s) AND NOT EPOLLOUT\<rparr>"
  let ?s1 = "s\<lparr>xh0 := xh0 s + 1, usk := ?sk\<rparr>"
  have "d \<noteq> []" using assms(2) by auto
  have sr: "send_ret SOCK_DGRAM (-1) n EAGAIN (usk s) = (0, EAGAIN, ?sk)" for n
    by (simp add: send_ret_def)
  have eq: "l2send K k s = l2close K (k_del k) ?s1"
    using assms(2,3,5,6) t u \<open>d \<noteq> []\<close> by (simp add: l2send_def sr Let_def l2sent_def)
  from fail_using_ok [OF q u(1)] obtain q' where q':
    "fail_with (iusing (uq s)) (uq s) = Inr q'" "reading q' = None" by auto
  have o: "is_open (usk ?s1)" using assms(4) by (simp add: is_open_def)
  show ?thesis
  proof (cases K)
    case (Array_buf cap)
    then show ?thesis
      using eq o assms(7) t u q' by (simp add: l2close_def epoll_del_def sock_close_def is_open_def)
  next
    case (Malloc_buf cap)
    then show ?thesis using eq o assms(7) t u q' by (simp add: l2close_def epoll_del_def)
  qed
qed

theorem refused_send_closes_witness:
  "l2send (Malloc_buf 12) \<lparr>k_ret = -1, k_errno = EAGAIN, k_del = 0\<rparr> demo_sender = Inl Endless"
proof -
  have "in_flight demo_frame demo_sender"
    by (auto simp: in_flight_def demo_sender_def udp_new_def cq_ok_def cq_end_def reading_def
        contents_def demo_frame_def buf_ok_def malloc_buf_def buf_empty_def)
  from refused_send_closes [OF this, of "\<lparr>k_ret = -1, k_errno = EAGAIN, k_del = 0\<rparr>" "Malloc_buf 12"]
  show ?thesis
    by (simp add: demo_sender_def udp_new_def demo_frame_def ok_events_def epoll_flags is_open_def
        sock_new_def)
qed

text \<open>
  the block for the log line trusts the peer: a datagram marked as the last one, with
  which the buffer holds less than twelve bytes, makes the receiver read before the buffer.
\<close>

theorem short_frame_read_outside:
  assumes "rx_ready s" and "dg_split dg = (xh1 s OR 0x8000, body)" and "4 \<le> length dg"
    and "seq_ok (xh1 s)" and "used (xbuf (usk s)) + length body < 12"
    and "12 \<le> length (store (xbuf (usk s)))"
  shows "l2recv_one K dr rx (Dgram port dg) s = Inl Undefined"
proof -
  note hn = head_number [OF assms(4)]
  have "used (xbuf (usk s)) + length body \<le> length (store (xbuf (usk s)))" using assms(5,6) by simp
  from l2recv_one_body [OF assms(1) this assms(2,3) hn(6), of K dr rx port] obtain b where
    b: "buf_ok b" "contents b = contents (xbuf (usk s)) @ body"
      "l2recv_one K dr rx (Dgram port dg) s = bind_ok (accept_body rx (xh1 s OR 0x8000) (length body)
        (s\<lparr>usk := (usk s)\<lparr>peer_port := port, xbuf := b\<rparr>\<rparr>)) (\<lambda>s3. Inr (True, s3))" by auto
  have "used b < 12"
    using b(1,2) assms(1,5) length_contents [of b] length_contents [of "xbuf (usk s)"]
    by (simp add: rx_ready_def)
  then show ?thesis using b(3) hn by (simp add: accept_body_def pos_incr_recv_def Let_def)
qed

theorem short_frame_read_outside_witness:
  "l2recv_one (Malloc_buf 20) 0 (\<lambda>rb a. Inr (0, rb, a)) (Dgram 7 [0x80, 0, 0, 0, 1]) demo_receiver
    = Inl Undefined"
proof (rule short_frame_read_outside)
  show "dg_split [0x80, 0, 0, 0, 1] = (xh1 demo_receiver OR 0x8000, [1])"
    by (simp add: dg_split_def demo_receiver_def udp_new_def of_le16_def htons_def)
qed (simp_all add: rx_ready_def demo_receiver_def udp_new_def sock_new_def malloc_buf_def buf_ok_def
    seq_ok_def)

end
