(* ===== verification/Net_Tcp.thy ===== *)
theory Net_Tcp
  imports Net_Udp
begin

section \<open>Frames over TCP (network/epoll/epoll.hpp, NetworkIO and StreamIO)\<close>

text \<open>
  The members of \<open>NetworkIO\<close> that work on a connected socket (\<open>l1send\<close>, \<open>l1recv\<close>,
  \<open>trysendx\<close>, \<open>error\<close>, \<open>l1close\<close>) and the event handlers of the TCP client and
  server.  \<open>tx_p\<close> is the pointer \<open>tx_p_\<close> into the frame being sent, as an offset, or
  None for the null pointer.
\<close>

record 'a tcp =
  tsk :: sock
  lsk :: sock
  tq :: cq
  tapp :: 'a
  tx_p :: "nat option"
  txq_iter :: nat
  treg :: "int list"
  tsent :: "byte list"

definition tcp_new :: "sock \<Rightarrow> sock \<Rightarrow> cq \<Rightarrow> 'a \<Rightarrow> 'a tcp" where
  "tcp_new sk lisk q a = \<lparr>tsk = sk, lsk = lisk, tq = q, tapp = a, tx_p = None, txq_iter = cq_end q,
     treg = [], tsent = []\<rparr>"

subsection \<open>Closing\<close>

definition l1close :: "int \<Rightarrow> 'a tcp \<Rightarrow> 'a tcp outcome" where
  "l1close delrc s =
     (if is_open (tsk s)
      then bind_ok (epoll_del delrc (tsk s) (treg s)) (\<lambda>r.
             Inr (s\<lparr>treg := r, tsk := sock_close (tsk s)\<rparr>))
      else Inr s)"

definition l1close_listener :: "int \<Rightarrow> 'a tcp \<Rightarrow> 'a tcp outcome" where
  "l1close_listener delrc s =
     (if is_open (lsk s)
      then bind_ok (epoll_del delrc (lsk s) (treg s)) (\<lambda>r.
             Inr (s\<lparr>treg := r, lsk := sock_close (lsk s)\<rparr>))
      else Inr s)"

definition tcp_l2close :: "rbuf \<Rightarrow> int \<Rightarrow> 'a tcp \<Rightarrow> 'a tcp outcome" where
  "tcp_l2close K delrc s =
     bind_ok (xbuf_reset K) (\<lambda>(b, live).
       l1close delrc (s\<lparr>tsk := (tsk s)\<lparr>xbuf := b, xlive := live\<rparr>\<rparr>))"

definition tcp_l2close_listener :: "rbuf \<Rightarrow> int \<Rightarrow> int \<Rightarrow> 'a tcp \<Rightarrow> 'a tcp outcome" where
  "tcp_l2close_listener K delrc ldelrc s =
     bind_ok (tcp_l2close K delrc s) (l1close_listener ldelrc)"

definition tcp_error :: "rbuf \<Rightarrow> int \<Rightarrow> 'a tcp \<Rightarrow> 'a tcp outcome" where
  "tcp_error K delrc s =
     bind_ok (tcp_l2close K delrc s) (\<lambda>s1.
       if tx_p s1 \<noteq> None
       then bind_ok (done_with (txq_iter s1) (tq s1)) (\<lambda>q. Inr (s1\<lparr>tx_p := None, tq := q\<rparr>))
       else Inr s1)"

subsection \<open>Sending\<close>

text \<open>One pass of the loop of \<open>l1send\<close>; False ends the loop.\<close>

definition l1send_pass :: "rbuf \<Rightarrow> kernel \<Rightarrow> nat \<Rightarrow> 'a tcp \<Rightarrow> (bool \<times> 'a tcp) outcome" where
  "l1send_pass K k p s =
     (let data = contents (bufs (tq s) ! txq_iter s); xlen = length data - p
      in case send_ret SOCK_STREAM (k_ret k) (int xlen) (k_errno k) (tsk s) of (n, _, sk') \<Rightarrow>
           let s1 = s\<lparr>tsk := sk', tsent := tsent s @ take (nat (k_ret k)) (drop p data)\<rparr>
           in if int xlen < n then Inl (Err_exit ''l1send'')
              else if n < 0 then bind_ok (tcp_error K (k_del k) s1) (\<lambda>s2. Inr (False, s2))
              else if n = 0 then
                (if ok_events EPOLLOUT sk' then Inl Assertion else Inr (False, s1))
              else if n = int xlen then
                bind_ok (done_with (txq_iter s1) (tq s1)) (\<lambda>q. Inr (True, s1\<lparr>tq := q, tx_p := None\<rparr>))
              else Inr (True, s1\<lparr>tx_p := Some (p + nat n)\<rparr>))"

lemma send_ret_stream_short:
  "send_ret SOCK_STREAM ret xlen en sk = (n, en', sk') \<Longrightarrow> 0 \<le> n \<Longrightarrow> n < xlen \<Longrightarrow>
    \<not> ok_events EPOLLOUT sk'"
  by (auto simp: send_ret_def ok_events_def and_not_mask Let_def split: if_splits)

lemma l1send_pass_stops:
  assumes "l1send_pass K k p s = Inr (True, s')"
  shows "\<not> (ok_events EPOLLOUT (tsk s') \<and> tx_p s' \<noteq> None)"
proof -
  let ?xlen = "length (contents (bufs (tq s) ! txq_iter s)) - p"
  obtain n en sk' where sr: "send_ret SOCK_STREAM (k_ret k) (int ?xlen) (k_errno k) (tsk s) = (n, en, sk')"
    by (metis prod_cases3)
  show ?thesis using assms sr send_ret_stream_short [OF sr]
    by (auto simp: l1send_pass_def Let_def split: if_splits)
qed

function l1send :: "rbuf \<Rightarrow> (nat \<Rightarrow> kernel) \<Rightarrow> nat \<Rightarrow> 'a tcp \<Rightarrow> 'a tcp outcome" where
  "l1send K ks i s =
     (if ok_events EPOLLOUT (tsk s) then
        (case tx_p s of
           None \<Rightarrow> Inr s
         | Some p \<Rightarrow>
             (case l1send_pass K (ks i) p s of
                Inl e \<Rightarrow> Inl e
              | Inr (again, s') \<Rightarrow> if again then l1send K ks (Suc i) s' else Inr s'))
      else Inr s)"
  by pat_completeness auto
termination
  by (relation "measure (\<lambda>(K, ks, i, s). if ok_events EPOLLOUT (tsk s) \<and> tx_p s \<noteq> None then 1 else 0)")
    (auto dest: l1send_pass_stops)

declare l1send.simps [simp del]

definition trysendx :: "rbuf \<Rightarrow> (nat \<Rightarrow> kernel) \<Rightarrow> 'a tcp \<Rightarrow> 'a tcp outcome" where
  "trysendx K ks s =
     bind_ok (if tx_p s = None
              then bind_ok (wait id 0 (tq s)) (\<lambda>(j, q).
                     Inr (s\<lparr>tq := q, txq_iter := j, tx_p := (if j \<noteq> cq_end q then Some 0 else None)\<rparr>))
              else Inr s) (\<lambda>s1.
     if tx_p s1 \<noteq> None then l1send K ks 0 s1 else Inr s1)"

definition tcp_prewait :: "rbuf \<Rightarrow> (nat \<Rightarrow> kernel) \<Rightarrow> 'a tcp \<Rightarrow> 'a tcp outcome" where
  "tcp_prewait K ks s = (if is_open (tsk s) then trysendx K ks s else Inr s)"

subsection \<open>Receiving\<close>

text \<open>What one \<open>recv\<close> answers: bytes (none: the peer has closed) or an error.\<close>

datatype stream_answer = Stream "byte list" | Stream_error errno

definition l1recv_pass ::
  "rbuf \<Rightarrow> int \<Rightarrow> (cq \<times> 'a) sink \<Rightarrow> stream_answer \<Rightarrow> 'a tcp \<Rightarrow> (bool \<times> 'a tcp) outcome" where
  "l1recv_pass K delrc rx a s =
     (let rb = xbuf (tsk s); xlen = length (store rb) - used rb in
      if \<not> xlive (tsk s) then Inl Undefined
      else if xlen = 0 then Inl (Err_exit ''l1recv'')
      else let d = (case a of Stream d \<Rightarrow> d | Stream_error _ \<Rightarrow> []);
               ret = (case a of Stream d \<Rightarrow> int (length d) | Stream_error _ \<Rightarrow> -1);
               err = (case a of Stream _ \<Rightarrow> EAGAIN | Stream_error e \<Rightarrow> e)
           in case recv_ret SOCK_STREAM ret (int xlen) err (tsk s) of (n, _, sk') \<Rightarrow>
                if int xlen < n then Inl (Err_exit ''l1recv'')
                else if n < 0 then bind_ok (tcp_error K delrc (s\<lparr>tsk := sk'\<rparr>)) (\<lambda>s1. Inr (False, s1))
                else if n = 0 then
                  (if ok_events EPOLLIN sk' then Inl Assertion else Inr (False, s\<lparr>tsk := sk'\<rparr>))
                else bind_ok (receive_into d rb) (\<lambda>rb1.
                     bind_ok (process_recvd rx rb1 (tq s, tapp s)) (\<lambda>(rb2, q, b).
                     Inr (True, s\<lparr>tsk := sk'\<lparr>xbuf := rb2\<rparr>, tq := q, tapp := b\<rparr>))))"

text \<open>The loop of \<open>l1recv\<close> on the answers to come; after them \<open>recv\<close> answers \<open>EAGAIN\<close>.\<close>

fun l1recv_loop ::
  "rbuf \<Rightarrow> int \<Rightarrow> (cq \<times> 'a) sink \<Rightarrow> stream_answer list \<Rightarrow> 'a tcp \<Rightarrow> 'a tcp outcome" where
  "l1recv_loop K delrc rx [] s =
     (if ok_events EPOLLIN (tsk s)
      then bind_ok (l1recv_pass K delrc rx (Stream_error EAGAIN) s) (\<lambda>(_, s'). Inr s')
      else Inr s)"
| "l1recv_loop K delrc rx (a # as) s =
     (if ok_events EPOLLIN (tsk s)
      then bind_ok (l1recv_pass K delrc rx a s) (\<lambda>(again, s').
             if again then l1recv_loop K delrc rx as s' else Inr s')
      else Inr s)"

definition l1recv ::
  "rbuf \<Rightarrow> int \<Rightarrow> (cq \<times> 'a) sink \<Rightarrow> stream_answer list \<Rightarrow> 'a tcp \<Rightarrow> 'a tcp outcome" where
  "l1recv K delrc rx as s =
     (if ok_events EPOLLIN (tsk s) then l1recv_loop K delrc rx as s else Inl Assertion)"

definition stream_process_io ::
  "rbuf \<Rightarrow> (nat \<Rightarrow> kernel) \<Rightarrow> int \<Rightarrow> (cq \<times> 'a) sink \<Rightarrow> stream_answer list \<Rightarrow> 'a tcp \<Rightarrow> 'a tcp outcome"
  where
  "stream_process_io K ks delrc rx as s =
     bind_ok (if ok_events EPOLLIN (tsk s) then l1recv K delrc rx as s else Inr s) (\<lambda>s1.
     if ok_events EPOLLOUT (tsk s1) then l1send K ks 0 s1 else Inr s1)"

subsection \<open>Connections\<close>

definition stream_setup :: "accepted \<Rightarrow> int \<Rightarrow> 'a tcp \<Rightarrow> 'a tcp outcome" where
  "stream_setup a addrc s =
     bind_ok (tcp_nodelay (acc_nodelay a)) (\<lambda>_.
     bind_ok (nonblocking (acc_getfl a) (acc_setfl a)) (\<lambda>_.
     bind_ok (epoll_add addrc (tsk s) (treg s)) (\<lambda>r. Inr (s\<lparr>treg := r\<rparr>))))"

text \<open>
  The loop of the server's handler on the connections waiting, with the answer of
  \<open>epoll_ctl\<close> for each; after them \<open>accept\<close> answers \<open>EAGAIN\<close>.
\<close>

fun accept_loop :: "(accepted \<times> int) list \<Rightarrow> 'a tcp \<Rightarrow> 'a tcp outcome" where
  "accept_loop [] s =
     (if ok_events EPOLLIN (lsk s) then Inr (s\<lparr>lsk := (lsk s)\<lparr>events := 0\<rparr>\<rparr>) else Inr s)"
| "accept_loop ((a, addrc) # as) s =
     (if ok_events EPOLLIN (lsk s) then
        bind_ok (accept a (lsk s) (tsk s)) (\<lambda>(n, lisk, sk).
          let s1 = s\<lparr>lsk := lisk, tsk := sk\<rparr>
          in if n \<le> 0 then (if n < 0 then Inl (Err_exit ''accept'') else accept_loop as s1)
             else bind_ok (stream_setup a addrc s1) (accept_loop as))
      else Inr s)"

definition listener_process_io :: "(accepted \<times> int) list \<Rightarrow> 'a tcp \<Rightarrow> 'a tcp outcome" where
  "listener_process_io as s = (if is_open (tsk s) then Inr s else accept_loop as s)"

definition tcp_server ::
  "setup_answers \<Rightarrow> int \<Rightarrow> int \<Rightarrow> (string \<Rightarrow> int \<times> byte list) \<Rightarrow> string option \<Rightarrow> u16 \<Rightarrow>
   sock \<Rightarrow> sock \<Rightarrow> cq \<Rightarrow> 'a \<Rightarrow> 'a tcp outcome" where
  "tcp_server k reuse_rc listen_rc pton host port sk lisk q a =
     bind_ok (sock_open (sa_fd k) lisk) (\<lambda>l1.
     bind_ok (if reuse_rc < 0 then Inl (Err_exit ''setsockopt'') else make_sa pton host port) (\<lambda>_.
     bind_ok (listen reuse_rc (sa_bind k) listen_rc) (\<lambda>_.
     bind_ok (nonblocking (sa_getfl k) (sa_setfl k)) (\<lambda>_.
     bind_ok (epoll_add (sa_add k) l1 []) (\<lambda>r.
     Inr ((tcp_new sk l1 q a)\<lparr>treg := r\<rparr>))))))"

definition tcp_client ::
  "setup_answers \<Rightarrow> int \<Rightarrow> errno \<Rightarrow> accepted \<Rightarrow> (string \<Rightarrow> int \<times> byte list) \<Rightarrow> string option \<Rightarrow>
   u16 \<Rightarrow> sock \<Rightarrow> cq \<Rightarrow> 'a \<Rightarrow> 'a tcp outcome" where
  "tcp_client k conn_rc en acc pton host port sk q a =
     bind_ok (sock_open (sa_fd k) sk) (\<lambda>sk1.
     bind_ok (make_sa pton host port) (\<lambda>_.
     bind_ok (connect conn_rc en) (\<lambda>_.
     stream_setup acc (sa_add k) (tcp_new sk1 (sock_new (-1) (xbuf sk)) q a))))"


subsection \<open>A frame on the stream\<close>

lemma l1send_once:
  "l1send K ks i s =
     (if ok_events EPOLLOUT (tsk s) then
        (case tx_p s of None \<Rightarrow> Inr s
         | Some p \<Rightarrow> bind_ok (l1send_pass K (ks i) p s) (\<lambda>(_, s'). Inr s'))
      else Inr s)"
proof (cases "ok_events EPOLLOUT (tsk s)")
  case True
  show ?thesis
  proof (cases "tx_p s")
    case None
    then show ?thesis by (simp add: l1send.simps [of K ks i s])
  next
    case (Some p)
    show ?thesis
    proof (cases "l1send_pass K (ks i) p s")
      case (Inl e)
      then show ?thesis using True Some by (simp add: l1send.simps [of K ks i s])
    next
      case (Inr r)
      obtain again s' where r: "r = (again, s')" by force
      have "l1send K ks (Suc i) s' = Inr s'" if again
        using l1send_pass_stops [of K "ks i" p s s'] Inr r that
        by (auto simp: l1send.simps [of K ks "Suc i" s'] split: option.splits)
      then show ?thesis using True Some Inr r by (simp add: l1send.simps [of K ks i s])
    qed
  qed
next
  case False
  then show ?thesis by (simp add: l1send.simps [of K ks i s])
qed

definition tcp_left :: "'a tcp \<Rightarrow> nat" where
  "tcp_left s = (case tx_p s of None \<Rightarrow> 0
     | Some p \<Rightarrow> length (contents (bufs (tq s) ! txq_iter s)) - p)"

text \<open>
  Events on the socket while the other thread works on the queue; the kernel takes any part
  of what it is offered, or nothing for the moment.
\<close>

inductive tcp_tx :: "rbuf \<Rightarrow> 'a tcp \<Rightarrow> 'a tcp \<Rightarrow> bool" for K where
  tcp_other: "producer_step (tq s) q' \<Longrightarrow> tcp_tx K s (s\<lparr>tq := q'\<rparr>)"
| tcp_send: "k_ret (ks 0) \<le> int (tcp_left s) \<Longrightarrow> (k_ret (ks 0) < 0 \<longrightarrow> k_errno (ks 0) = EAGAIN) \<Longrightarrow>
    l1send K ks 0 (s\<lparr>tsk := on_events evts (tsk s)\<rparr>) = Inr s' \<Longrightarrow> tcp_tx K s s'"

definition tcp_inv :: "byte list \<Rightarrow> byte list \<Rightarrow> 'a tcp \<Rightarrow> bool" where
  "tcp_inv w d s \<longleftrightarrow> cq_ok (tq s) \<and>
     (case tx_p s of
        Some p \<Rightarrow> txq_iter s = iusing (tq s) \<and> reading (tq s) = Some d \<and> p < length d \<and>
          tsent s @ drop p d = w @ d
      | None \<Rightarrow> tsent s = w @ d)"

lemma tcp_tx_inv:
  assumes "tcp_inv w d s" and "tcp_tx K s s'"
  shows "tcp_inv w d s'"
  using assms(2)
proof cases
  case (tcp_other q')
  have "cq_ok (tq s)" using assms(1) by (simp add: tcp_inv_def)
  from producer_step_safe [OF this tcp_other(2)] assms(1) tcp_other(1) show ?thesis
    by (auto simp: tcp_inv_def split: option.splits)
next
  case (tcp_send ks evts)
  let ?s = "s\<lparr>tsk := on_events evts (tsk s)\<rparr>"
  show ?thesis
  proof (cases "ok_events EPOLLOUT (tsk ?s) \<and> tx_p s \<noteq> None")
    case False
    then have "s' = ?s" using tcp_send(3) by (auto simp: l1send_once split: if_splits)
    then show ?thesis using assms(1) by (simp add: tcp_inv_def split: option.splits)
  next
    case True
    then obtain p where p: "tx_p s = Some p" and o: "ok_events EPOLLOUT (tsk ?s)" by auto
    have q: "cq_ok (tq s)" "txq_iter s = iusing (tq s)" "reading (tq s) = Some d" "p < length d"
      "tsent s @ drop p d = w @ d" using assms(1) p by (auto simp: tcp_inv_def)
    have u: "iusing (tq s) < cq_end (tq s)" "d = contents (bufs (tq s) ! txq_iter s)"
      using q by (auto simp: reading_def split: if_splits)
    have left: "tcp_left s = length d - p" using p u(2) by (simp add: tcp_left_def)
    obtain again where pass: "l1send_pass K (ks 0) p ?s = Inr (again, s')"
      using tcp_send(3) p o by (auto simp: l1send_once)
    let ?n = "k_ret (ks 0)"
    obtain n en sk' where sr: "send_ret SOCK_STREAM ?n (int (length d - p)) (k_errno (ks 0)) (tsk ?s)
      = (n, en, sk')" by (metis prod_cases3)
    then have n: "n = (if ?n < 0 then 0 else ?n)" "n \<le> int (length d - p)"
      using tcp_send(1,2) left by (auto simp: send_ret_def Let_def split: if_splits)
    let ?s1 = "?s\<lparr>tsk := sk', tsent := tsent s @ take (nat ?n) (drop p d)\<rparr>"
    consider (none) "n = 0" | (all) "n = int (length d - p)" "0 < n"
      | (part) "0 < n" "n < int (length d - p)"
    proof -
      have "0 \<le> n" using n(1) by simp
      then have "n = 0 \<or> n = int (length d - p) \<and> 0 < n \<or> 0 < n \<and> n < int (length d - p)"
        using n(2) by linarith
      then show ?thesis using none all part by blast
    qed
    then show ?thesis
    proof cases
      case none
      then have "s' = ?s1" using pass sr u(2) q(4) by (auto simp: l1send_pass_def Let_def split: if_splits)
      moreover have "nat ?n = 0" using none n by (auto split: if_splits)
      ultimately show ?thesis using assms(1) by (simp add: tcp_inv_def split: option.splits)
    next
      case all
      from done_using_ok [OF q(1) u(1)] obtain q' where
        "done_with (iusing (tq s)) (tq s) = Inr q'" "cq_ok q'" by auto
      moreover have "nat ?n = length d - p" using all n(1) by (auto split: if_splits)
      ultimately have "s' = ?s1\<lparr>tq := q', tx_p := None\<rparr> \<and> cq_ok q' \<and> tsent ?s1 = w @ d"
        using pass sr u(2) q(2,4,5) all by (auto simp: l1send_pass_def Let_def)
      then show ?thesis by (simp add: tcp_inv_def)
    next
      case part
      then have k: "nat ?n = nat n" "p + nat n < length d" using n(1) by (auto split: if_splits)
      have "s' = ?s1\<lparr>tx_p := Some (p + nat n)\<rparr>"
        using pass sr u(2) part q(4) by (auto simp: l1send_pass_def Let_def of_nat_diff split: if_splits)
      moreover have "take (nat n) (drop p d) @ drop (p + nat n) d = drop p d"
        by (metis add.commute append_take_drop_id drop_drop)
      ultimately show ?thesis using q k by (auto simp: tcp_inv_def)
    qed
  qed
qed

subsection \<open>Properties\<close>

text \<open>
  C9: over TCP a frame goes out whole and in order, however the kernel cuts it into partial
  writes and whatever the encoder thread does with the queue in between: when the pointer
  \<open>tx_p_\<close> is null again, exactly the frame's bytes have been written.
\<close>

theorem tcp_frame_sent_whole:
  assumes "cq_ok (tq s)" and "tx_p s = Some 0" and "txq_iter s = iusing (tq s)"
    and "reading (tq s) = Some d" and "d \<noteq> []" and "(tcp_tx K)\<^sup>*\<^sup>* s s'"
  shows "case tx_p s' of
      None \<Rightarrow> tsent s' = tsent s @ d
    | Some p \<Rightarrow> p < length d \<and> tsent s' = tsent s @ take p d"
proof -
  have "tcp_inv (tsent s) d s" using assms by (simp add: tcp_inv_def)
  with assms(6) have "tcp_inv (tsent s) d s'"
    by (induction rule: rtranclp_induct) (auto intro: tcp_tx_inv)
  then show ?thesis
    by (auto simp: tcp_inv_def split: option.splits)
      (metis append_assoc append_same_eq append_take_drop_id)
qed

definition demo_tcp :: "unit tcp" where
  "demo_tcp = (tcp_new ((sock_new 3 (array_buf 16))\<lparr>events := 4\<rparr>) (sock_new 4 (array_buf 16))
     \<lparr>bufs = [\<lparr>store = [1, 2, 3], used = 3\<rparr>, malloc_buf 12], ip = 1, ialloc = 2, iusing = 0\<rparr> ())
     \<lparr>txq_iter := 0, tx_p := Some 0\<rparr>"

theorem tcp_frame_sent_whole_witness:
  "case tx_p (demo_tcp\<lparr>tsk := (tsk demo_tcp)\<lparr>events := 0\<rparr>, tx_p := Some 2, tsent := [1, 2]\<rparr>) of
      None \<Rightarrow> [1, 2] = tsent demo_tcp @ [1, 2, 3]
    | Some p \<Rightarrow> p < length [1, 2, 3 :: byte] \<and> [1, 2] = tsent demo_tcp @ take p [1, 2, 3]"
proof -
  let ?s' = "demo_tcp\<lparr>tsk := (tsk demo_tcp)\<lparr>events := 0\<rparr>, tx_p := Some 2, tsent := [1, 2]\<rparr>"
  let ?k = "\<lambda>_ :: nat. \<lparr>k_ret = 2, k_errno = EAGAIN, k_del = 0\<rparr>"
  have "l1send (Array_buf 16) ?k 0 (demo_tcp\<lparr>tsk := on_events 4 (tsk demo_tcp)\<rparr>) = Inr ?s'"
    by (simp add: l1send_once demo_tcp_def tcp_new_def sock_new_def on_events_def ok_events_def
        epoll_flags l1send_pass_def contents_def send_ret_def Let_def)
  then have "tcp_tx (Array_buf 16) demo_tcp ?s'"
    by (rule tcp_send [rotated 2]) (simp_all add: demo_tcp_def tcp_new_def tcp_left_def contents_def)
  then have r: "(tcp_tx (Array_buf 16))\<^sup>*\<^sup>* demo_tcp ?s'" by (rule r_into_rtranclp)
  have "case tx_p ?s' of None \<Rightarrow> tsent ?s' = tsent demo_tcp @ [1, 2, 3]
    | Some p \<Rightarrow> p < length [1, 2, 3 :: byte] \<and> tsent ?s' = tsent demo_tcp @ take p [1, 2, 3]"
    by (rule tcp_frame_sent_whole [OF _ _ _ _ _ r])
      (auto simp: demo_tcp_def tcp_new_def cq_ok_def cq_end_def reading_def contents_def buf_ok_def
        malloc_buf_def buf_empty_def)
  then show ?thesis by simp
qed

text \<open>
  the server's accept loop does not stop after the first connection: with two waiting,
  the second descriptor overwrites the first, which stays open and registered, and is never
  closed.
\<close>

theorem second_connection_leaks_first:
  assumes "\<not> is_open (tsk s)" and "ok_events EPOLLIN (lsk s)"
    and "0 \<le> acc_fd a" and "0 \<le> acc_fd b" and "acc_fd a \<noteq> acc_fd b"
    and "\<forall>c \<in> {a, b}. 0 \<le> acc_nodelay c \<and> 0 \<le> acc_getfl c \<and> 0 \<le> acc_setfl c"
  shows "\<exists>s'. listener_process_io [(a, 0), (b, 0)] s = Inr s' \<and> fd (tsk s') = acc_fd b \<and>
    acc_fd a \<in> set (treg s')"
proof -
  have nb: "\<exists>r. nonblocking (acc_getfl c) (acc_setfl c) = Inr r" if "c \<in> {a, b}" for c
    using assms(6) that by (auto simp: nonblocking_def fcntl_def Let_def)
  obtain ra rb where "nonblocking (acc_getfl a) (acc_setfl a) = Inr ra"
    "nonblocking (acc_getfl b) (acc_setfl b) = Inr rb" using nb by blast
  then show ?thesis
    using assms by (simp add: listener_process_io_def accept_def init_accepted_def tcp_nodelay_def
        Let_def stream_setup_def epoll_add_def)
qed

theorem second_connection_leaks_first_witness:
  "\<exists>s'. listener_process_io [(\<lparr>acc_fd = 5, acc_errno = EAGAIN, acc_nodelay = 0, acc_getfl = 2,
        acc_setfl = 0\<rparr>, 0), (\<lparr>acc_fd = 6, acc_errno = EAGAIN, acc_nodelay = 0, acc_getfl = 2,
        acc_setfl = 0\<rparr>, 0)]
      (tcp_new (sock_new (-1) (array_buf 16)) ((sock_new 4 (array_buf 16))\<lparr>events := 1\<rparr>)
        (cq_new [malloc_buf 4, malloc_buf 4]) ()) = Inr s' \<and>
    fd (tsk s') = acc_fd \<lparr>acc_fd = 6, acc_errno = EAGAIN, acc_nodelay = 0, acc_getfl = 2, acc_setfl = 0\<rparr> \<and>
    acc_fd \<lparr>acc_fd = 5, acc_errno = EAGAIN, acc_nodelay = 0, acc_getfl = 2, acc_setfl = 0\<rparr> \<in> set (treg s')"
  by (rule second_connection_leaks_first)
    (simp_all add: tcp_new_def sock_new_def is_open_def ok_events_def epoll_flags)

end
