(* ===== verification/Net_Clock.thy ===== *)
theory Net_Clock
  imports Prelude
begin

section \<open>Clock arithmetic (network/epoll/clock.hpp)\<close>

text \<open>
  \<open>struct timeval\<close> and the operations on it.  Seconds and microseconds are \<open>long\<close>
  values, here integers; every conversion to \<open>unsigned\<close> or \<open>uint16_t\<close> is a word of
  that width, so that its wrap-around is in the model.  The readings of the system clock
  and the conversions of the C library (\<open>localtime_r\<close>, \<open>mktime\<close>) are arguments.
\<close>

record timeval =
  tv_sec :: int
  tv_usec :: int

definition make_timeval :: "int \<Rightarrow> int \<Rightarrow> timeval" where
  "make_timeval sec usec = \<lparr>tv_sec = sec, tv_usec = usec\<rparr>"

definition normalize :: "timeval \<Rightarrow> timeval" where
  "normalize tv =
     (if tv_usec tv < 0
      then tv\<lparr>tv_usec := tv_usec tv + 1000000, tv_sec := tv_sec tv - 1\<rparr> else tv)"

definition subtract_assign :: "timeval \<Rightarrow> timeval \<Rightarrow> timeval" where
  "subtract_assign lhs rhs =
     (let l = (if tv_usec lhs < tv_usec rhs
               then lhs\<lparr>tv_usec := tv_usec lhs + (1000000 - tv_usec rhs),
                        tv_sec := tv_sec lhs - 1\<rparr>
               else lhs\<lparr>tv_usec := tv_usec lhs - tv_usec rhs\<rparr>)
      in l\<lparr>tv_sec := tv_sec l - tv_sec rhs\<rparr>)"

definition tv_microseconds :: "timeval \<Rightarrow> u32" where
  "tv_microseconds tv = word_of_int (tv_usec tv + tv_sec tv * 1000000)"

definition tv_milliseconds :: "timeval \<Rightarrow> u32" where
  "tv_milliseconds tv = word_of_int (cdiv (tv_usec tv) 1000 + tv_sec tv * 1000)"

definition tv_seconds :: "timeval \<Rightarrow> u32" where
  "tv_seconds tv = word_of_int (tv_sec tv)"

definition tv_minus :: "timeval \<Rightarrow> timeval \<Rightarrow> timeval" where
  "tv_minus lhs rhs = subtract_assign lhs rhs"

subsection \<open>clock\_realtime\_type\<close>

text \<open>A \<open>duration\<close> holds its \<open>int64_t\<close> microseconds.\<close>

definition time_point :: "int \<Rightarrow> u32 \<Rightarrow> timeval" where
  "time_point sec usec = \<lparr>tv_sec = sec, tv_usec = uint usec\<rparr>"

definition time_point_minus :: "timeval \<Rightarrow> timeval \<Rightarrow> int" where
  "time_point_minus l r = (tv_sec l - tv_sec r) * 1000000 + (tv_usec l - tv_usec r)"

definition midnight :: "timeval \<Rightarrow> timeval" where
  "midnight midnight_tv = time_point (tv_sec midnight_tv) 0"

definition epoch :: timeval where
  "epoch = time_point 0 0"

definition dur_microseconds :: "int \<Rightarrow> u32" where
  "dur_microseconds d = word_of_int d"

definition dur_milliseconds :: "int \<Rightarrow> u32" where
  "dur_milliseconds d = word_of_int (cdiv d 1000)"

definition dur_seconds :: "int \<Rightarrow> u32" where
  "dur_seconds d = word_of_int (cdiv d 1000000)"

subsection \<open>Broken-down time\<close>

record tm =
  tm_sec :: int
  tm_min :: int
  tm_hour :: int
  tm_days :: int

text \<open>\<open>midnight_time::helper::make\<close>: \<open>now\<close> is \<open>time(0)\<close>.\<close>

definition midnight_make :: "(int \<Rightarrow> tm) \<Rightarrow> (tm \<Rightarrow> int) \<Rightarrow> int \<Rightarrow> int" where
  "midnight_make localtime mktime now =
     mktime ((localtime now)\<lparr>tm_sec := 0, tm_min := 0, tm_hour := 0\<rparr>)"

record timestamp = tm +
  ts_time :: int

definition set_tm :: "tm \<Rightarrow> timestamp \<Rightarrow> timestamp" where
  "set_tm t s = s\<lparr>tm_sec := tm_sec t, tm_min := tm_min t, tm_hour := tm_hour t,
                  tm_days := tm_days t\<rparr>"

definition timestamp_new :: "(int \<Rightarrow> tm) \<Rightarrow> int \<Rightarrow> timestamp" where
  "timestamp_new localtime now = tm.extend (localtime now) \<lparr>ts_time = now\<rparr>"

definition ts_uptime :: "(int \<Rightarrow> tm) \<Rightarrow> int \<Rightarrow> timestamp \<Rightarrow> timestamp" where
  "ts_uptime localtime ct s =
     (let x = (word_of_int (ct - ts_time s) :: u32);
          s1 = (if x + word_of_int (tm_sec s) > 59 then set_tm (localtime (ts_time s)) s else s);
          s2 = s1\<lparr>tm_sec := sint (word_of_int (tm_sec s1) + x)\<rparr>
      in s2\<lparr>ts_time := ct\<rparr>)"

subsection \<open>Elapsed time\<close>

text \<open>
  \<open>elapsed_timer\<close> holds the reading taken when it was built; \<open>uptime\<close> a static base,
  first set by its first use (\<open>None\<close> before) and settable with \<open>zero(tv)\<close>.
\<close>

definition timer_elapsed :: "timeval \<Rightarrow> timeval \<Rightarrow> timeval" where
  "timer_elapsed tv now = subtract_assign now tv"

definition uptime_zero :: "timeval \<Rightarrow> timeval option \<Rightarrow> timeval \<times> timeval option" where
  "uptime_zero now base = (case base of None \<Rightarrow> (now, Some now) | Some b \<Rightarrow> (b, base))"

definition uptime_set :: "timeval \<Rightarrow> timeval option \<Rightarrow> timeval option" where
  "uptime_set tv base = Some tv"

definition uptime_elapsed :: "timeval \<Rightarrow> timeval \<Rightarrow> timeval option \<Rightarrow> timeval \<times> timeval option" where
  "uptime_elapsed now1 now2 base =
     (case uptime_zero now1 base of (z, base') \<Rightarrow> (subtract_assign now2 z, base'))"

subsection \<open>rptime: seconds modulo 10000 and milliseconds\<close>

record rptime =
  rp_sec :: u16
  rp_msec :: u16

definition rptime_of :: "timeval \<Rightarrow> rptime" where
  "rptime_of tv = \<lparr>rp_sec = word_of_int (cmod (tv_sec tv) 10000),
                   rp_msec = word_of_int (cdiv (tv_usec tv) 1000)\<rparr>"

definition rptime_make :: "u16 \<Rightarrow> u16 \<Rightarrow> rptime" where
  "rptime_make s m = \<lparr>rp_sec = s, rp_msec = m\<rparr>"

definition rp_milliseconds :: "rptime \<Rightarrow> u32" where
  "rp_milliseconds rt = word_of_int (uint (rp_sec rt) * 1000 + uint (rp_msec rt))"

subsection \<open>Facts\<close>

text \<open>A \<open>timeval\<close> as the kernel delivers it, and its value in microseconds.\<close>

definition tv_ok :: "timeval \<Rightarrow> bool" where
  "tv_ok tv \<longleftrightarrow> 0 \<le> tv_usec tv \<and> tv_usec tv < 1000000"

definition tv_value :: "timeval \<Rightarrow> int" where
  "tv_value tv = tv_sec tv * 1000000 + tv_usec tv"

lemma subtract_assign_exact:
  "tv_value (subtract_assign a b) = tv_value a - tv_value b"
  by (simp add: subtract_assign_def tv_value_def Let_def algebra_simps)

lemma subtract_assign_ok: "tv_ok a \<Longrightarrow> tv_ok b \<Longrightarrow> tv_ok (subtract_assign a b)"
  by (auto simp: subtract_assign_def tv_ok_def Let_def)

lemma tv_value_unique:
  assumes "tv_ok a" and "tv_ok b" and "tv_value a = tv_value b"
  shows "a = b"
proof -
  have "tv_usec t = tv_value t mod 1000000" "tv_sec t = tv_value t div 1000000" if "tv_ok t" for t
    using that by (simp_all add: tv_ok_def tv_value_def)
  then show ?thesis using assms by (metis timeval.equality unit.exhaust)
qed

lemma subtract_agrees_time_point: "tv_value (subtract_assign a b) = time_point_minus a b"
  by (simp only: subtract_assign_exact) (simp add: tv_value_def time_point_minus_def algebra_simps)

lemma usec_div:
  assumes "tv_ok tv"
  shows "0 \<le> tv_usec tv div 1000" and "tv_usec tv div 1000 < 1000"
    and "tv_value tv div 1000 = tv_sec tv * 1000 + tv_usec tv div 1000"
proof -
  show "0 \<le> tv_usec tv div 1000"
    using assms by (simp add: tv_ok_def pos_imp_zdiv_nonneg_iff)
  show "tv_usec tv div 1000 < 1000"
    using zdiv_mono1 [of "tv_usec tv" 999999 1000] assms by (simp add: tv_ok_def)
  have "tv_value tv = tv_usec tv + (tv_sec tv * 1000) * 1000" by (simp add: tv_value_def)
  then show "tv_value tv div 1000 = tv_sec tv * 1000 + tv_usec tv div 1000" by simp
qed

lemma rptime_fields:
  assumes "tv_ok tv" and "0 \<le> tv_sec tv"
  shows "uint (rp_sec (rptime_of tv)) = tv_sec tv mod 10000"
    and "uint (rp_msec (rptime_of tv)) = tv_usec tv div 1000"
proof -
  note m = usec_div [OF assms(1)]
  have "tv_usec tv div 1000 mod 65536 = tv_usec tv div 1000"
    using m by (intro mod_pos_pos_trivial) auto
  then show "uint (rp_msec (rptime_of tv)) = tv_usec tv div 1000"
    using assms by (simp add: rptime_of_def tv_ok_def uint_word_of_int)
  have "tv_sec tv mod 10000 mod 65536 = tv_sec tv mod 10000"
    by (intro mod_pos_pos_trivial) (auto intro: order_less_trans [of _ 10000])
  then show "uint (rp_sec (rptime_of tv)) = tv_sec tv mod 10000"
    using assms by (simp add: rptime_of_def uint_word_of_int)
qed

lemma rp_milliseconds_value:
  assumes "tv_ok tv" and "0 \<le> tv_sec tv"
  shows "uint (rp_milliseconds (rptime_of tv)) = tv_value tv div 1000 mod 10000000"
proof -
  let ?s = "tv_sec tv" and ?m = "tv_usec tv div 1000"
  note m = usec_div [OF assms(1)]
  have r: "0 \<le> ?s mod 10000" "?s mod 10000 < 10000" by simp_all
  have "?s * 1000 + ?m = (?s mod 10000 * 1000 + ?m) + (?s div 10000) * 10000000"
    using div_mult_mod_eq [of ?s 10000] by linarith
  then have "(?s * 1000 + ?m) mod 10000000 = (?s mod 10000 * 1000 + ?m) mod 10000000"
    by (simp only: mod_mult_self1)
  also have "\<dots> = ?s mod 10000 * 1000 + ?m"
    using m r by (intro mod_pos_pos_trivial) auto
  finally have v: "tv_value tv div 1000 mod 10000000 = ?s mod 10000 * 1000 + ?m"
    by (simp add: m(3))
  have "(?s mod 10000 * 1000 + ?m) mod 4294967296 = ?s mod 10000 * 1000 + ?m"
    using m r by (intro mod_pos_pos_trivial) auto
  then show ?thesis
    by (simp only: rp_milliseconds_def uint_of_int32 rptime_fields [OF assms] v)
qed

lemma tv_milliseconds_value:
  assumes "tv_ok tv"
  shows "uint (tv_milliseconds tv) = tv_value tv div 1000 mod 2 ^ 32"
proof -
  have "cdiv (tv_usec tv) 1000 + tv_sec tv * 1000 = tv_value tv div 1000"
    using assms usec_div [OF assms] by (simp add: tv_ok_def)
  then show ?thesis by (simp only: tv_milliseconds_def uint_of_int32) simp
qed

subsection \<open>Properties\<close>

text \<open>
  \<open>subtract_assign\<close> (and with it \<open>operator-\<close>, \<open>elapsed_timer\<close> and
  \<open>uptime::elapsed\<close>) subtracts exactly, borrow included: on normalised readings the
  result is the one normalised \<open>timeval\<close> whose value is the difference, the same
  microseconds that \<open>time_point::operator-\<close> computes.
\<close>

theorem elapsed_exact:
  assumes "tv_ok now" and "tv_ok base"
  shows "uptime_elapsed now1 now (Some base) = (timer_elapsed base now, Some base) \<and>
    tv_ok (timer_elapsed base now) \<and>
    tv_value (timer_elapsed base now) = time_point_minus now base \<and>
    (\<forall>d. tv_ok d \<and> tv_value d = time_point_minus now base \<longrightarrow> d = timer_elapsed base now)"
  using subtract_assign_ok [OF assms] subtract_agrees_time_point [of now base]
  by (auto simp: uptime_elapsed_def uptime_zero_def timer_elapsed_def intro: tv_value_unique)

theorem elapsed_exact_witness:
  "uptime_elapsed (make_timeval 0 0) (make_timeval 7 100) (Some (make_timeval 3 999900))
     = (timer_elapsed (make_timeval 3 999900) (make_timeval 7 100), Some (make_timeval 3 999900)) \<and>
   tv_ok (timer_elapsed (make_timeval 3 999900) (make_timeval 7 100)) \<and>
   tv_value (timer_elapsed (make_timeval 3 999900) (make_timeval 7 100))
     = time_point_minus (make_timeval 7 100) (make_timeval 3 999900)"
  using elapsed_exact [of "make_timeval 7 100" "make_timeval 3 999900" "make_timeval 0 0"]
  by (simp add: tv_ok_def make_timeval_def)

text \<open>
  the 32 bits of an \<open>rptime\<close> are the elapsed milliseconds modulo 10000 seconds, so
  two of them differ by the true delay modulo 10000 seconds.
\<close>

theorem rptime_is_time_mod_10000s:
  assumes "tv_ok tv" and "0 \<le> tv_sec tv"
  shows "uint (rp_milliseconds (rptime_of tv)) = tv_value tv div 1000 mod 10000000 \<and>
    rptime_make (rp_sec (rptime_of tv)) (rp_msec (rptime_of tv)) = rptime_of tv"
  using rp_milliseconds_value [OF assms] by (simp add: rptime_make_def)

theorem rptime_is_time_mod_10000s_witness:
  "uint (rp_milliseconds (rptime_of (make_timeval 10042 5999)))
     = tv_value (make_timeval 10042 5999) div 1000 mod 10000000 \<and>
   rptime_make (rp_sec (rptime_of (make_timeval 10042 5999)))
     (rp_msec (rptime_of (make_timeval 10042 5999))) = rptime_of (make_timeval 10042 5999)"
  by (rule rptime_is_time_mod_10000s) (simp_all add: tv_ok_def make_timeval_def)

text \<open>
  \<open>timestamp::uptime\<close> is meant to recompute the calendar fields when the minute
  changes, but it calls \<open>localtime_r\<close> on the old \<open>time\<close>: from a timestamp that agrees
  with \<open>localtime\<close>, a call that crosses the end of the minute leaves the minute
  unchanged and the seconds above 59.
\<close>

theorem ts_uptime_overruns_minute:
  assumes "s = timestamp_new localtime t0" and "t0 \<le> ct" and "ct - t0 < 1000000"
    and "0 \<le> tm_sec (localtime t0)" and "tm_sec (localtime t0) \<le> 60"
    and "59 < tm_sec (localtime t0) + (ct - t0)"
  shows "tm_sec (ts_uptime localtime ct s) = tm_sec (localtime t0) + (ct - t0) \<and>
    59 < tm_sec (ts_uptime localtime ct s) \<and>
    tm_min (ts_uptime localtime ct s) = tm_min (localtime t0)"
proof -
  let ?b = "tm_sec (localtime t0)" and ?x = "ct - t0"
  have s: "ts_time s = t0" "tm_sec s = ?b"
    using assms(1) by (simp_all add: timestamp_new_def tm.defs)
  have u: "uint (word_of_int k :: u32) = k" if "0 \<le> k" "k < 2000000" for k
    using that by (simp add: uint_word_of_int)
  have sg: "sint (word_of_int k :: u32) = k" if "0 \<le> k" "k < 2000000" for k
    using that by (simp add: sint_sbintrunc' signed_take_bit_int_eq_self)
  have w: "(word_of_int ?b + word_of_int ?x :: u32) = word_of_int (?b + ?x)"
    by (simp only: wi_hom_add)
  have gt: "(59 :: u32) < word_of_int ?x + word_of_int ?b"
    using u [of "?b + ?x"] assms w by (simp only: word_less_def add.commute) simp
  have sx: "sint (word_of_int ?b + word_of_int ?x :: u32) = ?b + ?x"
    using sg [of "?b + ?x"] assms by (simp only: w)
  have eq: "ts_uptime localtime ct s =
      (set_tm (localtime t0) s)\<lparr>tm_sec := sint (word_of_int ?b + word_of_int ?x :: u32), ts_time := ct\<rparr>"
    using s gt by (simp only: ts_uptime_def Let_def if_True s) (simp add: set_tm_def)
  show ?thesis using assms(6) sx by (simp only: eq) (simp add: set_tm_def)
qed

theorem ts_uptime_overruns_minute_witness:
  "tm_sec (ts_uptime (\<lambda>t. \<lparr>tm_sec = t mod 60, tm_min = t div 60, tm_hour = 0, tm_days = 0\<rparr>) 60
     (timestamp_new (\<lambda>t. \<lparr>tm_sec = t mod 60, tm_min = t div 60, tm_hour = 0, tm_days = 0\<rparr>) 59))
    = tm_sec (\<lparr>tm_sec = 59 mod 60, tm_min = 59 div 60, tm_hour = 0, tm_days = 0\<rparr> :: tm) + (60 - 59)"
  using ts_uptime_overruns_minute [OF refl, of 59 60
      "\<lambda>t. \<lparr>tm_sec = t mod 60, tm_min = t div 60, tm_hour = 0, tm_days = 0\<rparr>"]
  by simp

end
