(* ===== verification/Net_App.thy ===== *)
theory Net_App
  imports Net_Udp Net_Clock
begin

section \<open>The video server and client (network/epoll/main.cpp, enc.hpp)\<close>

text \<open>
  The server takes encoded pictures from the encoder, replaces the start code of each by its
  length and appends twelve bytes with the time it was handed over (\<open>PadInfo\<close>).  The
  client writes the pictures to a file, start code restored, and sends the twelve bytes
  back, from which the server keeps a sliding average of the round-trip time.  The encoder
  library (gmlib) is a parameter: its answer is the picture it has written, if any.
\<close>

unbundle bit_operations_syntax

subsection \<open>Words in memory\<close>

definition be32 :: "u32 \<Rightarrow> byte list" where
  "be32 w = [ucast (drop_bit 24 w), ucast (drop_bit 16 w), ucast (drop_bit 8 w), ucast w]"

definition of_be32 :: "byte list \<Rightarrow> u32" where
  "of_be32 b = push_bit 24 (ucast (b ! 0)) OR push_bit 16 (ucast (b ! 1))
     OR push_bit 8 (ucast (b ! 2)) OR ucast (b ! 3)"

definition le32 :: "u32 \<Rightarrow> byte list" where
  "le32 w = [ucast w, ucast (drop_bit 8 w), ucast (drop_bit 16 w), ucast (drop_bit 24 w)]"

lemma of_be32_be32 [simp]: "of_be32 (be32 w) = w"
proof (rule bit_eqI)
  fix n :: nat
  consider "n < 8" | "8 \<le> n" "n < 16" | "16 \<le> n" "n < 24" | "24 \<le> n" by linarith
  then show "bit (of_be32 (be32 w)) n = bit w n"
    by cases (auto simp: of_be32_def be32_def bit_simps dest: bit_imp_le_length)
qed

lemma length_words [simp]: "length (be32 w) = 4" "length (le32 w) = 4" "length (le16 h) = 2"
  by (simp_all add: be32_def le32_def le16_def)

lemma take_be32 [simp]: "take 4 (be32 w @ r) = be32 w"
  by simp

subsection \<open>PadInfo\<close>

text \<open>The constructor counts the packets in the global \<open>idx_g_\<close>.\<close>

definition sizeof_PadInfo :: nat where "sizeof_PadInfo = 12"

definition pad_info :: "timeval \<Rightarrow> u32 \<Rightarrow> byte list" where
  "pad_info tv idx = be32 (0x80000000 OR 12) @ le32 idx
     @ le16 (word_of_int (cmod (tv_sec tv) 10000)) @ le16 (word_of_int (cdiv (tv_usec tv) 1000))"

definition pad_ts :: "byte list \<Rightarrow> u16 \<times> u16" where
  "pad_ts p = (of_le16 (take 2 (drop 8 p)), of_le16 (take 2 (drop 10 p)))"

lemma length_pad_info [simp]: "length (pad_info tv i) = 12"
  by (simp add: pad_info_def)

lemma pad_info_ne [simp]: "pad_info tv i \<noteq> []"
  by (simp add: pad_info_def be32_def)

subsection \<open>The server's queue\<close>

definition BITSTREAM_LEN :: nat where "BITSTREAM_LEN = 3110400"

text \<open>\<open>addr\<close> is the address of the block; a word must lie at a multiple of four.\<close>

definition replace_startbytes_with_len4 :: "nat \<Rightarrow> u32 \<Rightarrow> buffer \<Rightarrow> buffer outcome" where
  "replace_startbytes_with_len4 addr bs_len4 b =
     (if addr mod 4 \<noteq> 0 then Inl (Err_exit ''bs_buf addr'')
      else if length (store b) < 4 then Inl Undefined
      else if of_be32 (take 4 (store b)) \<noteq> 1 then Inl (Err_exit ''bs_buf startbytes'')
      else memcpy_at 0 (be32 bs_len4) b)"

definition attach_test_info :: "timeval \<Rightarrow> u32 \<Rightarrow> buffer \<Rightarrow> (buffer \<times> u32) outcome" where
  "attach_test_info elapsed idx b =
     bind_ok (put (pad_info elapsed idx) b) (\<lambda>b'. Inr (b', idx + 1))"

text \<open>\<open>BufferQueue::done\<close>, which works on the frame before the queue's own \<open>done\<close>.\<close>

definition server_done :: "nat \<Rightarrow> timeval \<Rightarrow> nat \<Rightarrow> cq \<times> u32 \<Rightarrow> (cq \<times> u32) outcome" where
  "server_done addr elapsed j st =
     (case st of (q, idx) \<Rightarrow>
       if j = ialloc q then
         bind_ok (on_buf j (\<lambda>b. replace_startbytes_with_len4 addr (of_nat (used b)) b) q) (\<lambda>q1.
         bind_ok (attach_test_info elapsed idx (bufs q1 ! j)) (\<lambda>(b, idx').
         bind_ok (done_with j (q1\<lparr>bufs := (bufs q1)[j := b]\<rparr>)) (\<lambda>q2. Inr (q2, idx'))))
       else bind_ok (done_with j q) (\<lambda>q1. Inr (q1, idx)))"

text \<open>
  One turn of the encoder's loop: \<open>None\<close> when nothing came (a timeout or an error of
  gmlib), else the picture, which gmlib writes at the start of the buffer.
\<close>

definition encoder_start :: "cq \<Rightarrow> (nat \<times> cq) outcome" where
  "encoder_start q = alloc BITSTREAM_LEN q"

definition encoder_turn ::
  "nat \<Rightarrow> timeval \<Rightarrow> byte list option \<Rightarrow> nat \<Rightarrow> cq \<times> u32 \<Rightarrow> (nat \<times> cq \<times> u32) outcome" where
  "encoder_turn addr elapsed picture j st =
     (case picture of
        None \<Rightarrow> Inr (j, st)
      | Some d \<Rightarrow>
          if BITSTREAM_LEN < length d then Inl (Err_exit ''BITSTREAM_LEN'')
          else case st of (q, idx) \<Rightarrow>
            bind_ok (on_buf j (memcpy_at 0 d) q) (\<lambda>q1.
            bind_ok (on_buf j (commit Self (length d)) q1) (\<lambda>q2.
            bind_ok (server_done addr elapsed j (q2, idx)) (\<lambda>(q3, idx').
            bind_ok (alloc BITSTREAM_LEN q3) (\<lambda>(j', q4). Inr (j', q4, idx'))))))"

subsection \<open>The round-trip time\<close>

record rtt =
  latency_sum :: int
  latency :: "int list"
  latency_i :: u32

definition RTT_reset :: rtt where
  "RTT_reset = \<lparr>latency_sum = 0, latency = replicate 16 0, latency_i = 0\<rparr>"

definition RTT :: "timeval \<Rightarrow> u16 \<times> u16 \<Rightarrow> rtt \<Rightarrow> rtt" where
  "RTT elapsed ts s =
     (let msec2 = rp_milliseconds (rptime_of elapsed);
          msec1 = rp_milliseconds (rptime_make (fst ts) (snd ts))
      in if msec2 < msec1 then s
         else let i = unat (latency_i s AND 0x0f);
                  millis = latency s ! i;
                  l = sint (msec2 - msec1)
              in s\<lparr>latency_i := latency_i s + 1, latency := (latency s)[i := l],
                   latency_sum := latency_sum s + (l - millis)\<rparr>)"

text \<open>The loop of \<open>ServerMain::unpack\<close>: \<open>p\<close> is the offset it has reached.\<close>

function server_unpack_loop :: "timeval \<Rightarrow> nat \<Rightarrow> byte list \<Rightarrow> nat \<Rightarrow> rtt \<Rightarrow> (nat \<times> rtt) outcome" where
  "server_unpack_loop now addr data p s =
     (if p + 12 \<le> length data then
        (if (addr + p) mod 4 \<noteq> 0 then Inl (Err_exit ''unpack'')
         else server_unpack_loop now addr data (p + 12) (RTT now (pad_ts (drop p data)) s))
      else Inr (p, s))"
  by pat_completeness auto
termination by (relation "measure (\<lambda>(now, addr, data, p, s). length data - p)") auto

declare server_unpack_loop.simps [simp del]

definition server_unpack :: "timeval \<Rightarrow> nat \<Rightarrow> (cq \<times> rtt) sink" where
  "server_unpack now addr rb st =
     (case st of (q, s) \<Rightarrow>
       if store rb = [] then Inl Undefined
       else if store rb ! 0 AND 0x80 = 0 then Inl (Err_exit ''unpack'')
       else bind_ok (server_unpack_loop now addr (contents rb) 0 s) (\<lambda>(p, s').
            Inr (int p, rb, q, s')))"

subsection \<open>The client\<close>

text \<open>The client's own state is the file it writes (\<open>ofp_\<close>), if it could be opened.\<close>

definition feedback :: "byte list \<Rightarrow> cq \<Rightarrow> cq outcome" where
  "feedback d q =
     bind_ok (alloc (length d) q) (\<lambda>(it, q1).
     bind_ok (on_buf it (put d) q1) (\<lambda>q2. done_with it q2))"

definition client_unpack :: "nat \<Rightarrow> (cq \<times> byte list option) sink" where
  "client_unpack addr rb st =
     (case st of (q, ofp) \<Rightarrow>
       if used rb < 8 then Inr (0, rb, q, ofp)
       else if addr mod 4 \<noteq> 0 then Inl (Err_exit ''unpack'')
       else let uh = of_be32 (take 4 (store rb));
                len = unat (uh AND 0x00ffffff)
            in if used rb < len then Inr (0, rb, q, ofp)
               else if uh AND 0x80000000 \<noteq> 0 then
                 bind_ok (feedback (take len (store rb)) q) (\<lambda>q'. Inr (int len, rb, q', ofp))
               else
                 bind_ok (memcpy_at 0 (be32 1) rb) (\<lambda>rb'.
                   Inr (int len, rb', q, map_option (\<lambda>f. f @ take len (store rb')) ofp)))"


subsection \<open>A picture from the encoder to the client's file\<close>

text \<open>What the server makes of a picture that starts with the start code \<open>00 00 00 01\<close>.\<close>

definition wire_frame :: "byte list \<Rightarrow> byte list \<Rightarrow> byte list" where
  "wire_frame d pad = be32 (of_nat (length d)) @ drop 4 d @ pad"

definition startcode_ok :: "byte list \<Rightarrow> bool" where
  "startcode_ok d \<longleftrightarrow> take 4 d = be32 1"

lemma startcode_length: "startcode_ok d \<Longrightarrow> 4 \<le> length d"
  by (metis length_take length_words(1) min.cobounded1 startcode_ok_def)

lemma startcode_split: "startcode_ok d \<Longrightarrow> be32 1 @ drop 4 d = d"
  by (metis append_take_drop_id startcode_ok_def)

lemma take_store: "buf_ok b \<Longrightarrow> n \<le> used b \<Longrightarrow> take n (store b) = take n (contents b)"
  by (simp add: contents_def min_def)

lemma memcpy_at_0:
  assumes "buf_ok b" and "length d \<le> used b"
  shows "\<exists>b'. memcpy_at 0 d b = Inr b' \<and> buf_ok b' \<and> used b' = used b \<and>
    length (store b') = length (store b) \<and> contents b' = d @ drop (length d) (contents b)"
  using assms by (auto simp: memcpy_at_def buf_ok_def contents_def drop_take)

lemma server_done_frame:
  assumes q: "cq_ok q" "ialloc q < cq_end q" and w: "writing q = Some d" and s: "startcode_ok d"
    and a: "addr mod 4 = 0" and room: "length d + 12 \<le> length (store (bufs q ! ialloc q))"
  shows "\<exists>q'. server_done addr tv (ialloc q) (q, idx) = Inr (q', idx + 1) \<and> cq_ok q' \<and>
    reading q' = reading q \<and> ialloc q' = cq_end q' \<and> cq_end q' = cq_end q \<and>
    waiting q' = waiting q @ [wire_frame d (pad_info tv idx)]"
proof -
  let ?j = "ialloc q"
  let ?b = "bufs q ! ?j"
  have bok: "buf_ok ?b" by (rule buf_ok_nth [OF q])
  have d: "contents ?b = d" using w q(2) by (simp add: writing_def)
  have u: "used ?b = length d" using length_contents [OF bok] d by simp
  have l4: "4 \<le> length d" by (rule startcode_length [OF s])
  have sc: "of_be32 (take 4 (store ?b)) = 1"
    using take_store [OF bok, of 4] d l4 u s by (simp add: startcode_ok_def)
  obtain b1 where b1: "memcpy_at 0 (be32 (of_nat (length d))) ?b = Inr b1" "buf_ok b1"
    "used b1 = length d" "length (store b1) = length (store ?b)"
    "contents b1 = be32 (of_nat (length d)) @ drop 4 d"
    using memcpy_at_0 [OF bok, of "be32 (of_nat (length d))"] l4 u d by auto
  have r: "replace_startbytes_with_len4 addr (of_nat (used ?b)) ?b = Inr b1"
    using a sc b1(1) u l4 bok by (auto simp: replace_startbytes_with_len4_def buf_ok_def)
  from on_alloc_ok [OF q, of "\<lambda>b. replace_startbytes_with_len4 addr (of_nat (used b)) b" b1] r b1(2)
  obtain q1 where q1: "on_buf ?j (\<lambda>b. replace_startbytes_with_len4 addr (of_nat (used b)) b) q = Inr q1"
    "cq_ok q1" "ialloc q1 = ?j" "cq_end q1 = cq_end q" "reading q1 = reading q"
    "waiting q1 = waiting q" "bufs q1 ! ?j = b1" by auto
  obtain b2 where b2: "put (pad_info tv idx) b1 = Inr b2" "buf_ok b2"
    "contents b2 = contents b1 @ pad_info tv idx"
    using put_ok [OF b1(2), of "pad_info tv idx"] b1(3,4) room by auto
  have j: "?j < cq_end q1" using q(2) q1(4) by simp
  from on_alloc_ok [of q1 "\<lambda>_. Inr b2" b2] q1 b2(2) j obtain q2 where
    q2: "q2 = q1\<lparr>bufs := (bufs q1)[?j := b2]\<rparr>" "cq_ok q2" "ialloc q2 = ?j" "cq_end q2 = cq_end q"
      "reading q2 = reading q" "waiting q2 = waiting q" "writing q2 = Some (contents b2)"
    by (auto simp: on_buf_def)
  from done_alloc_ok [OF q2(2), of "contents b2"] q2 q(2) obtain q3 where
    q3: "done_with ?j q2 = Inr q3" "cq_ok q3" "ialloc q3 = cq_end q3" "cq_end q3 = cq_end q"
      "reading q3 = reading q" "waiting q3 = waiting q @ [contents b2]"
    using b2(3) b1(5) by auto
  have "contents b2 = wire_frame d (pad_info tv idx)"
    using b2(3) b1(5) by (simp add: wire_frame_def)
  moreover have "server_done addr tv ?j (q, idx) = Inr (q3, idx + 1)"
    using q1(1,7) b2(1) q2(1) q3(1) by (simp add: server_done_def attach_test_info_def)
  ultimately show ?thesis using q3 by auto
qed

text \<open>\<open>done\<close> on the frame being read is the queue's own.\<close>

lemma server_done_using:
  "cq_ok q \<Longrightarrow> iusing q < cq_end q \<Longrightarrow>
   server_done addr tv (iusing q) (q, idx) = bind_ok (done_with (iusing q) q) (\<lambda>q'. Inr (q', idx))"
  by (auto simp: server_done_def cq_ok_def)

lemma mask24: "(0xffffff :: u32) = mask 24"
  by (simp add: mask_eq_exp_minus_1)

lemma len_field:
  assumes "n < 16777216"
  shows "unat ((of_nat n :: u32) AND 0xffffff) = n" "(of_nat n :: u32) AND 0x80000000 = 0"
proof -
  have un: "unat (of_nat n :: u32) = n" using assms by (simp add: unat_of_nat)
  have "(of_nat n :: u32) AND 0xffffff = of_nat n mod 16777216"
    by (simp add: mask24 take_bit_eq_mod flip: take_bit_eq_mask)
  then show "unat ((of_nat n :: u32) AND 0xffffff) = n" using assms un by (simp add: unat_mod)
  have "\<not> bit (unat (of_nat n :: u32)) 31"
    using assms un by (simp add: bit_iff_odd)
  then have "\<not> bit (of_nat n :: u32) 31" by (simp only: bit_unsigned_iff) simp
  moreover have "(0x80000000 :: u32) = 2 ^ 31" by simp
  ultimately show "(of_nat n :: u32) AND 0x80000000 = 0"
    by (simp only: and_exp_eq_0_iff_not_bit) simp
qed

lemma pad_word: "unat (0x8000000C AND (0xffffff :: u32)) = 12" "(0x8000000C :: u32) AND 0x80000000 \<noteq> 0"
  by simp_all

subsubsection \<open>The client's side\<close>

lemma client_keeps_size: "sink_keeps_size (client_unpack addr)"
  by (auto simp: sink_keeps_size_def client_unpack_def Let_def memcpy_at_def split: if_splits prod.splits)

lemma feedback_ok:
  assumes "cq_ok q" and "ialloc q = cq_end q" and "length d \<le> length (store (bufs q ! slot q))"
    and "d \<noteq> []"
  shows "\<exists>q'. feedback d q = Inr q' \<and> cq_ok q' \<and> ialloc q' = cq_end q' \<and>
    reading q' = reading q \<and> cq_end q' = cq_end q \<and>
    waiting q' = (if buf_empty (bufs q ! slot q) then waiting q else tl (waiting q)) @ [d]"
proof -
  from alloc_ok [OF assms(1,2,3)] obtain q1 where q1:
    "alloc (length d) q = Inr (slot q, q1)" "cq_ok q1" "ialloc q1 = slot q" "cq_end q1 = cq_end q"
    "reading q1 = reading q" "writing q1 = Some []"
    "waiting q1 = (if buf_empty (bufs q ! slot q) then waiting q else tl (waiting q))" by auto
  have sl: "slot q < cq_end q1" using slot_less [OF assms(1)] q1(4) by simp
  have bok: "buf_ok (bufs q1 ! slot q)" by (rule buf_ok_nth [OF q1(2) sl])
  have c: "contents (bufs q1 ! slot q) = []" using q1(3,6) sl by (simp add: writing_def)
  have st: "store (bufs q1 ! slot q) = store (bufs q ! slot q)"
    using q1(1) alloc_result [OF assms(1,2,3)] slot_less [OF assms(1)]
    by (auto simp: emptied_def cq_end_def)
  have "used (bufs q1 ! slot q) = 0" using c length_contents [OF bok] by simp
  then obtain b where b: "put d (bufs q1 ! slot q) = Inr b" "buf_ok b" "contents b = d"
    using put_ok [OF bok, of d] c st assms(3) by auto
  from on_alloc_ok [OF q1(2), of "put d" b] q1(3) sl b obtain q2 where q2:
    "on_buf (slot q) (put d) q1 = Inr q2" "cq_ok q2" "ialloc q2 = slot q" "cq_end q2 = cq_end q1"
    "reading q2 = reading q1" "writing q2 = Some d" "waiting q2 = waiting q1" by auto
  from done_alloc_ok [OF q2(2) _ q2(6)] q2 sl assms(4) obtain q3 where
    "done_with (slot q) q2 = Inr q3" "cq_ok q3" "ialloc q3 = cq_end q3" "cq_end q3 = cq_end q2"
    "reading q3 = reading q2" "waiting q3 = waiting q2 @ [d]" by auto
  then show ?thesis using q1 q2 by (auto simp: feedback_def)
qed

text \<open>The client's queue holds only such packets, so every buffer has room for one.\<close>

lemma client_frame:
  assumes b: "buf_ok b" "contents b = wire_frame d (pad_info tv idx)"
    and d: "startcode_ok d" "length d < 16777216" and a: "addr mod 4 = 0"
    and q: "cq_ok q" "ialloc q = cq_end q" "12 \<le> length (store (bufs q ! slot q))"
  shows "\<exists>rb q'. process_recvd (client_unpack addr) b (q, ofp) =
      Inr (rb, q', map_option (\<lambda>f. f @ d) ofp) \<and>
    buf_ok rb \<and> used rb = 0 \<and> length (store rb) = length (store b) \<and>
    feedback (pad_info tv idx) q = Inr q'"
proof -
  let ?pad = "pad_info tv idx"
  have l4: "4 \<le> length d" by (rule startcode_length [OF d(1)])
  have u: "used b = length d + 12"
    using length_contents [OF b(1)] b(2) l4 by (simp add: wire_frame_def)
  have h: "take 4 (store b) = be32 (of_nat (length d))"
    using take_store [OF b(1), of 4] u b(2) by (simp add: wire_frame_def)
  obtain b1 where b1: "memcpy_at 0 (be32 1) b = Inr b1" "buf_ok b1" "used b1 = used b"
    "length (store b1) = length (store b)" "contents b1 = be32 1 @ drop 4 d @ ?pad"
    using memcpy_at_0 [OF b(1), of "be32 1"] u b(2) by (auto simp: wire_frame_def)
  have tk: "take (length d) (store b1) = d"
    using take_store [OF b1(2), of "length d"] b1(5) u startcode_split [OF d(1)]
    by (metis append_assoc append_eq_conv_conj le_add1 b1(3))
  have step1: "client_unpack addr b (q, ofp) = Inr (int (length d), b1, q, map_option (\<lambda>f. f @ d) ofp)"
    using u h len_field [OF d(2)] b1(1) tk a by (simp add: client_unpack_def Let_def)
  from consume_ok [OF b1(2), of "length d"] u b1(3) obtain b2 where
    b2: "consume (length d) b1 = Inr b2" "buf_ok b2" "contents b2 = drop (length d) (contents b1)"
      "length (store b2) = length (store b)" using b1(4) by auto
  have c2: "contents b2 = ?pad"
    using b2(3) b1(5) startcode_split [OF d(1)] by (metis append_assoc append_eq_conv_conj)
  have u2: "used b2 = 12" using length_contents [OF b2(2)] c2 by simp
  have h2: "take 4 (store b2) = be32 0x8000000C"
    using take_store [OF b2(2), of 4] u2 c2 by (simp add: pad_info_def)
  have t12: "take 12 (store b2) = ?pad" using take_store [OF b2(2), of 12] u2 c2 by simp
  have "?pad \<noteq> []" by (simp add: pad_info_def be32_def)
  from feedback_ok [OF q(1,2) _ this] q(3) obtain q' where fb: "feedback ?pad q = Inr q'" by auto
  have step2: "client_unpack addr b2 (q, f) = Inr (12, b2, q', f)" for f
    using u2 h2 pad_word t12 fb a by (simp add: client_unpack_def Let_def)
  from consume_ok [OF b2(2), of 12] u2 obtain b3 where
    b3: "consume 12 b2 = Inr b3" "buf_ok b3" "contents b3 = drop 12 (contents b2)"
      "length (store b3) = length (store b)" using b2(4) by auto
  have u3: "used b3 = 0" using length_contents [OF b3(2)] b3(3) c2 by simp
  have "process_loop (client_unpack addr) b (q, ofp) =
      Some (Inr (b3, q', map_option (\<lambda>f. f @ d) ofp))"
    using u l4 step1 b1(3) b2(1) u2 step2 b3(1) u3 startcode_length [OF d(1)]
    by (cases "d = []") (simp_all add: process_loop.simps [of _ b] process_loop.simps [of _ b2]
        process_loop.simps [of _ b3] buf_empty_def)
  then show ?thesis using b3 u3 fb by (auto simp: process_recvd_def)
qed


subsubsection \<open>The sliding average\<close>

definition rtt_ok :: "rtt \<Rightarrow> bool" where
  "rtt_ok s \<longleftrightarrow> length (latency s) = 16 \<and> latency_sum s = sum_list (latency s) \<and>
     (\<forall>l \<in> set (latency s). 0 \<le> l \<and> l \<le> 65600535)"

lemma rp_milliseconds_bound: "uint (rp_milliseconds r) \<le> 65600535"
proof -
  have s: "uint (rp_sec r) \<le> 65535" "uint (rp_msec r) \<le> 65535"
    using uint_lt2p [of "rp_sec r"] uint_lt2p [of "rp_msec r"] by simp_all
  then have "uint (rp_sec r) * 1000 + uint (rp_msec r) \<le> 65600535" by simp
  moreover have "0 \<le> uint (rp_sec r) * 1000 + uint (rp_msec r)" by simp
  ultimately show ?thesis unfolding rp_milliseconds_def uint_of_int32 by simp
qed

lemma sint_small:
  fixes w :: u32
  assumes "uint w < 2147483648"
  shows "sint w = uint w"
proof -
  have "signed_take_bit 31 (uint w) = uint w"
    by (rule signed_take_bit_int_eq_self) (use assms order_trans [of "- 2147483648" 0 "uint w"] in simp_all)
  then show ?thesis by (simp add: sint_uint)
qed

lemma sum_list_update_int:
  "i < length xs \<Longrightarrow> sum_list (xs[i := x]) = sum_list xs + (x - xs ! i)" for x :: int
  by (induction xs arbitrary: i) (auto split: nat.splits)

lemma uint_diff:
  fixes a b :: u32
  assumes "\<not> a < b"
  shows "uint (a - b) = uint a - uint b"
proof -
  have "b \<le> a" using assms by simp
  then show ?thesis by (simp add: uint_minus_simple_alt word_le_def uint_sub_lem)
qed

lemma RTT_ok:
  assumes "rtt_ok s"
  shows "rtt_ok (RTT now ts s)"
proof -
  let ?m2 = "rp_milliseconds (rptime_of now)" and ?m1 = "rp_milliseconds (rptime_make (fst ts) (snd ts))"
  show ?thesis
  proof (cases "?m2 < ?m1")
    case True
    then show ?thesis using assms by (simp add: RTT_def)
  next
    case False
    have u: "uint (?m2 - ?m1) = uint ?m2 - uint ?m1" by (rule uint_diff [OF False])
    then have b: "0 \<le> uint (?m2 - ?m1)" "uint (?m2 - ?m1) \<le> 65600535"
      using rp_milliseconds_bound [of "rptime_of now"] uint_ge_0 [of ?m1] uint_ge_0 [of "?m2 - ?m1"] by linarith+
    then have l: "0 \<le> sint (?m2 - ?m1)" "sint (?m2 - ?m1) \<le> 65600535"
      using sint_small [of "?m2 - ?m1"] by simp_all
    have i: "unat (latency_i s AND 0x0f) < 16"
    proof -
      have "(0x0f :: u32) = mask 4" by (simp add: mask_eq_exp_minus_1)
      then have "latency_i s AND 0x0f = take_bit 4 (latency_i s)" by (simp add: take_bit_eq_mask)
      then show ?thesis by (simp add: take_bit_eq_mod unat_mod)
    qed
    show ?thesis
      using assms False l i
      by (auto simp: rtt_ok_def RTT_def Let_def sum_list_update_int
          dest: set_update_subset_insert [THEN subsetD])
  qed
qed


subsection \<open>Properties of the application\<close>

lemma frame_reaches_file:
  assumes "in_flight (wire_frame d (pad_info tv idx)) s" and "txpos s = 0" and "xh0 s = 0"
    and "(tx_step K)\<^sup>*\<^sup>* s s'" and "all_sent s'"
    and "startcode_ok d" and "length d < 16777216"
    and "rx_ready r" and "xh1 r = 0 \<longrightarrow> used (xbuf (usk r)) = 0"
    and "used (xbuf (usk r)) + (MTU - 4) \<le> length (store (xbuf (usk r)))"
    and "length d + 12 \<le> length (store (xbuf (usk r)))"
    and "cq_ok (uq r)" and "ialloc (uq r) = cq_end (uq r)"
    and "12 \<le> length (store (bufs (uq r) ! slot (uq r)))" and "addr mod 4 = 0"
  shows "\<exists>ds r'. sent s' = sent s @ ds \<and>
    l2recv K' dr (client_unpack addr) (map (Dgram port) ds @ rest) r
      = l2recv K' dr (client_unpack addr) rest r' \<and>
    uapp r' = map_option (\<lambda>f. f @ d) (uapp r) \<and>
    feedback (pad_info tv idx) (uq r) = Inr (uq r') \<and>
    xh1 r' = 0 \<and> used (xbuf (usk r')) = 0 \<and> rx_ready r'"
proof -
  let ?d = "wire_frame d (pad_info tv idx)"
  have l: "length ?d = length d + 12"
    using startcode_length [OF assms(6)] by (simp add: wire_frame_def)
  have "12 \<le> length ?d" "length ?d \<le> length (store (xbuf (usk r)))"
    "length ?d div (MTU - 4) < 0x7fff"
    "used (xbuf (usk r)) + min (MTU - 4) (length ?d) \<le> length (store (xbuf (usk r)))"
    using l assms(7,10,11) by (simp_all add: MTU_def)
  moreover have "tx_inv (sent s) ?d s"
    using assms(1,2,3) by (auto simp: tx_inv_def whole_heads_def)
  ultimately obtain ds b where ds: "sent s' = sent s @ ds" "buf_ok b" "contents b = ?d"
    "length (store b) = length (store (xbuf (usk r)))"
    "l2recv K' dr (client_unpack addr) (map (Dgram port) ds @ rest) r =
      bind_ok (process_recvd (client_unpack addr) b (uq r, uapp r))
        (\<lambda>t. l2recv K' dr (client_unpack addr) rest (delivered port r t))"
    using frame_transfer [where K = K and s = s and s' = s' and d = ?d and r = r and K' = K' and dr = dr
        and rx = "client_unpack addr" and port = port and rest = rest] assms(4,5,8,9) by auto
  from client_frame [OF ds(2,3) assms(6,7,15,12,13,14), of "uapp r"] obtain rb q' where
    c: "process_recvd (client_unpack addr) b (uq r, uapp r) =
        Inr (rb, q', map_option (\<lambda>f. f @ d) (uapp r))"
      "buf_ok rb" "used rb = 0" "feedback (pad_info tv idx) (uq r) = Inr q'" by auto
  let ?r = "delivered port r (rb, q', map_option (\<lambda>f. f @ d) (uapp r))"
  have "rx_ready ?r" using assms(8) c(2) by (simp add: rx_ready_def delivered_def)
  then show ?thesis using ds(1,5) c by (intro exI [of _ ds] exI [of _ ?r]) (simp add: delivered_def)
qed


definition demo_picture :: "byte list" where
  "demo_picture = [0, 0, 0, 1, 42]"

definition demo_wire :: "byte list" where
  "demo_wire = wire_frame demo_picture (pad_info (make_timeval 12 345000) 0)"

definition demo_server :: "unit udp" where
  "demo_server = (udp_new ((sock_new 3 (array_buf 16))\<lparr>events := 4, peer_port := 7\<rparr>)
     \<lparr>bufs = [\<lparr>store = demo_wire, used = 17\<rparr>, malloc_buf 17], ip = 1, ialloc = 2, iusing = 0\<rparr> ())
     \<lparr>txbuf := 0\<rparr>"

definition demo_client :: "byte list option udp" where
  "demo_client = udp_new (sock_new 4 (malloc_buf 2000)) (cq_new [array_buf 16, array_buf 16]) (Some [])"

lemma demo_wire_length: "length demo_wire = 17"
  by (simp add: demo_wire_def wire_frame_def demo_picture_def)

lemma demo_server_frame: "in_flight demo_wire demo_server"
  by (auto simp: in_flight_def demo_server_def udp_new_def cq_ok_def cq_end_def reading_def
      contents_def demo_wire_length buf_ok_def malloc_buf_def buf_empty_def)

lemma demo_server_sends:
  "\<exists>s'. (tx_step (Array_buf 16))\<^sup>*\<^sup>* demo_server s' \<and> all_sent s'"
proof -
  let ?s = "demo_server\<lparr>usk := on_events 4 (usk demo_server)\<rparr>"
  let ?k = "\<lparr>k_ret = 21, k_errno = EAGAIN, k_del = 0\<rparr>"
  have f: "in_flight demo_wire ?s" using demo_server_frame by (simp add: in_flight_def)
  have o: "ok_events EPOLLOUT (usk ?s)" by (simp add: ok_events_def on_events_def epoll_flags)
  have p: "txpos ?s = 0" by (simp add: demo_server_def udp_new_def)
  have "cq_ok (uq ?s)" "txbuf ?s = iusing (uq ?s)" "reading (uq ?s) = Some demo_wire"
    using f by (simp_all add: in_flight_def)
  note step = l2send_step [OF this, of 17 ?k "Array_buf 16"]
  have x: "17 = length demo_wire - txpos ?s" "12 \<le> length demo_wire" "txpos ?s < length demo_wire"
    "17 = min (MTU - 4) (length demo_wire - txpos ?s)" "k_ret ?k = int (4 + 17)"
    using p demo_wire_length by (simp_all add: MTU_def)
  from step [OF x(2,3) o x(4,5)] x(1) obtain s' where
    s': "l2send (Array_buf 16) ?k ?s = Inr s'" "cq_ok (uq s')" "txbuf s' = cq_end (uq s')"
      "reading (uq s') = None" by metis
  have "k_ret ?k = int (4 + next_len demo_server)"
    by (simp add: next_len_def demo_server_def udp_new_def contents_def demo_wire_length MTU_def)
  from tx_send [OF this s'(1)] s' show ?thesis by (auto simp: all_sent_def)
qed

text \<open>A server whose queue is empty but for the picture being written takes it up as soon as it is handed over.\<close>

lemma picture_taken_up:
  assumes "cq_ok q" and "writing q = Some d" and "waiting q = []" and "iusing q = cq_end q"
    and "startcode_ok d" and "addr mod 4 = 0" and "length d + 12 \<le> length (store (bufs q ! ialloc q))"
  shows "\<exists>q1 j q2. server_done addr tv (ialloc q) (q, idx) = Inr (q1, idx + 1) \<and> wait m 0 q1 = Inr (j, q2) \<and>
    j < cq_end q2 \<and> cq_ok q2 \<and> iusing q2 = j \<and> reading q2 = Some (wire_frame d (pad_info tv idx)) \<and> waiting q2 = [] \<and>
    cq_end q1 = cq_end q"
proof -
  have a: "ialloc q < cq_end q" using assms(2) by (simp add: writing_def split: if_splits)
  obtain q1 where q1: "server_done addr tv (ialloc q) (q, idx) = Inr (q1, idx + 1)" "cq_ok q1" "reading q1 = reading q"
    "cq_end q1 = cq_end q" "waiting q1 = [wire_frame d (pad_info tv idx)]"
    using server_done_frame [OF assms(1) a assms(2,5,6,7)] assms(3) by auto
  have "reading q1 = None" using q1(3) assms(4) by (simp add: reading_def)
  then have u: "iusing q1 = cq_end q1" using q1(2) by (auto simp: reading_def cq_ok_def split: if_splits)
  obtain j q2 where t: "take_first q1 = (j, q2)" by fastforce
  from take_first_ok [OF q1(2) u t] q1(5) have "cq_ok q2" "iusing q2 = j" "bufs q2 = bufs q1" "j < cq_end q1"
    "reading q2 = Some (wire_frame d (pad_info tv idx))" "waiting q2 = []" by simp_all
  moreover have "wait m 0 q1 = Inr (j, q2)" using wait_result [OF q1(2) u, of m 0] t by simp
  ultimately show ?thesis using q1(1,4) by (auto simp: cq_end_def)
qed

text \<open>
  C1: end to end, a picture handed over to the queue of a server that has nothing else to send
  is taken up by the next \<open>prewait\<close>, and once the kernel has taken all of it, datagram by
  datagram, a client that receives these datagrams writes the picture to its file byte for
  byte: cut up, put together, its start code restored, the twelve bytes of \<open>PadInfo\<close> taken
  off; these wait in the client's own queue, behind what waits there, for the way back, and the
  client is ready for the next frame. A frame it had received in part before is dropped.
\<close>

theorem picture_reaches_file:
  fixes s :: "'a udp" and r :: "byte list option udp"
  assumes "cq_ok (uq s)" and "writing (uq s) = Some d" and "waiting (uq s) = []" and "iusing (uq s) = cq_end (uq s)"
    and "txbuf s = cq_end (uq s)" and "ok_events EPOLLOUT (usk s)"
    and "startcode_ok d" and "length d < 16777216" and "addr0 mod 4 = 0"
    and "length d + 12 \<le> length (store (bufs (uq s) ! ialloc (uq s)))"
    and "rx_ready r" and "xh1 r = 0 \<longrightarrow> used (xbuf (usk r)) = 0"
    and "used (xbuf (usk r)) + (MTU - 4) \<le> length (store (xbuf (usk r)))"
    and "length d + 12 \<le> length (store (xbuf (usk r)))"
    and "cq_ok (uq r)" and "ialloc (uq r) = cq_end (uq r)"
    and "12 \<le> length (store (bufs (uq r) ! slot (uq r)))" and "addr mod 4 = 0"
  shows "\<exists>q1 j q2. server_done addr0 tv (ialloc (uq s)) (uq s, idx) = Inr (q1, idx + 1) \<and>
    wait m 0 q1 = Inr (j, q2) \<and>
    (let s1 = s\<lparr>uq := q2, txbuf := j, txpos := 0, xh0 := 0\<rparr> in
      prewait_loop K m 0 k now was_sent (s\<lparr>uq := q1\<rparr>) = prewait_loop K m 0 k now was_sent s1 \<and>
      (\<forall>s'. (tx_step K)\<^sup>*\<^sup>* s1 s' \<and> all_sent s' \<longrightarrow>
        (\<exists>ds r'. sent s' = sent s @ ds \<and>
          l2recv K' dr (client_unpack addr) (map (Dgram port) ds @ rest) r
            = l2recv K' dr (client_unpack addr) rest r' \<and>
          uapp r' = map_option (\<lambda>f. f @ d) (uapp r) \<and>
          waiting (uq r') = (if buf_empty (bufs (uq r) ! slot (uq r)) then waiting (uq r) else tl (waiting (uq r)))
            @ [pad_info tv idx] \<and>
          xh1 r' = 0 \<and> used (xbuf (usk r')) = 0 \<and> rx_ready r')))"
proof -
  obtain q1 j q2 where q: "server_done addr0 tv (ialloc (uq s)) (uq s, idx) = Inr (q1, idx + 1)" "wait m 0 q1 = Inr (j, q2)"
    "j < cq_end q2" "cq_ok q2" "iusing q2 = j" "reading q2 = Some (wire_frame d (pad_info tv idx))" "cq_end q1 = cq_end (uq s)"
    using picture_taken_up [OF assms(1-4,7,9,10)] by metis
  let ?s1 = "s\<lparr>uq := q2, txbuf := j, txpos := 0, xh0 := 0\<rparr>"
  have pre: "prewait_loop K m 0 k now was_sent (s\<lparr>uq := q1\<rparr>) = prewait_loop K m 0 k now was_sent ?s1"
    using q(2,3,7) assms(5,6) by (subst prewait_loop.simps) simp
  have fl: "in_flight (wire_frame d (pad_info tv idx)) ?s1"
    using q(4-6) startcode_length [OF assms(7)] by (simp add: in_flight_def wire_frame_def)
  have "\<exists>ds r'. sent s' = sent s @ ds \<and>
      l2recv K' dr (client_unpack addr) (map (Dgram port) ds @ rest) r = l2recv K' dr (client_unpack addr) rest r' \<and>
      uapp r' = map_option (\<lambda>f. f @ d) (uapp r) \<and>
      waiting (uq r') = (if buf_empty (bufs (uq r) ! slot (uq r)) then waiting (uq r) else tl (waiting (uq r)))
        @ [pad_info tv idx] \<and>
      xh1 r' = 0 \<and> used (xbuf (usk r')) = 0 \<and> rx_ready r'" if run: "(tx_step K)\<^sup>*\<^sup>* ?s1 s'" "all_sent s'" for s'
  proof -
    obtain ds r' where dr: "sent s' = sent ?s1 @ ds"
      "l2recv K' dr (client_unpack addr) (map (Dgram port) ds @ rest) r = l2recv K' dr (client_unpack addr) rest r'"
      "uapp r' = map_option (\<lambda>f. f @ d) (uapp r)" "feedback (pad_info tv idx) (uq r) = Inr (uq r')"
      "xh1 r' = 0" "used (xbuf (usk r')) = 0" "rx_ready r'"
      using frame_reaches_file [OF fl _ _ run assms(7,8,11-18), of K' dr port rest] by auto
    moreover obtain q' where "feedback (pad_info tv idx) (uq r) = Inr q'"
      "waiting q' = (if buf_empty (bufs (uq r) ! slot (uq r)) then waiting (uq r) else tl (waiting (uq r))) @ [pad_info tv idx]"
      using feedback_ok [OF assms(15,16), of "pad_info tv idx"] assms(17) by auto
    ultimately show ?thesis by (intro exI [of _ ds] exI [of _ r']) simp
  qed
  then show ?thesis using q(1,2) pre unfolding Let_def by blast
qed

definition demo_ready :: "unit udp" where
  "demo_ready = udp_new ((sock_new 3 (array_buf 16))\<lparr>events := 4, peer_port := 7\<rparr>)
     \<lparr>bufs = [\<lparr>store = demo_picture @ replicate 12 0, used = 5\<rparr>, malloc_buf 17], ip = 0, ialloc = 0, iusing = 2\<rparr> ()"

lemma demo_ready_taken_up:
  "server_done 0 (make_timeval 12 345000) (ialloc (uq demo_ready)) (uq demo_ready, 0) = Inr ((uq demo_server)\<lparr>iusing := 2\<rparr>, 1)"
  "wait id 0 ((uq demo_server)\<lparr>iusing := 2\<rparr>) = Inr (0, uq demo_server)"
  "demo_ready\<lparr>uq := uq demo_server, txbuf := 0, txpos := 0, xh0 := 0\<rparr> = demo_server"
  by code_simp+

theorem picture_reaches_file_witness:
  "\<exists>s' ds r'. server_done 0 (make_timeval 12 345000) (ialloc (uq demo_ready)) (uq demo_ready, 0)
      = Inr ((uq demo_server)\<lparr>iusing := 2\<rparr>, 1) \<and>
    (tx_step (Array_buf 16))\<^sup>*\<^sup>* demo_server s' \<and> sent s' = sent demo_ready @ ds \<and>
    l2recv (Malloc_buf 2000) 0 (client_unpack 0) (map (Dgram 9990) ds @ []) demo_client
      = l2recv (Malloc_buf 2000) 0 (client_unpack 0) [] r' \<and>
    uapp r' = Some demo_picture \<and> waiting (uq r') = [pad_info (make_timeval 12 345000) 0] \<and> rx_ready r'"
proof -
  let ?tv = "make_timeval 12 345000"
  obtain s' where s': "(tx_step (Array_buf 16))\<^sup>*\<^sup>* demo_server s'" "all_sent s'"
    using demo_server_sends by blast
  have q: "cq_ok (uq demo_client)" "ialloc (uq demo_client) = cq_end (uq demo_client)"
    "12 \<le> length (store (bufs (uq demo_client) ! slot (uq demo_client)))"
    "buf_empty (bufs (uq demo_client) ! slot (uq demo_client))" "waiting (uq demo_client) = []" "uapp demo_client = Some []"
    by (auto simp: demo_client_def udp_new_def cq_new_def cq_ok_def cq_end_def array_buf_def
        buf_ok_def slot_def buf_empty_def waiting_def pending_def usable_def filter_empty_conv ring_def less_Suc_eq numeral_2_eq_2)
  have d: "startcode_ok demo_picture" "length demo_picture < 16777216"
    by (simp_all add: startcode_ok_def demo_picture_def be32_def)
  have r: "rx_ready demo_client" "xh1 demo_client = 0 \<longrightarrow> used (xbuf (usk demo_client)) = 0"
    "used (xbuf (usk demo_client)) + (MTU - 4) \<le> length (store (xbuf (usk demo_client)))"
    "length demo_picture + 12 \<le> length (store (xbuf (usk demo_client)))"
    by (simp_all add: rx_ready_def demo_client_def udp_new_def sock_new_def malloc_buf_def buf_ok_def
        MTU_def demo_picture_def)
  have s: "cq_ok (uq demo_ready)" "writing (uq demo_ready) = Some demo_picture" "waiting (uq demo_ready) = []"
    "iusing (uq demo_ready) = cq_end (uq demo_ready)" "txbuf demo_ready = cq_end (uq demo_ready)"
    by (auto simp: demo_ready_def udp_new_def cq_ok_def cq_end_def buf_ok_def malloc_buf_def writing_def contents_def
        demo_picture_def waiting_def pending_def usable_def buf_empty_def filter_empty_conv less_Suc_eq numeral_2_eq_2
        ring_def)
  have o: "ok_events EPOLLOUT (usk demo_ready)" by code_simp
  have room: "length demo_picture + 12 \<le> length (store (bufs (uq demo_ready) ! ialloc (uq demo_ready)))"
    by (simp add: demo_ready_def udp_new_def demo_picture_def)
  have z: "0 mod 4 = (0 :: nat)" by simp
  obtain q1 j q2 where t: "server_done 0 ?tv (ialloc (uq demo_ready)) (uq demo_ready, 0) = Inr (q1, 0 + 1)"
      "wait id 0 q1 = Inr (j, q2)"
    "\<forall>s'. (tx_step (Array_buf 16))\<^sup>*\<^sup>* (demo_ready\<lparr>uq := q2, txbuf := j, txpos := 0, xh0 := 0\<rparr>) s' \<and> all_sent s' \<longrightarrow>
        (\<exists>ds r'. sent s' = sent demo_ready @ ds \<and>
          l2recv (Malloc_buf 2000) 0 (client_unpack 0) (map (Dgram 9990) ds @ []) demo_client
            = l2recv (Malloc_buf 2000) 0 (client_unpack 0) [] r' \<and>
          uapp r' = map_option (\<lambda>f. f @ demo_picture) (uapp demo_client) \<and>
          waiting (uq r') = (if buf_empty (bufs (uq demo_client) ! slot (uq demo_client)) then waiting (uq demo_client)
            else tl (waiting (uq demo_client))) @ [pad_info ?tv 0] \<and>
          xh1 r' = 0 \<and> used (xbuf (usk r')) = 0 \<and> rx_ready r')"
    using picture_reaches_file [OF s o d z room r q(1-3) z, of ?tv 0 id "Array_buf 16" undefined undefined undefined
        "Malloc_buf 2000" 0 9990 "[]"] unfolding Let_def by blast
  have q1: "q1 = (uq demo_server)\<lparr>iusing := 2\<rparr>" using t(1) demo_ready_taken_up(1) by simp
  then have "j = 0" "q2 = uq demo_server" using t(2) demo_ready_taken_up(2) by simp_all
  then have eq: "demo_ready\<lparr>uq := q2, txbuf := j, txpos := 0, xh0 := 0\<rparr> = demo_server" using demo_ready_taken_up(3) by simp
  obtain ds r' where "sent s' = sent demo_ready @ ds"
    "l2recv (Malloc_buf 2000) 0 (client_unpack 0) (map (Dgram 9990) ds @ []) demo_client
       = l2recv (Malloc_buf 2000) 0 (client_unpack 0) [] r'"
    "uapp r' = Some demo_picture" "waiting (uq r') = [pad_info ?tv 0]" "rx_ready r'"
    using t(3) [rule_format, unfolded eq, OF conjI [OF s']] unfolding q(5,6) by (elim exE conjE) (simp add: q(4))
  with s'(1) demo_ready_taken_up(1) show ?thesis by blast
qed

text \<open>
  handing over a picture replaces its start code by its length and appends \<open>PadInfo\<close>:
  it becomes the last waiting frame, and the frame being sent is not touched.
\<close>

theorem server_hands_over_wire_frame:
  assumes "cq_ok q" and "ialloc q < cq_end q" and "writing q = Some d" and "startcode_ok d"
    and "addr mod 4 = 0" and "length d + 12 \<le> length (store (bufs q ! ialloc q))"
  shows "\<exists>q'. server_done addr tv (ialloc q) (q, idx) = Inr (q', idx + 1) \<and> cq_ok q' \<and>
    reading q' = reading q \<and> ialloc q' = cq_end q' \<and>
    waiting q' = waiting q @ [wire_frame d (pad_info tv idx)]"
  using server_done_frame [OF assms, of tv idx] by auto

theorem server_hands_over_wire_frame_witness:
  "\<exists>q'. server_done 8 (make_timeval 1 2) (ialloc \<lparr>bufs = [\<lparr>store = demo_picture @ replicate 12 0,
        used = 5\<rparr>, malloc_buf 17], ip = 0, ialloc = 0, iusing = 2\<rparr>)
      (\<lparr>bufs = [\<lparr>store = demo_picture @ replicate 12 0, used = 5\<rparr>, malloc_buf 17], ip = 0, ialloc = 0,
        iusing = 2\<rparr>, 4) = Inr (q', 4 + 1) \<and> cq_ok q' \<and>
    reading q' = reading \<lparr>bufs = [\<lparr>store = demo_picture @ replicate 12 0, used = 5\<rparr>, malloc_buf 17],
      ip = 0, ialloc = 0, iusing = 2\<rparr> \<and> ialloc q' = cq_end q' \<and>
    waiting q' = waiting \<lparr>bufs = [\<lparr>store = demo_picture @ replicate 12 0, used = 5\<rparr>, malloc_buf 17],
      ip = 0, ialloc = 0, iusing = 2\<rparr> @ [wire_frame demo_picture (pad_info (make_timeval 1 2) 4)]"
  by (rule server_hands_over_wire_frame)
    (auto simp: cq_ok_def cq_end_def buf_ok_def malloc_buf_def writing_def contents_def
      demo_picture_def startcode_ok_def be32_def)

text \<open>
  the sum the server keeps is the sum of the sixteen latencies after any number of
  packets, each latency lies in the range of \<open>rptime\<close>, and the sum fits an \<open>int\<close>.
\<close>

theorem rtt_sum_exact:
  "latency_sum (fold (\<lambda>(now, ts). RTT now ts) ps RTT_reset)
      = sum_list (latency (fold (\<lambda>(now, ts). RTT now ts) ps RTT_reset)) \<and>
   0 \<le> latency_sum (fold (\<lambda>(now, ts). RTT now ts) ps RTT_reset) \<and>
   latency_sum (fold (\<lambda>(now, ts). RTT now ts) ps RTT_reset) < 2147483648"
proof -
  have base: "rtt_ok RTT_reset" by (auto simp: rtt_ok_def RTT_reset_def sum_list_replicate)
  have "rtt_ok s \<Longrightarrow> rtt_ok (fold (\<lambda>(now, ts). RTT now ts) ps s)" for s
    by (induction ps arbitrary: s) (auto intro: RTT_ok)
  from this [OF base] have ok: "rtt_ok (fold (\<lambda>(now, ts). RTT now ts) ps RTT_reset)" .
  let ?l = "latency (fold (\<lambda>(now, ts). RTT now ts) ps RTT_reset)"
  have "sum_list xs \<le> int (length xs) * 65600535 \<and> 0 \<le> sum_list xs"
    if "\<forall>l \<in> set xs. 0 \<le> l \<and> l \<le> (65600535 :: int)" for xs
    using that by (induction xs) auto
  from this [of ?l] ok show ?thesis by (simp add: rtt_ok_def)
qed

text \<open>
  the packet carries the server's time: what comes back is measured as the difference of
  the two times in milliseconds, taken modulo 10000 seconds, and is dropped when the clock
  has passed such a boundary in between.
\<close>

theorem rtt_measures_delay:
  assumes "tv_ok tv" and "0 \<le> tv_sec tv" and "tv_ok now" and "0 \<le> tv_sec now"
    and "length (latency s) = 16"
  shows "RTT now (pad_ts (pad_info tv idx)) s =
    (let d = tv_value now div 1000 mod 10000000 - tv_value tv div 1000 mod 10000000;
         i = unat (latency_i s AND 0x0f)
     in if d < 0 then s
        else s\<lparr>latency_i := latency_i s + 1, latency := (latency s)[i := d],
               latency_sum := latency_sum s + (d - latency s ! i)\<rparr>)"
proof -
  let ?m2 = "rp_milliseconds (rptime_of now)" and ?m1 = "rp_milliseconds (rptime_of tv)"
  have ts: "rptime_make (fst (pad_ts (pad_info tv idx))) (snd (pad_ts (pad_info tv idx))) = rptime_of tv"
    by (simp add: pad_ts_def pad_info_def rptime_make_def rptime_of_def be32_def le32_def of_le16_le16)
  have v: "uint ?m2 = tv_value now div 1000 mod 10000000" "uint ?m1 = tv_value tv div 1000 mod 10000000"
    using rp_milliseconds_value assms by simp_all
  have lt: "?m2 < ?m1 \<longleftrightarrow> uint ?m2 - uint ?m1 < 0" by (simp add: word_less_def)
  have u: "uint (?m2 - ?m1) = uint ?m2 - uint ?m1" if "\<not> ?m2 < ?m1"
    using that by (rule uint_diff)
  have l: "sint (?m2 - ?m1) = uint ?m2 - uint ?m1" if "\<not> ?m2 < ?m1"
    using u [OF that] sint_small [of "?m2 - ?m1"] rp_milliseconds_bound [of "rptime_of now"]
      uint_ge_0 [of ?m1] by linarith
  show ?thesis
    using l by (simp add: RTT_def ts Let_def lt v)
qed


theorem rtt_measures_delay_witness:
  "RTT (make_timeval 12 355000) (pad_ts (pad_info (make_timeval 12 345000) 7)) RTT_reset =
    (let d = tv_value (make_timeval 12 355000) div 1000 mod 10000000
             - tv_value (make_timeval 12 345000) div 1000 mod 10000000;
         i = unat (latency_i RTT_reset AND 0x0f)
     in if d < 0 then RTT_reset
        else RTT_reset\<lparr>latency_i := latency_i RTT_reset + 1, latency := (latency RTT_reset)[i := d],
               latency_sum := latency_sum RTT_reset + (d - latency RTT_reset ! i)\<rparr>)"
  by (rule rtt_measures_delay) (simp_all add: tv_ok_def make_timeval_def RTT_reset_def)

end
