(* ===== verification/Std_Map.thy ===== *)
theory Std_Map
  imports Prelude "HOL-Library.List_Lexorder" "HOL-Library.Char_ord"
begin

section \<open>std::map\<close>

text \<open>
  The maps of the programs are iterated in the order of their keys, so a \<open>std::map\<close> is the
  list of its entries with increasing keys; strings are ordered by the unsigned values of
  their bytes, as \<open>char_traits::compare\<close> does. The interface its clients rely on is the
  locale \<open>kv_store\<close>; it also covers the maps without an order of the other components.
\<close>

type_synonym smap = "(string \<times> string) list"

fun map_put :: "'k::linorder \<Rightarrow> 'v \<Rightarrow> ('k \<times> 'v) list \<Rightarrow> ('k \<times> 'v) list" where
  "map_put k v [] = [(k, v)]"
| "map_put k v ((k', v') # m) =
     (if k < k' then (k, v) # (k', v') # m
      else if k = k' then (k, v) # m
      else (k', v') # map_put k v m)"

text \<open>\<open>insert\<close> leaves the value of a key that is there.\<close>

fun map_insert :: "('k::linorder \<times> 'v) list \<Rightarrow> ('k \<times> 'v) list \<Rightarrow> ('k \<times> 'v) list" where
  "map_insert [] m = m"
| "map_insert ((k, v) # ps) m =
     map_insert ps (case map_of m k of None \<Rightarrow> map_put k v m | Some _ \<Rightarrow> m)"

fun map_del :: "'k \<Rightarrow> ('k \<times> 'v) list \<Rightarrow> ('k \<times> 'v) list" where
  "map_del k [] = []"
| "map_del k ((k', v') # m) = (if k = k' then m else (k', v') # map_del k m)"

definition map_ok :: "('k::linorder \<times> 'v) list \<Rightarrow> bool" where
  "map_ok m = sorted_wrt (<) (map fst m)"

subsection \<open>The interface\<close>

locale kv_store =
  fixes ok :: "'m \<Rightarrow> bool"
    and get :: "'m \<Rightarrow> 'k \<Rightarrow> 'v option"
    and put :: "'k \<Rightarrow> 'v \<Rightarrow> 'm \<Rightarrow> 'm"
  assumes ok_put: "ok m \<Longrightarrow> ok (put k v m)"
    and get_put: "ok m \<Longrightarrow> get (put k v m) k' = (if k' = k then Some v else get m k')"
begin

lemma ok_puts: "ok m \<Longrightarrow> ok (fold (\<lambda>(k, v). put k v) ps m)"
  by (induction ps arbitrary: m) (auto simp: ok_put)

lemma get_puts:
  "ok m \<Longrightarrow> get (fold (\<lambda>(k, v). put k v) ps m) k =
    (case map_of (rev ps) k of Some v \<Rightarrow> Some v | None \<Rightarrow> get m k)"
proof (induction ps arbitrary: m)
  case (Cons p ps)
  then show ?case by (cases p) (auto simp: ok_put get_put map_add_def split: option.splits)
qed simp

end

subsection \<open>The laws of the sorted list\<close>

lemma map_put_keys: "fst ` set (map_put k v m) = insert k (fst ` set m)"
  by (induction k v m rule: map_put.induct) auto

lemma map_ok_put: "map_ok m \<Longrightarrow> map_ok (map_put k v m)"
  unfolding map_ok_def
proof (induction k v m rule: map_put.induct)
  case (2 k v k' v' m)
  then show ?case
  proof (cases "k < k' \<or> k = k'")
    case False
    then have "k' < k" by auto
    moreover have "set (map fst (map_put k v m)) = insert k (set (map fst m))"
      using map_put_keys [of k v m] by simp
    ultimately show ?thesis using 2 False by auto
  qed auto
qed simp

lemma map_of_put: "map_ok m \<Longrightarrow> map_of (map_put k v m) k' = (if k' = k then Some v else map_of m k')"
  by (induction k v m rule: map_put.induct) (auto simp: map_ok_def)

interpretation std_map: kv_store map_ok map_of map_put
  by unfold_locales (auto simp: map_ok_put map_of_put)

lemma map_put_last: "\<forall>x\<in>set m. fst x < k \<Longrightarrow> map_put k v m = m @ [(k, v)]"
  by (induction m) (auto simp: dest: less_asym)

lemma fold_put_sorted:
  "map_ok (m @ ps) \<Longrightarrow> fold (\<lambda>(k, v). map_put k v) ps m = m @ ps"
proof (induction ps arbitrary: m)
  case (Cons p ps)
  have "\<forall>x\<in>set m. fst x < fst p" using Cons(2) by (auto simp: map_ok_def sorted_wrt_append)
  then have "map_put (fst p) (snd p) m = m @ [p]" by (simp add: map_put_last)
  then show ?case using Cons(1) [of "m @ [p]"] Cons(2) by (simp add: case_prod_beta)
qed simp

lemma map_ok_Nil [simp]: "map_ok []"
  by (simp add: map_ok_def)

lemma map_del_subset: "set (map_del k m) \<subseteq> set m"
  by (induction k m rule: map_del.induct) auto

lemma map_ok_del: "map_ok m \<Longrightarrow> map_ok (map_del k m)"
  unfolding map_ok_def
proof (induction k m rule: map_del.induct)
  case (2 k k' v' m)
  then show ?case using map_del_subset [of k m] by fastforce
qed simp

lemma map_of_del: "map_ok m \<Longrightarrow> map_of (map_del k m) k' = (if k' = k then None else map_of m k')"
proof (induction k m rule: map_del.induct)
  case (2 k k'' v' m)
  have "map_of m k'' = None" using 2(2)
    by (auto simp: map_ok_def map_of_eq_None_iff)
  then show ?case using 2 by (auto simp: map_ok_def)
qed simp

lemma map_ok_insert: "map_ok m \<Longrightarrow> map_ok (map_insert ps m)"
  by (induction ps m rule: map_insert.induct) (auto simp: map_ok_put split: option.splits)

lemma map_of_insert:
  "map_ok m \<Longrightarrow> map_of (map_insert ps m) k =
    (case map_of m k of Some v \<Rightarrow> Some v | None \<Rightarrow> map_of ps k)"
proof (induction ps m rule: map_insert.induct)
  case (2 k' v ps m)
  then show ?case
    by (cases "map_of m k'") (auto simp: map_ok_put map_of_put split: option.splits)
qed (simp split: option.splits)

end
