(* ===== verification/Glex.thy ===== *)
theory Glex
  imports Prelude
begin

section \<open>Text extraction and substitution (glex.hpp)\<close>

text \<open>
  \<open>psearch\<close> looks for a pattern with \<open>*\<close> in a text, \<open>globex\<close> and \<open>glex\<close> cut out the
  text between two such patterns, \<open>subst\<close> replaces \<open>$$name$$\<close> by the value of a variable.
  An iterator is its position in the string it points into; a reverse iterator is a position
  in the reversed string, so its \<open>base()\<close> is the length of the string less that position.
\<close>

subsection \<open>std::find and std::search\<close>

definition slice :: "'a list \<Rightarrow> nat \<Rightarrow> nat \<Rightarrow> 'a list" where
  "slice s b e = take (e - b) (drop b s)"

function find_in :: "'a \<Rightarrow> 'a list \<Rightarrow> nat \<Rightarrow> nat \<Rightarrow> nat" where
  "find_in c s b e = (if b < e then (if s ! b = c then b else find_in c s (Suc b) e) else e)"
  by pat_completeness auto
termination by (relation "measure (\<lambda>(c, s, b, e). e - b)") auto

function search_in :: "'a list \<Rightarrow> 'a list \<Rightarrow> nat \<Rightarrow> nat \<Rightarrow> nat" where
  "search_in p s b e =
     (if b + length p \<le> e then
        (if slice s b (b + length p) = p then b else search_in p s (Suc b) e)
      else e)"
  by pat_completeness auto
termination by (relation "measure (\<lambda>(p, s, b, e). Suc e - b)") auto

declare find_in.simps [simp del] search_in.simps [simp del]

subsection \<open>The search\<close>

text \<open>\<open>Range\<close>; positions of the content or of the pattern.\<close>

record range =
  rb :: nat
  re :: nat

text \<open>
  \<open>_matchres\<close> moves \<open>cont->begin\<close> behind the parts of the pattern, or answers 0.
\<close>

function matchres :: "'a \<Rightarrow> 'a list \<Rightarrow> 'a list \<Rightarrow> nat \<Rightarrow> nat \<Rightarrow> nat \<Rightarrow> nat \<Rightarrow> nat option" where
  "matchres st pat s pe ce pb cb =
     (if pe \<le> pb then Some cb
      else let star = find_in st pat pb pe in
        if star = pb then matchres st pat s pe ce (Suc pb) cb
        else let c = search_in (slice pat pb star) s cb ce in
          if ce \<le> c then None
          else matchres st pat s pe ce (star + 1) (c + (star - pb)))"
  by pat_completeness auto

lemma find_in_bounds: "b \<le> e \<Longrightarrow> b \<le> find_in c s b e \<and> find_in c s b e \<le> e"
proof (induction c s b e rule: find_in.induct)
  case (1 c s b e)
  show ?case
  proof (cases "b < e \<and> s ! b \<noteq> c")
    case True
    then show ?thesis using 1 by (simp add: find_in.simps [of c s b e])
  next
    case False
    then show ?thesis using 1(2) by (auto simp: find_in.simps [of c s b e])
  qed
qed

lemma find_in_ge: "b < e \<Longrightarrow> b \<le> find_in c s b e"
  by (blast dest: find_in_bounds [OF less_imp_le])

termination matchres
proof (relation "measure (\<lambda>(st, pat, s, pe, ce, pb, cb). pe - pb)")
  fix st :: 'a and pat s :: "'a list" and pe ce pb cb star c :: nat
  assume a: "\<not> pe \<le> pb" "star = find_in st pat pb pe"
  then show "((st, pat, s, pe, ce, star + 1, c + (star - pb)), st, pat, s, pe, ce, pb, cb)
      \<in> measure (\<lambda>(st, pat, s, pe, ce, pb, cb). pe - pb)"
    using find_in_ge [of pb pe st pat] by auto
qed auto

declare matchres.simps [simp del]

text \<open>The pattern is not empty where \<open>psearch\<close> is called: it looks at its first character.\<close>

definition psearch :: "'a \<Rightarrow> 'a list \<Rightarrow> range \<Rightarrow> 'a list \<Rightarrow> range \<Rightarrow> range option" where
  "psearch st pats pat s cont =
     (if pats ! rb pat \<noteq> st then
        let star = find_in st pats (rb pat) (re pat) in
        if re pat \<le> star then
          let c = search_in (slice pats (rb pat) (re pat)) s (rb cont) (re cont)
          in if re cont \<le> c then None else Some \<lparr>rb = c, re = c + (re pat - rb pat)\<rparr>
        else
          let contbeg = search_in (slice pats (rb pat) star) s (rb cont) (re cont)
          in if re cont \<le> contbeg then None
             else map_option (\<lambda>c. \<lparr>rb = contbeg, re = c\<rparr>)
                    (matchres st pats s (re pat) (re cont) (star + 1) (contbeg + (star - rb pat)))
      else map_option (\<lambda>c. \<lparr>rb = rb cont, re = c\<rparr>)
             (matchres st pats s (re pat) (re cont) (rb pat + 1) (rb cont)))"

subsection \<open>The extraction\<close>

text \<open>What \<open>ret\<close> points into: without a \<open>$\<close> the pattern itself is the answer.\<close>

datatype extraction = From_pattern range | From_content range

text \<open>An empty part of the pattern matches the empty text at \<open>dflt\<close>.\<close>

definition part_search :: "string \<Rightarrow> range \<Rightarrow> string \<Rightarrow> range \<Rightarrow> nat \<Rightarrow> range option" where
  "part_search pats pat s cont dflt =
     (if rb pat = re pat then Some \<lparr>rb = dflt, re = dflt\<rparr> else psearch (CHR ''*'') pats pat s cont)"

definition globex :: "string \<Rightarrow> range \<Rightarrow> string \<Rightarrow> range \<Rightarrow> extraction option outcome" where
  "globex pats pat s cont =
     (let p = find_in (CHR ''$'') pats (rb pat) (re pat) in
      if re pat \<le> p then Inr (Some (From_pattern pat))
      else
        let start = \<lparr>rb = rb pat, re = p\<rparr>; stop = \<lparr>rb = p + 1, re = re pat\<rparr> in
        case part_search pats start s cont (rb cont) of
          None \<Rightarrow> Inr None
        | Some res0 \<Rightarrow>
            let rng = \<lparr>rb = re res0, re = re cont\<rparr> in
            (case part_search pats stop s rng (re rng) of
               None \<Rightarrow> Inr None
             | Some res1 \<Rightarrow>
                 if rb start = re start then Inr (Some (From_content \<lparr>rb = re res0, re = rb res1\<rparr>))
                 else
                   let n = length s; m = length pats;
                       rrng = \<lparr>rb = n - rb res1, re = n - rb res0\<rparr>;
                       rs = \<lparr>rb = m - re start, re = m - rb start\<rparr>
                   in case psearch (CHR ''*'') (rev pats) rs (rev s) rrng of
                        None \<Rightarrow> Inl Assertion
                      | Some rres0 \<Rightarrow>
                          Inr (Some (From_content \<lparr>rb = n - rb rres0, re = rb res1\<rparr>))))"

definition glex :: "string \<Rightarrow> string \<Rightarrow> string outcome" where
  "glex ex s =
     bind_ok (globex ex \<lparr>rb = 0, re = length ex\<rparr> s \<lparr>rb = 0, re = length s\<rparr>) (\<lambda>r.
       case r of
         None \<Rightarrow> Inl (Thrown ''Ex null'')
       | Some (From_pattern g) \<Rightarrow> Inr (slice ex (rb g) (re g))
       | Some (From_content g) \<Rightarrow> Inr (slice s (rb g) (re g)))"

subsection \<open>Substitution\<close>

function subst_loop :: "(string \<Rightarrow> string option) \<Rightarrow> string \<Rightarrow> nat \<Rightarrow> string \<Rightarrow> string outcome" where
  "subst_loop vars cont h ret =
     (let p = search_in ''$$'' cont h (length cont) in
      if p < length cont then
        let q = search_in ''$$'' cont (p + 2) (length cont) in
        if length cont \<le> q then Inl (Thrown ''REPL-1'')
        else case vars (slice cont (p + 2) q) of
               None \<Rightarrow> Inl (Thrown ''REPL-2'')
             | Some v \<Rightarrow> subst_loop vars cont (q + 2) (ret @ slice cont h p @ v)
      else Inr (ret @ slice cont h (length cont)))"
  by pat_completeness auto

lemma search_in_bounds: "b \<le> e \<Longrightarrow> b \<le> search_in p s b e \<and> search_in p s b e \<le> e"
proof (induction p s b e rule: search_in.induct)
  case (1 p s b e)
  then show ?case
    by (cases "Suc b \<le> e") (auto simp: search_in.simps [of p s b e] search_in.simps [of p s "Suc b" e])
qed


termination subst_loop
proof (relation "measure (\<lambda>(vars, cont, h, ret). Suc (length cont) - h)")
  fix vars :: "string \<Rightarrow> string option" and cont ret v :: string and h p q :: nat
  assume a: "p = search_in ''$$'' cont h (length cont)" "p < length cont"
    "q = search_in ''$$'' cont (p + 2) (length cont)" "\<not> length cont \<le> q"
  have "h \<le> length cont"
  proof (rule ccontr)
    assume "\<not> h \<le> length cont"
    then show False using a(1,2) by (simp add: search_in.simps [of _ cont h])
  qed
  then have "h \<le> p" using a(1) search_in_bounds by blast
  moreover have "p + 2 \<le> length cont"
  proof (rule ccontr)
    assume "\<not> p + 2 \<le> length cont"
    then have "search_in ''$$'' cont (p + 2) (length cont) = length cont"
      by (subst search_in.simps) simp
    then show False using a(3,4) by simp
  qed
  then have "p + 2 \<le> q" using a(3) search_in_bounds by blast
  ultimately show "((vars, cont, q + 2, ret @ slice cont h p @ v), vars, cont, h, ret)
      \<in> measure (\<lambda>(vars, cont, h, ret). Suc (length cont) - h)"
    using a(4) by simp
qed auto

declare subst_loop.simps [simp del]

definition subst :: "string \<Rightarrow> (string \<Rightarrow> string option) \<Rightarrow> string outcome" where
  "subst cont vars = subst_loop vars cont 0 []"

subsection \<open>Slices\<close>

lemma length_slice: "e \<le> length s \<Longrightarrow> length (slice s b e) = e - b"
  by (simp add: slice_def)

lemma slice_append:
  assumes "b \<le> m" and "m \<le> e"
  shows "slice s b e = slice s b m @ slice s m e"
proof -
  have "e - b = (m - b) + (e - m)" and "m - b + b = m" using assms by simp_all
  then show ?thesis by (simp only: slice_def take_add drop_drop)
qed

lemma slice_Cons: "b < e \<Longrightarrow> e \<le> length s \<Longrightarrow> slice s b e = s ! b # slice s (Suc b) e"
  by (simp add: slice_def Cons_nth_drop_Suc [symmetric] take_Cons')

lemma slice_Nil [simp]: "e \<le> b \<Longrightarrow> slice s b e = []"
  by (simp add: slice_def)

lemma slice_all [simp]: "slice s 0 (length s) = s"
  by (simp add: slice_def)

lemma slice_rev:
  assumes "b \<le> e" and "e \<le> length s"
  shows "slice (rev s) (length s - e) (length s - b) = rev (slice s b e)"
proof -
  have "drop (length s - e) (rev s) = rev (take e s)" using assms by (simp add: drop_rev)
  then have "slice (rev s) (length s - e) (length s - b) = take (e - b) (rev (take e s))"
    using assms by (simp add: slice_def)
  also have "\<dots> = rev (drop b (take e s))" using assms by (simp add: take_rev)
  finally show ?thesis using assms by (simp add: slice_def drop_take)
qed

subsection \<open>The first occurrence\<close>

lemma find_in_spec:
  assumes "b \<le> e" and "e \<le> length s"
  shows "let i = find_in c s b e in b \<le> i \<and> i \<le> e \<and> c \<notin> set (slice s b i) \<and> (i < e \<longrightarrow> s ! i = c)"
  using assms
proof (induction c s b e rule: find_in.induct)
  case (1 c s b e)
  show ?case
  proof (cases "b < e \<and> s ! b \<noteq> c")
    case True
    then have i: "find_in c s b e = find_in c s (Suc b) e" by (simp add: find_in.simps [of c s b e])
    have ih: "let i = find_in c s (Suc b) e in Suc b \<le> i \<and> i \<le> e \<and> c \<notin> set (slice s (Suc b) i) \<and>
        (i < e \<longrightarrow> s ! i = c)" using 1 True by simp
    then show ?thesis using i True 1(3) by (auto simp: Let_def slice_Cons [of b])
  next
    case False
    then show ?thesis using 1(2) by (auto simp: find_in.simps [of c s b e])
  qed
qed

definition hit :: "'a list \<Rightarrow> 'a list \<Rightarrow> nat \<Rightarrow> nat \<Rightarrow> bool" where
  "hit p s i e \<longleftrightarrow> i + length p \<le> e \<and> slice s i (i + length p) = p"

lemma search_in_step:
  assumes "b \<le> e" and "p \<noteq> []"
  shows "search_in p s b e =
    (if hit p s b e then b else if b < e then search_in p s (Suc b) e else e)"
proof -
  have l: "0 < length p" using assms(2) by simp
  show ?thesis
  proof (cases "b + length p \<le> e")
    case True
    then have "b < e" using l by linarith
    then show ?thesis using True by (simp add: search_in.simps [of p s b e] hit_def)
  next
    case False
    then have "search_in p s b e = e" "search_in p s (Suc b) e = e"
      by (simp_all add: search_in.simps [of p s b e] search_in.simps [of p s "Suc b" e])
    then show ?thesis using False by (simp add: hit_def)
  qed
qed

lemma search_in_spec:
  assumes "b \<le> e" and "p \<noteq> []"
  shows "(search_in p s b e < e \<and> b \<le> search_in p s b e \<and> hit p s (search_in p s b e) e \<and>
      (\<forall>i. b \<le> i \<and> i < search_in p s b e \<longrightarrow> \<not> hit p s i e)) \<or>
    (search_in p s b e = e \<and> (\<forall>i. b \<le> i \<longrightarrow> \<not> hit p s i e))"
  using assms(1)
proof (induction "e - b" arbitrary: b)
  case 0
  then have "b = e" by simp
  moreover have "\<not> hit p s i e" if "b \<le> i" for i
    using that \<open>b = e\<close> assms(2) by (cases p) (auto simp: hit_def)
  ultimately show ?case using search_in_step [OF 0(2) assms(2), of s] by simp
next
  case (Suc n)
  then have lt: "b < e" by simp
  show ?case
  proof (cases "hit p s b e")
    case True
    then show ?thesis using search_in_step [OF Suc(3) assms(2), of s] lt by auto
  next
    case False
    then have eq: "search_in p s b e = search_in p s (Suc b) e"
      using search_in_step [OF Suc(3) assms(2), of s] lt by simp
    have "\<And>i. b \<le> i \<Longrightarrow> i = b \<or> Suc b \<le> i" by auto
    then show ?thesis using Suc(1) [of "Suc b"] Suc(2) lt False unfolding eq
      by (metis Suc_leD Suc_leI diff_Suc_Suc diff_Suc_1 Suc_diff_Suc)
  qed
qed


subsection \<open>What a pattern with stars matches\<close>

text \<open>
  A pattern is the sequence of its literal parts; it occurs in a text when the parts occur
  there one after the other without overlap.
\<close>

lemma length_dropWhile_less [termination_simp]: "length (dropWhile P xs) < Suc (length xs)"
  by (simp add: le_imp_less_Suc length_dropWhile_le)

fun parts_of :: "'a \<Rightarrow> 'a list \<Rightarrow> 'a list list" where
  "parts_of st [] = []"
| "parts_of st (c # p) =
     (if c = st then parts_of st p
      else (c # takeWhile (\<lambda>x. x \<noteq> st) p) # parts_of st (dropWhile (\<lambda>x. x \<noteq> st) p))"

fun occurs :: "'a list list \<Rightarrow> 'a list \<Rightarrow> bool" where
  "occurs [] xs \<longleftrightarrow> True"
| "occurs (p # ps) xs \<longleftrightarrow> (\<exists>a b. xs = a @ p @ b \<and> occurs ps b)"

lemma occurs_extend: "occurs ps xs \<Longrightarrow> occurs ps (a @ xs @ b)"
proof (induction ps arbitrary: a xs)
  case (Cons p ps)
  then obtain u v where "xs = u @ p @ v" "occurs ps v" by auto
  moreover from Cons.IH [OF this(2), of "[]"] have "occurs ps (v @ b)" by simp
  ultimately show ?case by (auto intro: exI [of _ "a @ u"])
qed simp

lemma occurs_snoc: "occurs (ps @ [q]) xs \<longleftrightarrow> (\<exists>a b. xs = a @ q @ b \<and> occurs ps a)"
proof (induction ps arbitrary: xs)
  case Nil
  then show ?case by auto
next
  case (Cons p ps)
  have "occurs (p # ps @ [q]) xs \<longleftrightarrow> (\<exists>u v a b. xs = u @ p @ a @ q @ b \<and> v = a @ q @ b \<and> occurs ps a)"
    using Cons by auto
  also have "\<dots> \<longleftrightarrow> (\<exists>c b. xs = c @ q @ b \<and> occurs (p # ps) c)"
    by (metis append_assoc occurs.simps(2))
  finally show ?case by simp
qed

lemma occurs_rev: "occurs (rev (map rev ps)) (rev xs) \<longleftrightarrow> occurs ps xs"
proof (induction ps arbitrary: xs)
  case (Cons p ps)
  have "occurs (rev (map rev (p # ps))) (rev xs) \<longleftrightarrow>
      (\<exists>a b. rev xs = a @ rev p @ b \<and> occurs (rev (map rev ps)) a)"
    by (simp add: occurs_snoc)
  also have "\<dots> \<longleftrightarrow> (\<exists>a b. xs = rev b @ p @ rev a \<and> occurs ps (rev a))"
    using Cons.IH by (metis (no_types, lifting) append_assoc rev_append rev_rev_ident)
  also have "\<dots> \<longleftrightarrow> occurs (p # ps) xs" by (metis occurs.simps(2) rev_rev_ident)
  finally show ?case .
qed simp

text \<open>Fitting the parts one by one from the left, as the loop does.\<close>

fun fit :: "'a list list \<Rightarrow> 'a list \<Rightarrow> nat \<Rightarrow> nat \<Rightarrow> nat option" where
  "fit [] s e b = Some b"
| "fit (p # ps) s e b =
     (let c = search_in p s b e in if e \<le> c then None else fit ps s e (c + length p))"

lemma slice_hit:
  assumes "hit p s i e" and "b \<le> i" and "e \<le> length s"
  shows "slice s b e = slice s b i @ p @ slice s (i + length p) e"
  using assms slice_append [of b i e s] slice_append [of i "i + length p" e s] by (simp add: hit_def)

lemma fit_sound:
  assumes "b \<le> e" and "e \<le> length s" and "[] \<notin> set ps" and "fit ps s e b = Some c"
  shows "b \<le> c \<and> c \<le> e \<and> occurs ps (slice s b c)"
  using assms
proof (induction ps arbitrary: b)
  case (Cons p ps)
  let ?i = "search_in p s b e"
  have i: "?i < e" "fit ps s e (?i + length p) = Some c"
    using Cons.prems(4) by (auto simp: Let_def split: if_splits)
  have p: "p \<noteq> []" using Cons.prems(3) by auto
  have h: "b \<le> ?i" "hit p s ?i e" using search_in_spec [OF Cons.prems(1) p, of s] i(1) by auto
  have l: "?i + length p \<le> e" using h(2) by (simp add: hit_def)
  have r: "?i + length p \<le> c" "c \<le> e" "occurs ps (slice s (?i + length p) c)"
    using Cons.IH [OF l Cons.prems(2) _ i(2)] Cons.prems(3) by auto
  have "hit p s ?i c" using h(2) r(1) by (simp add: hit_def)
  then have "slice s b c = slice s b ?i @ p @ slice s (?i + length p) c"
    using h(1) r(2) Cons.prems(2) by (intro slice_hit) auto
  then show ?case using r h(1) by auto
qed simp

lemma split_hit:
  assumes "slice s b e = u @ p @ v" and "b \<le> e" and "e \<le> length s"
  shows "hit p s (b + length u) e \<and> v = slice s (b + length u + length p) e"
proof -
  have "e - b = length u + length p + length v"
    using assms length_slice [of e s b] by (metis add.assoc length_append)
  then have le: "b + length u + length p \<le> e" using assms(2) by simp
  have "drop (length u) (slice s b e) = p @ v" using assms(1) by simp
  then have d: "slice s (b + length u) e = p @ v"
    by (simp add: slice_def drop_take add.commute)
  then have "take (length p) (slice s (b + length u) e) = p" by simp
  then have "slice s (b + length u) (b + length u + length p) = p"
    using le by (simp add: slice_def min_def split: if_splits)
  moreover have "drop (length p) (slice s (b + length u) e) = v" using d by simp
  then have "v = slice s (b + length u + length p) e"
    by (simp add: slice_def drop_take add.commute)
  ultimately show ?thesis using le by (simp add: hit_def)
qed

lemma fit_complete:
  assumes "b \<le> e" and "e \<le> length s" and "[] \<notin> set ps" and "occurs ps (slice s b e)"
  shows "fit ps s e b \<noteq> None"
  using assms
proof (induction ps arbitrary: b)
  case (Cons p ps)
  have p: "p \<noteq> []" using Cons.prems(3) by auto
  from Cons.prems(4) obtain u v where "slice s b e = u @ p @ v" "occurs ps v" by auto
  from split_hit [OF this(1) Cons.prems(1,2)] this(2) have
    h: "hit p s (b + length u) e" "occurs ps (slice s (b + length u + length p) e)" by auto
  let ?i = "search_in p s b e"
  have i: "?i < e" "b \<le> ?i" "hit p s ?i e" "?i \<le> b + length u"
    using search_in_spec [OF Cons.prems(1) p, of s] h(1)
    by (meson le_add1 linorder_not_le order_refl)+
  have le: "?i + length p \<le> e" "b + length u + length p \<le> e" using i(3) h(1) by (simp_all add: hit_def)
  have "slice s (?i + length p) e =
      slice s (?i + length p) (b + length u + length p) @ slice s (b + length u + length p) e"
    using i(4) le by (intro slice_append) auto
  then have "occurs ps (slice s (?i + length p) e)" using occurs_extend [OF h(2), of _ "[]"] by simp
  then show ?case using Cons.IH [OF le(1) Cons.prems(2)] Cons.prems(3) i(1) by (simp add: Let_def)
qed simp


subsection \<open>The parts of a pattern\<close>

lemma parts_of_word:
  assumes "st \<notin> set xs" and "xs \<noteq> []" and "r = [] \<or> hd r = st"
  shows "parts_of st (xs @ r) = xs # parts_of st r"
proof -
  obtain c w where xs: "xs = c # w" using assms(2) by (cases xs) auto
  have "takeWhile (\<lambda>x. x \<noteq> st) (w @ r) = w @ takeWhile (\<lambda>x. x \<noteq> st) r"
    "dropWhile (\<lambda>x. x \<noteq> st) (w @ r) = dropWhile (\<lambda>x. x \<noteq> st) r"
    using assms(1) xs by (auto simp: takeWhile_append dropWhile_append)
  moreover have "takeWhile (\<lambda>x. x \<noteq> st) r = [] \<and> dropWhile (\<lambda>x. x \<noteq> st) r = r"
    using assms(3) by (cases r) auto
  ultimately show ?thesis using assms(1) xs by auto
qed

lemma parts_of_star [simp]: "parts_of st (st # p) = parts_of st p"
  by simp

lemma parts_of_single: "st \<notin> set xs \<Longrightarrow> xs \<noteq> [] \<Longrightarrow> parts_of st xs = [xs]"
  using parts_of_word [of st xs "[]"] by simp

lemma parts_of_append_star: "parts_of st (xs @ st # ys) = parts_of st xs @ parts_of st ys"
proof (induction st xs rule: parts_of.induct)
  case (2 st c p)
  show ?case
  proof (cases "c = st")
    case True
    then show ?thesis using 2(1) by simp
  next
    case False
    let ?w = "c # takeWhile (\<lambda>x. x \<noteq> st) p" and ?d = "dropWhile (\<lambda>x. x \<noteq> st) p"
    have w: "st \<notin> set ?w" using False by (auto dest: set_takeWhileD)
    have "hd (?d @ st # ys) = st"
      using hd_dropWhile [of "\<lambda>x. x \<noteq> st" p] by (cases ?d) (simp_all del: dropWhile_eq_Nil_conv)
    then have "?d @ st # ys = [] \<or> hd (?d @ st # ys) = st" ..
    from parts_of_word [OF w _ this] have
      "parts_of st (?w @ ?d @ st # ys) = ?w # parts_of st (?d @ st # ys)" by simp
    then have "parts_of st ((c # p) @ st # ys) = ?w # parts_of st (?d @ st # ys)"
      by (simp flip: append_assoc del: parts_of.simps)
    then show ?thesis using 2(2) False by simp
  qed
qed simp

lemma parts_of_rev: "parts_of st (rev p) = rev (map rev (parts_of st p))"
proof (induction st p rule: parts_of.induct)
  case (2 st c p)
  show ?case
  proof (cases "c = st")
    case True
    then show ?thesis using 2(1) parts_of_append_star [of st "rev p" "[]"] by simp
  next
    case False
    let ?w = "c # takeWhile (\<lambda>x. x \<noteq> st) p" and ?d = "dropWhile (\<lambda>x. x \<noteq> st) p"
    have w: "st \<notin> set (rev ?w)" using False by (auto dest: set_takeWhileD)
    have sp: "rev (c # p) = rev ?d @ rev ?w" by (simp flip: rev_append)
    have d: "?d = [] \<or> (\<exists>r. ?d = st # r)"
      using hd_dropWhile [of "\<lambda>x. x \<noteq> st" p] by (cases ?d) auto
    have "parts_of st (rev ?d @ rev ?w) = parts_of st (rev ?d) @ [rev ?w]"
    proof (cases "?d = []")
      case True
      then show ?thesis unfolding True using parts_of_single [OF w] by simp
    next
      case False
      then obtain r where r: "?d = st # r" using d by auto
      have "parts_of st (rev r @ st # rev ?w) = parts_of st (rev r) @ [rev ?w]"
        using parts_of_append_star [of st "rev r" "rev ?w"] parts_of_single [OF w] by simp
      moreover have "parts_of st (rev r @ [st]) = parts_of st (rev r)"
        using parts_of_append_star [of st "rev r" "[]"] by simp
      ultimately show ?thesis using r by simp
    qed
    then show ?thesis using 2(2) False unfolding sp by simp
  qed
qed simp

lemma parts_of_nonempty: "[] \<notin> set (parts_of st p)"
  by (induction st p rule: parts_of.induct) auto

lemma slice_snoc_star:
  assumes "b \<le> i" and "i < e" and "e \<le> length p" and "p ! i = st"
  shows "slice p b e = slice p b i @ st # slice p (Suc i) e"
  using assms slice_append [of b i e p] slice_Cons [of i e p] by simp

lemma parts_of_find:
  assumes "b < e" and "e \<le> length p" and "p ! b \<noteq> st"
  shows "b < find_in st p b e \<and>
    parts_of st (slice p b e) = slice p b (find_in st p b e) # parts_of st (slice p (Suc (find_in st p b e)) e)"
proof -
  let ?i = "find_in st p b e"
  have i: "b \<le> ?i" "?i \<le> e" "st \<notin> set (slice p b ?i)" "?i < e \<longrightarrow> p ! ?i = st"
    using find_in_spec [of b e p st] assms by (auto simp: Let_def)
  have "?i \<noteq> b" using i(4) assms(1,3) by auto
  then have lt: "b < ?i" using i(1) by simp
  then have ne: "slice p b ?i \<noteq> []" using length_slice [of ?i p b] i(2) assms(2) by auto
  show ?thesis
  proof (cases "?i < e")
    case True
    then have "slice p b e = slice p b ?i @ st # slice p (Suc ?i) e"
      using i assms(2) by (intro slice_snoc_star) auto
    then show ?thesis using parts_of_word [OF i(3) ne, of "st # slice p (Suc ?i) e"] lt by simp
  next
    case False
    then have "?i = e" using i(2) by simp
    then show ?thesis using parts_of_single [OF i(3) ne] lt by simp
  qed
qed

lemma matchres_fit:
  assumes "pe \<le> length pat"
  shows "matchres st pat s pe ce pb cb = fit (parts_of st (slice pat pb pe)) s ce cb"
  using assms
proof (induction st pat s pe ce pb cb rule: matchres.induct)
  case (1 st pat s pe ce pb cb)
  show ?case
  proof (cases "pe \<le> pb")
    case True
    then show ?thesis by (simp add: matchres.simps [of st pat s pe ce pb cb])
  next
    case lt: False
    let ?i = "find_in st pat pb pe"
    show ?thesis
    proof (cases "pat ! pb = st")
      case True
      then have "?i = pb" using lt by (simp add: find_in.simps [of st pat pb pe])
      then show ?thesis using 1 lt True slice_Cons [of pb pe pat]
        by (simp add: matchres.simps [of st pat s pe ce pb cb])
    next
      case False
      then have i: "pb < ?i" "parts_of st (slice pat pb pe) = slice pat pb ?i # parts_of st (slice pat (Suc ?i) pe)"
        using parts_of_find [of pb pe pat st] lt 1(3) by auto
      have "?i \<le> pe" using find_in_bounds [of pb pe st pat] lt by simp
      then have "length (slice pat pb ?i) = ?i - pb" using 1(3) by (simp add: length_slice)
      then show ?thesis using 1 lt i
        by (simp add: matchres.simps [of st pat s pe ce pb cb] Let_def)
    qed
  qed
qed

lemma psearch_fit:
  assumes "rb pat < re pat" and "re pat \<le> length pats"
  shows "\<exists>f. psearch st pats pat s cont =
      map_option (\<lambda>c. \<lparr>rb = f, re = c\<rparr>) (fit (parts_of st (slice pats (rb pat) (re pat))) s (re cont) (rb cont)) \<and>
    f = (if pats ! rb pat = st then rb cont
         else search_in (hd (parts_of st (slice pats (rb pat) (re pat)))) s (rb cont) (re cont))"
proof (cases "pats ! rb pat = st")
  case True
  then have "parts_of st (slice pats (rb pat) (re pat)) = parts_of st (slice pats (Suc (rb pat)) (re pat))"
    using slice_Cons [OF assms] by simp
  then show ?thesis using True assms(2) by (simp add: psearch_def matchres_fit)
next
  case False
  let ?i = "find_in st pats (rb pat) (re pat)"
  have i: "rb pat < ?i" "parts_of st (slice pats (rb pat) (re pat)) =
      slice pats (rb pat) ?i # parts_of st (slice pats (Suc ?i) (re pat))"
    using parts_of_find [OF assms False] by auto
  have "?i \<le> re pat" using find_in_bounds [of "rb pat" "re pat" st pats] assms(1) by simp
  then have l: "length (slice pats (rb pat) ?i) = ?i - rb pat" using assms(2) by (simp add: length_slice)
  show ?thesis
  proof (cases "re pat \<le> ?i")
    case True
    then have "?i = re pat" using \<open>?i \<le> re pat\<close> by simp
    then show ?thesis using False i l by (simp add: psearch_def Let_def)
  next
    case lt: False
    then show ?thesis using False i l assms(2) by (simp add: psearch_def Let_def matchres_fit)
  qed
qed


subsection \<open>The search is right\<close>

definition range_in :: "range \<Rightarrow> 'a list \<Rightarrow> bool" where
  "range_in r s \<longleftrightarrow> rb r \<le> re r \<and> re r \<le> length s"

lemma fit_from_first:
  assumes "b \<le> e" and "p \<noteq> []" and "fit (p # ps) s e b = Some c"
  shows "b \<le> search_in p s b e \<and> search_in p s b e \<le> e \<and> fit (p # ps) s e (search_in p s b e) = Some c"
proof -
  let ?i = "search_in p s b e"
  have i: "?i < e" using assms(3) by (auto simp: Let_def split: if_splits)
  then have h: "b \<le> ?i" "hit p s ?i e" using search_in_spec [OF assms(1,2), of s] by auto
  have "search_in p s ?i e = ?i" using search_in_step [of ?i e p s] i h(2) assms(2) by simp
  then show ?thesis using assms(3) i h(1) by (simp add: Let_def)
qed

lemma parts_of_hd:
  assumes "b < e" and "e \<le> length p" and "p ! b \<noteq> st"
  shows "\<exists>w ps. parts_of st (slice p b e) = w # ps \<and> w \<noteq> []"
  using parts_of_find [OF assms] parts_of_nonempty [of st "slice p b e"] by auto

lemma psearch_Some:
  assumes "rb pat < re pat" and "re pat \<le> length pats" and "range_in cont s"
    and "psearch st pats pat s cont = Some r"
  shows "rb cont \<le> rb r \<and> rb r \<le> re r \<and> re r \<le> re cont \<and>
    occurs (parts_of st (slice pats (rb pat) (re pat))) (slice s (rb r) (re r))"
proof -
  let ?ps = "parts_of st (slice pats (rb pat) (re pat))"
  have c: "rb cont \<le> re cont" "re cont \<le> length s" using assms(3) by (simp_all add: range_in_def)
  obtain f where f0: "psearch st pats pat s cont =
      map_option (\<lambda>c. \<lparr>rb = f, re = c\<rparr>) (fit ?ps s (re cont) (rb cont))"
    "f = (if pats ! rb pat = st then rb cont else search_in (hd ?ps) s (rb cont) (re cont))"
    using psearch_fit [OF assms(1,2), of st s cont] by blast
  have f: "fit ?ps s (re cont) (rb cont) = Some (re r)" "rb r = f"
      "f = (if pats ! rb pat = st then rb cont else search_in (hd ?ps) s (rb cont) (re cont))"
  proof -
    have "map_option (\<lambda>c. \<lparr>rb = f, re = c\<rparr>) (fit ?ps s (re cont) (rb cont)) = Some r"
      using f0(1) assms(4) by simp
    then have "fit ?ps s (re cont) (rb cont) = Some (re r) \<and> rb r = f" by auto
    then show "fit ?ps s (re cont) (rb cont) = Some (re r)" "rb r = f" by simp_all
  qed (rule f0(2))
  have "rb cont \<le> f \<and> f \<le> re cont \<and> fit ?ps s (re cont) f = Some (re r)"
  proof (cases "pats ! rb pat = st")
    case True
    then show ?thesis using f c by simp
  next
    case False
    then obtain w ps where "?ps = w # ps" "w \<noteq> []" using parts_of_hd [OF assms(1,2) False] by blast
    then show ?thesis using fit_from_first [OF c(1), of w ps s "re r"] f False by simp
  qed
  then show ?thesis using fit_sound [OF _ c(2) parts_of_nonempty, of f] f(2) by blast
qed

lemma psearch_None:
  assumes "rb pat < re pat" and "re pat \<le> length pats" and "range_in cont s"
    and "psearch st pats pat s cont = None"
  shows "\<not> occurs (parts_of st (slice pats (rb pat) (re pat))) (slice s (rb cont) (re cont))"
proof -
  let ?ps = "parts_of st (slice pats (rb pat) (re pat))"
  have "fit ?ps s (re cont) (rb cont) = None"
    using psearch_fit [OF assms(1,2), of st s cont] assms(4) by auto
  then show ?thesis
    using fit_complete [of "rb cont" "re cont" s ?ps] parts_of_nonempty [of st] assms(3)
    by (auto simp: range_in_def)
qed

lemma occurs_wider:
  assumes "occurs ps (slice s b c)" and "a \<le> b" and "b \<le> c" and "c \<le> d"
  shows "occurs ps (slice s a d)"
proof -
  have "slice s a d = slice s a b @ slice s b c @ slice s c d"
    using assms slice_append [of a b d s] slice_append [of b c d s] by simp
  then show ?thesis using occurs_extend [OF assms(1)] by simp
qed

text \<open>The search from the right finds what the search from the left has found.\<close>

lemma psearch_back:
  assumes "rb pat < re pat" and "re pat \<le> length pats" and "b \<le> e" and "e \<le> length s"
    and "occurs (parts_of st (slice pats (rb pat) (re pat))) (slice s b e)"
  shows "\<exists>r. psearch st (rev pats) \<lparr>rb = length pats - re pat, re = length pats - rb pat\<rparr> (rev s)
      \<lparr>rb = length s - e, re = length s - b\<rparr> = Some r \<and>
    length s - e \<le> rb r \<and> rb r \<le> length s - b"
proof -
  let ?pat = "\<lparr>rb = length pats - re pat, re = length pats - rb pat\<rparr>"
  let ?cont = "\<lparr>rb = length s - e, re = length s - b\<rparr>"
  have p: "rb ?pat < re ?pat" "re ?pat \<le> length (rev pats)" "range_in ?cont (rev s)"
    using assms(1-4) by (auto simp: range_in_def)
  have "parts_of st (slice (rev pats) (rb ?pat) (re ?pat))
      = rev (map rev (parts_of st (slice pats (rb pat) (re pat))))"
    using assms(1,2) by (simp add: slice_rev parts_of_rev)
  moreover have "slice (rev s) (rb ?cont) (re ?cont) = rev (slice s b e)"
    using assms(3,4) by (simp add: slice_rev)
  ultimately have "occurs (parts_of st (slice (rev pats) (rb ?pat) (re ?pat)))
      (slice (rev s) (rb ?cont) (re ?cont))"
    using assms(5) by (simp add: occurs_rev)
  then obtain r where r: "psearch st (rev pats) ?pat (rev s) ?cont = Some r"
    using psearch_None [OF p, of st] by fastforce
  from psearch_Some [OF p r] show ?thesis using r by auto
qed

text \<open>The two searches of \<open>globex\<close> as it composes them.\<close>

lemma globex_cases:
  assumes "range_in pat pats" and "range_in cont s"
  shows "globex pats pat s cont = Inr None \<or>
    globex pats pat s cont = Inr (Some (From_pattern pat)) \<or>
    (\<exists>r. globex pats pat s cont = Inr (Some (From_content r)) \<and> rb cont \<le> rb r \<and> rb r \<le> re r \<and> re r \<le> re cont)"
proof (cases "re pat \<le> find_in (CHR ''$'') pats (rb pat) (re pat)")
  case True
  then show ?thesis by (simp add: globex_def)
next
  case False
  define p where "p = find_in (CHR ''$'') pats (rb pat) (re pat)"
  have p: "rb pat \<le> p" "p < re pat" "re pat \<le> length pats"
    using False find_in_bounds [of "rb pat" "re pat" "CHR ''$''" pats] assms(1) by (auto simp: p_def range_in_def)
  have c: "rb cont \<le> re cont" "re cont \<le> length s" using assms(2) by (simp_all add: range_in_def)
  let ?o0 = "part_search pats \<lparr>rb = rb pat, re = p\<rparr> s cont (rb cont)"
  show ?thesis
  proof (cases ?o0)
    case None
    then show ?thesis using p(2) unfolding globex_def p_def [symmetric] by simp
  next
    case (Some res0)
    have r0: "rb cont \<le> rb res0" "rb res0 \<le> re res0" "re res0 \<le> re cont"
      "rb pat \<noteq> p \<longrightarrow> occurs (parts_of (CHR ''*'') (slice pats (rb pat) p)) (slice s (rb res0) (re res0))"
      using Some p c psearch_Some [of "\<lparr>rb = rb pat, re = p\<rparr>" pats cont s "CHR ''*''" res0] assms(2)
      by (auto simp: part_search_def split: if_splits)
    let ?rng = "\<lparr>rb = re res0, re = re cont\<rparr>"
    let ?o1 = "part_search pats \<lparr>rb = p + 1, re = re pat\<rparr> s ?rng (re cont)"
    show ?thesis
    proof (cases ?o1)
      case None
      then show ?thesis using p(2) \<open>?o0 = Some res0\<close>
        unfolding globex_def p_def [symmetric] by simp
    next
      case (Some res1)
      have "range_in ?rng s" using r0 c by (simp add: range_in_def)
      then have r1: "re res0 \<le> rb res1" "rb res1 \<le> re cont"
        using Some p psearch_Some [of "\<lparr>rb = p + 1, re = re pat\<rparr>" pats ?rng s "CHR ''*''" res1] r0(3)
        by (auto simp: part_search_def split: if_splits)
      show ?thesis
      proof (cases "rb pat = p")
        case True
        then have "globex pats pat s cont = Inr (Some (From_content \<lparr>rb = re res0, re = rb res1\<rparr>))"
          using p(2) \<open>?o0 = Some res0\<close> Some unfolding globex_def p_def [symmetric] by simp
        then show ?thesis using r0 r1 by auto
      next
        case ne: False
        have "occurs (parts_of (CHR ''*'') (slice pats (rb \<lparr>rb = rb pat, re = p\<rparr>) (re \<lparr>rb = rb pat, re = p\<rparr>)))
            (slice s (rb res0) (rb res1))"
          using r0 r1 ne by (auto intro: occurs_wider)
        from psearch_back [OF _ _ _ _ this] ne p r0 r1 c obtain r where
          r: "psearch (CHR ''*'') (rev pats) \<lparr>rb = length pats - p, re = length pats - rb pat\<rparr> (rev s)
              \<lparr>rb = length s - rb res1, re = length s - rb res0\<rparr> = Some r"
            "length s - rb res1 \<le> rb r" "rb r \<le> length s - rb res0" by auto
        then have "globex pats pat s cont = Inr (Some (From_content \<lparr>rb = length s - rb r, re = rb res1\<rparr>))"
          using p(2) \<open>?o0 = Some res0\<close> Some ne unfolding globex_def p_def [symmetric] by (simp add: Let_def)
        then show ?thesis using r r0 r1 c by auto
      qed
    qed
  qed
qed


subsection \<open>Patterns without stars\<close>

lemma psearch_literal:
  assumes "rb pat < re pat" and "re pat \<le> length pats" and "st \<notin> set (slice pats (rb pat) (re pat))"
  shows "psearch st pats pat s cont =
    (let w = slice pats (rb pat) (re pat); c = search_in w s (rb cont) (re cont)
     in if re cont \<le> c then None else Some \<lparr>rb = c, re = c + length w\<rparr>)"
proof -
  let ?w = "slice pats (rb pat) (re pat)"
  have w: "?w = pats ! rb pat # slice pats (Suc (rb pat)) (re pat)" by (rule slice_Cons [OF assms(1,2)])
  then have "pats ! rb pat \<noteq> st" using assms(3) by auto
  moreover have "parts_of st ?w = [?w]" using assms(3) w by (intro parts_of_single) auto
  ultimately show ?thesis using psearch_fit [OF assms(1,2), of st s cont] by (auto simp: Let_def)
qed

lemma hit_rev:
  assumes "e \<le> length s" and "i + length p \<le> length s"
  shows "slice (rev s) (length s - (i + length p)) (length s - i) = rev p \<longleftrightarrow>
    slice s i (i + length p) = p"
  using assms slice_rev [of i "i + length p" s] by (metis le_add1 rev_rev_ident)

lemma slice_eq_append:
  assumes "s = u @ p @ v"
  shows "slice s (length u) (length u + length p) = p"
  using assms by (simp add: slice_def)

lemma append_slice:
  assumes "slice s i (i + length p) = p" and "i + length p \<le> length s"
  shows "s = take i s @ p @ drop (i + length p) s"
proof -
  have "s = slice s 0 i @ slice s i (i + length p) @ slice s (i + length p) (length s)"
    using assms(2) slice_append [of 0 i "length s" s] slice_append [of i "i + length p" "length s" s] by simp
  then show ?thesis using assms by (simp add: slice_def)
qed

lemma slice_five:
  assumes "a \<le> b" and "b \<le> c" and "c \<le> d" and "d \<le> length s"
  shows "s = slice s 0 a @ slice s a b @ slice s b c @ slice s c d @ slice s d (length s)"
proof -
  have "s = slice s 0 a @ slice s a (length s)" using assms slice_append [of 0 a "length s" s] by simp
  moreover have "slice s a (length s) = slice s a b @ slice s b (length s)"
    using assms by (intro slice_append) auto
  moreover have "slice s b (length s) = slice s b c @ slice s c (length s)"
    using assms by (intro slice_append) auto
  moreover have "slice s c (length s) = slice s c d @ slice s d (length s)"
    using assms by (intro slice_append) auto
  ultimately show ?thesis by simp
qed

lemma glex_result:
  assumes "find_in (CHR ''$'') ex 0 (length ex) = p" and "0 < p" and "p < length ex"
    and "part_search ex \<lparr>rb = 0, re = p\<rparr> s \<lparr>rb = 0, re = length s\<rparr> 0 = Some r0"
    and "part_search ex \<lparr>rb = p + 1, re = length ex\<rparr> s \<lparr>rb = re r0, re = length s\<rparr> (length s) = Some r1"
    and "psearch (CHR ''*'') (rev ex) \<lparr>rb = length ex - p, re = length ex\<rparr> (rev s)
      \<lparr>rb = length s - rb r1, re = length s - rb r0\<rparr> = Some r2"
  shows "glex ex s = Inr (slice s (length s - rb r2) (rb r1))"
  using assms by (simp add: glex_def globex_def Let_def)

lemma glex_between_cases:
  assumes st: "start \<noteq> []" "CHR ''$'' \<notin> set start" "CHR ''*'' \<notin> set start"
    and sp: "stop \<noteq> []" "CHR ''*'' \<notin> set stop"
  shows "(\<exists>t u v. glex (start @ ''$'' @ stop) s = Inr t \<and> s = u @ start @ t @ stop @ v \<and>
      (\<nexists>x y. t = x @ start @ y) \<and> (\<nexists>x y. t = x @ stop @ y)) \<or>
    glex (start @ ''$'' @ stop) s = Inl (Thrown ''Ex null'') \<and> (\<nexists>u t v. s = u @ start @ t @ stop @ v)"
proof -
  let ?ex = "start @ ''$'' @ stop" and ?n = "length s" and ?a = "length start" and ?o = "length stop"
  have lex: "length ?ex = ?a + 1 + ?o" by simp
  have sl: "slice ?ex 0 ?a = start" "slice ?ex (?a + 1) (?a + 1 + ?o) = stop"
    "?ex ! ?a = CHR ''$''" by (simp_all add: slice_def)
  let ?f = "find_in (CHR ''$'') ?ex 0 (length ?ex)"
  have f: "?f \<le> length ?ex" "CHR ''$'' \<notin> set (slice ?ex 0 ?f)" "?f < length ?ex \<longrightarrow> ?ex ! ?f = CHR ''$''"
    using find_in_spec [of 0 "length ?ex" ?ex "CHR ''$''"] by (simp_all add: Let_def)
  have p: "?f = ?a"
  proof (rule ccontr)
    assume "?f \<noteq> ?a"
    then consider "?f < ?a" | "?a < ?f" by linarith
    then show False
    proof cases
      case 1
      then show False using f(3) st(2) by (simp add: nth_append) (metis nth_mem)
    next
      case 2
      then have "slice ?ex 0 ?f = slice ?ex 0 ?a @ ?ex ! ?a # slice ?ex (Suc ?a) ?f"
        using f(1) by (metis slice_append slice_Cons le0 less_imp_le)
      then show False using f(2) sl(3) by simp
    qed
  qed
  let ?i = "search_in start s 0 ?n"
  have ps: "part_search ?ex \<lparr>rb = 0, re = ?a\<rparr> s \<lparr>rb = 0, re = ?n\<rparr> 0 =
      (if ?n \<le> ?i then None else Some \<lparr>rb = ?i, re = ?i + ?a\<rparr>)"
    using st psearch_literal [of "\<lparr>rb = 0, re = ?a\<rparr>" ?ex "CHR ''*''" s "\<lparr>rb = 0, re = ?n\<rparr>"] sl(1)
    by (simp add: part_search_def Let_def)
  let ?j = "search_in stop s (?i + ?a) ?n"
  have pt: "part_search ?ex \<lparr>rb = ?a + 1, re = length ?ex\<rparr> s \<lparr>rb = ?i + ?a, re = ?n\<rparr> ?n =
      (if ?n \<le> ?j then None else Some \<lparr>rb = ?j, re = ?j + ?o\<rparr>)"
    using sp psearch_literal [of "\<lparr>rb = ?a + 1, re = length ?ex\<rparr>" ?ex "CHR ''*''" s "\<lparr>rb = ?i + ?a, re = ?n\<rparr>"] sl(2)
    by (simp add: part_search_def Let_def)
  note si = search_in_spec [of 0 ?n start s, OF _ st(1)]
  show ?thesis
  proof (cases "?n \<le> ?i")
    case True
    then have no: "\<forall>x. \<not> hit start s x ?n" using si by auto
    have "s \<noteq> u @ start @ t @ stop @ v" for u t v
      using no slice_eq_append [of s u start "t @ stop @ v"] by (fastforce simp: hit_def)
    moreover have "glex ?ex s = Inl (Thrown ''Ex null'')"
      using p ps True lex unfolding glex_def globex_def by simp
    ultimately show ?thesis by blast
  next
    case False
    then have i: "?i < ?n" "hit start s ?i ?n" using si by auto
    have ia: "?i + ?a \<le> ?n" using i(2) by (simp add: hit_def)
    note sj = search_in_spec [OF ia sp(1), of s]
    show ?thesis
    proof (cases "?n \<le> ?j")
      case True
      then have no: "\<forall>x. ?i + ?a \<le> x \<longrightarrow> \<not> hit stop s x ?n" using sj by auto
      have "s \<noteq> u @ start @ t @ stop @ v" for u t v
      proof
        assume s: "s = u @ start @ t @ stop @ v"
        have "hit start s (length u) ?n" using slice_eq_append [of s u start "t @ stop @ v"] s by (simp add: hit_def)
        then have "?i \<le> length u" using si i(1) by (metis le0 linorder_not_le)
        moreover have "hit stop s (length (u @ start @ t)) ?n"
          using slice_eq_append [of s "u @ start @ t" stop v] s by (simp add: hit_def)
        ultimately show False using no by simp
      qed
      moreover have "glex ?ex s = Inl (Thrown ''Ex null'')"
        using p ps pt False True lex unfolding glex_def globex_def by (simp add: Let_def)
      ultimately show ?thesis by blast
    next
      case jn: False
      then have j: "?i + ?a \<le> ?j" "hit stop s ?j ?n" "\<forall>x. ?i + ?a \<le> x \<and> x < ?j \<longrightarrow> \<not> hit stop s x ?n"
        using sj by auto
      let ?k = "search_in (rev start) (rev s) (?n - ?j) (?n - ?i)"
      have rs: "slice (rev ?ex) (length ?ex - ?a) (length ?ex) = rev start"
        using slice_rev [of 0 ?a ?ex] sl(1) by simp
      have pr: "psearch (CHR ''*'') (rev ?ex) \<lparr>rb = length ?ex - ?a, re = length ?ex\<rparr> (rev s)
          \<lparr>rb = ?n - ?j, re = ?n - ?i\<rparr> =
        (if ?n - ?i \<le> ?k then None else Some \<lparr>rb = ?k, re = ?k + ?a\<rparr>)"
        using psearch_literal [of "\<lparr>rb = length ?ex - ?a, re = length ?ex\<rparr>" "rev ?ex" "CHR ''*''" "rev s"
            "\<lparr>rb = ?n - ?j, re = ?n - ?i\<rparr>"] rs st by (simp add: Let_def)
      have hr: "hit (rev start) (rev s) (?n - (?i + ?a)) (?n - ?i)"
        using i(2) ia hit_rev [of ?n s ?i start] by (simp add: hit_def)
      have sk: "?k < ?n - ?i \<and> ?n - ?j \<le> ?k \<and> hit (rev start) (rev s) ?k (?n - ?i) \<and>
          (\<forall>x. ?n - ?j \<le> x \<and> x < ?k \<longrightarrow> \<not> hit (rev start) (rev s) x (?n - ?i))"
        using search_in_spec [of "?n - ?j" "?n - ?i" "rev start" "rev s"] hr j(1) st(1) by fastforce
      have kle: "?k \<le> ?n - (?i + ?a)"
        using sk hr j(1) by (metis diff_le_mono2 linorder_not_le)
      let ?b = "?n - ?k"
      have b: "?i + ?a \<le> ?b" "?b \<le> ?j" using kle ia sk by auto
      have "hit (rev start) (rev s) ?k (?n - ?i)" using sk by blast
      then have "?k + ?a \<le> ?n - ?i" unfolding hit_def length_rev by blast
      then have bk: "?k + ?a \<le> ?n" by linarith
      have hb: "slice s (?b - ?a) (?b - ?a + ?a) = start"
        using sk hit_rev [of ?n s "?b - ?a" start] b(1) bk by (simp add: hit_def)
      have res: "glex ?ex s = Inr (slice s ?b ?j)"
      proof -
        have a1: "part_search ?ex \<lparr>rb = 0, re = ?a\<rparr> s \<lparr>rb = 0, re = ?n\<rparr> 0 = Some \<lparr>rb = ?i, re = ?i + ?a\<rparr>"
          using ps False by (simp only: if_False)
        have a2: "part_search ?ex \<lparr>rb = ?a + 1, re = length ?ex\<rparr> s \<lparr>rb = re \<lparr>rb = ?i, re = ?i + ?a\<rparr>,
            re = ?n\<rparr> ?n = Some \<lparr>rb = ?j, re = ?j + ?o\<rparr>"
          using pt jn by (simp only: if_False range.select_convs)
        have a3: "psearch (CHR ''*'') (rev ?ex) \<lparr>rb = length ?ex - ?a, re = length ?ex\<rparr> (rev s)
            \<lparr>rb = ?n - rb \<lparr>rb = ?j, re = ?j + ?o\<rparr>, re = ?n - rb \<lparr>rb = ?i, re = ?i + ?a\<rparr>\<rparr>
            = Some \<lparr>rb = ?k, re = ?k + ?a\<rparr>"
          using pr sk by (simp only: not_le [symmetric] if_False range.select_convs)
        have "glex ?ex s = Inr (slice s (?n - rb \<lparr>rb = ?k, re = ?k + ?a\<rparr>) (rb \<lparr>rb = ?j, re = ?j + ?o\<rparr>))"
          by (rule glex_result [OF p _ _ a1 a2 a3]) (use st(1) in simp_all)
        then show ?thesis by (simp only: range.select_convs)
      qed
      have jo: "?j + ?o \<le> ?n" "slice s ?j (?j + ?o) = stop" using j(2) by (simp_all add: hit_def)
      have "s = slice s 0 (?b - ?a) @ slice s (?b - ?a) ?b @ slice s ?b ?j @ slice s ?j (?j + ?o)
          @ slice s (?j + ?o) ?n"
        using b(2) jo(1) by (intro slice_five) auto
      moreover have "?b - ?a + ?a = ?b" by (rule le_add_diff_inverse2) (use b(1) in linarith)
      with hb have "slice s (?b - ?a) ?b = start" by argo
      ultimately have dec: "s = slice s 0 (?b - ?a) @ start @ slice s ?b ?j @ stop @ slice s (?j + ?o) ?n"
        using jo(2) by simp
      have nostop: "slice s ?b ?j \<noteq> x @ stop @ y" for x y
      proof
        assume "slice s ?b ?j = x @ stop @ y"
        from split_hit [OF this b(2)] jo(1) have "hit stop s (?b + length x) ?j" by simp
        then have "hit stop s (?b + length x) ?n" "?b + length x < ?j" using jo(1) sp(1)
          by (auto simp: hit_def) (cases stop; simp)
        then show False using j(3) b(1) by (meson le_add1 order_trans)
      qed
      have nostart: "slice s ?b ?j \<noteq> x @ start @ y" for x y
      proof
        assume "slice s ?b ?j = x @ start @ y"
        from split_hit [OF this b(2)] jo(1) have h: "hit start s (?b + length x) ?j" by simp
        let ?x = "?b + length x"
        have le: "?x + ?a \<le> ?j" "?x + ?a \<le> ?n" using h jo(1) by (auto simp: hit_def)
        have "slice (rev s) (?n - (?x + ?a)) (?n - ?x) = rev start"
          using h le hit_rev [of ?n s ?x start] by (simp add: hit_def)
        moreover have "?n - (?x + ?a) + length (rev start) = ?n - ?x" using le by simp
        moreover have "?n - ?x \<le> ?n - ?i" using b(1) by simp
        ultimately have "hit (rev start) (rev s) (?n - (?x + ?a)) (?n - ?i)" unfolding hit_def by simp
        moreover have "?n - ?j \<le> ?n - (?x + ?a)" using le(1) by (rule diff_le_mono2)
        moreover have "0 < ?a" using st(1) by simp
        then have "?n - (?x + ?a) < ?k" using le(2) bk by linarith
        ultimately show False using sk by blast
      qed
      show ?thesis using res dec nostop nostart by blast
    qed
  qed
qed


subsection \<open>Templates\<close>

text \<open>A template as its parts: text, and variables between two \<open>$$\<close>.\<close>

datatype piece = Text string | Var string

fun template :: "piece list \<Rightarrow> string" where
  "template [] = []"
| "template (Text t # ps) = t @ template ps"
| "template (Var k # ps) = ''$$'' @ k @ ''$$'' @ template ps"

fun rendered :: "(string \<Rightarrow> string option) \<Rightarrow> piece list \<Rightarrow> string outcome" where
  "rendered vars [] = Inr []"
| "rendered vars (Text t # ps) = bind_ok (rendered vars ps) (\<lambda>r. Inr (t @ r))"
| "rendered vars (Var k # ps) =
     (case vars k of None \<Rightarrow> Inl (Thrown ''REPL-2'')
      | Some v \<Rightarrow> bind_ok (rendered vars ps) (\<lambda>r. Inr (v @ r)))"

definition plain :: "piece list \<Rightarrow> bool" where
  "plain ps \<longleftrightarrow> list_all (\<lambda>p. case p of Text t \<Rightarrow> CHR ''$'' \<notin> set t | Var k \<Rightarrow> CHR ''$'' \<notin> set k) ps"

lemma nth_hit2:
  "hit [a, b] s i e \<longleftrightarrow> i + 2 \<le> e \<and> take 2 (drop i s) = [a, b]"
  by (simp add: hit_def slice_def)

lemma nth_middle:
  "length h \<le> i \<Longrightarrow> i - length h < length t \<Longrightarrow> (h @ t @ r) ! i = t ! (i - length h)"
  by (simp add: nth_append)

lemma first_dollars:
  assumes "CHR ''$'' \<notin> set t" and "u = h @ t @ ''$$'' @ r"
  shows "search_in ''$$'' u (length h) (length u) = length h + length t"
proof -
  let ?i = "search_in ''$$'' u (length h) (length u)"
  have le: "length h \<le> length u" using assms(2) by simp
  have here: "hit ''$$'' u (length h + length t) (length u)" using assms(2) by (simp add: nth_hit2)
  have i: "length h \<le> ?i" "hit ''$$'' u ?i (length u)" "?i \<le> length h + length t"
    using search_in_spec [OF le, of "''$$''" u] here by (auto simp: not_le) (meson le_add1 linorder_not_le)
  have "\<not> ?i < length h + length t"
  proof
    assume lt: "?i < length h + length t"
    have "u ! ?i = CHR ''$''" using i(2) by (auto simp: nth_hit2 take_Cons' drop_Cons' numeral_2_eq_2
        dest: arg_cong [of _ _ hd] simp flip: hd_drop_conv_nth)
    moreover have l: "?i - length h < length t" using i(1) lt by linarith
    moreover have "u ! ?i = t ! (?i - length h)" using nth_middle [OF i(1) l] assms(2) by metis
    ultimately show False using assms(1) nth_mem [of "?i - length h" t] by metis
  qed
  then show ?thesis using i(3) by simp
qed


lemma no_dollars:
  assumes "CHR ''$'' \<notin> set t" and "u = h @ t"
  shows "search_in ''$$'' u (length h) (length u) = length u"
proof -
  have "\<not> hit ''$$'' u i (length u)" if "length h \<le> i" for i
  proof
    assume a: "hit ''$$'' u i (length u)"
    then have i: "i + 2 \<le> length u" "take 2 (drop i u) = ''$$''" by (simp_all add: nth_hit2)
    then have "u ! i = CHR ''$''" by (auto simp: take_Cons' numeral_2_eq_2
        dest: arg_cong [of _ _ hd] simp flip: hd_drop_conv_nth)
    moreover have "u ! i = t ! (i - length h)" using that assms(2) by (simp add: nth_append)
    moreover have "i - length h < length t" using i(1) assms(2) that by simp
    ultimately show False using assms(1) nth_mem [of "i - length h" t] by metis
  qed
  then show ?thesis using search_in_spec [of "length h" "length u" "''$$''" u] assms(2) by auto
qed

lemma subst_loop_template:
  assumes "CHR ''$'' \<notin> set t" and "plain ps" and "u = h @ t @ template ps"
  shows "subst_loop vars u (length h) ret = bind_ok (rendered vars ps) (\<lambda>r. Inr (ret @ t @ r))"
  using assms
proof (induction ps arbitrary: h t ret)
  case Nil
  then have "search_in ''$$'' u (length h) (length u) = length u"
    using no_dollars [of t u h] by simp
  then have "subst_loop vars u (length h) ret = Inr (ret @ slice u (length h) (length u))"
    by (subst subst_loop.simps) simp
  then show ?case using Nil(3) by (simp add: slice_def)
next
  case (Cons p ps)
  show ?case
  proof (cases p)
    case (Text t2)
    have "subst_loop vars u (length h) ret =
        bind_ok (rendered vars ps) (\<lambda>r. Inr (ret @ (t @ t2) @ r))"
      using Cons.prems Text by (intro Cons.IH) (auto simp: plain_def)
    then show ?thesis using Text by (cases "rendered vars ps") simp_all
  next
    case (Var k)
    let ?p = "length h + length t"
    let ?q = "?p + 2 + length k"
    let ?h = "h @ t @ ''$$'' @ k @ ''$$''"
    have k: "CHR ''$'' \<notin> set k" "plain ps" using Cons.prems(2) Var by (simp_all add: plain_def)
    have u: "u = h @ t @ ''$$'' @ k @ ''$$'' @ template ps" using Cons.prems(3) Var by simp
    have p: "search_in ''$$'' u (length h) (length u) = ?p"
      using first_dollars [OF Cons.prems(1)] u by blast
    have "search_in ''$$'' u (length (h @ t @ ''$$'')) (length u) = length (h @ t @ ''$$'') + length k"
      by (rule first_dollars [OF k(1), of _ _ "template ps"]) (simp add: u)
    then have q: "search_in ''$$'' u (?p + 2) (length u) = ?q" by (simp add: add.assoc)
    have len: "?p < length u" "\<not> length u \<le> ?q" using u by simp_all
    have sl: "slice u (?p + 2) ?q = k" "slice u (length h) ?p = t" using u by (simp_all add: slice_def)
    have step: "subst_loop vars u (length h) ret =
        (case vars k of None \<Rightarrow> Inl (Thrown ''REPL-2'')
         | Some v \<Rightarrow> subst_loop vars u (?q + 2) (ret @ t @ v))"
      using p q len sl by (subst subst_loop.simps) (simp only: Let_def if_True if_False)
    show ?thesis
    proof (cases "vars k")
      case None
      then show ?thesis using step Var by simp
    next
      case (Some v)
      have h: "length ?h = ?q + 2" by simp
      have "subst_loop vars u (length ?h) (ret @ t @ v) =
          bind_ok (rendered vars ps) (\<lambda>r. Inr ((ret @ t @ v) @ [] @ r))"
        by (rule Cons.IH) (use k u in simp_all)
      then show ?thesis using step Var Some h by (cases "rendered vars ps") (simp_all add: add.assoc)
    qed
  qed
qed

subsection \<open>Properties\<close>

text \<open>
  C27: \<open>psearch\<close> is right: it answers 0 exactly when the literal parts of the pattern do not
  occur one after the other in the range; else the range it returns lies inside and contains
  them in that order.
\<close>

theorem psearch_sound_complete:
  assumes "rb pat < re pat" and "re pat \<le> length pats" and "range_in cont s"
  shows "case psearch st pats pat s cont of
      None \<Rightarrow> \<not> occurs (parts_of st (slice pats (rb pat) (re pat))) (slice s (rb cont) (re cont))
    | Some r \<Rightarrow> rb cont \<le> rb r \<and> rb r \<le> re r \<and> re r \<le> re cont \<and>
        occurs (parts_of st (slice pats (rb pat) (re pat))) (slice s (rb r) (re r))"
proof (cases "psearch st pats pat s cont")
  case None
  then show ?thesis using psearch_None [OF assms] by simp
next
  case (Some r)
  then show ?thesis using psearch_Some [OF assms] by simp
qed

theorem psearch_sound_complete_witness:
  "case psearch (CHR ''*'') ''ab*c'' \<lparr>rb = 0, re = 4\<rparr> ''xxabyycz'' \<lparr>rb = 0, re = 8\<rparr> of
      None \<Rightarrow> \<not> occurs (parts_of (CHR ''*'') (slice ''ab*c'' (rb \<lparr>rb = 0, re = 4\<rparr>) (re \<lparr>rb = 0, re = 4\<rparr>)))
        (slice ''xxabyycz'' (rb \<lparr>rb = 0, re = 8\<rparr>) (re \<lparr>rb = 0, re = 8\<rparr>))
    | Some r \<Rightarrow> rb \<lparr>rb = 0, re = 8\<rparr> \<le> rb r \<and> rb r \<le> re r \<and> re r \<le> re \<lparr>rb = 0, re = 8\<rparr> \<and>
        occurs (parts_of (CHR ''*'') (slice ''ab*c'' (rb \<lparr>rb = 0, re = 4\<rparr>) (re \<lparr>rb = 0, re = 4\<rparr>)))
          (slice ''xxabyycz'' (rb r) (re r))"
  by (rule psearch_sound_complete) (simp_all add: range_in_def)

text \<open>
  the assertion in \<open>globex\<close> that the search from the right succeeds never fails, and what
  is cut out lies inside the given text.
\<close>

theorem globex_never_asserts:
  assumes "range_in pat pats" and "range_in cont s"
  shows "globex pats pat s cont \<noteq> Inl Assertion \<and>
    (\<forall>r. globex pats pat s cont = Inr (Some (From_content r)) \<longrightarrow>
      rb cont \<le> rb r \<and> rb r \<le> re r \<and> re r \<le> re cont)"
  using globex_cases [OF assms] by auto

theorem globex_never_asserts_witness:
  "globex ''a*b$c'' \<lparr>rb = 0, re = 5\<rparr> ''zaxbyc'' \<lparr>rb = 0, re = 6\<rparr> \<noteq> Inl Assertion"
  using globex_never_asserts [of "\<lparr>rb = 0, re = 5\<rparr>" "''a*b$c''" "\<lparr>rb = 0, re = 6\<rparr>" "''zaxbyc''"]
  by (simp add: range_in_def)

text \<open>
  C21: \<open>glex\<close> with a pattern \<open>start$stop\<close> without stars cuts out a text between the two that
  contains neither of them again; it throws exactly when the text has no \<open>start\<close> with a
  \<open>stop\<close> after it.
\<close>

theorem glex_between:
  assumes "start \<noteq> []" and "CHR ''$'' \<notin> set start" and "CHR ''*'' \<notin> set start"
    and "stop \<noteq> []" and "CHR ''*'' \<notin> set stop"
  shows "case glex (start @ ''$'' @ stop) s of
      Inr t \<Rightarrow> (\<exists>u v. s = u @ start @ t @ stop @ v) \<and>
        (\<nexists>x y. t = x @ start @ y) \<and> (\<nexists>x y. t = x @ stop @ y)
    | Inl e \<Rightarrow> e = Thrown ''Ex null'' \<and> (\<nexists>u t v. s = u @ start @ t @ stop @ v)"
  using glex_between_cases [OF assms, of s] by (elim disjE exE conjE) auto

theorem glex_between_witness:
  "case glex (''<b>'' @ ''$'' @ ''</b>'') ''x<b>hey</b>y'' of
      Inr t \<Rightarrow> (\<exists>u v. ''x<b>hey</b>y'' = u @ ''<b>'' @ t @ ''</b>'' @ v) \<and>
        (\<nexists>x y. t = x @ ''<b>'' @ y) \<and> (\<nexists>x y. t = x @ ''</b>'' @ y)
    | Inl e \<Rightarrow> e = Thrown ''Ex null'' \<and> (\<nexists>u t v. ''x<b>hey</b>y'' = u @ ''<b>'' @ t @ ''</b>'' @ v)"
  by (rule glex_between) simp_all

text \<open>
  \<open>subst\<close> renders a template: text is kept, each variable replaced by its value, in
  order; the first unknown variable throws.
\<close>

theorem subst_renders:
  assumes "plain ps"
  shows "subst (template ps) vars = rendered vars ps"
  using subst_loop_template [of "[]" ps "template ps" "[]" vars "[]"] assms
  by (cases "rendered vars ps") (simp_all add: subst_def)

theorem subst_renders_witness:
  "subst (template [Text ''Dear '', Var ''name'', Text ''!'']) (Map.empty(''name'' \<mapsto> ''Bob''))
    = rendered (Map.empty(''name'' \<mapsto> ''Bob'')) [Text ''Dear '', Var ''name'', Text ''!'']"
  by (rule subst_renders) (simp add: plain_def)

end
