(* ===== verification/Wap_Text.thy ===== *)
theory Wap_Text
  imports Std_Map Glex
begin

section \<open>HTTP text handling of the WAP server (chs.cc)\<close>

text \<open>
  Parsing of requests, responses, header lines and cookies, and the rendering of responses.
  A \<open>string\<close> is its list of bytes. The macro \<open>MEMB_OFFSET\<close> casts a pointer to \<open>int\<close>, so
  the program is one for machines where \<open>size_t\<close> and pointers have 32 bits; only
  \<open>unescape_loop\<close> has the width as an argument.
  \<open>boost::lexical_cast\<close> is a parameter: it gives \<open>None\<close> where it throws.
\<close>

subsection \<open>The C library on text\<close>

definition c_isspace :: "char \<Rightarrow> bool" where
  "c_isspace c \<longleftrightarrow> c \<in> {CHR 0x09, CHR 0x0A, CHR 0x0B, CHR 0x0C, CHR 0x0D, CHR 0x20}"

definition c_isdigit :: "char \<Rightarrow> bool" where
  "c_isdigit c \<longleftrightarrow> 48 \<le> (of_char c :: nat) \<and> (of_char c :: nat) \<le> 57"

definition c_toupper :: "char \<Rightarrow> char" where
  "c_toupper c = (let n = of_char c :: nat in if 97 \<le> n \<and> n \<le> 122 then char_of (n - 32) else c)"

fun digits_val :: "nat \<Rightarrow> string \<Rightarrow> nat" where
  "digits_val a [] = a"
| "digits_val a (c # s) = (if c_isdigit c then digits_val (10 * a + (of_char c - 48)) s else a)"

definition signed_text :: "string \<Rightarrow> bool \<times> string" where
  "signed_text s = (case dropWhile c_isspace s of
     [] \<Rightarrow> (False, [])
   | c # t \<Rightarrow> if c = CHR ''-'' then (True, t) else if c = CHR ''+'' then (False, t) else (False, c # t))"

text \<open>\<open>atoi\<close>; a number that does not fit an \<open>int\<close> is undefined.\<close>

definition atoi :: "string \<Rightarrow> int outcome" where
  "atoi s = (let (neg, t) = signed_text s;
                 v = (if neg then - int (digits_val 0 t) else int (digits_val 0 t))
             in if - 2147483648 \<le> v \<and> v \<le> 2147483647 then Inr v else Inl Undefined)"

text \<open>
  Formatted input: the rest of the stream, \<open>None\<close> once it has failed. A word that cannot be
  read leaves the variable as it is; a number sets it to 0, or to the largest value when it
  does not fit; the sign of an unsigned number wraps.
\<close>

definition read_word :: "string option \<Rightarrow> string \<Rightarrow> string option \<times> string" where
  "read_word st old = (case st of
     None \<Rightarrow> (None, old)
   | Some s \<Rightarrow> (let t = dropWhile c_isspace s in
       if t = [] then (None, old)
       else (Some (dropWhile (\<lambda>c. \<not> c_isspace c) t), takeWhile (\<lambda>c. \<not> c_isspace c) t)))"

definition read_u32 :: "string option \<Rightarrow> u32 \<Rightarrow> string option \<times> u32" where
  "read_u32 st old = (case st of
     None \<Rightarrow> (None, old)
   | Some s \<Rightarrow> (let (neg, t) = signed_text s; v = digits_val 0 t in
       if dropWhile c_isspace s = [] then (None, old)
       else if t = [] \<or> \<not> c_isdigit (hd t) then (None, 0)
       else if v \<ge> 4294967296 then (None, - 1)
       else (Some (dropWhile c_isdigit t), if neg then - of_nat v else of_nat v)))"

definition newline :: char where "newline = CHR 0x0A"
definition cret :: char where "cret = CHR 0x0D"
definition crlf :: string where "crlf = [CHR 0x0D, CHR 0x0A]"
definition crlf2 :: string where "crlf2 = [CHR 0x0D, CHR 0x0A, CHR 0x0D, CHR 0x0A]"

text \<open>The lines \<open>std::getline\<close> gives one after the other.\<close>

function getlines :: "string \<Rightarrow> string list" where
  "getlines s = (if s = [] then [] else
     takeWhile (\<lambda>c. c \<noteq> newline) s # getlines (drop 1 (dropWhile (\<lambda>c. c \<noteq> newline) s)))"
  by pat_completeness auto
termination
proof (relation "measure length")
  fix s :: string
  assume "s \<noteq> []"
  then have "length (dropWhile (\<lambda>c. c \<noteq> newline) s) - 1 < length s"
    using length_dropWhile_le [of "\<lambda>c. c \<noteq> newline" s] by (cases s) auto
  then show "(drop 1 (dropWhile (\<lambda>c. c \<noteq> newline) s), s) \<in> measure length" by simp
qed simp

declare getlines.simps [simp del]

subsection \<open>Small functions on strings\<close>

text \<open>
  \<open>find_pos\<close> is \<open>std::string::find\<close> of a text from a position. \<open>unescape\<close> keeps the
  position in an \<open>unsigned int\<close> and compares it with \<open>npos\<close>, a \<open>size_t\<close> of \<open>w\<close> bits.
  \<open>None\<close>: the fuel ran out.
\<close>

definition find_pos :: "nat \<Rightarrow> string \<Rightarrow> string \<Rightarrow> nat \<Rightarrow> nat" where
  "find_pos w p s from =
     (if length s < from then 2 ^ w - 1
      else let i = search_in p s from (length s) in
        if i = length s then 2 ^ w - 1 else i)"

primrec unescape_loop :: "nat \<Rightarrow> nat \<Rightarrow> string \<Rightarrow> nat \<Rightarrow> string outcome option" where
  "unescape_loop w 0 esc pos = None"
| "unescape_loop w (Suc fuel) esc pos =
     (let p = find_pos w ''&amp;'' esc pos mod 4294967296 in
      if p = 2 ^ w - 1 then Some (Inr esc)
      else let p1 = (p + 1) mod 4294967296 in
        if length esc < p1 then Some (Inl (Thrown ''basic_string::erase''))
        else unescape_loop w fuel (take p1 esc @ drop (p1 + 4) esc) p1)"

definition unescape :: "string \<Rightarrow> string outcome" where
  "unescape url = (case unescape_loop 32 (Suc (length url)) url 0 of None \<Rightarrow> Inl Endless | Some r \<Rightarrow> r)"

definition starts_with :: "string \<Rightarrow> string \<Rightarrow> bool" where
  "starts_with s sub \<longleftrightarrow> length sub \<le> length s \<and> take (length sub) s = sub"

definition ends_with :: "string \<Rightarrow> string \<Rightarrow> bool" where
  "ends_with s sub \<longleftrightarrow> length sub \<le> length s \<and> take (length sub) (rev s) = rev sub"

text \<open>
  \<open>split1\<close> tests \<open>pos\<close> a second time where it means \<open>pos2\<close>: with nothing behind the
  separators it copies from one byte before the string.
\<close>

definition split1 :: "string \<Rightarrow> string \<Rightarrow> string \<Rightarrow> string \<Rightarrow> (bool \<times> string \<times> string) outcome" where
  "split1 k v s any =
     (let pos = length (takeWhile (\<lambda>c. c \<notin> set any) s) in
      if pos = length s then Inr (False, k, v)
      else
        let rest = dropWhile (\<lambda>c. c \<in> set any) (drop pos s) in
        if rest = [] then Inl Undefined
        else Inr (True, take pos s, rest))"

subsection \<open>Header lines\<close>

type_synonym heads = "(string \<times> string) list"

definition head_line_parse :: "heads \<Rightarrow> string \<Rightarrow> heads \<times> string \<times> bool" where
  "head_line_parse head l =
     (let it = find_in (CHR '':'') l 0 (length l) in
      if length l \<le> it then (head, l, False)
      else
        let l1 = (if last l = cret then butlast l else l);
            val = dropWhile c_isspace (drop (it + 1) l1)
        in if val \<noteq> [] then (head @ [(take it l1, val)], l1, True) else (head, l1, True))"

fun head_lines :: "heads \<Rightarrow> string list \<Rightarrow> heads" where
  "head_lines head [] = head"
| "head_lines head (l # ls) = head_lines (fst (head_line_parse head l)) ls"

fun headval :: "heads \<Rightarrow> string \<Rightarrow> string option" where
  "headval [] k = None"
| "headval ((n, v) # head) k = (if n = k then Some v else headval head k)"

subsection \<open>Requests\<close>

record request =
  rq_method :: string
  rq_path :: string
  rq_ver :: string
  rq_head :: heads
  rq_cookies :: smap
  rq_contentlength :: u32
  rq_body :: string

text \<open>The result of the check of the method is not used by the callers.\<close>

definition method_line_parse :: "string \<times> string \<times> string \<Rightarrow> string \<Rightarrow> (string \<times> string \<times> string) \<times> bool" where
  "method_line_parse mpv l =
     (let (st1, m) = read_word (Some l) (fst mpv);
          (st2, p) = read_word st1 (fst (snd mpv));
          (st3, v) = read_word st2 (snd (snd mpv))
      in ((m, p, v), m = ''GET'' \<or> m = ''POST''))"

definition size_ok :: "nat \<Rightarrow> string \<Rightarrow> heads \<Rightarrow> bool outcome" where
  "size_ok len m head =
     (if m = ''GET'' then Inr True
      else if m = ''POST'' then
        (case headval head ''Content-Length'' of
           None \<Rightarrow> Inl (Thrown ''POST error'')
         | Some t \<Rightarrow> bind_ok (atoi t) (\<lambda>n. Inr (n mod 4294967296 \<le> int len)))
      else Inr False)"

definition makereq :: "string \<Rightarrow> 'a request_scheme \<Rightarrow> (bool \<times> 'a request_scheme) outcome" where
  "makereq buf r =
     (let p = search_in crlf2 buf 0 (length buf) in
      if p = length buf then Inr (False, r)
      else
        let body_begin = p + 4;
            ls = getlines (take body_begin buf);
            (mpv, rest) = (case ls of [] \<Rightarrow> (('''', '''', ''''), [])
                           | l # t \<Rightarrow> (fst (method_line_parse ('''', '''', '''') l), t));
            hd1 = head_lines [] rest
        in bind_ok (size_ok (length buf - body_begin) (fst mpv) hd1) (\<lambda>ok.
          if \<not> ok then Inr (False, r)
          else Inr (True, r\<lparr>rq_method := fst mpv, rq_path := fst (snd mpv), rq_head := hd1,
                 rq_body := drop body_begin buf\<rparr>)))"

definition request_init :: "string \<Rightarrow> string \<Rightarrow> string \<Rightarrow> 'a request_scheme \<Rightarrow> 'a request_scheme outcome" where
  "request_init first head body r =
     (let mpv = fst (method_line_parse (rq_method r, rq_path r, rq_ver r) first);
          hs = head_lines (rq_head r) (getlines head);
          r1 = r\<lparr>rq_method := fst mpv, rq_path := fst (snd mpv), rq_ver := snd (snd mpv),
                 rq_head := hs, rq_body := body\<rparr>
      in case headval hs ''Content-Length'' of
           None \<Rightarrow> Inr r1
         | Some t \<Rightarrow> bind_ok (atoi t) (\<lambda>n. Inr (r1\<lparr>rq_contentlength := word_of_int n\<rparr>)))"

subsection \<open>Responses\<close>

record response =
  rs_ver :: string
  rs_code :: u32
  rs_head :: heads
  contenttype :: string
  charset :: string
  rs_contentlength :: u32
  rs_body :: string

text \<open>A new response; its numbers are not initialised.\<close>

definition response_new :: "u32 \<Rightarrow> u32 \<Rightarrow> response" where
  "response_new c n = \<lparr>rs_ver = '''', rs_code = c, rs_head = [], contenttype = '''', charset = '''',
     rs_contentlength = n, rs_body = ''''\<rparr>"

definition request_line_parse :: "string \<Rightarrow> response \<Rightarrow> response \<times> bool" where
  "request_line_parse l r =
     (let (st1, v) = read_word (Some l) (rs_ver r);
          (st2, c) = read_u32 st1 (rs_code r)
      in (r\<lparr>rs_ver := v, rs_code := c\<rparr>, \<not> (c > 800 \<or> c < 100)))"

text \<open>What \<open>makersp\<close> does with the header \<open>Content-Type\<close>.\<close>

definition content_type :: "string \<Rightarrow> response \<Rightarrow> response outcome" where
  "content_type t r =
     bind_ok (split1 (contenttype r) '''' t [CHR '';'', CHR '' '', CHR 0x09]) (\<lambda>(found, ct, tmp).
       if found then
         (let r1 = r\<lparr>contenttype := ct\<rparr> in
          if tmp \<noteq> [] then
            bind_ok (split1 '''' (charset r1) tmp ''= '') (\<lambda>(_, _, cs).
              Inr (r1\<lparr>charset := map c_toupper cs\<rparr>))
          else Inr r1)
       else Inr (r\<lparr>contenttype := t\<rparr>))"

definition makersp :: "(string \<Rightarrow> u32 option) \<Rightarrow> string \<Rightarrow> response \<Rightarrow> (bool \<times> response) outcome" where
  "makersp lexical_cast buf r =
     (let p = search_in crlf2 buf 0 (length buf) in
      if p = length buf then Inr (False, r)
      else
        let body = p + 4;
            ls = getlines (take body buf);
            (r1, ok) = (case ls of [] \<Rightarrow> (r, True) | l # _ \<Rightarrow> request_line_parse l r)
        in if \<not> ok then Inr (False, r1)
        else
          let r2 = r1\<lparr>rs_head := head_lines (rs_head r1) (drop 1 ls)\<rparr> in
          bind_ok (case headval (rs_head r2) ''Content-Type'' of
                     None \<Rightarrow> Inr r2
                   | Some t \<Rightarrow> content_type t r2) (\<lambda>r3.
          bind_ok (case headval (rs_head r3) ''Content-Length'' of
                     None \<Rightarrow> Inr r3
                   | Some t \<Rightarrow> (case lexical_cast t of
                       None \<Rightarrow> Inl (Thrown ''bad_lexical_cast'')
                     | Some n \<Rightarrow> Inr (r3\<lparr>rs_contentlength := n\<rparr>))) (\<lambda>r4.
          Inr (True, r4\<lparr>rs_body := drop body buf\<rparr>))))"

subsection \<open>Cookies\<close>

text \<open>
  A \<open>Set-Cookie\<close> value without a semicolon leaves \<open>tmp\<close> empty, so the name and the value
  are empty too; without an equals sign before it, the value is what follows the semicolon.
\<close>

fun set_cookies :: "smap \<Rightarrow> heads \<Rightarrow> smap outcome" where
  "set_cookies m [] = Inr m"
| "set_cookies m ((n, t) # hds) =
     (if n = ''Set-Cookie'' then
        bind_ok (split1 '''' '''' t '';'') (\<lambda>(_, tmp, v0).
        bind_ok (split1 '''' v0 tmp ''='') (\<lambda>(_, k, v).
          set_cookies (map_put k v m) hds))
      else set_cookies m hds)"

function cookie_loop :: "smap \<Rightarrow> string \<Rightarrow> smap" where
  "cookie_loop cookies s =
     (let k = takeWhile (\<lambda>c. c \<noteq> CHR ''='') s in
      if length k = length s then cookies
      else
        let r = drop (length k + 1) s;
            v = takeWhile (\<lambda>c. c \<noteq> CHR '';'') r
        in cookie_loop (map_put k v cookies) (dropWhile c_isspace (drop (length v + 1) r)))"
  by pat_completeness auto
termination
proof (relation "measure (\<lambda>(m, s). length s)")
  fix m :: smap and s k r v :: string
  assume "k = takeWhile (\<lambda>c. c \<noteq> CHR ''='') s" "length k \<noteq> length s" "r = drop (length k + 1) s"
  then have "length r < length s" using length_takeWhile_le [of "\<lambda>c. c \<noteq> CHR ''=''" s] by simp
  moreover have "length (dropWhile c_isspace (drop (length v + 1) r)) \<le> length r"
    using length_dropWhile_le [of c_isspace "drop (length v + 1) r"] by simp
  ultimately show "((map_put k v m, dropWhile c_isspace (drop (length v + 1) r)), m, s)
      \<in> measure (\<lambda>(m, s). length s)" by simp
qed simp

declare cookie_loop.simps [simp del]

definition cookie_parse :: "smap \<Rightarrow> string \<Rightarrow> smap" where
  "cookie_parse cookies cval = cookie_loop cookies cval"

subsection \<open>Rendering\<close>

fun dec_digits :: "nat \<Rightarrow> string \<Rightarrow> string" where
  "dec_digits n acc = (if n < 10 then char_of (48 + n) # acc
     else dec_digits (n div 10) (char_of (48 + n mod 10) # acc))"

declare dec_digits.simps [simp del]

definition show_nat :: "nat \<Rightarrow> string" where
  "show_nat n = dec_digits n []"

definition show_int :: "int \<Rightarrow> string" where
  "show_int n = (if n < 0 then CHR ''-'' # show_nat (nat (- n)) else show_nat (nat n))"

definition headline :: "string \<Rightarrow> string \<Rightarrow> string" where
  "headline k val = k @ '': '' @ val @ crlf"

definition headline_len :: "string \<Rightarrow> u32 \<Rightarrow> string" where
  "headline_len k n = headline k (show_nat (unat n))"

definition assign_rsp :: "int \<Rightarrow> string \<Rightarrow> string \<Rightarrow> string" where
  "assign_rsp code shd body =
     ''HTTP/1.1 '' @ show_int code @ '' '' @ shd @ crlf @
     ''Server: nginx/1.0.11'' @ crlf @
     ''Content-Type: application/octet-stream'' @ crlf @
     ''Set-Cookie: ck=100010/100011/100012; Domain=ws.pkingame.net; Path=/'' @ crlf @
     ''Content-Length: '' @ show_nat (length body) @ crlf @ crlf @ body"

definition first_tok :: "string \<Rightarrow> string" where
  "first_tok s = snd (read_word (Some s) '''')"

text \<open>The cookie line \<open>step_go\<close> writes.\<close>

fun cookie_text :: "smap \<Rightarrow> string" where
  "cookie_text [] = ''''"
| "cookie_text [(k, v)] = k @ ''='' @ v"
| "cookie_text ((k, v) # m) = k @ ''='' @ v @ ''; '' @ cookie_text m"

subsection \<open>First occurrences on whole strings\<close>

fun find_sub :: "'a list \<Rightarrow> 'a list \<Rightarrow> nat" where
  "find_sub p [] = 0"
| "find_sub p (c # s) = (if take (length p) (c # s) = p then 0 else Suc (find_sub p s))"

lemma search_in_find_sub:
  assumes "p \<noteq> []" and "b \<le> length s"
  shows "search_in p s b (length s) = b + find_sub p (drop b s)"
  using assms(2)
proof (induction "length s - b" arbitrary: b)
  case 0
  then have "b = length s" by simp
  then show ?case using search_in_step [of b "length s" p s] assms(1) by (simp add: hit_def)
next
  case (Suc n)
  then have lt: "b < length s" by simp
  then obtain c t where d: "drop b s = c # t" and t: "drop (Suc b) s = t"
    by (metis Cons_nth_drop_Suc)
  have "hit p s b (length s) \<longleftrightarrow> take (length p) (drop b s) = p"
    using assms(1) by (auto simp: hit_def slice_def) (metis length_take length_drop min.cobounded1
      le_diff_conv2 Suc.prems add.commute)
  moreover have "search_in p s (Suc b) (length s) = Suc b + find_sub p t"
    using Suc(1) [of "Suc b"] Suc(2) lt t by simp
  ultimately show ?case using search_in_step [OF Suc(3) assms(1)] lt d by simp
qed

lemma find_in_takeWhile:
  "b \<le> length s \<Longrightarrow> find_in c s b (length s) = b + length (takeWhile (\<lambda>x. x \<noteq> c) (drop b s))"
proof (induction "length s - b" arbitrary: b)
  case 0
  then show ?case by (simp add: find_in.simps [of c s b])
next
  case (Suc n)
  then have lt: "b < length s" by simp
  then show ?case using Suc(1) [of "Suc b"] Suc(2)
    by (simp add: find_in.simps [of c s b] Cons_nth_drop_Suc [symmetric])
qed

subsection \<open>Splitting a message at the empty line\<close>

definition http_text :: "string list \<Rightarrow> string \<Rightarrow> string" where
  "http_text ls body = concat (map (\<lambda>l. l @ crlf) ls) @ crlf @ body"

definition good_line :: "string \<Rightarrow> bool" where
  "good_line l \<longleftrightarrow> l \<noteq> [] \<and> newline \<notin> set l"

lemma crlf_neq [simp]: "crlf2 \<noteq> []" "length crlf2 = 4" "length crlf = 2"
  by (simp_all add: crlf2_def crlf_def)

lemma find_sub_line:
  assumes "newline \<notin> set l"
  shows "find_sub crlf2 (l @ crlf @ rest) = length l +
    (if take 2 rest = crlf then 0 else Suc (Suc (find_sub crlf2 rest)))"
  using assms
proof (induction l)
  case Nil
  have "find_sub crlf2 (CHR 0x0A # rest) = Suc (find_sub crlf2 rest)" by (simp add: crlf2_def)
  moreover have "take 4 (crlf @ rest) = crlf2 \<longleftrightarrow> take 2 rest = crlf"
    by (simp add: crlf2_def crlf_def)
  ultimately show ?case by (simp add: crlf_def crlf2_def numeral_2_eq_2)
next
  case (Cons c l)
  have "take 4 (c # l @ crlf @ rest) \<noteq> crlf2"
    using Cons(2) by (cases l) (auto simp: crlf2_def crlf_def newline_def)
  then have "find_sub crlf2 ((c # l) @ crlf @ rest) = Suc (find_sub crlf2 (l @ crlf @ rest))"
    by (simp only: append_Cons find_sub.simps crlf_neq if_False)
  then show ?case using Cons by simp
qed

lemma find_sub_http:
  assumes "ls \<noteq> []" and "\<forall>l\<in>set ls. good_line l"
  shows "find_sub crlf2 (http_text ls body) + 2 = length (concat (map (\<lambda>l. l @ crlf) ls))"
  using assms
proof (induction ls)
  case (Cons l ls)
  show ?case
  proof (cases ls)
    case Nil
    then show ?thesis using Cons(3) find_sub_line [of l "crlf @ body"]
      by (simp add: http_text_def good_line_def crlf_def)
  next
    case (Cons k ks)
    have "take 2 (http_text ls body) \<noteq> crlf" using Cons Cons.prems(2)
      by (cases k; cases "tl k") (auto simp: http_text_def good_line_def crlf_def newline_def)
    then show ?thesis using find_sub_line [of l "http_text ls body"] Cons.IH Cons Cons.prems(2)
      by (simp add: http_text_def good_line_def crlf_def)
  qed
qed simp

lemma http_split:
  assumes "ls \<noteq> []" and "\<forall>l\<in>set ls. good_line l"
    and p_def: "p = search_in crlf2 (http_text ls body) 0 (length (http_text ls body))"
  shows "p \<noteq> length (http_text ls body)" and "drop (p + 4) (http_text ls body) = body"
    and "take (p + 4) (http_text ls body) = concat (map (\<lambda>l. l @ crlf) ls) @ crlf"
    and "length (http_text ls body) - (p + 4) = length body"
proof -
  have p: "p + 4 = length (concat (map (\<lambda>l. l @ crlf) ls) @ crlf)"
    unfolding p_def using find_sub_http [OF assms(1,2), of body] by (simp add: search_in_find_sub)
  have t: "http_text ls body = (concat (map (\<lambda>l. l @ crlf) ls) @ crlf) @ body"
    by (simp add: http_text_def)
  show "p \<noteq> length (http_text ls body)" unfolding t using p by simp
  show "drop (p + 4) (http_text ls body) = body" unfolding t p by simp
  show "take (p + 4) (http_text ls body) = concat (map (\<lambda>l. l @ crlf) ls) @ crlf" unfolding t p by simp
  show "length (http_text ls body) - (p + 4) = length body" unfolding t p by simp
qed

lemma getlines_line:
  assumes "newline \<notin> set l"
  shows "getlines (l @ crlf @ rest) = (l @ [cret]) # getlines rest"
proof -
  have "takeWhile (\<lambda>c. c \<noteq> newline) (l @ crlf @ rest) = l @ [cret]"
    and "dropWhile (\<lambda>c. c \<noteq> newline) (l @ crlf @ rest) = newline # rest"
    using assms by (auto simp: takeWhile_append dropWhile_append crlf_def newline_def cret_def)
  then have "getlines (l @ crlf @ rest) = (l @ [cret]) # getlines (drop 1 (newline # rest))"
    by (subst getlines.simps) (simp only: crlf_def append_is_Nil_conv list.distinct if_False simp_thms)
  then show ?thesis by simp
qed

lemma getlines_http:
  assumes "\<forall>l\<in>set ls. good_line l"
  shows "getlines (concat (map (\<lambda>l. l @ crlf) ls) @ crlf) = map (\<lambda>l. l @ [cret]) ls @ [[cret]]"
  using assms
proof (induction ls)
  case Nil
  show ?case using getlines_line [of "[]" "[]"] by (simp add: getlines.simps [of "[]"])
next
  case (Cons l ls)
  then show ?case using getlines_line [of l "concat (map (\<lambda>l. l @ crlf) ls) @ crlf"]
    by (simp add: good_line_def)
qed

subsection \<open>Header lines come back\<close>

definition head_ok :: "string \<times> string \<Rightarrow> bool" where
  "head_ok h \<longleftrightarrow> CHR '':'' \<notin> set (fst h) \<and> newline \<notin> set (fst h) \<and> newline \<notin> set (snd h) \<and>
     snd h \<noteq> [] \<and> \<not> c_isspace (hd (snd h))"

definition head_line :: "string \<times> string \<Rightarrow> string" where
  "head_line h = fst h @ '': '' @ snd h"

lemma head_line_good: "head_ok h \<Longrightarrow> good_line (head_line h)"
  by (auto simp: head_ok_def good_line_def head_line_def newline_def)

lemma dropWhile_hd: "v \<noteq> [] \<Longrightarrow> \<not> P (hd v) \<Longrightarrow> dropWhile P v = v"
  by (cases v) auto

lemma head_line_parse_line:
  assumes "head_ok h"
  shows "fst (head_line_parse head (head_line h @ [cret])) = head @ [h]"
proof -
  let ?l = "head_line h @ [cret]"
  have "takeWhile (\<lambda>x. x \<noteq> CHR '':'') ?l = fst h"
    using assms by (auto simp: head_ok_def head_line_def takeWhile_append)
  then have it: "find_in (CHR '':'') ?l 0 (length ?l) = length (fst h)"
    using find_in_takeWhile [of 0 ?l "CHR '':''"] by simp
  have l: "last ?l = cret" "butlast ?l = head_line h" by simp_all
  have v: "dropWhile c_isspace (drop (length (fst h) + 1) (head_line h)) = snd h"
    using assms dropWhile_hd [of "snd h" c_isspace]
    by (simp add: head_line_def head_ok_def c_isspace_def)
  have "length (fst h) < length ?l" by (simp add: head_line_def)
  moreover have "take (length (fst h)) (head_line h) = fst h" by (simp add: head_line_def)
  ultimately show ?thesis using assms unfolding head_line_parse_def it l Let_def
    by (simp add: v [simplified] head_ok_def)
qed

lemma head_line_parse_empty: "fst (head_line_parse head [cret]) = head"
proof -
  have "find_in (CHR '':'') [cret] 0 (length [cret]) = 1"
    using find_in_takeWhile [of 0 "[cret]" "CHR '':''"] by (simp add: cret_def)
  then show ?thesis by (simp add: head_line_parse_def)
qed

lemma head_lines_http:
  "\<forall>h\<in>set hs. head_ok h \<Longrightarrow>
    head_lines head (map (\<lambda>l. l @ [cret]) (map head_line hs) @ [[cret]]) = head @ hs"
proof (induction hs arbitrary: head)
  case Nil
  then show ?case by (simp add: head_line_parse_empty)
next
  case (Cons h hs)
  then show ?case by (simp add: head_line_parse_line)
qed

lemma headval_map_of: "headval hs k = map_of hs k"
  by (induction hs k rule: headval.induct) auto

subsection \<open>Numbers come back\<close>

lemma dec_digits_acc: "dec_digits n acc = dec_digits n [] @ acc"
proof (induction n arbitrary: acc rule: less_induct)
  case (less n)
  show ?case
  proof (cases "n < 10")
    case True
    then show ?thesis by (simp add: dec_digits.simps [of n])
  next
    case False
    then have "n div 10 < n" by simp
    then show ?thesis using False less [of "n div 10"]
      by (metis (no_types, lifting) append.assoc append_Cons append_Nil dec_digits.simps)
  qed
qed

lemma digit_char:
  "(d::nat) < 10 \<Longrightarrow> c_isdigit (char_of (48 + d)) \<and> of_char (char_of (48 + d) :: char) - 48 = d"
  by (simp add: c_isdigit_def of_char_of)

lemma show_nat_step: "show_nat n =
    (if n < 10 then [char_of (48 + n)] else show_nat (n div 10) @ [char_of (48 + n mod 10)])"
  unfolding show_nat_def
  by (subst dec_digits.simps) (simp add: dec_digits_acc [of "n div 10" "[char_of (48 + n mod 10)]"])

lemma digits_val_show: "digits_val 0 (show_nat n @ rest) = digits_val n rest"
proof (induction n arbitrary: rest rule: less_induct)
  case (less n)
  show ?case
  proof (cases "n < 10")
    case True
    then show ?thesis using digit_char [of n] by (simp add: show_nat_step [of n])
  next
    case False
    then have "n div 10 < n" by simp
    then have "digits_val 0 (show_nat n @ rest) = digits_val (n div 10) (char_of (48 + n mod 10) # rest)"
      using False less by (simp add: show_nat_step [of n])
    also have "\<dots> = digits_val (10 * (n div 10) + n mod 10) rest"
      using digit_char [of "n mod 10"] by simp
    finally show ?thesis by simp
  qed
qed

lemma show_nat_digits: "show_nat n \<noteq> [] \<and> (\<forall>c\<in>set (show_nat n). c_isdigit c)"
proof (induction n rule: less_induct)
  case (less n)
  have "\<not> n < 10 \<Longrightarrow> \<forall>c\<in>set (show_nat (n div 10)). c_isdigit c"
    using less [of "n div 10"] by simp
  then show ?case using digit_char [of n] digit_char [of "n mod 10"]
    by (cases "n < 10") (auto simp: show_nat_step [of n])
qed

lemma digit_no_space: "c_isdigit c \<Longrightarrow> \<not> c_isspace c \<and> c \<noteq> CHR ''-'' \<and> c \<noteq> CHR ''+'' \<and>
    c \<noteq> newline \<and> c \<noteq> cret"
  by (auto simp: c_isdigit_def c_isspace_def newline_def cret_def)

lemma show_nat_Cons: obtains d ds where "show_nat n = d # ds" and "c_isdigit d"
    and "\<not> c_isspace d" and "d \<noteq> CHR ''-''" and "d \<noteq> CHR ''+''"
  using show_nat_digits [of n] digit_no_space by (cases "show_nat n") auto

lemma signed_text_show: "signed_text (show_nat n @ rest) = (False, show_nat n @ rest)"
  by (rule show_nat_Cons [of n]) (simp add: signed_text_def)

lemma atoi_show: "n < 2147483648 \<Longrightarrow> atoi (show_nat n) = Inr (int n)"
  using signed_text_show [of n "[]"] digits_val_show [of n "[]"] by (simp add: atoi_def)

lemma dropWhile_digits: "dropWhile c_isdigit (show_nat n @ rest) = dropWhile c_isdigit rest"
  using show_nat_digits [of n] by (simp add: dropWhile_append)

lemma read_u32_show:
  assumes "n < 4294967296" and "rest = [] \<or> \<not> c_isdigit (hd rest)"
  shows "read_u32 (Some (show_nat n @ rest)) x = (Some rest, of_nat n)"
proof -
  have v: "digits_val 0 (show_nat n @ rest) = n" using assms(2) digits_val_show [of n rest]
    by (cases rest) auto
  have "dropWhile c_isdigit rest = rest" using assms(2) by (cases rest) auto
  moreover have "dropWhile c_isspace (show_nat n @ rest) \<noteq> []" "c_isdigit (hd (show_nat n @ rest))"
    "show_nat n @ rest \<noteq> []"
    by (rule show_nat_Cons [of n], simp)+
  ultimately show ?thesis using assms(1) v
    by (simp add: read_u32_def signed_text_show dropWhile_digits)
qed

subsection \<open>Words come back\<close>

definition word_ok :: "string \<Rightarrow> bool" where
  "word_ok w \<longleftrightarrow> w \<noteq> [] \<and> (\<forall>c\<in>set w. \<not> c_isspace c)"

lemma read_word_word:
  assumes "word_ok w" and "c_isspace c"
  shows "read_word (Some (w @ c # rest)) x = (Some (c # rest), w)"
    and "read_word (Some (CHR '' '' # w @ c # rest)) x = (Some (c # rest), w)"
proof -
  have d: "dropWhile c_isspace (w @ c # rest) = w @ c # rest"
    using assms(1) dropWhile_hd [of "w @ c # rest" c_isspace] by (cases w) (auto simp: word_ok_def)
  have t: "takeWhile (\<lambda>c. \<not> c_isspace c) (w @ c # rest) = w"
    and u: "dropWhile (\<lambda>c. \<not> c_isspace c) (w @ c # rest) = c # rest"
    using assms by (auto simp: word_ok_def takeWhile_append dropWhile_append)
  have "w @ c # rest \<noteq> []" by simp
  then show "read_word (Some (w @ c # rest)) x = (Some (c # rest), w)"
    by (simp add: read_word_def d t u del: append_is_Nil_conv)
  have "c_isspace (CHR '' '')" by (simp add: c_isspace_def)
  then show "read_word (Some (CHR '' '' # w @ c # rest)) x = (Some (c # rest), w)"
    by (simp add: read_word_def d t u)
qed

lemma space_cret [simp]: "c_isspace cret" "c_isspace (CHR '' '')"
  by (simp_all add: c_isspace_def cret_def)

lemma method_line_words:
  assumes "word_ok m" "word_ok p" "word_ok v"
  shows "fst (method_line_parse x ((m @ '' '' @ p @ '' '' @ v) @ [cret])) = (m, p, v)"
  using assms by (simp add: method_line_parse_def read_word_word)

lemma word_ok_line: "word_ok w \<Longrightarrow> newline \<notin> set w \<and> w \<noteq> []"
  by (auto simp: word_ok_def c_isspace_def newline_def)

definition request_text :: "string \<Rightarrow> string \<Rightarrow> string \<Rightarrow> heads \<Rightarrow> string \<Rightarrow> string" where
  "request_text m p v hs body = http_text ((m @ '' '' @ p @ '' '' @ v) # map head_line hs) body"

definition parsed :: "'a request_scheme \<Rightarrow> string \<Rightarrow> string \<Rightarrow> heads \<Rightarrow> string \<Rightarrow> 'a request_scheme" where
  "parsed r m p hs body = r\<lparr>rq_method := m, rq_path := p, rq_head := hs, rq_body := body\<rparr>"

lemma makereq_text:
  assumes "word_ok m" "word_ok p" "word_ok v" "\<forall>h\<in>set hs. head_ok h"
  shows "makereq (request_text m p v hs body) r =
    bind_ok (size_ok (length body) m hs) (\<lambda>ok.
      if ok then Inr (True, parsed r m p hs body) else Inr (False, r))"
proof -
  let ?ls = "(m @ '' '' @ p @ '' '' @ v) # map head_line hs"
  have g: "\<forall>l\<in>set ?ls. good_line l"
    using assms word_ok_line head_line_good by (auto simp: good_line_def newline_def)
  note sp = http_split [OF list.distinct(2) g refl, of body]
  have gl: "getlines (concat (map (\<lambda>l. l @ crlf) ?ls) @ crlf) =
      ((m @ '' '' @ p @ '' '' @ v) @ [cret]) # map (\<lambda>l. l @ [cret]) (map head_line hs) @ [[cret]]"
    unfolding getlines_http [OF g] by (simp only: list.map append_Cons)
  have hl: "head_lines [] (map (\<lambda>l. l @ [cret]) (map head_line hs) @ [[cret]]) = hs"
    using head_lines_http [OF assms(4), of "[]"] by simp
  show ?thesis unfolding makereq_def request_text_def Let_def sp(2-4) gl
    using sp(1) method_line_words [OF assms(1-3)] hl
    by (simp only: list.case if_False fst_conv snd_conv split_conv) 
      (auto simp: bind_ok_def parsed_def split: sum.splits)
qed

subsection \<open>Responses\<close>

lemma makersp_text:
  assumes g: "\<forall>l\<in>set (first # map head_line hs). good_line l" and h: "\<forall>h\<in>set hs. head_ok h"
    and ok: "request_line_parse (first @ [cret]) r = (r1, True)"
  shows "makersp lc (http_text (first # map head_line hs) body) r =
    (let r2 = r1\<lparr>rs_head := rs_head r1 @ hs\<rparr> in
     bind_ok (case map_of (rs_head r2) ''Content-Type'' of None \<Rightarrow> Inr r2 | Some t \<Rightarrow> content_type t r2) (\<lambda>r3.
     bind_ok (case map_of (rs_head r3) ''Content-Length'' of None \<Rightarrow> Inr r3
       | Some t \<Rightarrow> (case lc t of None \<Rightarrow> Inl (Thrown ''bad_lexical_cast'')
           | Some n \<Rightarrow> Inr (r3\<lparr>rs_contentlength := n\<rparr>))) (\<lambda>r4.
     Inr (True, r4\<lparr>rs_body := body\<rparr>))))"
proof -
  let ?ls = "first # map head_line hs"
  note sp = http_split [OF list.distinct(2) g refl, of body]
  have gl: "getlines (concat (map (\<lambda>l. l @ crlf) ?ls) @ crlf) =
      (first @ [cret]) # map (\<lambda>l. l @ [cret]) (map head_line hs) @ [[cret]]"
    unfolding getlines_http [OF g] by (simp only: list.map append_Cons)
  have hl: "head_lines (rs_head r1) (drop 1 ((first @ [cret]) #
      map (\<lambda>l. l @ [cret]) (map head_line hs) @ [[cret]])) = rs_head r1 @ hs"
    using head_lines_http [OF h] by simp
  show ?thesis unfolding makersp_def Let_def sp(2-4) gl list.case ok split_conv hl
    using sp(1) by (simp add: headval_map_of)
qed

lemma status_line:
  assumes "word_ok v" and "100 \<le> c" and "c \<le> 800"
  shows "request_line_parse ((v @ '' '' @ show_nat c @ '' '' @ rest) @ [cret]) r =
    (r\<lparr>rs_ver := v, rs_code := of_nat c\<rparr>, True)"
proof -
  have w: "read_word (Some ((v @ '' '' @ show_nat c @ '' '' @ rest) @ [cret])) (rs_ver r) =
      (Some (CHR '' '' # show_nat c @ '' '' @ rest @ [cret]), v)"
    using read_word_word(1) [OF assms(1) space_cret(2), of "show_nat c @ '' '' @ rest @ [cret]"] by simp
  have "read_u32 (Some (CHR '' '' # s)) x = read_u32 (Some s) x" for s x
    by (simp add: read_u32_def signed_text_def)
  moreover have "read_u32 (Some (show_nat c @ '' '' @ rest @ [cret])) (rs_code r) =
      (Some ('' '' @ rest @ [cret]), of_nat c)"
    using assms(3) by (intro read_u32_show) (auto simp: c_isdigit_def)
  moreover have "\<not> (of_nat c > (800::u32) \<or> of_nat c < (100::u32))"
    using assms by (auto simp: word_less_nat_alt unat_of_nat)
  ultimately show ?thesis unfolding request_line_parse_def w Let_def split_conv by simp
qed

definition rsp_heads :: "nat \<Rightarrow> heads" where
  "rsp_heads n = [(''Server'', ''nginx/1.0.11''), (''Content-Type'', ''application/octet-stream''),
     (''Set-Cookie'', ''ck=100010/100011/100012; Domain=ws.pkingame.net; Path=/''),
     (''Content-Length'', show_nat n)]"

lemma rsp_heads_ok: "\<forall>h\<in>set (rsp_heads n). head_ok h"
  using show_nat_digits [of n] digit_no_space
  by (auto simp: rsp_heads_def head_ok_def newline_def c_isspace_def)

lemma assign_rsp_http:
  "assign_rsp (int c) shd body = http_text ((''HTTP/1.1 '' @ show_nat c @ '' '' @ shd) #
     map head_line (rsp_heads (length body))) body"
  by (simp add: assign_rsp_def show_int_def http_text_def rsp_heads_def head_line_def)

lemma content_type_plain:
  assumes "\<forall>c\<in>set t. c \<notin> {CHR '';'', CHR '' '', CHR 0x09}"
  shows "content_type t r = Inr (r\<lparr>contenttype := t\<rparr>)"
proof -
  have "takeWhile (\<lambda>c. c \<notin> set [CHR '';'', CHR '' '', CHR 0x09]) t = t"
    using assms by (simp add: takeWhile_eq_all_conv)
  then have "split1 (contenttype r) [] t [CHR '';'', CHR '' '', CHR 0x09] = Inr (False, contenttype r, [])"
    unfolding split1_def Let_def by (simp only: if_True simp_thms)
  then show ?thesis unfolding content_type_def by simp
qed

subsection \<open>Cookies come back\<close>

definition cookie_ok :: "string \<times> string \<Rightarrow> bool" where
  "cookie_ok c \<longleftrightarrow> CHR ''='' \<notin> set (fst c) \<and> (fst c = [] \<or> \<not> c_isspace (hd (fst c))) \<and> CHR '';'' \<notin> set (snd c)"

lemma cookie_first:
  assumes "CHR ''='' \<notin> set k" and "CHR '';'' \<notin> set v" and "rest = [] \<or> hd rest = CHR '';''"
  shows "cookie_loop m (k @ ''='' @ v @ rest) =
    cookie_loop (map_put k v m) (dropWhile c_isspace (drop 1 rest))"
proof -
  have k: "takeWhile (\<lambda>c. c \<noteq> CHR ''='') (k @ ''='' @ v @ rest) = k"
    using assms(1) by (auto simp: takeWhile_append)
  have v: "takeWhile (\<lambda>c. c \<noteq> CHR '';'') (v @ rest) = v"
    using assms(2,3) by (cases rest) (auto simp: takeWhile_append)
  show ?thesis by (subst cookie_loop.simps) (simp add: Let_def k v del: append_Cons)
qed

lemma cookie_text_head: "m \<noteq> [] \<Longrightarrow> \<forall>c\<in>set m. cookie_ok c \<Longrightarrow>
    dropWhile c_isspace (CHR '' '' # cookie_text m) = cookie_text m"
proof (induction m rule: cookie_text.induct)
  case (2 k v)
  then show ?case by (cases k) (auto simp: cookie_ok_def c_isspace_def)
next
  case (3 k v p m)
  then show ?case by (cases k) (auto simp: cookie_ok_def c_isspace_def)
qed simp

lemma cookie_loop_text:
  "\<forall>c\<in>set ps. cookie_ok c \<Longrightarrow> cookie_loop m (cookie_text ps) = fold (\<lambda>(k, v). map_put k v) ps m"
proof (induction ps arbitrary: m rule: cookie_text.induct)
  case 1
  then show ?case by (simp add: cookie_loop.simps)
next
  case (2 k v)
  then show ?case using cookie_first [of k v "[]" m]
    by (simp add: cookie_ok_def cookie_loop.simps [of _ "[]"])
next
  case (3 k v p qs)
  have d: "dropWhile c_isspace (drop 1 (CHR '';'' # CHR '' '' # cookie_text (p # qs))) = cookie_text (p # qs)"
    using cookie_text_head [of "p # qs"] 3(2) by simp
  have "cookie_loop m (cookie_text ((k, v) # p # qs)) =
      cookie_loop (map_put k v m) (cookie_text (p # qs))"
    using cookie_first [of k v "CHR '';'' # CHR '' '' # cookie_text (p # qs)" m] 3(2)
    unfolding d by (simp add: cookie_ok_def)
  then show ?case using 3 by simp
qed

subsection \<open>Escapes\<close>

fun replace_amp :: "string \<Rightarrow> string" where
  "replace_amp [] = []"
| "replace_amp (c # s) = (if take 5 (c # s) = ''&amp;'' then CHR ''&'' # replace_amp (drop 4 s)
     else c # replace_amp s)"

lemma replace_amp_until: "replace_amp s = take (find_sub ''&amp;'' s) s @
    (let t = drop (find_sub ''&amp;'' s) s in if t = [] then [] else CHR ''&'' # replace_amp (drop 5 t))"
proof (induction s)
  case (Cons c s)
  show ?case
  proof (cases "take 5 (c # s) = ''&amp;''")
    case True
    then have "find_sub ''&amp;'' (c # s) = 0" by (simp add: numeral_eq_Suc)
    then show ?thesis using True by (simp only: replace_amp.simps) (simp add: numeral_eq_Suc)
  next
    case False
    then have fs: "find_sub ''&amp;'' (c # s) = Suc (find_sub ''&amp;'' s)" by (simp add: numeral_eq_Suc)
    have r: "replace_amp (c # s) = c # replace_amp s" using False by (simp only: replace_amp.simps if_False)
    show ?thesis unfolding r fs using Cons by (simp add: Let_def)
  qed
qed simp

lemma find_sub_le: "find_sub p s \<le> length s"
  by (induction p s rule: find_sub.induct) auto

lemma find_sub_hit: "find_sub p s < length s \<Longrightarrow> take (length p) (drop (find_sub p s) s) = p"
  by (induction p s rule: find_sub.induct) auto

lemma unescape_hit:
  assumes "find_pos w ''&amp;'' esc pos mod 4294967296 = k" and "k \<noteq> 2 ^ w - 1"
    and "(k + 1) mod 4294967296 = k1" and "k1 \<le> length esc"
  shows "unescape_loop w (Suc fuel) esc pos = unescape_loop w fuel (take k1 esc @ drop (k1 + 4) esc) k1"
  using assms by (simp add: Let_def)

lemma unescape_loop_32:
  assumes "length (a @ s) < 4294967295" and "length s < fuel"
  shows "unescape_loop 32 fuel (a @ s) (length a) = Some (Inr (a @ replace_amp s))"
  using assms
proof (induction fuel arbitrary: a s)
  case (Suc fuel)
  let ?i = "find_sub ''&amp;'' s"
  have "length a \<le> length (a @ s)" by simp
  then have f: "search_in ''&amp;'' (a @ s) (length a) (length (a @ s)) = length a + ?i"
    using search_in_find_sub [of "''&amp;''" "length a" "a @ s"] by (simp del: length_append)
  show ?case
  proof (cases "?i = length s")
    case True
    then have "find_pos 32 ''&amp;'' (a @ s) (length a) = 4294967295" using f by (simp add: find_pos_def)
    moreover have "replace_amp s = s" by (subst replace_amp_until) (simp add: True)
    ultimately show ?thesis by simp
  next
    case False
    then have lt: "?i < length s" using find_sub_le [of "''&amp;''" s] by simp
    let ?t = "drop (?i + 5) s" and ?b = "a @ take ?i s @ ''&''"
    have "length ''&amp;'' = 5" by simp
    then have hit: "take 5 (drop ?i s) = ''&amp;''" using find_sub_hit [OF lt] by (simp only:)
    have p: "find_pos 32 ''&amp;'' (a @ s) (length a) mod 4294967296 = length a + ?i"
      using f lt Suc(2) by (simp add: find_pos_def)
    have lb: "length a + ?i + 1 = length ?b" using lt by simp
    have "take 1 (drop ?i s) = take 1 (take 5 (drop ?i s))" by simp
    then have one: "take 1 (drop ?i s) = ''&''" unfolding hit by simp
    have "take (?i + 1) s = take ?i s @ take 1 (drop ?i s)" by (simp only: take_add)
    then have tk: "take (length a + ?i + 1) (a @ s) = ?b" unfolding one by simp
    have dr: "drop (length a + ?i + 1 + 4) (a @ s) = ?t" by (simp add: algebra_simps)
    have "length ?t < fuel" and "length (?b @ ?t) < 4294967295" using Suc(2,3) lt by auto
    then have ih: "unescape_loop 32 fuel (?b @ ?t) (length ?b) = Some (Inr (?b @ replace_amp ?t))"
      by (rule Suc(1)[rotated])
    have "unescape_loop 32 (Suc fuel) (a @ s) (length a) = unescape_loop 32 fuel (?b @ ?t) (length ?b)"
    proof -
      have "length a + ?i \<noteq> 2 ^ 32 - 1" "(length a + ?i + 1) mod 4294967296 = length a + ?i + 1"
        "length a + ?i + 1 \<le> length (a @ s)" using Suc(2) lt by auto
      from unescape_hit [OF p this, unfolded tk dr] show ?thesis unfolding lb .
    qed
    moreover have "replace_amp s = take ?i s @ CHR ''&'' # replace_amp ?t"
      using lt by (subst replace_amp_until) (simp add: Let_def add.commute)
    ultimately show ?thesis using ih by simp
  qed
qed simp

lemma unescape_loop_64:
  "length s < 4294967295 \<Longrightarrow> unescape_loop 64 fuel s pos = None"
proof (induction fuel arbitrary: s pos)
  case (Suc fuel)
  define p where "p = find_pos 64 ''&amp;'' s pos mod 4294967296"
  define p1 where "p1 = (p + 1) mod 4294967296"
  have "search_in ''&amp;'' s pos (length s) \<le> length s" if "pos \<le> length s"
    using search_in_bounds [OF that, of "''&amp;''" s] by simp
  then have "find_pos 64 ''&amp;'' s pos = 18446744073709551615 \<or> find_pos 64 ''&amp;'' s pos < length s"
    by (auto simp: find_pos_def Let_def)
  then have "p1 \<le> length s" using Suc(2) by (auto simp: p1_def p_def)
  moreover have "p \<noteq> 18446744073709551615"
    using mod_less_divisor [of "4294967296" "find_pos 64 ''&amp;'' s pos"] unfolding p_def by linarith
  moreover have "length (take p1 s @ drop (p1 + 4) s) < 4294967295" using Suc(2) by simp
  ultimately show ?case
    using Suc(1) unescape_hit [OF p_def [symmetric] _ p1_def [symmetric]] by simp
qed simp

subsection \<open>Properties\<close>

text \<open>
  C13: \<open>makereq\<close> reads back what a client sends. A \<open>GET\<close> is complete with its headers; a
  \<open>POST\<close> only when as many bytes as \<open>Content-Length\<close> says have arrived, and before that the
  request object is left alone; a \<open>POST\<close> without that header throws; a request with another
  method is never complete.
\<close>

theorem makereq_parses:
  assumes "word_ok m" "word_ok p" "word_ok v" "\<forall>h\<in>set hs. head_ok h"
  shows "makereq (request_text m p v hs body) r =
    (if m = ''GET'' then Inr (True, parsed r m p hs body)
     else if m = ''POST'' then
       (case map_of hs ''Content-Length'' of
          None \<Rightarrow> Inl (Thrown ''POST error'')
        | Some t \<Rightarrow> bind_ok (atoi t) (\<lambda>n.
            if n mod 4294967296 \<le> int (length body) then Inr (True, parsed r m p hs body)
            else Inr (False, r)))
     else Inr (False, r))"
  unfolding makereq_text [OF assms]
  by (cases "map_of hs ''Content-Length''")
    (auto simp: size_ok_def headval_map_of bind_ok_def split: sum.splits)

definition demo_request :: request where
  "demo_request = \<lparr>rq_method = '''', rq_path = '''', rq_ver = '''', rq_head = [], rq_cookies = [],
     rq_contentlength = 0, rq_body = ''''\<rparr>"

theorem makereq_parses_witness:
  "makereq (request_text ''POST'' ''/ws'' ''HTTP/1.1'' [(''Content-Length'', show_nat 3)] ''abc'') demo_request =
    Inr (True, parsed demo_request ''POST'' ''/ws'' [(''Content-Length'', show_nat 3)] ''abc'') \<and>
   makereq (request_text ''POST'' ''/ws'' ''HTTP/1.1'' [(''Content-Length'', show_nat 3)] ''ab'') demo_request =
    Inr (False, demo_request)"
proof -
  have w: "word_ok ''POST''" "word_ok ''/ws''" "word_ok ''HTTP/1.1''"
    by (simp_all add: word_ok_def c_isspace_def)
  have h: "\<forall>h\<in>set [(''Content-Length'', show_nat 3)]. head_ok h"
    using show_nat_digits [of 3] digit_no_space by (auto simp: head_ok_def newline_def c_isspace_def)
  show ?thesis
    using makereq_parses [OF w h, of "''abc''" demo_request] makereq_parses [OF w h, of "''ab''" demo_request]
    by (simp add: atoi_show)
qed

text \<open>
  \<open>cookie_parse\<close> reads back the cookies in the form \<open>k=v; k=v\<close> in which \<open>step_go\<close>
  writes a map: every map of cookies whose names have no \<open>=\<close> and whose values have no \<open>;\<close>
  survives the round trip.
\<close>

theorem cookie_roundtrip:
  assumes "map_ok m" and "\<forall>c\<in>set m. cookie_ok c"
  shows "cookie_parse [] (cookie_text m) = m"
  using cookie_loop_text [OF assms(2), of "[]"] fold_put_sorted [of "[]" m] assms(1)
  by (simp add: cookie_parse_def)

theorem cookie_roundtrip_witness:
  "cookie_parse [] (cookie_text [(''ck'', ''17=a''), (''id'', ''x y'')]) = [(''ck'', ''17=a''), (''id'', ''x y'')]"
  by (rule cookie_roundtrip) (simp_all add: map_ok_def cookie_ok_def c_isspace_def less_char_def)

text \<open>
  the response \<open>assign_rsp\<close> renders is one its own parser accepts: \<open>makersp\<close> gives back
  the code, the length and exactly the body.
\<close>

theorem response_roundtrip:
  assumes "100 \<le> code" and "code \<le> 800" and "newline \<notin> set shd"
    and "\<And>n. n < 4294967296 \<Longrightarrow> lexical_cast (show_nat n) = Some (of_nat n)"
    and "length body < 4294967296"
  shows "\<exists>r. makersp lexical_cast (assign_rsp (int code) shd body) (response_new c n) = Inr (True, r) \<and>
    rs_ver r = ''HTTP/1.1'' \<and> rs_code r = of_nat code \<and> rs_head r = rsp_heads (length body) \<and>
    contenttype r = ''application/octet-stream'' \<and>
    unat (rs_contentlength r) = length body \<and> rs_body r = body"
proof -
  let ?first = "''HTTP/1.1'' @ '' '' @ show_nat code @ '' '' @ shd"
  have "\<forall>c\<in>set (show_nat code). c \<noteq> newline" using show_nat_digits digit_no_space by blast
  then have "good_line ?first" using assms(3) by (auto simp: good_line_def newline_def)
  then have g: "\<forall>l\<in>set (?first # map head_line (rsp_heads (length body))). good_line l"
    using rsp_heads_ok [of "length body"] head_line_good by auto
  have "word_ok ''HTTP/1.1''" by (simp add: word_ok_def c_isspace_def)
  note st = status_line [OF this assms(1,2), of shd "response_new c n"]
  have tx: "assign_rsp (int code) shd body =
      http_text (?first # map head_line (rsp_heads (length body))) body"
    by (simp add: assign_rsp_http)
  have ct: "content_type ''application/octet-stream'' r = Inr (r\<lparr>contenttype := ''application/octet-stream''\<rparr>)" for r
    by (rule content_type_plain) simp
  have "makersp lexical_cast (assign_rsp (int code) shd body) (response_new c n) =
      Inr (True, (response_new c n)\<lparr>rs_ver := ''HTTP/1.1'', rs_code := of_nat code,
        rs_head := rsp_heads (length body), contenttype := ''application/octet-stream'',
        rs_contentlength := of_nat (length body), rs_body := body\<rparr>)"
    unfolding tx makersp_text [OF g rsp_heads_ok st]
    using ct assms(4) [OF assms(5)] by (simp add: response_new_def rsp_heads_def Let_def)
  then show ?thesis using assms(5) by (simp add: unat_of_nat)
qed

definition demo_cast :: "string \<Rightarrow> u32 option" where
  "demo_cast s = Some (of_nat (digits_val 0 s))"

theorem response_roundtrip_witness:
  "\<exists>r. makersp demo_cast (assign_rsp (int 501) ''trac error'' ''bye.'') (response_new 7 9) = Inr (True, r) \<and>
    rs_ver r = ''HTTP/1.1'' \<and> rs_code r = of_nat 501 \<and> rs_head r = rsp_heads (length ''bye.'') \<and>
    contenttype r = ''application/octet-stream'' \<and>
    unat (rs_contentlength r) = length ''bye.'' \<and> rs_body r = ''bye.''"
  by (rule response_roundtrip)
    (simp_all add: demo_cast_def newline_def digits_val_show [of _ "[]", simplified])

text \<open>
  a response whose \<open>Content-Type\<close> ends in its separators (\<open>text/html;\<close>) makes
  \<open>split1\<close> copy from one byte before the string, since it tests \<open>pos\<close> where it means \<open>pos2\<close>.
\<close>

theorem content_type_overread:
  assumes "word_ok v" and "100 \<le> code" and "code \<le> 800" and "newline \<notin> set rest"
    and "\<forall>h\<in>set hs. head_ok h" and "map_of hs ''Content-Type'' = Some (ct @ seps)"
    and "set ct \<inter> {CHR '';'', CHR '' '', CHR 0x09} = {}"
    and "seps \<noteq> []" and "set seps \<subseteq> {CHR '';'', CHR '' '', CHR 0x09}"
  shows "makersp lexical_cast (http_text ((v @ '' '' @ show_nat code @ '' '' @ rest) # map head_line hs) body)
    (response_new c n) = Inl Undefined"
proof -
  let ?first = "v @ '' '' @ show_nat code @ '' '' @ rest"
  have "\<forall>c\<in>set (show_nat code). c \<noteq> newline" using show_nat_digits digit_no_space by blast
  then have "good_line ?first" using assms(4) word_ok_line [OF assms(1)] by (auto simp: good_line_def newline_def)
  then have g: "\<forall>l\<in>set (?first # map head_line hs). good_line l"
    using assms(5) head_line_good by auto
  let ?any = "[CHR '';'', CHR '' '', CHR 0x09]"
  have t: "takeWhile (\<lambda>c. c \<notin> set ?any) (ct @ seps) = ct"
    using assms(7-9) by (cases seps) (auto simp: takeWhile_append)
  have "dropWhile (\<lambda>c. c \<in> set ?any) seps = []" using assms(9) by (auto simp: dropWhile_eq_Nil_conv)
  then have "split1 x y (ct @ seps) ?any = Inl Undefined" for x y
    unfolding split1_def t using assms(8) by simp
  then have "content_type (ct @ seps) r = Inl Undefined" for r
    unfolding content_type_def by simp
  then show ?thesis
    unfolding makersp_text [OF g assms(5) status_line [OF assms(1-3)]] using assms(6)
    by (simp add: response_new_def Let_def)
qed

theorem content_type_overread_witness:
  "makersp demo_cast (http_text ((''HTTP/1.1'' @ '' '' @ show_nat 200 @ '' '' @ ''OK'') #
      map head_line [(''Content-Type'', ''text/html'' @ '';'')]) ''x'') (response_new 0 0) = Inl Undefined"
  by (rule content_type_overread [where ct = "''text/html''" and seps = "'';''"])
    (simp_all add: word_ok_def c_isspace_def newline_def head_ok_def)

text \<open>
  where \<open>size_t\<close> has 32 bits \<open>unescape\<close> replaces every \<open>&amp;\<close> by \<open>&\<close>, from the left and
  without looking again at what it wrote. Where it has 64 bits the position never equals
  \<open>npos\<close>, so the loop does not end on any text, whatever the fuel.
\<close>

theorem unescape_width:
  assumes "length url < 4294967295"
  shows "unescape url = Inr (replace_amp url) \<and> unescape_loop 64 fuel url 0 = None"
  using unescape_loop_32 [of "[]" url "Suc (length url)"] unescape_loop_64 assms
  by (simp add: unescape_def)

theorem unescape_width_witness:
  "unescape ''/a?b=1&amp;c=2'' = Inr (replace_amp ''/a?b=1&amp;c=2'') \<and>
    unescape_loop 64 100 ''/a?b=1&amp;c=2'' 0 = None"
  by (rule unescape_width) simp

end
