(* ===== verification/Wap_Binary.thy ===== *)
theory Wap_Binary
  imports Wap_Text
begin

section \<open>The binary part of a WAP session request (chs.cc)\<close>

text \<open>
  \<open>probuf\<close> is a range of the request's bytes; \<open>pop_raw\<close>, \<open>pop_int\<close> and \<open>pop_string\<close> read
  from its front. Positions are indices into the whole buffer; a read that passes the end of
  the buffer itself is \<open>Undefined\<close>, one that passes the end of the range throws.
  \<open>iconv\<close> is a parameter that gives the UTF-8 text of UTF-16LE bytes, or nothing.
\<close>

record probuf =
  pb_buf :: string
  pb_data :: int
  pb_end :: int

definition pb_size :: "probuf \<Rightarrow> int" where
  "pb_size b = pb_end b - pb_data b"

definition pop_raw :: "int \<Rightarrow> probuf \<Rightarrow> (string \<times> probuf) outcome" where
  "pop_raw len b =
     (if len > pb_size b then Inl (Thrown ''protocol data error'')
      else if len < 0 \<or> pb_data b < 0 \<or> pb_data b + len > int (length (pb_buf b)) then Inl Undefined
      else Inr (take (nat len) (drop (nat (pb_data b)) (pb_buf b)), b\<lparr>pb_data := pb_data b + len\<rparr>))"

fun be_val :: "string \<Rightarrow> int" where
  "be_val [] = 0"
| "be_val (c # s) = of_char c * 256 ^ length s + be_val s"

text \<open>\<open>pop_int\<close> of a type of \<open>k\<close> bytes, signed or not.\<close>

definition pop_int :: "nat \<Rightarrow> bool \<Rightarrow> probuf \<Rightarrow> (int \<times> probuf) outcome" where
  "pop_int k sgnd b = bind_ok (pop_raw (int k) b) (\<lambda>(bs, b1).
     Inr (if sgnd \<and> be_val bs \<ge> 2 ^ (8 * k - 1) then be_val bs - 2 ^ (8 * k) else be_val bs, b1))"

text \<open>
  \<open>pop_string\<close> with a length of type \<open>Ti\<close> (\<open>k\<close> bytes) and units of \<open>u\<close> bytes. The vector
  gets \<open>len / u\<close> units but \<open>len\<close> bytes are copied into it.
\<close>

definition pop_string :: "(string \<Rightarrow> string option) \<Rightarrow> nat \<Rightarrow> bool \<Rightarrow> nat \<Rightarrow> probuf \<Rightarrow> (string \<times> probuf) outcome" where
  "pop_string iconv k sgnd u b = bind_ok (pop_int k sgnd b) (\<lambda>(len, b1).
     if 0 < len \<and> len \<le> pb_size b1 then
       bind_ok (pop_raw len b1) (\<lambda>(bs, b2).
         if len mod int u \<noteq> 0 then Inl Undefined
         else if u = 2 then Inr (case iconv bs of None \<Rightarrow> '''' | Some t \<Rightarrow> t, b2)
         else Inr (bs, b2))
     else Inr ('''', b1))"

subsection \<open>Reading stays in the range\<close>

definition pb_ok :: "probuf \<Rightarrow> bool" where
  "pb_ok b \<longleftrightarrow> 0 \<le> pb_data b \<and> pb_data b \<le> pb_end b \<and> pb_end b \<le> int (length (pb_buf b))"

definition reads_on :: "probuf \<Rightarrow> probuf \<Rightarrow> bool" where
  "reads_on b b' \<longleftrightarrow> pb_ok b' \<and> pb_buf b' = pb_buf b \<and> pb_end b' = pb_end b \<and> pb_data b \<le> pb_data b'"

lemma reads_on_refl: "pb_ok b \<Longrightarrow> reads_on b b"
  by (simp add: reads_on_def)

lemma reads_on_trans: "reads_on a b \<Longrightarrow> reads_on b c \<Longrightarrow> reads_on a c"
  by (auto simp: reads_on_def)

lemma reads_on_ok: "reads_on b b' \<Longrightarrow> pb_ok b'"
  by (simp add: reads_on_def)

lemma pop_raw_ok:
  "pb_ok b \<Longrightarrow> 0 \<le> len \<Longrightarrow> (case pop_raw len b of
     Inl e \<Rightarrow> e = Thrown ''protocol data error'' \<and> pb_size b < len
   | Inr (bs, b') \<Rightarrow> reads_on b b' \<and> length bs = nat len \<and> pb_data b' = pb_data b + len)"
  by (auto simp: pop_raw_def pb_ok_def pb_size_def reads_on_def)

lemma pop_int_ok:
  "pb_ok b \<Longrightarrow> (case pop_int k s b of
     Inl e \<Rightarrow> e = Thrown ''protocol data error'' | Inr (n, b') \<Rightarrow> reads_on b b')"
  using pop_raw_ok [of b "int k"]
  by (auto simp: pop_int_def bind_ok_def split: sum.splits)

text \<open>The only way out of bounds is an odd length before two-byte units.\<close>

lemma pop_string_ok:
  assumes "pb_ok b"
  shows "case pop_string iconv k s u b of
     Inl e \<Rightarrow> e = Thrown ''protocol data error'' \<or>
       (e = Undefined \<and> (\<exists>len b1. pop_int k s b = Inr (len, b1) \<and> 0 < len \<and> len mod int u \<noteq> 0))
   | Inr (t, b') \<Rightarrow> reads_on b b'"
proof (cases "pop_int k s b")
  case (Inl e)
  then show ?thesis using pop_int_ok [OF assms, of k s] by (simp add: pop_string_def)
next
  case (Inr p)
  then obtain len b1 where p: "pop_int k s b = Inr (len, b1)" by (cases p) simp
  then have r1: "reads_on b b1" using pop_int_ok [OF assms, of k s] by simp
  show ?thesis
  proof (cases "0 < len \<and> len \<le> pb_size b1")
    case True
    then show ?thesis
      using p r1 pop_raw_ok [OF reads_on_ok [OF r1], of len]
      by (auto simp: pop_string_def bind_ok_def split: sum.splits intro: reads_on_trans)
  next
    case False
    then show ?thesis using p r1 by (auto simp: pop_string_def)
  qed
qed

text \<open>
  Fields at the front of the remaining range: a length in big-endian order, then the bytes.
\<close>

definition be_bytes :: "nat \<Rightarrow> nat \<Rightarrow> string" where
  "be_bytes k n = map (\<lambda>i. char_of (n div 256 ^ (k - 1 - i))) [0..<k]"

definition at_front :: "string \<Rightarrow> probuf \<Rightarrow> bool" where
  "at_front t b \<longleftrightarrow> pb_ok b \<and> int (length t) \<le> pb_size b \<and>
     take (length t) (drop (nat (pb_data b)) (pb_buf b)) = t"

lemma take_two:
  assumes "take (length t + length u) xs = t @ u"
  shows "take (length t) xs = t \<and> take (length u) (drop (length t) xs) = u"
proof -
  have "take (length t) (take (length t + length u) xs) = t"
    and "drop (length t) (take (length t + length u) xs) = u" using assms by simp_all
  then show ?thesis by (simp add: drop_take)
qed

lemma at_front_app:
  assumes "at_front (t @ u) b"
  shows "at_front t b \<and> at_front u (b\<lparr>pb_data := pb_data b + int (length t)\<rparr>)"
proof -
  have "0 \<le> pb_data b" using assms by (simp add: at_front_def pb_ok_def)
  then have "nat (pb_data b + int (length t)) = length t + nat (pb_data b)" by simp
  moreover note take_two [of t u "drop (nat (pb_data b)) (pb_buf b)"]
  ultimately show ?thesis using assms
    by (simp add: at_front_def pb_ok_def pb_size_def)
qed

lemma pop_raw_front:
  "at_front t b \<Longrightarrow> pop_raw (int (length t)) b = Inr (t, b\<lparr>pb_data := pb_data b + int (length t)\<rparr>)"
  by (auto simp: at_front_def pop_raw_def pb_ok_def pb_size_def)

end
