(* ===== verification/Wap_Steps.thy ===== *)
theory Wap_Steps
  imports Wap_Binary
begin

section \<open>The steps of a WAP session (chs.cc)\<close>

text \<open>
  A session (\<open>wcstat\<close>) holds the requests a phone has to send one after the other;
  \<open>step_go\<close> renders one of them, \<open>step_fwd\<close> goes to the next and counts the repetitions,
  \<open>wapinit\<close> reads a new session, \<open>wapnext\<close> takes the response the phone got, \<open>commands\<close>
  runs the commands of a request. An operation that can throw returns its outcome and the
  session as it is then, since what was changed before the throw stays.
\<close>

record stepreq = request +
  seconds :: int

record wcstep =
  st_req :: stepreq
  st_glex :: heads

record wcstat =
  wc_cid :: int
  wc_cookies :: smap
  wc_vars :: smap
  smblock :: string
  wc_steps :: "wcstep list"
  maxdownload :: u32
  stepx :: u32
  n_repeat :: u32
  wc_atime :: u32
  size_self :: u32

text \<open>What the code takes from libraries, and the values of variables it does not initialise.\<close>

record wap_env =
  lex_u32 :: "string \<Rightarrow> u32 option"
  lex_cid :: "string \<Rightarrow> int option"
  iconv16 :: "string \<Rightarrow> string option"
  junk :: u32

definition wcstat_new :: "wap_env \<Rightarrow> int \<Rightarrow> wcstat" where
  "wcstat_new env cid = \<lparr>wc_cid = cid, wc_cookies = [], wc_vars = [], smblock = '''', wc_steps = [],
     maxdownload = 0xffff, stepx = 0, n_repeat = 0, wc_atime = junk env, size_self = junk env\<rparr>"

definition stepreq_new :: "wap_env \<Rightarrow> stepreq" where
  "stepreq_new env = \<lparr>rq_method = '''', rq_path = '''', rq_ver = '''', rq_head = [], rq_cookies = [],
     rq_contentlength = junk env, rq_body = '''', seconds = uint (junk env)\<rparr>"

subsection \<open>Rendering a step\<close>

definition part_add :: "string \<Rightarrow> string \<Rightarrow> int \<Rightarrow> int \<Rightarrow> bool \<Rightarrow> wcstat \<Rightarrow> string \<Rightarrow> string" where
  "part_add out chn secs trac inc_body wc cont =
     out @ chn @ '' size='' @ show_nat (length cont) @ '' gap='' @ show_int secs @ '' trac='' @ show_int trac @
     '' inc_body='' @ (if inc_body then ''1'' else ''0'') @ '' maxd='' @ show_nat (unat (maxdownload wc)) @ crlf @
     cont @ crlf @ crlf"

text \<open>The header lines of the step; \<open>DownloadRange\<close> is taken out and kept in the session.\<close>

fun step_heads :: "string \<Rightarrow> heads \<Rightarrow> string \<Rightarrow> wcstat \<Rightarrow> string outcome \<times> wcstat" where
  "step_heads path [] part wc = (Inr part, wc)"
| "step_heads path ((n, v) # hs) part wc =
     (if starts_with path ''http:'' \<and> ends_with n ''Host'' then step_heads path hs part wc
      else if n = ''DownloadRange'' then
        (case atoi v of
           Inl e \<Rightarrow> (Inl e, wc)
         | Inr k \<Rightarrow> step_heads path hs part (wc\<lparr>maxdownload := word_of_int k\<rparr>))
      else
        (case subst v (map_of (wc_vars wc)) of
           Inl e \<Rightarrow> (Inl e, wc)
         | Inr t \<Rightarrow> step_heads path hs (part @ headline n t) wc))"

definition step_part :: "stepreq \<Rightarrow> wcstat \<Rightarrow> string outcome \<times> wcstat" where
  "step_part req wc =
     (case bind_ok (subst (rq_path req) (map_of (wc_vars wc))) unescape of
        Inl e \<Rightarrow> (Inl e, wc)
      | Inr path \<Rightarrow>
          (case step_heads path (rq_head req)
             (rq_method req @ '' '' @ path @ '' '' @ rq_ver req @ crlf) wc of
             (Inl e, wc1) \<Rightarrow> (Inl e, wc1)
           | (Inr part, wc1) \<Rightarrow>
               let part1 = (if wc_cookies wc1 = [] then part
                            else part @ headline ''Cookies'' (cookie_text (wc_cookies wc1)))
               in (bind_ok (subst (rq_body req) (map_of (wc_vars wc1))) (\<lambda>tmp.
                     Inr (part1 @ headline_len ''Content-Length'' (of_nat (length tmp)) @ crlf @ tmp)), wc1)))"

definition step_go :: "stepreq \<Rightarrow> bool \<Rightarrow> wcstat \<Rightarrow> int \<Rightarrow> string outcome \<times> wcstat" where
  "step_go req inc_body wc trac =
     (case step_part req wc of
        (Inl e, wc1) \<Rightarrow> (Inl e, wc1)
      | (Inr part, wc1) \<Rightarrow>
          (let body = part_add '''' ''mbf'' 1 trac inc_body wc1 (smblock wc1);
               body1 = part_add body ''whq'' (seconds req) trac inc_body wc1 part
           in (Inr (assign_rsp 200 ''OK'' body1), wc1)))"

subsection \<open>Going on\<close>

text \<open>\<open>n_repeat\<close> is unsigned, so \<open>--n_repeat <= 0\<close> holds only for 0.\<close>

definition step_fwd :: "wcstat \<Rightarrow> nat \<Rightarrow> string outcome \<times> wcstat" where
  "step_fwd wc stepidx =
     (let again = (stepidx = length (wc_steps wc));
          wc1 = (if again then wc\<lparr>n_repeat := n_repeat wc - 1\<rparr> else wc);
          i = (if again then 0 else stepidx)
      in if again \<and> n_repeat wc1 \<le> 0 then (Inr (assign_rsp 200 ''FIN'' ''''), wc1)
         else if length (wc_steps wc1) \<le> i then (Inl Undefined, wc1\<lparr>stepx := stepx wc1 + 1\<rparr>)
         else step_go (st_req (wc_steps wc1 ! i)) (st_glex (wc_steps wc1 ! i) \<noteq> [])
           (wc1\<lparr>stepx := stepx wc1 + 1\<rparr>) (int i + 1))"

text \<open>
  Both forwards render a copy of the step with another path. \<open>None\<close> stands for the result
  that lets the caller go on.
\<close>

definition fwd_3xx :: "response \<Rightarrow> stepreq \<Rightarrow> wcstat \<Rightarrow> nat \<Rightarrow> string option outcome \<times> wcstat" where
  "fwd_3xx rsp sreq wc trac =
     (case headval (rs_head rsp) ''Location'' of
        None \<Rightarrow> (Inr None, wc)
      | Some l \<Rightarrow>
          if l = [] then (Inr None, wc)
          else case unescape l of
            Inl e \<Rightarrow> (Inl e, wc)
          | Inr u \<Rightarrow>
              if trac = 0 then (Inl Assertion, wc)
              else (case step_go (sreq\<lparr>rq_path := u, seconds := 1\<rparr>)
                  (st_glex (wc_steps wc ! (trac - 1)) \<noteq> []) wc (int trac) of
                (r, wc1) \<Rightarrow> (map_sum id Some r, wc1)))"

definition utf8_notice :: string where
  "utf8_notice = map char_of [0xe4, 0xb8, 0xad, 0xe5, 0x9b, 0xbd, 0xe7, 0xa7, 0xbb, 0xe5, 0x8a, 0xa8,
     0xe6, 0x8f, 0x90, 0xe9, 0x86, 0x92 :: nat]"

definition utf8_fee :: string where
  "utf8_fee = map char_of [0xe9, 0x80, 0x9a, 0xe4, 0xbf, 0xa1, 0xe8, 0xb4, 0xb9 :: nat]"

definition utf8_confirm :: string where
  "utf8_confirm = map char_of [0xe7, 0xa1, 0xae, 0xe8, 0xae, 0xa4 :: nat]"

definition auto_patterns :: "string list" where
  "auto_patterns =
     [''<?xml*<card*'' @ utf8_notice @ ''*GPRS'' @ utf8_fee @ ''*'' @ utf8_confirm @ ''*href='' @ [CHR 0x27] @ ''$'' @ [CHR 0x27],
      ''<?xml*<card*onenterforward*href='' @ [CHR 0x22] @ ''$'' @ [CHR 0x22],
      ''<?xml*<card*ontimer='' @ [CHR 0x22] @ ''$'' @ [CHR 0x22]]"

text \<open>A thrown exception goes on to the next pattern; nothing else is caught.\<close>

fun auto_loop :: "string list \<Rightarrow> response \<Rightarrow> stepreq \<Rightarrow> wcstat \<Rightarrow> nat \<Rightarrow> string option outcome \<times> wcstat" where
  "auto_loop [] rsp sreq wc trac = (Inr None, wc)"
| "auto_loop (v # vs) rsp sreq wc trac =
     (case bind_ok (glex v (rs_body rsp)) (\<lambda>url.
             if url = [] then Inr None else bind_ok (unescape url) (\<lambda>u. Inr (Some u))) of
        Inl (Thrown e) \<Rightarrow> auto_loop vs rsp sreq wc trac
      | Inl e \<Rightarrow> (Inl e, wc)
      | Inr None \<Rightarrow> auto_loop vs rsp sreq wc trac
      | Inr (Some u) \<Rightarrow>
          (case step_go (sreq\<lparr>rq_path := u, seconds := 1\<rparr>)
              (st_glex (wc_steps wc ! (trac - 1)) \<noteq> []) wc (int trac) of
             (Inr b, wc1) \<Rightarrow> (Inr (Some b), wc1)
           | (Inl (Thrown e), wc1) \<Rightarrow> auto_loop vs rsp sreq wc1 trac
           | (Inl e, wc1) \<Rightarrow> (Inl e, wc1)))"

definition auto_fwd :: "response \<Rightarrow> stepreq \<Rightarrow> wcstat \<Rightarrow> nat \<Rightarrow> string option outcome \<times> wcstat" where
  "auto_fwd rsp sreq wc trac =
     (if trac = 0 then (Inl Assertion, wc) else auto_loop auto_patterns rsp sreq wc trac)"

text \<open>
  \<open>vars[name]\<close> makes an empty entry before \<open>glex\<close> runs, so a throw leaves it behind.
\<close>

fun extract_vars :: "heads \<Rightarrow> string \<Rightarrow> smap \<Rightarrow> unit outcome \<times> smap" where
  "extract_vars [] body vars = (Inr (), vars)"
| "extract_vars ((n, ex) # gs) body vars =
     (let vars1 = map_insert [(n, '''')] vars in
      case glex ex body of
        Inl e \<Rightarrow> (Inl e, vars1)
      | Inr v \<Rightarrow> extract_vars gs body (map_put n v vars1))"

subsection \<open>A new session\<close>

text \<open>
  What a request leads to: \<open>Reply\<close> sets the response, \<open>Refused\<close> returns an error text and
  leaves the response as it is.
\<close>

datatype reply = Reply string | Refused string

fun init_glex :: "wap_env \<Rightarrow> nat \<Rightarrow> probuf \<Rightarrow> (heads \<times> probuf) outcome" where
  "init_glex env 0 b = Inr ([], b)"
| "init_glex env (Suc n) b =
     bind_ok (pop_string (iconv16 env) 1 False 2 b) (\<lambda>(kw, b1).
     bind_ok (pop_string (iconv16 env) 1 False 2 b1) (\<lambda>(ex, b2).
     bind_ok (init_glex env n b2) (\<lambda>(gs, b3). Inr ((kw, ex) # gs, b3))))"

definition init_step :: "wap_env \<Rightarrow> probuf \<Rightarrow> (wcstep \<times> probuf) outcome" where
  "init_step env b =
     bind_ok (pop_int 2 True b) (\<lambda>(_, b1).
     bind_ok (pop_string (iconv16 env) 2 True 2 b1) (\<lambda>(qfirst, b2).
     bind_ok (pop_string (iconv16 env) 2 True 2 b2) (\<lambda>(qhead, b3).
     bind_ok (pop_string (iconv16 env) 2 True 2 b3) (\<lambda>(qbody, b4).
     bind_ok (request_init (qfirst @ crlf) (qhead @ crlf2) qbody (stepreq_new env)) (\<lambda>req.
     bind_ok (pop_string (iconv16 env) 1 False 2 b4) (\<lambda>(_, b5).
     bind_ok (pop_int 1 False b5) (\<lambda>(n, b6).
     bind_ok (init_glex env (nat n) b6) (\<lambda>(gs, b7).
     bind_ok (pop_int 2 True b7) (\<lambda>(s, b8).
     Inr (\<lparr>st_req = req\<lparr>seconds := s\<rparr>, st_glex = gs\<rparr>, b8))))))))))"

fun init_steps :: "wap_env \<Rightarrow> nat \<Rightarrow> probuf \<Rightarrow> wcstat \<Rightarrow> probuf outcome \<times> wcstat" where
  "init_steps env 0 b wc = (Inr b, wc)"
| "init_steps env (Suc n) b wc =
     (case init_step env b of
        Inl e \<Rightarrow> (Inl e, wc)
      | Inr (st, b1) \<Rightarrow> init_steps env n b1 (wc\<lparr>wc_steps := wc_steps wc @ [st]\<rparr>))"

fun skip_filters :: "wap_env \<Rightarrow> nat \<Rightarrow> probuf \<Rightarrow> probuf outcome" where
  "skip_filters env 0 b = Inr b"
| "skip_filters env (Suc n) b =
     bind_ok (pop_string (iconv16 env) 1 False 1 b) (\<lambda>(_, b1).
     bind_ok (pop_string (iconv16 env) 1 False 2 b1) (\<lambda>(_, b2).
     bind_ok (pop_int 2 True b2) (\<lambda>(_, b3). skip_filters env n b3)))"

definition init_smblock :: "wap_env \<Rightarrow> string \<Rightarrow> probuf \<Rightarrow> string option outcome" where
  "init_smblock env idcode b =
     (if pb_size b > 0 then
        bind_ok (pop_int 1 False b) (\<lambda>(n, b1).
        bind_ok (skip_filters env (nat n) b1) (\<lambda>b2.
          Inr (Some (idcode @ take (nat (pb_data b2 - pb_data b)) (drop (nat (pb_data b)) (pb_buf b))))))
      else Inr None)"

definition wapinit :: "wap_env \<Rightarrow> string \<Rightarrow> int \<Rightarrow> int \<Rightarrow> wcstat \<Rightarrow> reply outcome \<times> wcstat" where
  "wapinit env buf body ende wc =
     (case bind_ok (pop_raw 4 \<lparr>pb_buf = buf, pb_data = body, pb_end = ende\<rparr>) (\<lambda>(idcode, b).
            bind_ok (pop_int 1 False b) (\<lambda>(n, b1). Inr (idcode, n, b1))) of
        Inl e \<Rightarrow> (Inl e, wc)
      | Inr (idcode, nstep, b1) \<Rightarrow>
          if nstep = 0 \<or> nstep > 16 then (Inr (Refused ''Steps count error''), wc)
          else (case init_steps env (nat nstep) b1 wc of
            (Inl e, wc1) \<Rightarrow> (Inl e, wc1)
          | (Inr b2, wc1) \<Rightarrow>
              (case pop_int 1 False b2 of
                 Inl e \<Rightarrow> (Inl e, wc1)
               | Inr (rep, b3) \<Rightarrow>
                   let wc2 = wc1\<lparr>n_repeat := word_of_int rep\<rparr> in
                   (case pop_int 2 False b3 of
                      Inl e \<Rightarrow> (Inl e, wc2)
                    | Inr (_, b4) \<Rightarrow>
                        if n_repeat wc2 = 0 \<or> n_repeat wc2 > 8 then (Inr (Refused ''Repeat count error''), wc2)
                        else (case init_smblock env idcode b4 of
                          Inl e \<Rightarrow> (Inl e, wc2)
                        | Inr sm \<Rightarrow>
                            let wc3 = (case sm of None \<Rightarrow> wc2 | Some t \<Rightarrow> wc2\<lparr>smblock := t\<rparr>)
                            in (case step_fwd wc3 0 of
                                  (r, wc4) \<Rightarrow> (map_sum id Reply r, wc4)))))))"

subsection \<open>The response of the phone\<close>

text \<open>The caller has checked that \<open>stepidx\<close> is one of the steps, counted from 1.\<close>

definition wapnext :: "wap_env \<Rightarrow> string \<Rightarrow> int \<Rightarrow> int \<Rightarrow> nat \<Rightarrow> wcstat \<Rightarrow> reply outcome \<times> wcstat" where
  "wapnext env buf body ende stepidx wc =
     (if body < 0 \<or> ende < body \<or> int (length buf) < ende then (Inl Undefined, wc)
      else
        let begin = search_in crlf2 buf (nat body) (nat ende) in
        if begin = nat ende then (Inr (Refused ''Invalid head-1''), wc)
        else (case makersp (lex_u32 env) (slice buf (begin + 4) (nat ende)) (response_new (junk env) (junk env)) of
          Inl e \<Rightarrow> (Inl e, wc)
        | Inr (ok, rsp) \<Rightarrow>
            if \<not> ok then (Inr (Refused ''Bad head''), wc)
            else (case set_cookies (wc_cookies wc) (rs_head rsp) of
              Inl e \<Rightarrow> (Inl e, wc)
            | Inr cs \<Rightarrow>
                let wc1 = wc\<lparr>wc_cookies := cs\<rparr>; sreq = st_req (wc_steps wc1 ! (stepidx - 1)) in
                if 300 \<le> rs_code rsp \<and> rs_code rsp < 400 then
                  (case fwd_3xx rsp sreq wc1 stepidx of
                     (Inl e, wc2) \<Rightarrow> (Inl e, wc2)
                   | (Inr None, wc2) \<Rightarrow> (Inr (Refused ''E302''), wc2)
                   | (Inr (Some b), wc2) \<Rightarrow> (Inr (Reply b), wc2))
                else
                  (let going_on = (\<lambda>wc4. case step_fwd wc4 stepidx of (r, wc5) \<Rightarrow> (map_sum id Reply r, wc5)) in
                   if rs_code rsp = 200 then
                     (case auto_fwd rsp sreq wc1 stepidx of
                        (Inl e, wc2) \<Rightarrow> (Inl e, wc2)
                      | (Inr (Some b), wc2) \<Rightarrow> (Inr (Reply b), wc2)
                      | (Inr None, wc2) \<Rightarrow>
                          if 0 < stepidx \<and> stepidx < length (wc_steps wc2) then
                            (case extract_vars (st_glex (wc_steps wc2 ! (stepidx - 1))) (rs_body rsp) (wc_vars wc2) of
                               (Inl e, vs) \<Rightarrow> (Inl e, wc2\<lparr>wc_vars := vs\<rparr>)
                             | (Inr _, vs) \<Rightarrow> going_on (wc2\<lparr>wc_vars := vs\<rparr>))
                          else going_on wc2)
                   else going_on wc1))))"

subsection \<open>The commands of a request\<close>

text \<open>
  \<open>value_p\<close> looks for \<open>key=\<close> in a command line. \<open>std::search\<close> answers the end of the line
  for a key that is not there, never 0, so the code goes on from behind the line; the byte
  behind the buffer is the terminating 0.
\<close>

definition value_p :: "string \<Rightarrow> string \<Rightarrow> nat \<Rightarrow> nat \<Rightarrow> (nat \<times> nat) option outcome" where
  "value_p buf k b e =
     (let p = search_in k buf b e + length k in
      if p > length buf then Inl Undefined
      else if p = length buf \<or> buf ! p \<noteq> CHR ''='' then Inr None
      else let q = p + 1 in
        Inr (Some (q, if q < e then q + length (takeWhile (\<lambda>c. \<not> c_isspace c) (slice buf q e)) else q)))"

definition skipspace :: "string \<Rightarrow> nat \<Rightarrow> nat \<Rightarrow> nat" where
  "skipspace buf b e = b + length (takeWhile c_isspace (slice buf b e))"

record cmd_state =
  cm_wc :: wcstat
  cm_out :: string
  cm_vars :: smap

text \<open>The text from \<open>val.first\<close> to \<open>val.second\<close>; a value found behind the line is empty.\<close>

definition val_text :: "string \<Rightarrow> nat \<times> nat \<Rightarrow> string" where
  "val_text buf v = slice buf (fst v) (snd v)"

definition ch_variables :: "string \<Rightarrow> nat \<Rightarrow> nat \<Rightarrow> cmd_state \<Rightarrow> string option outcome \<times> cmd_state" where
  "ch_variables buf b e s =
     (case value_p buf ''IMEI'' b e of Inl f \<Rightarrow> (Inl f, s) | Inr None \<Rightarrow> (Inr (Some ''Ch vars error''), s)
      | Inr (Some imei) \<Rightarrow>
     (case value_p buf ''IMSI'' b e of Inl f \<Rightarrow> (Inl f, s) | Inr None \<Rightarrow> (Inr (Some ''Ch vars error''), s)
      | Inr (Some imsi) \<Rightarrow>
     (case value_p buf ''SMSC'' b e of Inl f \<Rightarrow> (Inl f, s) | Inr None \<Rightarrow> (Inr (Some ''Ch vars error''), s)
      | Inr (Some smsc) \<Rightarrow>
        let vs = map_put ''SMSC'' (val_text buf smsc) (map_put ''IMSI'' (val_text buf imsi)
                   (map_put ''IMEI'' (val_text buf imei) (cm_vars s)))
        in (Inr None, s\<lparr>cm_vars := vs, cm_wc := (cm_wc s)\<lparr>wc_vars := map_insert vs (wc_vars (cm_wc s))\<rparr>\<rparr>))))"

text \<open>The results of \<open>wapinit\<close> and \<open>wapnext\<close> are not looked at.\<close>

definition run_reply :: "cmd_state \<Rightarrow> reply outcome \<times> wcstat \<Rightarrow> string option outcome \<times> cmd_state" where
  "run_reply s r = (case r of
     (Inl e, wc) \<Rightarrow> (Inl e, s\<lparr>cm_wc := wc\<rparr>)
   | (Inr (Reply t), wc) \<Rightarrow> (Inr None, s\<lparr>cm_wc := wc, cm_out := t\<rparr>)
   | (Inr (Refused _), wc) \<Rightarrow> (Inr None, s\<lparr>cm_wc := wc\<rparr>))"

definition ch_session :: "wap_env \<Rightarrow> string \<Rightarrow> string \<Rightarrow> nat \<Rightarrow> nat \<Rightarrow> int \<Rightarrow> cmd_state \<Rightarrow>
    string option outcome \<times> cmd_state" where
  "ch_session env cname buf b e endc s =
     (case value_p buf ''trac'' b e of
        Inl f \<Rightarrow> (Inl f, s)
      | Inr None \<Rightarrow> (Inr (Some ''trac error''), s)
      | Inr (Some val) \<Rightarrow>
         (case atoi (drop (fst val) buf) of
            Inl f \<Rightarrow> (Inl f, s)
          | Inr n \<Rightarrow>
              let trac = n mod 4294967296 in
              if cname = ''Ch-Init'' then
                (if trac \<noteq> 0 then (Inr (Some ''trac should zero''), s)
                 else run_reply s (wapinit env buf (int e) endc
                   ((wcstat_new env (wc_cid (cm_wc s)))\<lparr>wc_vars := cm_vars s\<rparr>)))
              else if trac = 0 \<or> trac > int (length (wc_steps (cm_wc s))) then
                (Inr (Some ''trac val error''), s)
              else run_reply s (wapnext env buf (int e) endc (nat trac) (cm_wc s))))"

text \<open>
  One pass of the loop in \<open>commands\<close> over the line from \<open>b\<close> to \<open>e\<close>: the state and the
  position of the next command, which is outside of the buffer for a wrong \<open>size\<close>.
\<close>

definition command_line :: "wap_env \<Rightarrow> string \<Rightarrow> nat \<Rightarrow> nat \<Rightarrow> cmd_state \<Rightarrow>
    (string option \<times> int) outcome \<times> cmd_state" where
  "command_line env buf b e s =
     (case value_p buf ''size'' b e of
        Inl f \<Rightarrow> (Inl f, s)
      | Inr sz \<Rightarrow>
         (case (case sz of None \<Rightarrow> Inr 0 | Some v \<Rightarrow> atoi (drop (fst v) buf)) of
            Inl f \<Rightarrow> (Inl f, s)
          | Inr n \<Rightarrow>
              let endc = int e + n; cname = first_tok (slice buf b e) in
              if endc < 0 \<or> int (length buf) < endc then (Inl Undefined, s)
              else
                (case (if cname = ''Ch-Variables'' then ch_variables buf b e s
                       else if cname = ''Ch-Response'' \<or> cname = ''Ch-Init'' then ch_session env cname buf b e endc s
                       else (Inr None, s)) of
                   (Inl f, s1) \<Rightarrow> (Inl f, s1)
                 | (Inr err, s1) \<Rightarrow> (Inr (err, endc), s1))))"

text \<open>\<open>None\<close>: the loop never ends.\<close>

partial_function (option) commands_loop :: "wap_env \<Rightarrow> string \<Rightarrow> nat \<Rightarrow> cmd_state \<Rightarrow>
    (string option outcome \<times> cmd_state) option" where
  "commands_loop env buf first s =
     (let b = skipspace buf first (length buf);
          nl = find_in newline buf b (length buf);
          e = (if nl < length buf then nl + 1 else nl)
      in if b \<ge> e then Some (Inr None, s)
         else (case command_line env buf b e s of
                 (Inl f, s1) \<Rightarrow> Some (Inl f, s1)
               | (Inr (err, endc), s1) \<Rightarrow>
                   (case err of Some m \<Rightarrow> Some (Inr (Some m), s1)
                    | None \<Rightarrow> commands_loop env buf (nat endc) s1)))"

definition commands :: "wap_env \<Rightarrow> string \<Rightarrow> wcstat \<Rightarrow> string \<Rightarrow> (string option outcome \<times> cmd_state) option" where
  "commands env bodydata wc out0 = commands_loop env bodydata 0 \<lparr>cm_wc = wc, cm_out = out0, cm_vars = []\<rparr>"

subsection \<open>What rendering a step changes\<close>

definition same_but_max :: "wcstat \<Rightarrow> wcstat \<Rightarrow> bool" where
  "same_but_max wc wc' \<longleftrightarrow> wc' = wc\<lparr>maxdownload := maxdownload wc'\<rparr>"

lemma same_refl [simp]: "same_but_max wc wc"
  by (simp add: same_but_max_def)

lemma same_trans: "same_but_max a b \<Longrightarrow> same_but_max b c \<Longrightarrow> same_but_max a c"
  unfolding same_but_max_def by (metis wcstat.update_convs(6) wcstat.surjective wcstat.select_convs(6))

lemma step_heads_keeps: "same_but_max wc (snd (step_heads path hs part wc))"
proof (induction path hs part wc rule: step_heads.induct)
  case (2 path n v hs part wc)
  have "same_but_max wc (wc\<lparr>maxdownload := k\<rparr>)" for k by (simp add: same_but_max_def)
  then show ?case using 2 by (auto split: sum.splits intro: same_trans)
qed simp

lemma step_part_keeps: "same_but_max wc (snd (step_part req wc))"
  unfolding step_part_def using step_heads_keeps [of wc]
  by (auto simp: Let_def split: sum.splits prod.splits) (metis snd_conv)+

lemma step_go_keeps: "same_but_max wc (snd (step_go req inc wc trac))"
  unfolding step_go_def using step_part_keeps [of wc req]
  by (auto simp: Let_def split: sum.splits prod.splits)

lemma step_go_same: "step_go req inc wc trac = (r, wc1) \<Longrightarrow> same_but_max wc wc1"
  using step_go_keeps by (metis snd_conv)

lemma auto_loop_keeps:
  "same_but_max wc (snd (auto_loop vs rsp sreq wc trac)) \<and>
    (\<forall>e. fst (auto_loop vs rsp sreq wc trac) \<noteq> Inl (Thrown e))"
proof (induction vs arbitrary: wc)
  case (Cons v vs)
  show ?case using Cons
    by (auto split: sum.splits option.splits fault.splits prod.splits dest!: step_go_same intro: same_trans)
qed simp

subsection \<open>Calls that end\<close>

definition ends :: "'a outcome \<Rightarrow> bool" where
  "ends r \<longleftrightarrow> r \<noteq> Inl Endless"

lemma ends_simps [simp]: "ends (Inr x)" "ends (Inl e) \<longleftrightarrow> e \<noteq> Endless"
  by (simp_all add: ends_def)

lemma ends_bind [intro]: "ends r \<Longrightarrow> (\<And>x. r = Inr x \<Longrightarrow> ends (f x)) \<Longrightarrow> ends (bind_ok r f)"
  by (cases r) simp_all

lemma ends_map [simp]: "ends (map_sum id f r) = ends r"
  by (cases r) simp_all

text \<open>The same for calls that give back the state with their outcome.\<close>

lemma ends_sum: "ends x \<Longrightarrow> (\<And>y. x = Inr y \<Longrightarrow> ends (fst (f y))) \<Longrightarrow> ends (fst (case x of Inl e \<Rightarrow> (Inl e, w) | Inr y \<Rightarrow> f y))"
  by (cases x) simp_all

lemma ends_option: "ends (fst a) \<Longrightarrow> (\<And>y. x = Some y \<Longrightarrow> ends (fst (f y))) \<Longrightarrow> ends (fst (case x of None \<Rightarrow> a | Some y \<Rightarrow> f y))"
  by (cases x) simp_all

lemma ends_if: "ends (fst a) \<Longrightarrow> ends (fst b) \<Longrightarrow> ends (fst (if c then a else b))"
  by simp

lemmas ends_rules = ends_sum ends_option ends_if

text \<open>Each turn of \<open>unescape\<close> makes the text shorter, or is the last but one.\<close>

lemma unescape_loop_some: "length esc < fuel \<Longrightarrow> \<exists>r. unescape_loop 32 fuel esc pos = Some r"
proof (induction fuel arbitrary: esc pos)
  case (Suc fuel)
  define p where "p = find_pos 32 ''&amp;'' esc pos mod 4294967296"
  define p1 where "p1 = (p + 1) mod 4294967296"
  have eq: "unescape_loop 32 (Suc fuel) esc pos =
      (if p = 4294967295 then Some (Inr esc)
       else if length esc < p1 then Some (Inl (Thrown ''basic_string::erase''))
       else unescape_loop 32 fuel (take p1 esc @ drop (p1 + 4) esc) p1)"
    by (simp add: p_def p1_def Let_def)
  show ?case
  proof (cases "p = 4294967295 \<or> length esc \<le> p1")
    case True
    then consider "p = 4294967295" | "length esc < p1" | "p \<noteq> 4294967295" "p1 = length esc" by linarith
    then show ?thesis
    proof cases
      case 3
      have "p < 4294967296" by (simp add: p_def)
      then have "p1 = p + 1" using 3(1) by (simp add: p1_def)
      then have "0 < length esc" using 3(2) by simp
      then obtain g where g: "fuel = Suc g" using Suc.prems by (cases fuel) auto
      have "search_in ''&amp;'' esc (length esc) (length esc) = length esc" by (simp add: search_in.simps)
      then have "find_pos 32 ''&amp;'' esc (length esc) = 4294967295" by (simp add: find_pos_def)
      then have "unescape_loop 32 fuel esc (length esc) = Some (Inr esc)" by (simp add: g)
      then show ?thesis unfolding eq using 3 by simp
    next
      case 1
      then show ?thesis unfolding eq by simp
    next
      case 2
      then show ?thesis unfolding eq by simp
    qed
  next
    case False
    then have "length (take p1 esc @ drop (p1 + 4) esc) < fuel" using Suc.prems by simp linarith
    from Suc.IH [OF this] show ?thesis unfolding eq using False by simp
  qed
qed simp

lemma unescape_ends: "ends (unescape url)"
proof -
  obtain r where r: "unescape_loop 32 (Suc (length url)) url 0 = Some r" using unescape_loop_some [of url "Suc (length url)" 0] by auto
  have "r \<noteq> Inl Endless" if "unescape_loop 32 fuel esc pos = Some r" for fuel esc pos
    using that by (induction fuel arbitrary: esc pos) (auto simp: Let_def split: if_splits)
  then show ?thesis using r by (simp add: unescape_def ends_def del: unescape_loop.simps)
qed

lemma atoi_ends: "ends (atoi s)"
  by (auto simp: atoi_def Let_def split: prod.splits)

lemma subst_ends: "ends (subst s vars)"
proof -
  have "ends (subst_loop vars cont h ret)" for cont h ret
    by (induction vars cont h ret rule: subst_loop.induct) (subst subst_loop.simps, auto simp: Let_def split: option.splits)
  then show ?thesis by (simp add: subst_def)
qed

lemma glex_ends: "ends (glex ex s)"
  unfolding glex_def globex_def by (auto simp: Let_def split: option.splits extraction.splits)

lemma pop_raw_ends: "ends (pop_raw n b)"
  by (simp add: pop_raw_def)

lemma pop_int_ends: "ends (pop_int k sgnd b)"
  by (auto simp: pop_int_def intro: pop_raw_ends split: prod.splits)

lemma pop_string_ends: "ends (pop_string ic k sgnd u b)"
  unfolding pop_string_def by (intro ends_bind pop_int_ends) (auto intro!: ends_bind pop_raw_ends split: prod.splits)

lemma split1_ends: "ends (split1 k v s any)"
  unfolding split1_def Let_def by (simp only: split: if_split) (simp only: ends_simps fault.distinct simp_thms)

lemmas ends_basic = unescape_ends atoi_ends subst_ends glex_ends pop_raw_ends pop_int_ends pop_string_ends split1_ends

lemma request_init_ends: "ends (request_init first hs body r)"
  by (auto simp: request_init_def Let_def intro: ends_basic split: option.splits)

lemma makersp_ends: "ends (makersp lc buf r)"
proof -
  have ct: "ends (content_type t r)" for t r
    unfolding content_type_def by (auto simp: Let_def intro!: ends_bind ends_basic split: prod.splits)
  show ?thesis unfolding makersp_def by (auto simp: Let_def intro!: ends_bind ct split: prod.splits option.splits list.splits)
qed

lemma set_cookies_ends: "ends (set_cookies m hds)"
  by (induction m hds rule: set_cookies.induct) (auto intro!: ends_bind ends_basic split: prod.splits)

lemma step_heads_ends: "ends (fst (step_heads path hs part wc))"
proof (induction path hs part wc rule: step_heads.induct)
  case (2 path n v hs part wc)
  then show ?case using atoi_ends [of v] subst_ends [of v "map_of (wc_vars wc)"] by (auto split: sum.splits)
qed simp

lemma step_part_ends: "ends (fst (step_part req wc))"
proof -
  have p: "ends (bind_ok (subst (rq_path req) (map_of (wc_vars wc))) unescape)" by (intro ends_bind ends_basic)
  show ?thesis
  proof (cases "bind_ok (subst (rq_path req) (map_of (wc_vars wc))) unescape")
    case (Inl e)
    then show ?thesis using p by (simp add: step_part_def)
  next
    case (Inr path)
    then show ?thesis using step_heads_ends [of path "rq_head req" "rq_method req @ '' '' @ path @ '' '' @ rq_ver req @ crlf" wc]
      by (auto simp: step_part_def Let_def intro!: ends_bind ends_basic split: prod.splits sum.splits)
  qed
qed

lemma step_go_ends: "ends (fst (step_go req inc wc trac))"
  using step_part_ends [of req wc] by (auto simp: step_go_def Let_def split: prod.splits sum.splits)

lemma step_fwd_ends: "ends (fst (step_fwd wc i))"
  by (auto simp: step_fwd_def Let_def intro: step_go_ends)

lemma fwd_3xx_ends: "ends (fst (fwd_3xx rsp sreq wc trac))"
proof -
  have "ends (fst (case step_go r inc wc t of (x, w) \<Rightarrow> (map_sum id Some x, w)))" for r inc t
    using step_go_ends [of r inc wc t] by (cases "step_go r inc wc t") simp
  then show ?thesis using unescape_ends by (auto simp: fwd_3xx_def ends_def split: option.splits sum.splits)
qed

lemma auto_loop_ends: "ends (fst (auto_loop vs rsp sreq wc trac))"
proof (induction vs arbitrary: wc)
  case (Cons v vs)
  have g: "ends (bind_ok (glex v (rs_body rsp)) (\<lambda>url. if url = [] then Inr None else bind_ok (unescape url) (\<lambda>u. Inr (Some u))))"
    by (auto intro!: ends_bind ends_basic)
  have s: "ends (fst (case step_go r inc wc t of (Inr b, wc1) \<Rightarrow> (Inr (Some b), wc1)
      | (Inl (Thrown e), wc1) \<Rightarrow> auto_loop vs rsp sreq wc1 trac | (Inl e, wc1) \<Rightarrow> (Inl e, wc1)))" for r inc t
    using step_go_ends [of r inc wc t] Cons by (auto split: prod.splits sum.splits fault.splits)
  show ?case unfolding auto_loop.simps using g s Cons by (auto split: sum.splits option.splits fault.splits)
qed simp

lemma auto_fwd_ends: "ends (fst (auto_fwd rsp sreq wc trac))"
  by (simp add: auto_fwd_def auto_loop_ends)

lemma extract_vars_ends: "ends (fst (extract_vars gs body vars))"
proof (induction gs body vars rule: extract_vars.induct)
  case (2 n ex gs body vars)
  then show ?case using glex_ends [of ex body] by (auto simp: Let_def split: sum.splits)
qed simp

lemma init_glex_ends: "ends (init_glex env n b)"
  by (induction env n b rule: init_glex.induct) (auto intro!: ends_bind ends_basic split: prod.splits)

lemma init_step_ends: "ends (init_step env b)"
  unfolding init_step_def by (intro ends_bind ends_basic, auto intro!: ends_bind ends_basic request_init_ends init_glex_ends split: prod.splits)

lemma init_steps_ends: "ends (fst (init_steps env n b wc))"
proof (induction env n b wc rule: init_steps.induct)
  case (2 env n b wc)
  then show ?case using init_step_ends [of env b] by (auto split: sum.splits)
qed simp

lemma init_smblock_ends: "ends (init_smblock env idcode b)"
proof -
  have f: "ends (skip_filters env n b)" for n b
    by (induction env n b rule: skip_filters.induct) (auto intro!: ends_bind ends_basic split: prod.splits)
  show ?thesis unfolding init_smblock_def by (auto intro!: ends_bind ends_basic f split: prod.splits)
qed

lemma wapinit_ends: "ends (fst (wapinit env buf body ende wc))"
proof -
  have hd: "ends (bind_ok (pop_raw 4 q) (\<lambda>x. bind_ok (pop_int 1 False (snd x)) (\<lambda>y. Inr (fst x, y))))" for q
    by (auto intro!: ends_bind ends_basic)
  show ?thesis
    unfolding wapinit_def Let_def prod.case_eq_if
    by (intro ends_rules) (simp_all add: hd [simplified] init_steps_ends pop_int_ends init_smblock_ends step_fwd_ends)
qed

lemma wapnext_ends: "ends (fst (wapnext env buf body ende i wc))"
  unfolding wapnext_def Let_def prod.case_eq_if
  by (intro ends_rules) (simp_all add: makersp_ends set_cookies_ends fwd_3xx_ends auto_fwd_ends extract_vars_ends step_fwd_ends)

subsection \<open>The command loop ends when no size is negative\<close>

text \<open>The line that begins at a position, and the number taken for its size.\<close>

definition line_at :: "string \<Rightarrow> nat \<Rightarrow> nat \<times> nat" where
  "line_at buf first =
     (let b = skipspace buf first (length buf);
          nl = find_in newline buf b (length buf)
      in (b, if nl < length buf then nl + 1 else nl))"

definition size_at :: "string \<Rightarrow> nat \<Rightarrow> nat \<Rightarrow> int outcome" where
  "size_at buf b e = bind_ok (value_p buf ''size'' b e) (\<lambda>sz. case sz of None \<Rightarrow> Inr 0 | Some v \<Rightarrow> atoi (drop (fst v) buf))"

text \<open>The positions the loop comes to.\<close>

inductive visited :: "string \<Rightarrow> nat \<Rightarrow> bool" for buf where
  visited_start: "visited buf 0"
| visited_next: "visited buf p \<Longrightarrow> line_at buf p = (b, e) \<Longrightarrow> b < e \<Longrightarrow> size_at buf b e = Inr n \<Longrightarrow> 0 \<le> int e + n \<Longrightarrow>
    visited buf (nat (int e + n))"

definition sizes_ok :: "string \<Rightarrow> bool" where
  "sizes_ok buf \<longleftrightarrow> (\<forall>p b e n. visited buf p \<and> line_at buf p = (b, e) \<and> b < e \<and> size_at buf b e = Inr n \<longrightarrow> 0 \<le> n)"

lemma command_line_next:
  assumes "command_line env buf b e s = (Inr (err, endc), s1)"
  shows "\<exists>n. size_at buf b e = Inr n \<and> endc = int e + n \<and> 0 \<le> endc \<and> endc \<le> int (length buf)"
  using assms by (auto simp: command_line_def size_at_def Let_def split: sum.splits if_splits prod.splits)

lemma command_line_ends: "ends (fst (command_line env buf b e s))"
proof -
  have v: "ends (value_p buf k b e)" for k by (simp add: value_p_def Let_def)
  have run: "ends (fst (run_reply s r))" if "ends (fst r)" for s r
    using that by (auto simp: run_reply_def split: prod.splits sum.splits reply.splits)
  have chv: "ends (fst (ch_variables buf b e s))"
    unfolding ch_variables_def Let_def by (intro ends_rules) (simp_all add: v)
  have chs: "ends (fst (ch_session env cname buf b e endc s))" for cname endc
    unfolding ch_session_def Let_def by (intro ends_rules) (simp_all add: v atoi_ends run wapinit_ends wapnext_ends)
  have sz: "ends (case x of None \<Rightarrow> Inr 0 | Some y \<Rightarrow> atoi (drop (fst y) buf))" for x :: "(nat \<times> nat) option"
    using atoi_ends by (cases x) simp_all
  show ?thesis
    unfolding command_line_def Let_def prod.case_eq_if by (intro ends_rules) (simp_all add: v sz chv chs)
qed

lemma commands_loop_returns:
  assumes "sizes_ok buf"
  shows "visited buf first \<Longrightarrow> first \<le> length buf \<Longrightarrow> \<exists>r s1. commands_loop env buf first s = Some (r, s1) \<and> ends r"
proof (induction "length buf - first" arbitrary: first s rule: less_induct)
  case less
  obtain b e where be: "line_at buf first = (b, e)" by fastforce
  have unfolded: "commands_loop env buf first s =
      (if b \<ge> e then Some (Inr None, s)
       else (case command_line env buf b e s of
               (Inl f, s1) \<Rightarrow> Some (Inl f, s1)
             | (Inr (err, endc), s1) \<Rightarrow>
                 (case err of Some m \<Rightarrow> Some (Inr (Some m), s1)
                  | None \<Rightarrow> commands_loop env buf (nat endc) s1)))"
    using be by (subst commands_loop.simps) (simp only: Let_def line_at_def prod.inject, elim conjE, simp only:)
  show ?case
  proof (cases "b \<ge> e")
    case True
    then show ?thesis using unfolded by simp
  next
    case False
    obtain r s1 where c: "command_line env buf b e s = (r, s1)" by fastforce
    show ?thesis
    proof (cases r)
      case (Inl f)
      then show ?thesis using unfolded c False command_line_ends [of env buf b e s] by simp
    next
      case (Inr p)
      then obtain err endc where r: "r = Inr (err, endc)" by (cases p) simp
      then obtain n where n: "size_at buf b e = Inr n" "endc = int e + n" "0 \<le> endc" "endc \<le> int (length buf)"
        using command_line_next [of env buf b e s err endc s1] c by blast
      have "0 \<le> n" using assms less.prems(1) be False n(1) unfolding sizes_ok_def by (metis not_le)
      moreover have "first \<le> b" using be by (auto simp: line_at_def skipspace_def Let_def)
      ultimately have "length buf - nat endc < length buf - first" "nat endc \<le> length buf"
        using False n by auto
      moreover have "visited buf (nat endc)" using visited_next [OF less.prems(1) be _ n(1)] False n by simp
      ultimately obtain r' s' where "commands_loop env buf (nat endc) s1 = Some (r', s')" "ends r'" using less.hyps by blast
      then show ?thesis using unfolded c r False by (cases err) simp_all
    qed
  qed
qed

subsection \<open>Bounds of a new session\<close>

lemma pop_int_byte:
  assumes "pop_int 1 False b = Inr (n, b')"
  shows "0 \<le> n \<and> n < 256"
proof -
  obtain bs where bs: "pop_raw 1 b = Inr (bs, b')" "n = be_val bs"
    using assms by (auto simp: pop_int_def)
  then have "length bs \<le> 1" by (auto simp: pop_raw_def split: if_splits)
  moreover have "(of_char c :: int) = int (of_char c)" for c by (simp add: of_nat_of_char)
  ultimately show ?thesis using bs(2) nat_of_char_less_256
    by (cases bs) (auto simp: of_nat_less_iff [of _ 256, symmetric])
qed

lemma init_steps_count:
  "init_steps env n b wc = (Inr b', wc') \<Longrightarrow>
    length (wc_steps wc') = length (wc_steps wc) + n \<and> wc' = wc\<lparr>wc_steps := wc_steps wc'\<rparr>"
  by (induction env n b wc rule: init_steps.induct) (auto split: sum.splits)

lemma step_fwd_first:
  assumes "wc_steps wc \<noteq> []"
  shows "\<exists>m. snd (step_fwd wc 0) = wc\<lparr>stepx := stepx wc + 1, maxdownload := m\<rparr>"
proof -
  have "same_but_max (wc\<lparr>stepx := stepx wc + 1\<rparr>) (snd (step_fwd wc 0))"
    using assms step_go_keeps by (auto simp: step_fwd_def)
  then show ?thesis unfolding same_but_max_def by auto
qed

subsection \<open>The laps of a session\<close>

text \<open>
  The steps a session answers with: its first one, and then each time the phone has answered a
  step the one behind it, \<open>wapnext\<close> going on with the number of the step that was answered
  (steps count from 1). \<open>cs k\<close> and \<open>vs k\<close> are the cookies and the variables as that answer
  has left them.
\<close>

primrec answers :: "(nat \<Rightarrow> smap) \<Rightarrow> (nat \<Rightarrow> smap) \<Rightarrow> nat \<Rightarrow> wcstat \<Rightarrow> string outcome \<times> wcstat" where
  "answers cs vs 0 wc = step_fwd wc 0"
| "answers cs vs (Suc k) wc =
     step_fwd ((snd (answers cs vs k wc))\<lparr>wc_cookies := cs k, wc_vars := vs k\<rparr>) (k mod length (wc_steps wc) + 1)"

lemma same_fields:
  assumes "same_but_max wc wc'"
  shows "wc_steps wc' = wc_steps wc \<and> n_repeat wc' = n_repeat wc"
proof -
  have "wc' = wc\<lparr>maxdownload := maxdownload wc'\<rparr>" using assms by (simp add: same_but_max_def)
  then show ?thesis by (metis wcstat.select_convs(5,8) wcstat.surjective wcstat.update_convs(6))
qed

lemma step_fwd_last:
  assumes "wc_steps wc \<noteq> []"
  shows "step_fwd wc (length (wc_steps wc)) =
    (if n_repeat wc = 1 then (Inr (assign_rsp 200 ''FIN'' ''''), wc\<lparr>n_repeat := 0\<rparr>)
     else step_go (st_req (wc_steps wc ! 0)) (st_glex (wc_steps wc ! 0) \<noteq> [])
       (wc\<lparr>n_repeat := n_repeat wc - 1, stepx := stepx wc + 1\<rparr>) 1)"
  using assms by (auto simp: step_fwd_def Let_def)

lemma step_fwd_inner:
  assumes "i < length (wc_steps wc)"
  shows "step_fwd wc i = step_go (st_req (wc_steps wc ! i)) (st_glex (wc_steps wc ! i) \<noteq> []) (wc\<lparr>stepx := stepx wc + 1\<rparr>) (int i + 1)"
  using assms by (simp add: step_fwd_def Let_def)

text \<open>What one answer of the session does to the steps and the laps that are left.\<close>

lemma step_fwd_state:
  assumes "i \<le> length (wc_steps wc)" "wc_steps wc \<noteq> []"
  shows "wc_steps (snd (step_fwd wc i)) = wc_steps wc \<and>
    n_repeat (snd (step_fwd wc i)) = (if i = length (wc_steps wc) then n_repeat wc - 1 else n_repeat wc)"
proof (cases "i = length (wc_steps wc)")
  case True
  then show ?thesis using step_fwd_last [OF assms(2)]
      same_fields [OF step_go_keeps [of "wc\<lparr>n_repeat := n_repeat wc - 1, stepx := stepx wc + 1\<rparr>"]] by simp
next
  case False
  then show ?thesis using step_fwd_inner [of i wc] assms(1) same_fields [OF step_go_keeps [of "wc\<lparr>stepx := stepx wc + 1\<rparr>"]] by simp
qed

lemma answers_state:
  assumes "wc_steps wc \<noteq> []"
  shows "wc_steps (snd (answers cs vs k wc)) = wc_steps wc \<and>
    n_repeat (snd (answers cs vs k wc)) = n_repeat wc - of_nat (k div length (wc_steps wc))"
proof (induction k)
  case 0
  then show ?case using step_fwd_state [of 0 wc] assms by simp
next
  case (Suc k)
  let ?w = "(snd (answers cs vs k wc))\<lparr>wc_cookies := cs k, wc_vars := vs k\<rparr>" and ?L = "length (wc_steps wc)"
  have w: "wc_steps ?w = wc_steps wc" "n_repeat ?w = n_repeat wc - of_nat (k div ?L)" using Suc by simp_all
  have "k mod ?L < ?L" using assms by simp
  then have "k mod ?L + 1 \<le> ?L" by linarith
  note st = step_fwd_state [of "k mod ?L + 1" ?w, unfolded w(1), OF this assms]
  have "Suc k div ?L = (if k mod ?L + 1 = ?L then Suc (k div ?L) else k div ?L)"
    by (simp add: div_Suc mod_Suc)
  then show ?case using st w(2) by simp
qed

lemma answers_render:
  assumes "wc_steps wc \<noteq> []" "k mod length (wc_steps wc) = 0 \<longrightarrow> k = 0 \<or> n_repeat (snd (answers cs vs (k - 1) wc)) \<noteq> 1"
  shows "\<exists>w. wc_steps w = wc_steps wc \<and> (k \<noteq> 0 \<longrightarrow> wc_cookies w = cs (k - 1) \<and> wc_vars w = vs (k - 1)) \<and>
    fst (answers cs vs k wc) = fst (step_go (st_req (wc_steps wc ! (k mod length (wc_steps wc))))
      (st_glex (wc_steps wc ! (k mod length (wc_steps wc))) \<noteq> []) w (int (k mod length (wc_steps wc)) + 1))"
proof (cases k)
  case 0
  then show ?thesis using assms(1) step_fwd_inner [of 0 wc] by (intro exI [of _ "wc\<lparr>stepx := stepx wc + 1\<rparr>"]) simp
next
  case (Suc j)
  let ?w = "(snd (answers cs vs j wc))\<lparr>wc_cookies := cs j, wc_vars := vs j\<rparr>" and ?L = "length (wc_steps wc)"
  have w: "wc_steps ?w = wc_steps wc" "n_repeat ?w = n_repeat (snd (answers cs vs j wc))"
    using answers_state [OF assms(1)] by simp_all
  have j: "j mod ?L < ?L" using assms(1) by simp
  show ?thesis
  proof (cases "j mod ?L + 1 = ?L")
    case True
    then have k: "k mod ?L = 0" by (simp add: Suc mod_Suc)
    then have "n_repeat ?w \<noteq> 1" using assms(2) Suc w(2) by simp
    then have "fst (answers cs vs k wc) = fst (step_go (st_req (wc_steps wc ! 0)) (st_glex (wc_steps wc ! 0) \<noteq> [])
        (?w\<lparr>n_repeat := n_repeat ?w - 1, stepx := stepx ?w + 1\<rparr>) 1)"
      using step_fwd_last [of ?w] assms(1) w(1) True by (simp add: Suc)
    then show ?thesis using w(1) k Suc by (intro exI [of _ "?w\<lparr>n_repeat := n_repeat ?w - 1, stepx := stepx ?w + 1\<rparr>"]) simp
  next
    case False
    then have i: "j mod ?L + 1 < ?L" "k mod ?L = j mod ?L + 1" using j by (auto simp: Suc mod_Suc)
    then show ?thesis using step_fwd_inner [of "j mod ?L + 1" ?w] w(1) Suc
      by (intro exI [of _ "?w\<lparr>stepx := stepx ?w + 1\<rparr>"]) simp
  qed
qed

lemma laps_left: "i \<le> unat (n::u32) \<Longrightarrow> unat (n - of_nat i) = unat n - i"
proof -
  assume i: "i \<le> unat n"
  then have "i < 2 ^ 32" using unsigned_less [of n, where 'a = nat] by simp
  then have "unat (of_nat i :: u32) = i" by (simp add: unat_of_nat)
  then show ?thesis using i by (simp add: unat_sub word_le_nat_alt)
qed

text \<open>
  C12: a session with \<open>n_repeat\<close> laps over its steps. As long as the phone answers each step it
  was given, the session goes through its steps in their order, rendering each with the
  cookies and variables of that moment, begins again with the first behind the last, and
  answers \<open>FIN\<close> exactly when the last step of the last lap is answered. An answer more to
  the last step wraps the unsigned counter to 4294967295 laps.
\<close>

theorem session_laps:
  assumes "wc_steps wc \<noteq> []" and "k \<le> unat (n_repeat wc) * length (wc_steps wc)" and "0 < n_repeat wc"
    and "L = length (wc_steps wc)"
  shows "(if k = unat (n_repeat wc) * L then fst (answers cs vs k wc) = Inr (assign_rsp 200 ''FIN'' '''')
     else (\<exists>w. wc_steps w = wc_steps wc \<and> (k \<noteq> 0 \<longrightarrow> wc_cookies w = cs (k - 1) \<and> wc_vars w = vs (k - 1)) \<and>
       fst (answers cs vs k wc) =
         fst (step_go (st_req (wc_steps wc ! (k mod L))) (st_glex (wc_steps wc ! (k mod L)) \<noteq> []) w (int (k mod L) + 1)))) \<and>
    unat (n_repeat (snd (answers cs vs k wc))) = unat (n_repeat wc) - k div L \<and>
    unat (n_repeat (snd (step_fwd (snd (answers cs vs (unat (n_repeat wc) * L) wc)) L))) = 4294967295"
proof -
  let ?R = "unat (n_repeat wc)"
  have L: "0 < L" and R: "0 < ?R" using assms(1,3,4) by (simp_all add: unat_gt_0)
  have kl: "k div L \<le> ?R" using assms(2,4) L by (metis div_le_mono nonzero_mult_div_cancel_right less_numeral_extra(3))
  have n: "unat (n_repeat (snd (answers cs vs i wc))) = ?R - i div L" if "i div L \<le> ?R" for i
    using answers_state [OF assms(1), of cs vs i] laps_left [OF that] assms(4) by simp
  have fin: "fst (answers cs vs k wc) = Inr (assign_rsp 200 ''FIN'' '''')" if k: "k = ?R * L"
  proof -
    have "0 < k" using k L R by simp
    then obtain j where j: "k = Suc j" by (cases k) auto
    have jm: "j mod L + 1 = L" "j div L = ?R - 1"
      using k j L R by (metis Suc_eq_plus1 Suc_mult_le_cancel1 add_diff_cancel_left' diff_Suc_1 div_Suc mod_Suc mod_mult_self2_is_0 mult.commute nat.simps(3) nonzero_mult_div_cancel_right less_numeral_extra(3))+
    let ?w = "(snd (answers cs vs j wc))\<lparr>wc_cookies := cs j, wc_vars := vs j\<rparr>"
    have "wc_steps ?w = wc_steps wc" "unat (n_repeat ?w) = 1"
      using answers_state [OF assms(1), of cs vs j] n [of j] jm(2) R by simp_all
    then have "n_repeat ?w = 1" by (metis unat_1 word_unat_eq_iff)
    then show ?thesis using step_fwd_last [of ?w] assms(1,4) jm(1) \<open>wc_steps ?w = wc_steps wc\<close> by (simp add: j)
  qed
  have go: "\<exists>w. wc_steps w = wc_steps wc \<and> (k \<noteq> 0 \<longrightarrow> wc_cookies w = cs (k - 1) \<and> wc_vars w = vs (k - 1)) \<and>
       fst (answers cs vs k wc) =
         fst (step_go (st_req (wc_steps wc ! (k mod L))) (st_glex (wc_steps wc ! (k mod L)) \<noteq> []) w (int (k mod L) + 1))"
    if k: "k \<noteq> ?R * L"
  proof -
    have "n_repeat (snd (answers cs vs (k - 1) wc)) \<noteq> 1" if z: "k mod L = 0" "k \<noteq> 0"
    proof -
      obtain j where j: "k = Suc j" using z(2) by (cases k) auto
      have "k div L < ?R" using kl k z(1) by (metis div_mult_mod_eq add.right_neutral le_neq_implies_less)
      then have "j div L + 1 < ?R" using z(1) j by (simp add: div_Suc)
      then have "unat (n_repeat (snd (answers cs vs j wc))) \<noteq> 1" using n [of j] by simp
      then show ?thesis using j by (metis diff_Suc_1 unat_1)
    qed
    then have "k mod length (wc_steps wc) = 0 \<longrightarrow> k = 0 \<or> n_repeat (snd (answers cs vs (k - 1) wc)) \<noteq> 1"
      unfolding assms(4) by argo
    from answers_render [OF assms(1) this] show ?thesis unfolding assms(4) .
  qed
  let ?e = "snd (answers cs vs (?R * L) wc)"
  have e: "wc_steps ?e = wc_steps wc" "n_repeat ?e = 0"
    using answers_state [OF assms(1), of cs vs "?R * L"] n [of "?R * L"] L by (simp_all add: unat_eq_zero [symmetric])
  have "n_repeat (snd (step_fwd ?e L)) = - 1"
    using step_fwd_state [of L ?e] e assms(1,4) by simp
  then have wrap: "unat (n_repeat (snd (step_fwd ?e L))) = 4294967295" by (simp add: unsigned_minus_1_eq_mask mask_eq_exp_minus_1)
  show ?thesis using fin go n [OF kl] wrap by simp
qed

definition demo_wap :: wap_env where
  "demo_wap = \<lparr>lex_u32 = demo_cast, lex_cid = (\<lambda>s. Some (int (digits_val 0 s))), iconv16 = Some, junk = 0\<rparr>"

definition demo_session :: wcstat where
  "demo_session = (wcstat_new demo_wap 7)\<lparr>wc_steps := [\<lparr>st_req = stepreq_new demo_wap, st_glex = []\<rparr>,
     \<lparr>st_req = stepreq_new demo_wap, st_glex = [(''a'', ''b'')]\<rparr>], n_repeat := 2\<rparr>"

theorem session_laps_witness:
  "fst (answers (\<lambda>_. []) (\<lambda>_. []) 4 demo_session) = Inr (assign_rsp 200 ''FIN'' '''') \<and>
    unat (n_repeat (snd (answers (\<lambda>_. []) (\<lambda>_. []) 3 demo_session))) = 1"
proof -
  let ?n = "\<lambda>_. [] :: smap"
  have d: "wc_steps demo_session \<noteq> []" "0 < n_repeat demo_session" "2 = length (wc_steps demo_session)" "unat (n_repeat demo_session) = 2"
    by (simp_all add: demo_session_def)
  have le: "4 \<le> unat (n_repeat demo_session) * length (wc_steps demo_session)" "3 \<le> unat (n_repeat demo_session) * length (wc_steps demo_session)"
    unfolding d(4) d(3) [symmetric] by simp_all
  have i: "(4 :: nat) = 2 * 2" "(2 :: nat) - 3 div 2 = 1" by simp_all
  have "fst (answers ?n ?n 4 demo_session) = Inr (assign_rsp 200 ''FIN'' '''')"
    using session_laps [OF d(1) le(1) d(2,3), of ?n ?n] unfolding d(4) i(1) [symmetric] by (simp only: simp_thms if_True)
  moreover have "unat (n_repeat (snd (answers ?n ?n 3 demo_session))) = 1"
    using session_laps [OF d(1) le(2) d(2,3), of ?n ?n] unfolding d(4) i(2) by (simp only: simp_thms)
  ultimately show ?thesis by blast
qed

text \<open>
  C24: the loop over the commands of a request ends, whatever the environment, the session and
  the request, as long as the number taken for \<open>size\<close> is not negative in any line the loop
  comes to: it ends with an answer, a refusal, an exception or an access outside of the
  request, but neither the loop nor a call in it (\<open>unescape\<close> in particular) goes on for ever.
\<close>

theorem commands_return:
  assumes "sizes_ok bodydata"
  shows "\<exists>r s. commands env bodydata wc rsp = Some (r, s) \<and> r \<noteq> Inl Endless"
  using commands_loop_returns [OF assms visited_start] by (auto simp: commands_def ends_def)

lemma demo_command_sizes: "sizes_ok ''Ch-Response trac=1 size=0''"
proof -
  let ?buf = "''Ch-Response trac=1 size=0''"
  have l: "line_at ?buf 0 = (0, 25)" "line_at ?buf 25 = (25, 25)" "size_at ?buf 0 25 = Inr 0"
    by code_simp+
  have "p = 0 \<or> p = 25" if "visited ?buf p" for p
    using that by (induction rule: visited.induct) (auto simp: l)
  then show ?thesis unfolding sizes_ok_def using l by fastforce
qed

theorem commands_return_witness:
  "\<exists>r s. commands demo_wap ''Ch-Response trac=1 size=0'' demo_session '''' = Some (r, s) \<and> r \<noteq> Inl Endless"
  by (rule commands_return [OF demo_command_sizes])

text \<open>
  a command whose \<open>size\<close> is the negated length of its own line is run again and again:
  the loop never returns, whatever the session.
\<close>

theorem negative_size_loops:
  "commands_loop env (''ping size=-14'' @ [newline]) 0 s = None"
proof -
  let ?buf = "''ping size=-14'' @ [newline]"
  have c: "command_line env ?buf 0 14 s = (Inr (None, 0), s)" for env s
  proof -
    have "value_p ?buf ''size'' 0 14 = Inr (Some (10, 13))" by code_simp
    moreover have "atoi (drop 10 ?buf) = Inr (-14)" by code_simp
    moreover have "first_tok (slice ?buf 0 14) = ''ping''" by code_simp
    ultimately show ?thesis by (simp add: command_line_def)
  qed
  have b: "skipspace ?buf 0 (length ?buf) = 0" "find_in newline ?buf 0 (length ?buf) = 13"
    by code_simp+
  have "\<not> (?buf = ?buf \<and> (0::nat) = 0)" if "commands_loop env ?buf 0 s = Some y" for y
  proof (rule commands_loop.raw_induct [where P = "\<lambda>env buf first s y. \<not> (buf = ?buf \<and> first = 0)", OF _ that])
    fix loop env' buf first s' y
    assume ih: "\<And>env' buf first s' y. loop env' buf first s' = Some y \<Longrightarrow> \<not> (buf = ?buf \<and> first = 0)"
      and step: "(let b = skipspace buf first (length buf); nl = find_in newline buf b (length buf);
          e = (if nl < length buf then nl + 1 else nl)
        in if b \<ge> e then Some (Inr None, s')
           else (case command_line env' buf b e s' of
               (Inl f, s1) \<Rightarrow> Some (Inl f, s1)
             | (Inr (err, endc), s1) \<Rightarrow>
                 (case err of Some m \<Rightarrow> Some (Inr (Some m), s1)
                  | None \<Rightarrow> loop env' buf (nat endc) s1))) = Some y"
    show "\<not> (buf = ?buf \<and> first = 0)"
    proof
      assume a: "buf = ?buf \<and> first = 0"
      then have "loop env' ?buf 0 s' = Some y" using step c [of env' s'] b by (simp add: Let_def)
      then show False using ih by blast
    qed
  qed
  then show ?thesis by (cases "commands_loop env ?buf 0 s") auto
qed

text \<open>
  the automatic forward lets no exception out: it answers or lets the caller go on, and of
  the session it changes at most \<open>maxdownload\<close>, even where a rendering threw half way.
\<close>

theorem auto_fwd_contains:
  assumes "0 < trac" and "auto_fwd rsp sreq wc trac = (r, wc')"
  shows "(\<forall>e. r \<noteq> Inl (Thrown e)) \<and> wc' = wc\<lparr>maxdownload := maxdownload wc'\<rparr>"
proof -
  have "auto_loop auto_patterns rsp sreq wc trac = (r, wc')" using assms by (simp add: auto_fwd_def)
  then show ?thesis using auto_loop_keeps [of wc auto_patterns rsp sreq trac] by (simp add: same_but_max_def)
qed

theorem auto_fwd_contains_witness:
  "let r = auto_fwd (response_new 200 0) (stepreq_new demo_wap) demo_session 1
   in (\<forall>e. fst r \<noteq> Inl (Thrown e)) \<and> snd r = demo_session\<lparr>maxdownload := maxdownload (snd r)\<rparr>"
  using auto_fwd_contains [of 1 "response_new 200 0" "stepreq_new demo_wap" demo_session
      "fst (auto_fwd (response_new 200 0) (stepreq_new demo_wap) demo_session 1)"
      "snd (auto_fwd (response_new 200 0) (stepreq_new demo_wap) demo_session 1)"]
  by (simp add: Let_def)

text \<open>
  C40: a session that \<open>wapinit\<close> answers has one to sixteen steps and one to eight laps, and has
  sent its first step.
\<close>

theorem wapinit_bounds:
  assumes "wapinit env buf body ende wc = (Inr (Reply t), wc')" and "wc_steps wc = []"
  shows "1 \<le> length (wc_steps wc') \<and> length (wc_steps wc') \<le> 16 \<and>
    1 \<le> n_repeat wc' \<and> n_repeat wc' \<le> 8 \<and> stepx wc' = stepx wc + 1 \<and> wc_cid wc' = wc_cid wc"
proof -
  obtain nstep b0 b1 b2 wc1 rep wc3 where n: "nstep \<noteq> 0" "nstep \<le> 16" "pop_int (Suc 0) False b0 = Inr (nstep, b1)"
    and st: "init_steps env (nat nstep) b1 wc = (Inr b2, wc1)"
    and rep: "word_of_int rep \<noteq> (0::u32)" "\<not> word_of_int rep > (8::u32)"
    and fwd: "step_fwd wc3 0 = (Inr t, wc')"
    and w3: "wc_steps wc3 = wc_steps wc1" "n_repeat wc3 = word_of_int rep" "stepx wc3 = stepx wc1"
      "wc_cid wc3 = wc_cid wc1"
    using assms(1) unfolding wapinit_def
    by (auto simp: Let_def map_sum_def bind_ok_def split: sum.splits prod.splits if_splits option.splits)
  have l: "length (wc_steps wc1) = nat nstep" and w1: "wc1 = wc\<lparr>wc_steps := wc_steps wc1\<rparr>"
    using init_steps_count [OF st] assms(2) by simp_all
  have "0 \<le> nstep" using pop_int_byte n(3) by simp
  moreover have "stepx wc1 = stepx wc" "wc_cid wc1 = wc_cid wc" by (subst w1, simp)+
  moreover have "wc_steps wc3 \<noteq> []" using w3(1) l n(1) \<open>0 \<le> nstep\<close> by auto
  then obtain m where "wc' = wc3\<lparr>stepx := stepx wc3 + 1, maxdownload := m\<rparr>"
    using step_fwd_first [of wc3] fwd by auto
  moreover have "1 \<le> (word_of_int rep :: u32)" using rep(1) by (simp add: word_le_nat_alt Suc_le_eq unat_gt_0)
  ultimately show ?thesis using w3 l n rep(2) by (simp add: not_less) linarith
qed

text \<open>A message with one step of empty texts, to be repeated twice.\<close>

definition demo_init :: string where
  "demo_init = ''abcd'' @ [CHR 0x01] @ replicate 12 (CHR 0x00) @ [CHR 0x02, CHR 0x00, CHR 0x00]"

definition demo_blank :: wcstat where
  "demo_blank = demo_session\<lparr>wc_steps := []\<rparr>"

lemma unescape_empty: "unescape '''' = Inr ''''"
  by (simp add: unescape_def find_pos_def search_in.simps)

lemma demo_init_parsed:
  "pop_raw 4 \<lparr>pb_buf = demo_init, pb_data = 0, pb_end = 20\<rparr> = Inr (''abcd'', \<lparr>pb_buf = demo_init, pb_data = 4, pb_end = 20\<rparr>)"
  "pop_int 1 False \<lparr>pb_buf = demo_init, pb_data = 4, pb_end = 20\<rparr> = Inr (1, \<lparr>pb_buf = demo_init, pb_data = 5, pb_end = 20\<rparr>)"
  "init_steps demo_wap (Suc 0) \<lparr>pb_buf = demo_init, pb_data = 5, pb_end = 20\<rparr> demo_blank = (Inr \<lparr>pb_buf = demo_init, pb_data = 17, pb_end = 20\<rparr>,
     demo_blank\<lparr>wc_steps := [\<lparr>st_req = stepreq_new demo_wap, st_glex = []\<rparr>]\<rparr>)"
  "pop_int 1 False \<lparr>pb_buf = demo_init, pb_data = 17, pb_end = 20\<rparr> = Inr (2, \<lparr>pb_buf = demo_init, pb_data = 18, pb_end = 20\<rparr>)"
  "pop_int 2 False \<lparr>pb_buf = demo_init, pb_data = 18, pb_end = 20\<rparr> = Inr (0, \<lparr>pb_buf = demo_init, pb_data = 20, pb_end = 20\<rparr>)"
  "init_smblock demo_wap ''abcd'' \<lparr>pb_buf = demo_init, pb_data = 20, pb_end = 20\<rparr> = Inr None"
  by (code_simp)+


theorem wapinit_bounds_witness:
  "\<exists>t wc'. wapinit demo_wap demo_init 0 20 demo_blank = (Inr (Reply t), wc') \<and>
    1 \<le> length (wc_steps wc') \<and> length (wc_steps wc') \<le> 16 \<and> 1 \<le> n_repeat wc' \<and> n_repeat wc' \<le> 8"
proof -
  let ?w = "demo_blank\<lparr>wc_steps := [\<lparr>st_req = stepreq_new demo_wap, st_glex = []\<rparr>], n_repeat := 2\<rparr>"
  have "subst '''' (map_of ([]::smap)) = Inr ''''" by code_simp
  then obtain p where "step_part (stepreq_new demo_wap) (?w\<lparr>stepx := stepx ?w + 1\<rparr>) = (Inr p, ?w\<lparr>stepx := stepx ?w + 1\<rparr>)"
    by (simp add: step_part_def stepreq_new_def unescape_empty demo_blank_def demo_session_def wcstat_new_def)
  then obtain t where "fst (step_fwd ?w 0) = Inr t"
    by (simp add: step_fwd_def step_go_def Let_def)
  then have r: "wapinit demo_wap demo_init 0 20 demo_blank = (Inr (Reply t), snd (step_fwd ?w 0))"
    by (simp add: wapinit_def demo_init_parsed prod.case_eq_if del: One_nat_def init_steps.simps)
  show ?thesis using r wapinit_bounds [OF r] by (auto simp: demo_blank_def)
qed

end
