(* ===== verification/Wap_Server.thy ===== *)
theory Wap_Server
  imports Wap_Steps
begin

section \<open>Sessions and connections of the WAP server (chs.cc)\<close>

text \<open>
  The sessions live in a \<open>std::list\<close> with an index from client ids to its nodes; a reader
  holds an iterator into the index (\<open>wcscoped\<close>) and erases the session when it is destroyed
  with the iterator still set. Nodes and index entries carry serial numbers, so that an
  iterator to an erased one is told from one to a new entry under the same key; using it is
  \<open>Undefined\<close>.
\<close>

unbundle bit_operations_syntax

subsection \<open>The registry\<close>

record registry =
  rg_stats :: "(nat \<times> wcstat) list"
  rg_idx :: "(int \<times> nat \<times> nat) list"
  rg_fresh :: nat

type_synonym idx_iter = "(int \<times> nat) option"

definition idx_node :: "registry \<Rightarrow> idx_iter \<Rightarrow> nat outcome" where
  "idx_node reg it = (case it of
     None \<Rightarrow> Inl Undefined
   | Some (cid, serial) \<Rightarrow> (case map_of (rg_idx reg) cid of
       None \<Rightarrow> Inl Undefined
     | Some (s, node) \<Rightarrow> if s = serial then Inr node else Inl Undefined))"

definition set_node :: "nat \<Rightarrow> wcstat \<Rightarrow> registry \<Rightarrow> registry" where
  "set_node node wc reg = reg\<lparr>rg_stats := map (\<lambda>(n, w). if n = node then (n, wc) else (n, w)) (rg_stats reg)\<rparr>"

text \<open>\<open>ref\<close>: the node of the session, with the time of its last use set.\<close>

definition wc_ref :: "u32 \<Rightarrow> registry \<Rightarrow> idx_iter \<Rightarrow> (nat \<times> wcstat \<times> registry) outcome" where
  "wc_ref now reg it = bind_ok (idx_node reg it) (\<lambda>node.
     case map_of (rg_stats reg) node of
       None \<Rightarrow> Inl Undefined
     | Some wc \<Rightarrow> let wc1 = wc\<lparr>wc_atime := now\<rparr> in Inr (node, wc1, set_node node wc1 reg))"

definition initref :: "wap_env \<Rightarrow> u32 \<Rightarrow> int \<Rightarrow> registry \<Rightarrow> (idx_iter \<times> wcstat \<times> registry) outcome" where
  "initref env now cid reg =
     (let (it, reg1) = (case map_of (rg_idx reg) cid of
            Some (s, _) \<Rightarrow> (Some (cid, s), reg)
          | None \<Rightarrow> (Some (cid, rg_fresh reg),
              reg\<lparr>rg_stats := (rg_fresh reg, wcstat_new env cid) # rg_stats reg,
                  rg_idx := map_put cid (rg_fresh reg, rg_fresh reg) (rg_idx reg),
                  rg_fresh := rg_fresh reg + 1\<rparr>))
      in bind_ok (wc_ref now reg1 it) (\<lambda>(_, wc, reg2). Inr (it, wc, reg2)))"

text \<open>The destructor \<open>~wcscoped\<close>.\<close>

definition scoped_drop :: "registry \<Rightarrow> idx_iter \<Rightarrow> registry outcome" where
  "scoped_drop reg it =
     (if it = None then Inr reg
      else bind_ok (idx_node reg it) (\<lambda>node.
        case map_of (rg_stats reg) node of
          None \<Rightarrow> Inl Undefined
        | Some _ \<Rightarrow> Inr (reg\<lparr>rg_stats := map_del node (rg_stats reg),
            rg_idx := map_del (fst (the it)) (rg_idx reg)\<rparr>)))"

subsection \<open>Saving and restoring\<close>

text \<open>
  What an archive holds, one value after the other: the functions \<open>serialize\<close> put the members
  in this order when they save and take them back in the same order. A member they do not
  name (the cookies of a request) is left as the constructor has made it. A container is its
  size and then its elements; the sorted pairs of a map and the pairs of a list are one value.
\<close>

datatype item = It_str string | It_int int | It_u32 u32 | It_pairs "(string \<times> string) list" | It_size nat

definition save_request :: "'a request_scheme \<Rightarrow> item list" where
  "save_request r = [It_str (rq_method r), It_str (rq_path r), It_str (rq_ver r), It_pairs (rq_head r),
     It_u32 (rq_contentlength r), It_str (rq_body r)]"

fun load_request :: "item list \<Rightarrow> 'a request_scheme \<Rightarrow> ('a request_scheme \<times> item list) option" where
  "load_request (It_str m # It_str p # It_str v # It_pairs h # It_u32 n # It_str b # xs) r =
     Some (r\<lparr>rq_method := m, rq_path := p, rq_ver := v, rq_head := h, rq_contentlength := n, rq_body := b\<rparr>, xs)"
| "load_request _ r = None"

definition save_stepreq :: "stepreq \<Rightarrow> item list" where
  "save_stepreq r = save_request r @ [It_int (seconds r)]"

definition load_stepreq :: "item list \<Rightarrow> stepreq \<Rightarrow> (stepreq \<times> item list) option" where
  "load_stepreq xs r =
     (case load_request xs r of
        Some (r1, It_int s # ys) \<Rightarrow> Some (r1\<lparr>seconds := s\<rparr>, ys)
      | _ \<Rightarrow> None)"

definition save_wcstep :: "wcstep \<Rightarrow> item list" where
  "save_wcstep st = save_stepreq (st_req st) @ [It_pairs (st_glex st)]"

definition load_wcstep :: "wap_env \<Rightarrow> item list \<Rightarrow> (wcstep \<times> item list) option" where
  "load_wcstep env xs =
     (case load_stepreq xs (stepreq_new env) of
        Some (r, It_pairs g # ys) \<Rightarrow> Some (\<lparr>st_req = r, st_glex = g\<rparr>, ys)
      | _ \<Rightarrow> None)"

primrec load_many :: "(item list \<Rightarrow> ('a \<times> item list) option) \<Rightarrow> nat \<Rightarrow> item list \<Rightarrow> ('a list \<times> item list) option" where
  "load_many ld 0 xs = Some ([], xs)"
| "load_many ld (Suc n) xs =
     (case ld xs of
        None \<Rightarrow> None
      | Some (x, ys) \<Rightarrow> (case load_many ld n ys of None \<Rightarrow> None | Some (l, zs) \<Rightarrow> Some (x # l, zs)))"

definition save_wcstat :: "wcstat \<Rightarrow> item list" where
  "save_wcstat wc = [It_int (wc_cid wc), It_pairs (wc_cookies wc), It_pairs (wc_vars wc), It_str (smblock wc)] @
     It_size (length (wc_steps wc)) # concat (map save_wcstep (wc_steps wc)) @
     [It_u32 (maxdownload wc), It_u32 (stepx wc), It_u32 (n_repeat wc), It_u32 (wc_atime wc), It_u32 (size_self wc)]"

fun load_tail :: "item list \<Rightarrow> wcstat \<Rightarrow> (wcstat \<times> item list) option" where
  "load_tail (It_u32 m # It_u32 x # It_u32 r # It_u32 a # It_u32 z # xs) wc =
     Some (wc\<lparr>maxdownload := m, stepx := x, n_repeat := r, wc_atime := a, size_self := z\<rparr>, xs)"
| "load_tail _ wc = None"

fun load_wcstat :: "wap_env \<Rightarrow> item list \<Rightarrow> (wcstat \<times> item list) option" where
  "load_wcstat env (It_int c # It_pairs k # It_pairs v # It_str s # It_size n # xs) =
     (case load_many (load_wcstep env) n xs of
        None \<Rightarrow> None
      | Some (st, ys) \<Rightarrow> load_tail ys ((wcstat_new env c)\<lparr>wc_cookies := k, wc_vars := v, smblock := s, wc_steps := st\<rparr>))"
| "load_wcstat env _ = None"

text \<open>The file, if there is one; \<open>writable\<close> tells whether it can be opened for writing.\<close>

definition save_arc :: "bool \<Rightarrow> registry \<Rightarrow> item list option \<Rightarrow> item list option" where
  "save_arc writable reg file =
     (if writable then Some (It_size (length (rg_stats reg)) # concat (map (\<lambda>(n, wc). save_wcstat wc) (rg_stats reg)))
      else file)"

fun restore_idx :: "(nat \<times> wcstat) list \<Rightarrow> (int \<times> nat \<times> nat) list \<Rightarrow> (int \<times> nat \<times> nat) list" where
  "restore_idx [] idx = idx"
| "restore_idx ((n, wc) # st) idx =
     (let s = (case map_of idx (wc_cid wc) of None \<Rightarrow> n | Some (s, _) \<Rightarrow> s)
      in restore_idx st (map_put (wc_cid wc) (s, n) idx))"

definition restore_stats :: "wap_env \<Rightarrow> item list option \<Rightarrow> registry \<Rightarrow> registry outcome" where
  "restore_stats env file reg =
     (case file of
        None \<Rightarrow> Inr reg
      | Some (It_size n # xs) \<Rightarrow>
          (case load_many (load_wcstat env) n xs of
             None \<Rightarrow> Inl (Thrown ''archive_exception'')
           | Some (l, _) \<Rightarrow>
               let st = zip [rg_fresh reg..<rg_fresh reg + length l] l
               in Inr \<lparr>rg_stats = st, rg_idx = restore_idx st (rg_idx reg), rg_fresh = rg_fresh reg + length l\<rparr>)
      | Some _ \<Rightarrow> Inl (Thrown ''archive_exception''))"

subsection \<open>The reader\<close>

definition ev_read :: u8 where "ev_read = 1"
definition ev_write :: u8 where "ev_write = 2"

record reader =
  rd_iidx :: idx_iter
  rd_events :: u8
  rd_buf :: string

definition reader_new :: reader where
  "reader_new = \<lparr>rd_iidx = None, rd_events = ev_read, rd_buf = ''''\<rparr>"

datatype recv_end = Peer_closed | Would_block | Recv_error string

text \<open>
  \<open>recvbuf\<close> with the chunks \<open>recv\<close> gives and how the last call ends: the number of bytes
  read, but 0 when the peer closed, whatever came before.
\<close>

definition recvbuf :: "string list \<Rightarrow> recv_end \<Rightarrow> string \<Rightarrow> nat outcome \<times> string" where
  "recvbuf chunks fin buf =
     (let buf1 = buf @ concat chunks in
      (case fin of
         Peer_closed \<Rightarrow> Inr 0
       | Would_block \<Rightarrow> Inr (length buf1 - length buf)
       | Recv_error e \<Rightarrow> Inl (Thrown e), buf1))"

definition completed :: "wap_env \<Rightarrow> string \<Rightarrow> stepreq \<Rightarrow> (int \<times> stepreq) outcome" where
  "completed env buf req =
     (if length buf > 1024 * 32 then Inl (Thrown ''Too large req'')
      else bind_ok (makereq buf req) (\<lambda>(ok, req1).
        if \<not> ok then Inr (0, req1)
        else case headval (rq_head req1) ''Cookie'' of
               None \<Rightarrow> Inl (Thrown ''ck not found'')
             | Some t \<Rightarrow>
                 (case map_of (cookie_parse [] t) ''ck'' of
                    None \<Rightarrow> Inl (Thrown ''Cookie ck error'')
                  | Some c \<Rightarrow> (case lex_cid env c of
                      None \<Rightarrow> Inl (Thrown ''bad_lexical_cast'')
                    | Some cid \<Rightarrow> Inr (cid, req1)))))"

text \<open>The part of \<open>operator()\<close> after the request is there; \<open>None\<close>: it never returns.\<close>

definition reader_commands :: "wap_env \<Rightarrow> u32 \<Rightarrow> string \<Rightarrow> reader \<Rightarrow> registry \<Rightarrow> string \<Rightarrow>
    (int outcome \<times> reader \<times> registry \<times> string) option" where
  "reader_commands env now body rd reg out0 =
     (case wc_ref now reg (rd_iidx rd) of
        Inl f \<Rightarrow> Some (Inl f, rd, reg, out0)
      | Inr (node, wc, reg1) \<Rightarrow>
          map_option (\<lambda>(r, s).
            let reg2 = set_node node (cm_wc s) reg1 in
            (case (case r of
                     Inl (Thrown e) \<Rightarrow> Inr (Some e)
                   | _ \<Rightarrow> r) of
               Inl f \<Rightarrow> (Inl f, rd, reg2, cm_out s)
             | Inr None \<Rightarrow>
                 (Inr 1, if n_repeat (cm_wc s) > 0 then rd\<lparr>rd_iidx := None\<rparr> else rd, reg2, cm_out s)
             | Inr (Some err) \<Rightarrow> (Inr 1, rd, reg2, assign_rsp 501 err ''bye.'')))
            (commands env body wc out0))"

definition reader_call :: "wap_env \<Rightarrow> u32 \<Rightarrow> string list \<Rightarrow> recv_end \<Rightarrow> reader \<Rightarrow> registry \<Rightarrow> string \<Rightarrow>
    (int outcome \<times> reader \<times> registry \<times> string) option" where
  "reader_call env now chunks fin rd0 reg out0 =
     (let (n, buf) = recvbuf chunks fin (rd_buf rd0); rd = rd0\<lparr>rd_buf := buf\<rparr> in
      case n of
        Inl f \<Rightarrow> Some (Inl f, rd, reg, out0)
      | Inr n \<Rightarrow>
          (case completed env buf (stepreq_new env) of
             Inl (Thrown e) \<Rightarrow> Some (Inr (-3), rd, reg, out0)
           | Inl f \<Rightarrow> Some (Inl f, rd, reg, out0)
           | Inr (cid, req) \<Rightarrow>
               if cid = 0 then
                 Some (Inr (if n = 0 \<or> length buf > 1024 * 128 then -2 else 0), rd, reg, out0)
               else if rq_body req = [] then Some (Inr (-3), rd, reg, out0)
               else (case initref env now cid reg of
                 Inl f \<Rightarrow> Some (Inl f, rd\<lparr>rd_events := 0\<rparr>, reg, out0)
               | Inr (it, _, reg1) \<Rightarrow>
                   reader_commands env now (rq_body req) (rd\<lparr>rd_events := 0, rd_iidx := it\<rparr>) reg1 out0)))"

subsection \<open>The connection\<close>

text \<open>The members \<open>req\<close>, \<open>trac\<close>, \<open>imei\<close>, \<open>imsi\<close> and \<open>smsc\<close> are never used.\<close>

record connection =
  cn_fd :: int
  cn_reader :: reader
  cn_buf :: string
  cn_actime :: int

datatype send_end = Sent nat | Send_again | Send_error

definition cb_write :: "send_end \<Rightarrow> connection \<Rightarrow> int \<times> connection" where
  "cb_write r c = (case r of
     Sent n \<Rightarrow> (int n, c\<lparr>cn_buf := drop n (cn_buf c)\<rparr>)
   | Send_again \<Rightarrow> (0, c)
   | Send_error \<Rightarrow> (-1, c))"

definition cb_read :: "wap_env \<Rightarrow> u32 \<Rightarrow> string list \<Rightarrow> recv_end \<Rightarrow> connection \<Rightarrow> registry \<Rightarrow>
    (int outcome \<times> connection \<times> registry) option" where
  "cb_read env now chunks fin c reg =
     map_option (\<lambda>(r, rd, reg1, b).
       (case r of
          Inl (Thrown _) \<Rightarrow> Inr (-4)
        | Inl f \<Rightarrow> Inl f
        | Inr k \<Rightarrow> Inr (if k < 0 then -1 else 0), c\<lparr>cn_reader := rd, cn_buf := b\<rparr>, reg1))
     (reader_call env now chunks fin (cn_reader c) reg (cn_buf c))"

text \<open>
  \<open>delete self\<close>: the descriptor is closed when it is positive, and the reader goes with it.
\<close>

datatype after_event = Kept connection | Deleted bool

definition delete_conn :: "connection \<Rightarrow> registry \<Rightarrow> (after_event \<times> registry) outcome" where
  "delete_conn c reg = bind_ok (scoped_drop reg (rd_iidx (cn_reader c))) (\<lambda>reg1.
     Inr (Deleted (cn_fd c > 0), reg1))"

definition cb_rdwr :: "wap_env \<Rightarrow> u32 \<Rightarrow> u8 \<Rightarrow> string list \<Rightarrow> recv_end \<Rightarrow> send_end \<Rightarrow> connection \<Rightarrow> registry \<Rightarrow>
    (after_event \<times> registry) outcome option" where
  "cb_rdwr env now revents chunks fin snt c reg =
     map_option (\<lambda>(r, c1, reg1). bind_ok r (\<lambda>k.
       if k < 0 then delete_conn c1 reg1
       else
         let (w, c2) = (if revents AND ev_write \<noteq> 0 then cb_write snt c1 else (0, c1)) in
         if w < 0 then delete_conn c2 reg1
         else
           let evt = rd_events (cn_reader c2) OR (if cn_buf c2 = [] then 0 else ev_write) in
           if evt \<noteq> 0 then Inr (Kept (c2\<lparr>cn_actime := uint now\<rparr>), reg1)
           else delete_conn c2 reg1))
     (if revents AND ev_read \<noteq> 0 \<and> rd_events (cn_reader c) AND ev_read \<noteq> 0
      then cb_read env now chunks fin c reg
      else Some (Inr 0, c, reg))"

definition cb_timer :: "int \<Rightarrow> connection \<Rightarrow> registry \<Rightarrow> (after_event \<times> registry) outcome" where
  "cb_timer ct c reg =
     (if ct - cn_actime c > 180 then delete_conn c reg else Inr (Kept c, reg))"

text \<open>A new connection; \<open>_actime\<close> is not initialised.\<close>

definition connection_new :: "int \<Rightarrow> int \<Rightarrow> connection" where
  "connection_new fd junk_time = \<lparr>cn_fd = fd, cn_reader = reader_new, cn_buf = '''', cn_actime = junk_time\<rparr>"

definition cb_accept :: "int list \<Rightarrow> (int \<Rightarrow> int) \<Rightarrow> connection list \<Rightarrow> connection list" where
  "cb_accept fds junk_time cs =
     cs @ map (\<lambda>fd. connection_new fd (junk_time fd)) (takeWhile (\<lambda>fd. 0 \<le> fd) fds)"

subsection \<open>The command line\<close>

record options =
  opt_port :: u16
  opt_arc :: string
  opt_dir :: "string option"
  opt_background :: bool

text \<open>An option at the very end of the line has no value and is passed over.\<close>

fun set_options :: "string list \<Rightarrow> options \<Rightarrow> options outcome" where
  "set_options [] opts = Inr opts"
| "set_options [a] opts = Inr (if a = ''-b'' then opts\<lparr>opt_background := True\<rparr> else opts)"
| "set_options (a # v # args) opts =
     (if a = ''-p'' then bind_ok (atoi v) (\<lambda>n. set_options args (opts\<lparr>opt_port := word_of_int n\<rparr>))
      else if a = ''-a'' then set_options args (opts\<lparr>opt_arc := v\<rparr>)
      else if a = ''-d'' then set_options args (opts\<lparr>opt_dir := Some v\<rparr>)
      else if a = ''-b'' then set_options (v # args) (opts\<lparr>opt_background := True\<rparr>)
      else set_options (v # args) opts)"

subsection \<open>The registry is a map from client ids to sessions\<close>

definition registry_ok :: "registry \<Rightarrow> bool" where
  "registry_ok reg \<longleftrightarrow> map_ok (rg_idx reg) \<and> distinct (map fst (rg_stats reg)) \<and>
     (\<forall>n wc. map_of (rg_stats reg) n = Some wc \<longrightarrow> n < rg_fresh reg \<and>
        (\<exists>s. map_of (rg_idx reg) (wc_cid wc) = Some (s, n))) \<and>
     (\<forall>c s n. map_of (rg_idx reg) c = Some (s, n) \<longrightarrow> s < rg_fresh reg \<and>
        (\<exists>wc. map_of (rg_stats reg) n = Some wc \<and> wc_cid wc = c))"

definition sessions :: "registry \<Rightarrow> int \<Rightarrow> wcstat option" where
  "sessions reg cid = (case map_of (rg_idx reg) cid of
     None \<Rightarrow> None | Some (s, n) \<Rightarrow> map_of (rg_stats reg) n)"

lemma reg_node: "registry_ok reg \<Longrightarrow> map_of (rg_stats reg) n = Some wc \<Longrightarrow>
    n < rg_fresh reg \<and> (\<exists>s. map_of (rg_idx reg) (wc_cid wc) = Some (s, n))"
  unfolding registry_ok_def by blast

lemma reg_entry: "registry_ok reg \<Longrightarrow> map_of (rg_idx reg) c = Some (s, n) \<Longrightarrow>
    s < rg_fresh reg \<and> (\<exists>wc. map_of (rg_stats reg) n = Some wc \<and> wc_cid wc = c)"
  unfolding registry_ok_def by blast

lemma registry_okI:
  assumes "map_ok (rg_idx reg)" and "distinct (map fst (rg_stats reg))"
    and "\<And>n wc. map_of (rg_stats reg) n = Some wc \<Longrightarrow>
      n < rg_fresh reg \<and> (\<exists>s. map_of (rg_idx reg) (wc_cid wc) = Some (s, n))"
    and "\<And>c s n. map_of (rg_idx reg) c = Some (s, n) \<Longrightarrow>
      s < rg_fresh reg \<and> (\<exists>wc. map_of (rg_stats reg) n = Some wc \<and> wc_cid wc = c)"
  shows "registry_ok reg"
  unfolding registry_ok_def using assms by blast

lemma map_of_set_node: "map_of (rg_stats (set_node n wc reg)) k =
    (if k = n \<and> map_of (rg_stats reg) n \<noteq> None then Some wc else map_of (rg_stats reg) k)"
proof -
  have "map_of (map (\<lambda>(m, w). if m = n then (m, wc) else (m, w)) xs) k =
      (if k = n \<and> map_of xs n \<noteq> None then Some wc else map_of xs k)" for xs
    by (induction xs) auto
  then show ?thesis by (simp add: set_node_def)
qed

lemma set_node_other [simp]: "rg_idx (set_node n wc reg) = rg_idx reg"
    "rg_fresh (set_node n wc reg) = rg_fresh reg"
    "map fst (rg_stats (set_node n wc reg)) = map fst (rg_stats reg)"
proof -
  have "map fst (map (\<lambda>(m, w). if m = n then (m, wc) else (m, w)) xs) = map fst xs" for xs :: "(nat \<times> wcstat) list"
    by (induction xs) auto
  then show "map fst (rg_stats (set_node n wc reg)) = map fst (rg_stats reg)" by (simp add: set_node_def)
qed (simp_all add: set_node_def)

lemma set_node_ok:
  assumes "registry_ok reg" and "map_of (rg_stats reg) n = Some wc0" and "wc_cid wc = wc_cid wc0"
  shows "registry_ok (set_node n wc reg) \<and>
    sessions (set_node n wc reg) = (sessions reg)(wc_cid wc \<mapsto> wc)"
proof
  obtain s where s: "map_of (rg_idx reg) (wc_cid wc) = Some (s, n)"
    using reg_node [OF assms(1,2)] assms(3) by auto
  have inj: "c = wc_cid wc" if "map_of (rg_idx reg) c = Some (s', n)" for c s'
    using reg_entry [OF assms(1) that] assms(2,3) by auto
  have "m < rg_fresh reg \<and> (\<exists>s. map_of (rg_idx reg) (wc_cid w) = Some (s, m))"
    if "map_of (rg_stats (set_node n wc reg)) m = Some w" for m w
  proof (cases "m = n")
    case True
    then have "w = wc" using that assms(2) by (simp add: map_of_set_node)
    then show ?thesis using True s reg_node [OF assms(1,2)] by simp
  next
    case False
    then have "map_of (rg_stats reg) m = Some w" using that by (simp add: map_of_set_node)
    then show ?thesis using reg_node [OF assms(1)] by blast
  qed
  moreover have "s' < rg_fresh reg \<and> (\<exists>w. map_of (rg_stats (set_node n wc reg)) m = Some w \<and> wc_cid w = c)"
    if "map_of (rg_idx reg) c = Some (s', m)" for c s' m
    using reg_entry [OF assms(1) that] assms(2,3) by (cases "m = n") (auto simp: map_of_set_node)
  ultimately show "registry_ok (set_node n wc reg)"
    using assms(1) unfolding registry_ok_def by (simp only: set_node_other) blast
  show "sessions (set_node n wc reg) = (sessions reg)(wc_cid wc \<mapsto> wc)"
  proof
    fix c
    show "sessions (set_node n wc reg) c = ((sessions reg)(wc_cid wc \<mapsto> wc)) c"
    proof (cases "map_of (rg_idx reg) c")
      case None
      then show ?thesis using s by (auto simp: sessions_def)
    next
      case (Some p)
      then obtain s' k where p: "map_of (rg_idx reg) c = Some (s', k)" by (cases p) simp
      have "k = n \<Longrightarrow> c = wc_cid wc" using inj p by blast
      moreover have "c = wc_cid wc \<Longrightarrow> k = n" using s p by simp
      ultimately have "k = n \<longleftrightarrow> c = wc_cid wc" by blast
      then show ?thesis using p assms(2) by (simp add: sessions_def map_of_set_node)
    qed
  qed
qed

lemma wc_ref_ok:
  assumes "registry_ok reg" and "map_of (rg_idx reg) cid = Some (s, n)"
  shows "\<exists>wc. map_of (rg_stats reg) n = Some wc \<and> wc_cid wc = cid \<and>
    wc_ref now reg (Some (cid, s)) = Inr (n, wc\<lparr>wc_atime := now\<rparr>, set_node n (wc\<lparr>wc_atime := now\<rparr>) reg)"
  using reg_entry [OF assms] assms(2) by (auto simp: wc_ref_def idx_node_def Let_def)

definition valid_iter :: "registry \<Rightarrow> int \<Rightarrow> idx_iter \<Rightarrow> bool" where
  "valid_iter reg cid it \<longleftrightarrow> (\<exists>s n. it = Some (cid, s) \<and> map_of (rg_idx reg) cid = Some (s, n))"

lemma add_node_ok:
  assumes "registry_ok reg" and "map_of (rg_idx reg) cid = None" and "wc_cid wc = cid"
  shows "registry_ok (reg\<lparr>rg_stats := (rg_fresh reg, wc) # rg_stats reg,
    rg_idx := map_put cid (rg_fresh reg, rg_fresh reg) (rg_idx reg), rg_fresh := rg_fresh reg + 1\<rparr>)"
proof -
  have f: "map_of (rg_stats reg) (rg_fresh reg) = None"
    using reg_node [OF assms(1), of "rg_fresh reg"] by (cases "map_of (rg_stats reg) (rg_fresh reg)") auto
  then have "rg_fresh reg \<notin> fst ` set (rg_stats reg)" by (simp add: map_of_eq_None_iff)
  moreover have m: "map_ok (rg_idx reg)" using assms(1) by (simp add: registry_ok_def)
  moreover have nodes: "n < rg_fresh reg + 1 \<and> (\<exists>s. map_of (map_put cid (rg_fresh reg, rg_fresh reg) (rg_idx reg)) (wc_cid w) = Some (s, n))"
    if "map_of ((rg_fresh reg, wc) # rg_stats reg) n = Some w" for n w
    using that reg_node [OF assms(1), of n w] assms(2,3) m
    by (cases "n = rg_fresh reg") (auto simp: std_map.get_put)
  moreover have entries: "s < rg_fresh reg + 1 \<and> (\<exists>w. map_of ((rg_fresh reg, wc) # rg_stats reg) n = Some w \<and> wc_cid w = c)"
    if "map_of (map_put cid (rg_fresh reg, rg_fresh reg) (rg_idx reg)) c = Some (s, n)" for c s n
    using that reg_entry [OF assms(1), of c s n] assms(3) m f
    by (cases "c = cid") (auto simp: std_map.get_put)
  moreover have "distinct (map fst (rg_stats reg))" using assms(1) by (simp add: registry_ok_def)
  ultimately have d: "distinct (map fst ((rg_fresh reg, wc) # rg_stats reg))" by simp
  show ?thesis
  proof (rule registry_okI, goal_cases)
    case 1
    show ?case using std_map.ok_put [OF m] by simp
  next
    case 2
    show ?case using d by simp
  next
    case (3 n w)
    then show ?case using nodes [of n w] by simp
  next
    case (4 c s n)
    then show ?case using entries [of c s n] by simp
  qed
qed

lemma initref_ok:
  assumes "registry_ok reg"
  shows "\<exists>it reg'. let wc = (case sessions reg cid of None \<Rightarrow> wcstat_new env cid | Some w \<Rightarrow> w)\<lparr>wc_atime := now\<rparr>
    in initref env now cid reg = Inr (it, wc, reg') \<and> registry_ok reg' \<and> valid_iter reg' cid it \<and>
      sessions reg' = (sessions reg)(cid \<mapsto> wc)"
proof (cases "map_of (rg_idx reg) cid")
  case (Some p)
  then obtain s n where sn: "map_of (rg_idx reg) cid = Some (s, n)" by (cases p) simp
  obtain w where w: "map_of (rg_stats reg) n = Some w" "wc_cid w = cid"
    "wc_ref now reg (Some (cid, s)) = Inr (n, w\<lparr>wc_atime := now\<rparr>, set_node n (w\<lparr>wc_atime := now\<rparr>) reg)"
    using wc_ref_ok [OF assms sn] by blast
  then show ?thesis using sn set_node_ok [OF assms w(1), of "w\<lparr>wc_atime := now\<rparr>"]
    by (auto simp: initref_def sessions_def valid_iter_def Let_def)
next
  case None
  let ?f = "rg_fresh reg" and ?w = "wcstat_new env cid"
  let ?reg = "reg\<lparr>rg_stats := (?f, ?w) # rg_stats reg, rg_idx := map_put cid (?f, ?f) (rg_idx reg),
    rg_fresh := ?f + 1\<rparr>"
  have c: "wc_cid ?w = cid" by (simp add: wcstat_new_def)
  have ok: "registry_ok ?reg" using add_node_ok [OF assms None c] .
  have m: "map_ok (rg_idx reg)" using assms by (simp add: registry_ok_def)
  have i: "map_of (rg_idx ?reg) cid = Some (?f, ?f)" using m by (simp add: std_map.get_put)
  have w: "map_of (rg_stats ?reg) ?f = Some ?w" by simp
  have r: "wc_ref now ?reg (Some (cid, ?f)) = Inr (?f, ?w\<lparr>wc_atime := now\<rparr>, set_node ?f (?w\<lparr>wc_atime := now\<rparr>) ?reg)"
    using wc_ref_ok [OF ok i] w by auto
  have "n \<noteq> ?f" if "map_of (rg_idx reg) k = Some (s, n)" for k s n
    using reg_entry [OF assms that] reg_node [OF assms] by auto
  then have "sessions ?reg = (sessions reg)(cid \<mapsto> ?w)"
    using m by (auto simp: sessions_def std_map.get_put fun_eq_iff split: option.splits)
  then show ?thesis
    using None set_node_ok [OF ok w, of "?w\<lparr>wc_atime := now\<rparr>"] c i r
    by (auto simp: initref_def sessions_def [of reg cid] valid_iter_def Let_def)
qed

lemma map_del_distinct:
  assumes "distinct (map fst xs)"
  shows "distinct (map fst (map_del n xs))"
    and "map_of (map_del n xs) k = (if k = n then None else map_of xs k)"
proof -
  show "distinct (map fst (map_del n xs))" using assms
  proof (induction n xs rule: map_del.induct)
    case (2 n k' v m)
    then show ?case using map_del_subset [of n m] by auto
  qed simp
  show "map_of (map_del n xs) k = (if k = n then None else map_of xs k)" using assms
  proof (induction n xs rule: map_del.induct)
    case (2 n k' v m)
    then have "map_of m k' = None" by (auto simp: map_of_eq_None_iff)
    then show ?case using 2 by auto
  qed simp
qed

lemma scoped_drop_ok:
  assumes "registry_ok reg" and "valid_iter reg cid it"
  shows "\<exists>reg'. scoped_drop reg it = Inr reg' \<and> registry_ok reg' \<and>
    sessions reg' = (sessions reg)(cid := None) \<and> map_of (rg_idx reg') cid = None"
proof -
  obtain s n where it: "it = Some (cid, s)" "map_of (rg_idx reg) cid = Some (s, n)"
    using assms(2) by (auto simp: valid_iter_def)
  obtain w where w: "map_of (rg_stats reg) n = Some w" "wc_cid w = cid"
    using reg_entry [OF assms(1) it(2)] by blast
  let ?reg = "reg\<lparr>rg_stats := map_del n (rg_stats reg), rg_idx := map_del cid (rg_idx reg)\<rparr>"
  have r: "scoped_drop reg it = Inr ?reg" using it w by (simp add: scoped_drop_def idx_node_def)
  have m: "map_ok (rg_idx reg)" using assms(1) by (simp add: registry_ok_def)
  have d: "distinct (map fst (rg_stats reg))" using assms(1) by (simp add: registry_ok_def)
  note dd = map_del_distinct [OF d]
  have inj: "c = cid" if "map_of (rg_idx reg) c = Some (s', n)" for c s'
    using reg_entry [OF assms(1) that] w by auto
  have inj2: "k = n" if "map_of (rg_stats reg) k = Some w'" "wc_cid w' = cid" for k w'
    using reg_node [OF assms(1) that(1)] that(2) it(2) by auto
  have nodes: "k < rg_fresh reg \<and> (\<exists>s. map_of (map_del cid (rg_idx reg)) (wc_cid w') = Some (s, k))"
    if "map_of (map_del n (rg_stats reg)) k = Some w'" for k w'
    using that dd(2) [of n k] reg_node [OF assms(1), of k w'] inj2 [of k w'] m
    by (auto simp: map_of_del split: if_splits)
  have entries: "s' < rg_fresh reg \<and> (\<exists>w'. map_of (map_del n (rg_stats reg)) k = Some w' \<and> wc_cid w' = c)"
    if "map_of (map_del cid (rg_idx reg)) c = Some (s', k)" for c s' k
    using that dd(2) [of n k] reg_entry [OF assms(1), of c s' k] inj [of c s'] m
    by (auto simp: map_of_del split: if_splits)
  have "registry_ok ?reg"
    proof (rule registry_okI, goal_cases)
    case 1
    show ?case using map_ok_del [OF m] by simp
  next
    case 2
    show ?case using dd(1) [of n] by simp
  next
    case (3 k w')
    then show ?case using nodes [of k w'] by simp
  next
    case (4 c s' k)
    then show ?case using entries [of c s' k] by simp
  qed
  moreover have "sessions ?reg = (sessions reg)(cid := None)"
    using dd(2) m inj by (auto simp: sessions_def map_of_del fun_eq_iff split: option.splits)
  moreover have "map_of (rg_idx ?reg) cid = None" using m by (simp add: map_of_del)
  ultimately show ?thesis using r by blast
qed

subsection \<open>Restoring an archive\<close>

lemma restore_idx_map:
  assumes "map_ok idx" and "distinct (map (wc_cid \<circ> snd) st)"
    and "\<forall>p\<in>set st. map_of idx (wc_cid (snd p)) = None"
  shows "map_ok (restore_idx st idx) \<and> map_of (restore_idx st idx) c =
    (case map_of (map (\<lambda>(n, w). (wc_cid w, n, n)) st) c of Some p \<Rightarrow> Some p | None \<Rightarrow> map_of idx c)"
  using assms
proof (induction st idx rule: restore_idx.induct)
  case (2 n wc st idx)
  let ?idx = "map_put (wc_cid wc) (n, n) idx"
  have new: "map_of idx (wc_cid wc) = None" using 2(4) by simp
  have "\<forall>p\<in>set st. map_of ?idx (wc_cid (snd p)) = None"
    using 2(2-4) by (auto simp: std_map.get_put image_iff)
  then have ih: "map_ok (restore_idx st ?idx) \<and> map_of (restore_idx st ?idx) c =
      (case map_of (map (\<lambda>(n, w). (wc_cid w, n, n)) st) c of Some p \<Rightarrow> Some p | None \<Rightarrow> map_of ?idx c)"
    using 2(1) [of n] std_map.ok_put [OF 2(2), of "wc_cid wc" "(n, n)"] 2(3) new by simp
  have "map_of (map (\<lambda>(n, w). (wc_cid w, n, n)) st) (wc_cid wc) = None"
    using 2(3) by (auto simp: map_of_eq_None_iff image_iff)
  then show ?case using ih new 2(2) by (auto simp: std_map.get_put split: option.splits)
qed simp

lemma map_of_zip_idx: "map_of (zip [k..<k + length xs] xs) i =
    (if k \<le> i \<and> i < k + length xs then Some (xs ! (i - k)) else None)"
proof (induction xs arbitrary: k)
  case (Cons x xs)
  have "[k..<k + length (x # xs)] = k # [Suc k..<Suc k + length xs]" by (simp add: upt_rec)
  then show ?case using Cons [of "Suc k"] by (auto simp: nth_Cons' Suc_diff_le)
qed simp

lemma map_of_cid_idx:
  assumes "distinct (map wc_cid arc)"
  shows "map_of (map (\<lambda>(n, w). (wc_cid w, n, n)) (zip [0..<length arc] arc)) c = Some (s, n) \<longleftrightarrow>
    s = n \<and> n < length arc \<and> wc_cid (arc ! n) = c"
proof -
  let ?l = "map (\<lambda>(n, w). (wc_cid w, n, n)) (zip [0..<length arc] arc)"
  have "map fst ?l = map wc_cid arc" by (rule nth_equalityI) auto
  then have "map_of ?l c = Some (s, n) \<longleftrightarrow> (c, s, n) \<in> set ?l"
    using assms by (intro map_of_eq_Some_iff) simp
  also have "\<dots> \<longleftrightarrow> s = n \<and> n < length arc \<and> wc_cid (arc ! n) = c"
    by (force simp: set_zip image_iff)
  finally show ?thesis .
qed

text \<open>What \<open>restore_stats\<close> makes of the sessions it has read, from an empty registry.\<close>

definition restored :: "wcstat list \<Rightarrow> registry" where
  "restored arc = (let st = zip [0..<length arc] arc in \<lparr>rg_stats = st, rg_idx = restore_idx st [], rg_fresh = length arc\<rparr>)"

lemma restore_ok:
  assumes "distinct (map wc_cid arc)"
  shows "registry_ok (restored arc) \<and>
    sessions (restored arc) = map_of (map (\<lambda>w. (wc_cid w, w)) arc)"
proof -
  let ?st = "zip [0..<length arc] arc"
  have d: "distinct (map (wc_cid \<circ> snd) ?st)" using assms by (simp flip: map_map)
  have st: "map_of ?st i = (if i < length arc then Some (arc ! i) else None)" for i
    using map_of_zip_idx [of 0 arc i] by simp
  have ix: "map_ok (restore_idx ?st [])" "map_of (restore_idx ?st []) c = Some (s, n) \<longleftrightarrow>
      s = n \<and> n < length arc \<and> wc_cid (arc ! n) = c" for c s n
    using restore_idx_map [OF map_ok_Nil d, of c] map_of_cid_idx [OF assms, of c s n]
    by (auto split: option.splits)
  have "registry_ok (restored arc)"
    by (rule registry_okI) (auto simp: restored_def Let_def ix st split: if_splits)
  moreover have "sessions (restored arc) c = map_of (map (\<lambda>w. (wc_cid w, w)) arc) c" for c
  proof (cases "map_of (restore_idx ?st []) c")
    case None
    then have "\<forall>n<length arc. wc_cid (arc ! n) \<noteq> c" using ix(2) [of c] by (metis option.distinct(1))
    then have "c \<notin> wc_cid ` set arc" by (auto simp: in_set_conv_nth)
    then have "map_of (map (\<lambda>w. (wc_cid w, w)) arc) c = None" by (auto simp: map_of_eq_None_iff image_iff)
    then show ?thesis using None by (simp add: sessions_def restored_def Let_def)
  next
    case (Some p)
    then obtain s n where p: "map_of (restore_idx ?st []) c = Some (s, n)" by (cases p) simp
    then have n: "n < length arc" "wc_cid (arc ! n) = c" using ix(2) by blast+
    have "map fst (map (\<lambda>w. (wc_cid w, w)) arc) = map wc_cid arc" by simp
    then have "distinct (map fst (map (\<lambda>w. (wc_cid w, w)) arc))" using assms by (simp only:)
    moreover have "(c, arc ! n) \<in> set (map (\<lambda>w. (wc_cid w, w)) arc)"
      using n nth_mem [OF n(1)] by (auto simp: image_iff)
    ultimately have "map_of (map (\<lambda>w. (wc_cid w, w)) arc) c = Some (arc ! n)" by (rule map_of_is_SomeI)
    then show ?thesis using p n st by (simp add: sessions_def restored_def Let_def)
  qed
  ultimately show ?thesis by blast
qed

lemma load_many_save:
  "(\<And>x ys. x \<in> set l \<Longrightarrow> ld (save x @ ys) = Some (kept x, ys)) \<Longrightarrow>
    load_many ld (length l) (concat (map save l) @ ys) = Some (map kept l, ys)"
  by (induction l) simp_all

lemma load_save_step: "load_wcstep env (save_wcstep st @ xs) = Some (st\<lparr>st_req := (st_req st)\<lparr>rq_cookies := []\<rparr>\<rparr>, xs)"
  by (simp add: load_wcstep_def save_wcstep_def load_stepreq_def save_stepreq_def save_request_def stepreq_new_def)

lemma load_save_session:
  "load_wcstat env (save_wcstat wc @ xs) =
     Some (wc\<lparr>wc_steps := map (\<lambda>st. st\<lparr>st_req := (st_req st)\<lparr>rq_cookies := []\<rparr>\<rparr>) (wc_steps wc)\<rparr>, xs)"
  using load_many_save [of "wc_steps wc" "load_wcstep env" save_wcstep "\<lambda>st. st\<lparr>st_req := (st_req st)\<lparr>rq_cookies := []\<rparr>\<rparr>"]
  by (simp add: save_wcstat_def load_save_step wcstat_new_def)

lemma registry_cids: 
  assumes "registry_ok reg"
  shows "distinct (map (wc_cid \<circ> snd) (rg_stats reg))"
proof -
  have d: "distinct (map fst (rg_stats reg))" using assms by (simp add: registry_ok_def)
  have "inj_on (wc_cid \<circ> snd) (set (rg_stats reg))"
  proof (rule inj_onI)
    fix p q
    assume pq: "p \<in> set (rg_stats reg)" "q \<in> set (rg_stats reg)" "(wc_cid \<circ> snd) p = (wc_cid \<circ> snd) q"
    then have "map_of (rg_stats reg) (fst p) = Some (snd p)" "map_of (rg_stats reg) (fst q) = Some (snd q)"
      using d by (auto intro: map_of_is_SomeI)
    moreover from this have "fst p = fst q"
      using reg_node [OF assms, of "fst p" "snd p"] reg_node [OF assms, of "fst q" "snd q"] pq(3) by auto
    ultimately show "p = q" by (simp add: prod_eq_iff)
  qed
  moreover have "distinct (rg_stats reg)" using d by (simp add: distinct_map)
  ultimately show ?thesis by (simp add: distinct_map)
qed

lemma sessions_stats:
  assumes "registry_ok reg"
  shows "map_of (map (\<lambda>(n, w). (wc_cid w, f w)) (rg_stats reg)) c = map_option f (sessions reg c)"
proof (cases "sessions reg c")
  case None
  have "wc_cid w \<noteq> c" if "(n, w) \<in> set (rg_stats reg)" for n w
  proof
    assume c: "wc_cid w = c"
    have "map_of (rg_stats reg) n = Some w" using assms that by (auto simp: registry_ok_def)
    then show False using reg_node [OF assms] c None by (force simp: sessions_def)
  qed
  then have "map_of (map (\<lambda>(n, w). (wc_cid w, f w)) (rg_stats reg)) c = None"
    by (force simp: map_of_eq_None_iff)
  then show ?thesis using None by simp
next
  case (Some w)
  then obtain s n where sn: "map_of (rg_idx reg) c = Some (s, n)" "map_of (rg_stats reg) n = Some w"
    by (auto simp: sessions_def split: option.splits)
  then have "wc_cid w = c" using reg_entry [OF assms sn(1)] by simp
  moreover have "map fst (map (\<lambda>(n, w). (wc_cid w, f w)) (rg_stats reg)) = map (wc_cid \<circ> snd) (rg_stats reg)"
    by auto
  then have "distinct (map fst (map (\<lambda>(n, w). (wc_cid w, f w)) (rg_stats reg)))"
    using registry_cids [OF assms] by (simp only:)
  ultimately have "map_of (map (\<lambda>(n, w). (wc_cid w, f w)) (rg_stats reg)) c = Some (f w)"
    using map_of_SomeD [OF sn(2)] by (intro map_of_is_SomeI) (auto intro: rev_image_eqI)
  then show ?thesis using Some by simp
qed

subsection \<open>Properties\<close>

text \<open>
  C7: the list of sessions with its index implements a map from client ids to sessions:
  \<open>initref\<close> finds the session of a client or makes a new one and touches no other, the
  destructor of a reader that still holds it removes exactly that session, and both keep list
  and index consistent.
\<close>

theorem registry_refines_map:
  assumes "registry_ok reg"
  shows "(\<exists>it reg'. let wc = (case sessions reg cid of None \<Rightarrow> wcstat_new env cid | Some w \<Rightarrow> w)\<lparr>wc_atime := now\<rparr>
      in initref env now cid reg = Inr (it, wc, reg') \<and> registry_ok reg' \<and>
        sessions reg' = (sessions reg)(cid \<mapsto> wc) \<and>
        (\<exists>reg2. scoped_drop reg' it = Inr reg2 \<and> registry_ok reg2 \<and>
           sessions reg2 = (sessions reg)(cid := None)))"
proof -
  define wc where "wc = (case sessions reg cid of None \<Rightarrow> wcstat_new env cid | Some w \<Rightarrow> w)\<lparr>wc_atime := now\<rparr>"
  obtain it reg' where i: "initref env now cid reg = Inr (it, wc, reg')" "registry_ok reg'"
    "valid_iter reg' cid it" "sessions reg' = (sessions reg)(cid \<mapsto> wc)"
    using initref_ok [OF assms, where cid = cid and env = env and now = now] unfolding wc_def Let_def by blast
  then show ?thesis using scoped_drop_ok [OF i(2,3)] unfolding wc_def Let_def by auto
qed

definition empty_registry :: registry where
  "empty_registry = \<lparr>rg_stats = [], rg_idx = [], rg_fresh = 0\<rparr>"

lemma empty_registry_ok: "registry_ok empty_registry"
  by (simp add: registry_ok_def empty_registry_def)

theorem registry_refines_map_witness:
  "\<exists>it reg'. initref demo_wap 5 7 empty_registry = Inr (it, (wcstat_new demo_wap 7)\<lparr>wc_atime := 5\<rparr>, reg') \<and>
     registry_ok reg' \<and> sessions reg' 7 = Some ((wcstat_new demo_wap 7)\<lparr>wc_atime := 5\<rparr>)"
proof -
  have "sessions empty_registry 7 = None" by (simp add: sessions_def empty_registry_def)
  then show ?thesis
    using registry_refines_map [OF empty_registry_ok, where cid = 7 and env = demo_wap and now = 5] by (auto simp: Let_def)
qed

text \<open>
  two readers that hold the same client's session at once share one index entry. When the
  first is destroyed, the session is gone and the iterator of the second dangles: destroying
  the second is undefined, and so is every access through it.
\<close>

theorem shared_session_dangles:
  assumes "registry_ok reg" and "initref env now cid reg = Inr (it1, wc1, reg1)"
    and "initref env now' cid reg1 = Inr (it2, wc2, reg2)"
  shows "it2 = it1 \<and> (\<exists>reg3. scoped_drop reg2 it1 = Inr reg3 \<and> sessions reg3 cid = None \<and>
    scoped_drop reg3 it2 = Inl Undefined \<and> wc_ref now' reg3 it2 = Inl Undefined)"
proof -
  have r1: "registry_ok reg1" "valid_iter reg1 cid it1"
    using initref_ok [OF assms(1), where cid = cid and env = env and now = now] assms(2) by (auto simp: Let_def)
  have r2: "registry_ok reg2" "valid_iter reg2 cid it2"
    using initref_ok [OF r1(1), where cid = cid and env = env and now = now'] assms(3) by (auto simp: Let_def)
  obtain s n where s: "it1 = Some (cid, s)" "map_of (rg_idx reg1) cid = Some (s, n)"
    using r1(2) by (auto simp: valid_iter_def)
  then have it: "it2 = it1" using assms(3) by (auto simp: initref_def Let_def)
  obtain reg3 where d: "scoped_drop reg2 it1 = Inr reg3" "sessions reg3 = (sessions reg2)(cid := None)"
    "map_of (rg_idx reg3) cid = None" using scoped_drop_ok [OF r2(1), of cid it1] r2(2) it by auto
  then have "idx_node reg3 it2 = Inl Undefined" "it2 \<noteq> None" using s it by (simp_all add: idx_node_def)
  then have "scoped_drop reg3 it2 = Inl Undefined" "wc_ref now' reg3 it2 = Inl Undefined"
    by (simp_all add: scoped_drop_def wc_ref_def)
  then show ?thesis using d it by simp
qed

theorem shared_session_dangles_witness:
  "\<exists>it1 wc1 reg1 it2 wc2 reg2 reg3. initref demo_wap 5 7 empty_registry = Inr (it1, wc1, reg1) \<and>
    initref demo_wap 6 7 reg1 = Inr (it2, wc2, reg2) \<and> scoped_drop reg2 it1 = Inr reg3 \<and>
    scoped_drop reg3 it2 = Inl Undefined"
proof -
  obtain it1 wc1 reg1 where 1: "initref demo_wap 5 7 empty_registry = Inr (it1, wc1, reg1)" "registry_ok reg1"
    using initref_ok [OF empty_registry_ok, where cid = 7 and env = demo_wap and now = 5] by (auto simp: Let_def)
  obtain it2 wc2 reg2 where 2: "initref demo_wap 6 7 reg1 = Inr (it2, wc2, reg2)"
    using initref_ok [OF 1(2), where cid = 7 and env = demo_wap and now = 6] by (auto simp: Let_def)
  show ?thesis using shared_session_dangles [OF empty_registry_ok 1(1) 2] 1 2 by blast
qed

text \<open>
  C28: after \<open>save_arc\<close> and \<open>restore_stats\<close> every client finds its session again and no other
  client finds one: identity, cookies, variables, \<open>smblock\<close>, counters and all of its steps with
  their extractors are as before, only the cookies of the requests of its steps, which
  \<open>serialize\<close> does not name, are lost; list and index are consistent.
\<close>

theorem restore_keeps_sessions:
  assumes "registry_ok reg"
  shows "\<exists>reg'. restore_stats env (save_arc True reg file) empty_registry = Inr reg' \<and> registry_ok reg' \<and>
    (\<forall>cid. sessions reg' cid =
      (case sessions reg cid of
         None \<Rightarrow> None
       | Some wc \<Rightarrow> Some (wc\<lparr>wc_steps := map (\<lambda>st. st\<lparr>st_req := (st_req st)\<lparr>rq_cookies := []\<rparr>\<rparr>) (wc_steps wc)\<rparr>)))"
proof -
  define kept where "kept wc = wc\<lparr>wc_steps := map (\<lambda>st. st\<lparr>st_req := (st_req st)\<lparr>rq_cookies := []\<rparr>\<rparr>) (wc_steps wc)\<rparr>" for wc :: wcstat
  let ?l = "map (kept \<circ> snd) (rg_stats reg)"
  have "map wc_cid ?l = map (wc_cid \<circ> snd) (rg_stats reg)" by (simp add: kept_def)
  then have d: "distinct (map wc_cid ?l)" using registry_cids [OF assms] by (simp only:)
  have "load_many (load_wcstat env) (length (rg_stats reg)) (concat (map (\<lambda>(n, wc). save_wcstat wc) (rg_stats reg)) @ []) = Some (?l, [])"
    using load_many_save [of "rg_stats reg" "load_wcstat env" "\<lambda>(n, wc). save_wcstat wc" "kept \<circ> snd" "[]"]
    by (simp add: kept_def load_save_session split: prod.splits)
  then have r: "restore_stats env (save_arc True reg file) empty_registry = Inr (restored ?l)"
    by (simp add: restore_stats_def save_arc_def restored_def empty_registry_def Let_def)
  have m: "map (\<lambda>w. (wc_cid w, w)) ?l = map (\<lambda>(n, w). (wc_cid w, kept w)) (rg_stats reg)"
    by (auto simp: kept_def)
  have "sessions (restored ?l) cid = map_option kept (sessions reg cid)" for cid
    using restore_ok [OF d] unfolding m by (simp only: sessions_stats [OF assms])
  then show ?thesis using r restore_ok [OF d] by (intro exI [of _ "restored ?l"]) (auto simp: kept_def split: option.splits)
qed

theorem restore_keeps_sessions_witness:
  "\<exists>reg'. restore_stats demo_wap (save_arc True (restored [demo_session]) None) empty_registry = Inr reg' \<and>
    (case sessions reg' 7 of None \<Rightarrow> False | Some wc \<Rightarrow> n_repeat wc = 2 \<and> length (wc_steps wc) = 2)"
proof -
  have ok: "registry_ok (restored [demo_session])" "sessions (restored [demo_session]) 7 = Some demo_session"
    using restore_ok [of "[demo_session]"] by (simp_all add: demo_session_def wcstat_new_def)
  obtain reg' where r: "restore_stats demo_wap (save_arc True (restored [demo_session]) None) empty_registry = Inr reg'"
      "sessions reg' 7 = Some (demo_session\<lparr>wc_steps := map (\<lambda>st. st\<lparr>st_req := (st_req st)\<lparr>rq_cookies := []\<rparr>\<rparr>) (wc_steps demo_session)\<rparr>)"
    using restore_keeps_sessions [OF ok(1), of demo_wap None] ok(2) by auto
  then show ?thesis by (simp add: demo_session_def)
qed

end
