(* ===== verification/Rtp_Packet.thy ===== *)
theory Rtp_Packet
  imports Prelude
begin

section \<open>RTP packets and media buffers (hgs.hpp)\<close>

text \<open>
  \<open>rtp_header::cast\<close> on a receive buffer, the bit fields of the NAL unit and FU-A headers,
  and \<open>mbuffer\<close>, the growing buffer in which a NAL unit is handed to the decoder. Bit fields
  are read from their byte (least significant first, as on the little-endian targets).
\<close>

unbundle bit_operations_syntax

subsection \<open>Numbers in a packet\<close>

definition be16_at :: "u8 list \<Rightarrow> nat \<Rightarrow> u16" where
  "be16_at b i = of_nat (unat (b ! i) * 256 + unat (b ! (i + 1)))"

definition be32_at :: "u8 list \<Rightarrow> nat \<Rightarrow> u32" where
  "be32_at b i = of_nat (((unat (b ! i) * 256 + unat (b ! (i + 1))) * 256 + unat (b ! (i + 2))) * 256 + unat (b ! (i + 3)))"

definition le32_at :: "u8 list \<Rightarrow> nat \<Rightarrow> u32" where
  "le32_at b i = of_nat (((unat (b ! (i + 3)) * 256 + unat (b ! (i + 2))) * 256 + unat (b ! (i + 1))) * 256 + unat (b ! i))"

definition be16_bytes :: "u16 \<Rightarrow> u8 list" where
  "be16_bytes w = [of_nat (unat w div 256), of_nat (unat w mod 256)]"

definition be32_bytes :: "u32 \<Rightarrow> u8 list" where
  "be32_bytes w = [of_nat (unat w div 16777216), of_nat (unat w div 65536 mod 256),
     of_nat (unat w div 256 mod 256), of_nat (unat w mod 256)]"

text \<open>\<open>Ntoh<uint16_t>\<close>\<close>

definition ntoh16 :: "u8 list \<Rightarrow> u16 outcome" where
  "ntoh16 d = (if length d < 2 then Inl (Err_exit ''Ntoh'') else Inr (be16_at d 0))"

subsection \<open>The RTP header\<close>

record rtp_header =
  rtp_cc :: u8
  rtp_x :: bool
  rtp_p :: bool
  rtp_version :: u8
  rtp_pt :: u8
  rtp_m :: bool
  rtp_seq :: u16
  rtp_timestamp :: u32
  rtp_ssrc :: u32
  rtp_csrc :: u32

definition rtp_length :: "u8 \<Rightarrow> nat" where
  "rtp_length cc = 16 - 4 + 4 * unat cc"

text \<open>
  \<open>cast\<close> on the first \<open>n\<close> bytes of the receive buffer. The copy of the header takes the four
  bytes behind the fixed part along; they are converted only where the packet has a CSRC.
\<close>

definition rtp_cast :: "u8 list \<Rightarrow> nat \<Rightarrow> rtp_header option" where
  "rtp_cast buf n =
     (if n < 12 then None
      else
        let cc = buf ! 0 AND 0x0f in
        if n < rtp_length cc then None
        else Some \<lparr>rtp_cc = cc, rtp_x = bit (buf ! 0) 4, rtp_p = bit (buf ! 0) 5, rtp_version = drop_bit 6 (buf ! 0),
               rtp_pt = buf ! 1 AND 0x7f, rtp_m = bit (buf ! 1) 7, rtp_seq = be16_at buf 2,
               rtp_timestamp = be32_at buf 4 div 10, rtp_ssrc = be32_at buf 8,
               rtp_csrc = (if 0 < unat cc then be32_at buf 12 else le32_at buf 12)\<rparr>)"

subsection \<open>NAL unit and fragment headers\<close>

definition nal_cast :: "u8 list \<Rightarrow> u8 option" where
  "nal_cast d = (if d = [] then None else Some (hd d))"

definition nal_type :: "u8 \<Rightarrow> u8" where "nal_type h = h AND 0x1f"
definition nal_nri :: "u8 \<Rightarrow> u8" where "nal_nri h = drop_bit 5 h AND 0x03"
definition nal_f :: "u8 \<Rightarrow> bool" where "nal_f h = bit h 7"

definition fu_type :: "u8 \<Rightarrow> u8" where "fu_type h = h AND 0x1f"
definition fu_e :: "u8 \<Rightarrow> bool" where "fu_e h = bit h 6"
definition fu_s :: "u8 \<Rightarrow> bool" where "fu_s h = bit h 7"

text \<open>The assignments \<open>h3->nri = h1->nri\<close> and \<open>h3->f = h1->f\<close>.\<close>

definition nal_merge :: "u8 \<Rightarrow> u8 \<Rightarrow> u8" where
  "nal_merge h1 h3 = (h3 AND 0x1f) OR (h1 AND 0xe0)"

subsection \<open>mbuffer\<close>

text \<open>
  The memory block holds the copied header, four bytes of start code and from the NAL header
  on the content; \<open>size_\<close> counts from the beginning of the block. An access past the block is
  \<open>Undefined\<close>; allocation is taken to succeed.
\<close>

record mbuffer =
  mb_base :: "(rtp_header \<times> u8 list) option"
  mb_size :: u32
  mb_capacity :: u32

definition mb_empty :: mbuffer where
  "mb_empty = \<lparr>mb_base = None, mb_size = 0, mb_capacity = 0\<rparr>"

definition mb_is_empty :: "mbuffer \<Rightarrow> bool" where
  "mb_is_empty b \<longleftrightarrow> mb_size b = 0"

definition mb_init :: "rtp_header \<Rightarrow> u8 \<Rightarrow> mbuffer" where
  "mb_init rh nh = \<lparr>mb_base = Some (rh, [nh]), mb_size = 16 + 4 + 1, mb_capacity = 2048\<rparr>"

definition mb_put :: "u8 list \<Rightarrow> mbuffer \<Rightarrow> mbuffer outcome" where
  "mb_put p b =
     (case mb_base b of
        None \<Rightarrow> Inl Assertion
      | Some (rh, content) \<Rightarrow>
          let siz = of_nat (length p) :: u32;
              cap = (if mb_capacity b - mb_size b < siz
                     then mb_capacity b + (siz + 2047) div 1024 * 1024 else mb_capacity b)
          in if unat (mb_size b) + length p > unat cap then Inl Undefined
             else Inr \<lparr>mb_base = Some (rh, content @ p), mb_size = mb_size b + siz, mb_capacity = cap\<rparr>)"

definition mb_make :: "rtp_header \<Rightarrow> u8 \<Rightarrow> u8 list \<Rightarrow> mbuffer outcome" where
  "mb_make rh nh p = mb_put p (mb_init rh nh)"

text \<open>What the owner of the buffer can read from the NAL header on.\<close>

definition mb_content :: "mbuffer \<Rightarrow> u8 list" where
  "mb_content b = (case mb_base b of None \<Rightarrow> [] | Some (_, c) \<Rightarrow> c)"

subsection \<open>The buffer never overruns\<close>

definition mb_ok :: "mbuffer \<Rightarrow> bool" where
  "mb_ok b \<longleftrightarrow> (case mb_base b of
     None \<Rightarrow> mb_size b = 0 \<and> mb_capacity b = 0
   | Some (_, c) \<Rightarrow> unat (mb_size b) = 20 + length c \<and> unat (mb_size b) \<le> unat (mb_capacity b) \<and>
       unat (mb_capacity b) \<le> 2 * length c + 4096)"

lemma mb_ok_init: "mb_ok (mb_init rh nh)"
  by (simp add: mb_ok_def mb_init_def)

lemma mb_ok_empty: "mb_ok mb_empty"
  by (simp add: mb_ok_def mb_empty_def)

lemma grow_enough:
  fixes n :: nat
  shows "n \<le> (n + 2047) div 1024 * 1024" and "(n + 2047) div 1024 * 1024 \<le> n + 2047"
proof -
  have "n + 2047 = (n + 2047) div 1024 * 1024 + (n + 2047) mod 1024" and "(n + 2047) mod 1024 < 1024"
    by simp_all
  then show "n \<le> (n + 2047) div 1024 * 1024" and "(n + 2047) div 1024 * 1024 \<le> n + 2047"
    by linarith+
qed

lemma mb_put_ok:
  assumes "mb_ok b" and "mb_base b = Some (rh, c)" and "length c + length p < 2000000000"
  shows "\<exists>b'. mb_put p b = Inr b' \<and> mb_ok b' \<and> mb_base b' = Some (rh, c @ p)"
proof -
  let ?siz = "of_nat (length p) :: u32" and ?cap = "mb_capacity b"
  have k: "unat (mb_size b) = 20 + length c" "unat (mb_size b) \<le> unat ?cap" "unat ?cap \<le> 2 * length c + 4096"
    using assms(1,2) by (simp_all add: mb_ok_def)
  have s: "unat ?siz = length p" using assms(3) by (simp add: unat_of_nat)
  have d: "unat (?cap - mb_size b) = unat ?cap - unat (mb_size b)"
    using k(2) by (simp add: unat_sub word_le_nat_alt)
  have "unat (?siz + 2047) = length p + 2047" using s assms(3) by (simp add: unat_word_ariths)
  then have "unat ((?siz + 2047) div 1024) = (length p + 2047) div 1024" by (simp add: unat_div)
  moreover have "(length p + 2047) div 1024 * 1024 < 4294967296"
    using grow_enough(2) [of "length p"] assms(3) by linarith
  ultimately have g: "unat ((?siz + 2047) div 1024 * 1024) = (length p + 2047) div 1024 * 1024"
    by (simp add: unat_word_ariths(2))
  have "unat ?cap + (length p + 2047) div 1024 * 1024 < 4294967296"
    using grow_enough(2) [of "length p"] k assms(3) by linarith
  then have a: "unat (?cap + (?siz + 2047) div 1024 * 1024) = unat ?cap + (length p + 2047) div 1024 * 1024"
    using g by (simp add: unat_word_ariths(1))
  have z: "unat (mb_size b + ?siz) = 20 + length c + length p"
    using k(1) s assms(3) by (simp add: unat_word_ariths(1))
  show ?thesis
  proof (cases "?cap - mb_size b < ?siz")
    case True
    then have lt: "unat ?cap - unat (mb_size b) < length p" using d s by (simp add: word_less_nat_alt)
    have "unat (mb_size b) + length p \<le> unat ?cap + (length p + 2047) div 1024 * 1024"
      using k(2) grow_enough(1) [of "length p"] by linarith
    moreover have "unat ?cap + (length p + 2047) div 1024 * 1024 \<le> 2 * (length c + length p) + 4096"
    proof -
      have "unat ?cap < length p + unat (mb_size b)" using lt k(2) by (simp add: less_diff_conv2)
      moreover note k(1) grow_enough(2) [of "length p"]
      ultimately show ?thesis by (simp only: distrib_left)
    qed
    ultimately show ?thesis using True assms(2) a z k(1)
      by (simp add: mb_put_def mb_ok_def Let_def)
  next
    case False
    then have "\<not> unat ?cap - unat (mb_size b) < length p" using d s by (simp add: word_less_nat_alt)
    then show ?thesis using False assms(2) z k by (simp add: mb_put_def mb_ok_def Let_def)
  qed
qed

lemma mb_make_ok:
  assumes "length p < 1900000000"
  shows "\<exists>b. mb_make rh nh p = Inr b \<and> mb_ok b \<and> mb_base b = Some (rh, nh # p)"
  using mb_put_ok [OF mb_ok_init, of rh nh rh "[nh]" p] assms by (simp add: mb_make_def mb_init_def)

subsection \<open>Bytes of numbers come back\<close>

lemma be16_bytes_at: "be16_at (u @ be16_bytes w @ v) (length u) = w"
proof -
  have "unat w < 65536" using unsigned_less [of w] by simp
  then have "unat w div 256 < 256" by simp
  then have "unat (of_nat (unat w div 256) :: u8) = unat w div 256" by (simp add: unat_of_nat)
  then show ?thesis by (simp add: be16_at_def be16_bytes_def nth_append unat_of_nat)
qed

lemma nal_merge_split:
  "nal_merge (h AND 0xe0 OR t) ((f AND 0xe0) OR (h AND 0x1f)) = h" if "t AND 0xe0 = 0"
proof (rule bit_word_eqI)
  fix n
  assume n: "n < LENGTH(8)"
  then have "n \<in> {0,1,2,3,4,5,6,7}" by auto
  moreover have "\<not> bit (t AND 0xe0) n" using that by simp
  ultimately show "bit (nal_merge (h AND 0xe0 OR t) ((f AND 0xe0) OR (h AND 0x1f))) n = bit h n"
    by (auto simp: nal_merge_def bit_simps)
qed

end
