(* ===== verification/Rtp_H264.thy ===== *)
theory Rtp_H264
  imports Rtp_Packet
begin

section \<open>From RTP datagrams to H.264 NAL units (hgs-rtph264.cpp)\<close>

text \<open>
  \<open>h264nal\<close> takes NAL units out of packets: single ones, several in one packet (STAP-A) and
  fragments of one (FU-A); \<open>rtp_receiver\<close> watches the sequence numbers. The callback
  \<open>rtp_statis_\<close> is the argument \<open>observe\<close>, as the code has it, with the interface
  \<open>rtp_observer\<close>; what was given to \<open>sink_commit_\<close> is the list \<open>sunk\<close>.
\<close>

unbundle bit_operations_syntax

record 's h264nal =
  bufp :: mbuffer
  sunk :: "mbuffer list"
  stat :: 's

type_synonym 's observer = "rtp_header \<Rightarrow> u8 list \<Rightarrow> 's \<Rightarrow> 's outcome"

subsection \<open>The operations\<close>

function stap_loop :: "rtp_header \<Rightarrow> u8 list \<Rightarrow> mbuffer list \<Rightarrow> mbuffer list outcome" where
  "stap_loop rh d out =
     (if length d < 2 then Inr out
      else bind_ok (ntoh16 d) (\<lambda>w.
        let len = unat w; d2 = drop 2 d in
        if len > length d2 then Inr out
        else case nal_cast (take len d2) of
               None \<Rightarrow> stap_loop rh d2 out
             | Some h2 \<Rightarrow>
                 bind_ok (mb_make rh h2 (drop 1 (take len d2))) (\<lambda>b.
                   stap_loop rh (drop len d2) (out @ [b]))))"
  by pat_completeness auto
termination by (relation "measure (\<lambda>(rh, d, out). length d)") auto

declare stap_loop.simps [simp del]

definition fu_incoming :: "'s observer \<Rightarrow> rtp_header \<Rightarrow> u8 \<Rightarrow> u8 list \<Rightarrow> bool \<Rightarrow> ('s, 'z) h264nal_scheme \<Rightarrow>
    ('s, 'z) h264nal_scheme outcome" where
  "fu_incoming observe rh h1 d continus s =
     (case nal_cast d of
        None \<Rightarrow> Inr s
      | Some fuh \<Rightarrow>
          if \<not> fu_s fuh \<and> \<not> continus then Inr (s\<lparr>bufp := mb_empty\<rparr>)
          else if \<not> fu_s fuh \<and> mb_is_empty (bufp s) then Inr s
          else
            let h3 = nal_merge h1 fuh;
                buf = (if fu_s fuh then mb_init rh h3 else bufp s);
                d1 = (if fu_s fuh then h3 # tl d else d)
            in bind_ok (observe rh d1 (stat s)) (\<lambda>st.
               bind_ok (mb_put (tl d) buf) (\<lambda>b.
                 if fu_e fuh then Inr (s\<lparr>bufp := mb_empty, sunk := sunk s @ [b], stat := st\<rparr>)
                 else Inr (s\<lparr>bufp := b, stat := st\<rparr>))))"

definition nalu_incoming :: "'s observer \<Rightarrow> rtp_header \<Rightarrow> u8 list \<Rightarrow> bool \<Rightarrow> ('s, 'z) h264nal_scheme \<Rightarrow>
    ('s, 'z) h264nal_scheme outcome" where
  "nalu_incoming observe rh d continus s =
     (case nal_cast d of
        None \<Rightarrow> Inr s
      | Some h1 \<Rightarrow>
          if nal_type h1 = 24 then
            bind_ok (stap_loop rh (tl d) (sunk s)) (\<lambda>out. Inr (s\<lparr>sunk := out\<rparr>))
          else if nal_type h1 = 28 then fu_incoming observe rh h1 (tl d) continus s
          else if nal_type h1 < 24 then
            bind_ok (mb_make rh h1 (tl d)) (\<lambda>b. Inr (s\<lparr>sunk := sunk s @ [b]\<rparr>))
          else Inr s)"

text \<open>The parameter sets of the session description, with a start code between the two.\<close>

definition rtp_header_zero :: rtp_header where
  "rtp_header_zero = \<lparr>rtp_cc = 0, rtp_x = False, rtp_p = False, rtp_version = 0, rtp_pt = 0, rtp_m = False,
     rtp_seq = 0, rtp_timestamp = 0, rtp_ssrc = 0, rtp_csrc = 0\<rparr>"

definition sprop_parameter_sets :: "u8 list \<Rightarrow> u8 list \<Rightarrow> ('s, 'z) h264nal_scheme \<Rightarrow> ('s, 'z) h264nal_scheme outcome" where
  "sprop_parameter_sets sps pps s =
     (case sps of
        [] \<Rightarrow> Inr s
      | h # t \<Rightarrow>
          bind_ok (mb_make rtp_header_zero h t) (\<lambda>mp.
          bind_ok (mb_put [0, 0, 0, 1] mp) (\<lambda>b2.
          bind_ok (mb_put pps b2) (\<lambda>b3. Inr (s\<lparr>sunk := sunk s @ [b3]\<rparr>)))))"

record 's receiver = "'s h264nal" +
  expseq :: u32

text \<open>
  A packet far below the expected number counts as continuous, for the numbers that start
  again at 0.
\<close>

definition seq_continus :: "u16 \<Rightarrow> u32 \<Rightarrow> bool" where
  "seq_continus seq ex \<longleftrightarrow> (ucast seq = ex AND 0xffff) \<or> (ucast seq < ex \<and> ex - ucast seq > 0x1fff)"

definition handle_datagram :: "'s observer \<Rightarrow> u8 list \<Rightarrow> nat \<Rightarrow> 's receiver \<Rightarrow> 's receiver outcome" where
  "handle_datagram observe buf n r =
     (case rtp_cast buf n of
        None \<Rightarrow> Inr r
      | Some h \<Rightarrow>
          nalu_incoming observe h (drop (rtp_length (rtp_cc h)) (take n buf))
            (seq_continus (rtp_seq h) (expseq r)) (r\<lparr>expseq := ucast (rtp_seq h) + 1\<rparr>))"

text \<open>
  The completion handler: an error ends the receiving, else the socket is read again (the
  boolean of the result).
\<close>

definition receive_from :: "'s observer \<Rightarrow> bool \<Rightarrow> u8 list \<Rightarrow> nat \<Rightarrow> 's receiver \<Rightarrow> ('s receiver \<times> bool) outcome" where
  "receive_from observe ec buf n r =
     (if ec then Inr (r, False)
      else bind_ok (if 0 < n then handle_datagram observe buf n r else Inr r) (\<lambda>r1. Inr (r1, True)))"

fun receive_all :: "'s observer \<Rightarrow> (u8 list \<times> nat) list \<Rightarrow> 's receiver \<Rightarrow> 's receiver outcome" where
  "receive_all observe [] r = Inr r"
| "receive_all observe ((buf, n) # ds) r =
     bind_ok (receive_from observe False buf n r) (\<lambda>(r1, _). receive_all observe ds r1)"

subsection \<open>Packets as a sender makes them\<close>

definition rtp_packet :: "u8 \<Rightarrow> u16 \<Rightarrow> u32 \<Rightarrow> u32 \<Rightarrow> u8 list \<Rightarrow> u8 list" where
  "rtp_packet mp seq ts ssrc payload =
     [0x80, mp] @ be16_bytes seq @ be32_bytes ts @ be32_bytes ssrc @ payload"

definition packet_header :: "u8 \<Rightarrow> u16 \<Rightarrow> u32 \<Rightarrow> u32 \<Rightarrow> u32 \<Rightarrow> rtp_header" where
  "packet_header mp seq ts ssrc tail =
     \<lparr>rtp_cc = 0, rtp_x = False, rtp_p = False, rtp_version = 2, rtp_pt = mp AND 0x7f, rtp_m = bit mp 7,
      rtp_seq = seq, rtp_timestamp = ts div 10, rtp_ssrc = ssrc, rtp_csrc = tail\<rparr>"

definition received :: "u8 list \<Rightarrow> u8 list \<Rightarrow> u8 list \<times> nat" where
  "received stale p = (p @ stale, length p)"

fun fu_packets :: "u8 \<Rightarrow> u32 \<Rightarrow> u32 \<Rightarrow> u8 \<Rightarrow> u16 \<Rightarrow> bool \<Rightarrow> u8 list list \<Rightarrow> u8 list list" where
  "fu_packets mp ts ssrc h seq first [] = []"
| "fu_packets mp ts ssrc h seq first (c # cs) =
     rtp_packet mp seq ts ssrc
       (((h AND 0xe0) OR 28) # ((if first then 0x80 else 0) OR (if cs = [] then 0x40 else 0) OR (h AND 0x1f)) # c)
     # fu_packets mp ts ssrc h (seq + 1) False cs"

lemma be32_at_bytes:
  "be32_at (u @ be32_bytes w @ v) (length u) = w"
proof -
  let ?n = "unat w"
  have "?n < 4294967296" using unsigned_less [of w] by simp
  then have b: "?n div 16777216 < 256" by simp
  have e: "unat (of_nat k :: u8) = k" if "k < 256" for k using that by (simp add: unat_of_nat)
  have s: "((?n div 16777216 * 256 + ?n div 65536 mod 256) * 256 + ?n div 256 mod 256) * 256 + ?n mod 256 = ?n"
  proof -
    have "?n div 256 div 256 = ?n div 65536" "?n div 65536 div 256 = ?n div 16777216"
      by (simp_all add: div_mult2_eq [symmetric])
    then show ?thesis using div_mult_mod_eq [of ?n 256] div_mult_mod_eq [of "?n div 256" 256]
        div_mult_mod_eq [of "?n div 65536" 256] by (simp add: algebra_simps)
  qed
  have "be32_at (u @ be32_bytes w @ v) (length u) =
      of_nat (((?n div 16777216 * 256 + ?n div 65536 mod 256) * 256 + ?n div 256 mod 256) * 256 + ?n mod 256)"
    using b by (simp only: be32_at_def be32_bytes_def) (simp add: nth_append e)
  then show ?thesis unfolding s by simp
qed

lemma be16_at_front: "length u = i \<Longrightarrow> be16_at (u @ be16_bytes w @ v) i = w"
  using be16_bytes_at by blast

lemma be32_at_front: "length u = i \<Longrightarrow> be32_at (u @ be32_bytes w @ v) i = w"
  using be32_at_bytes by blast

lemma be_bytes_length [simp]: "length (be16_bytes w) = 2" "length (be32_bytes v) = 4"
  by (simp_all add: be16_bytes_def be32_bytes_def)

lemma rtp_packet_length: "length (rtp_packet mp seq ts ssrc payload) = 12 + length payload"
  by (simp add: rtp_packet_def)

lemma rtp_cast_packet:
  "rtp_cast (rtp_packet mp seq ts ssrc payload @ stale) (length (rtp_packet mp seq ts ssrc payload)) =
    Some (packet_header mp seq ts ssrc (le32_at (payload @ stale) 0))"
proof -
  let ?b = "rtp_packet mp seq ts ssrc payload @ stale"
  have f: "?b ! 0 = 0x80" "?b ! 1 = mp" by (simp_all add: rtp_packet_def)
  have q: "be16_at ?b 2 = seq"
    unfolding rtp_packet_def append.assoc by (rule be16_at_front) simp
  have "?b = ([0x80, mp] @ be16_bytes seq) @ be32_bytes ts @ be32_bytes ssrc @ payload @ stale"
    by (simp add: rtp_packet_def)
  then have t: "be32_at ?b 4 = ts" by (simp only:) (rule be32_at_front, simp)
  have "?b = ([0x80, mp] @ be16_bytes seq @ be32_bytes ts) @ be32_bytes ssrc @ payload @ stale"
    by (simp add: rtp_packet_def)
  then have s: "be32_at ?b 8 = ssrc" by (simp only:) (rule be32_at_front, simp)
  have n: "?b ! (12 + i) = (payload @ stale) ! i" for i
    by (simp add: rtp_packet_def be16_bytes_def be32_bytes_def)
  have l: "le32_at ?b 12 = le32_at (payload @ stale) 0"
    using n [of 0] n [of 1] n [of 2] n [of 3] by (simp add: le32_at_def numeral_2_eq_2)
  have cc: "(0x80 AND 0x0f :: u8) = 0" and v: "drop_bit 6 (0x80 :: u8) = 2"
    and x: "\<not> bit (0x80 :: u8) 4" "\<not> bit (0x80 :: u8) 5" by (simp_all add: bit_simps)
  show ?thesis unfolding rtp_cast_def f Let_def cc
    by (simp add: rtp_packet_length rtp_length_def packet_header_def q t s l v x)
qed

lemma drop_packet: "drop (rtp_length 0) (rtp_packet mp seq ts ssrc payload) = payload"
  by (simp add: rtp_packet_def rtp_length_def be16_bytes_def be32_bytes_def)

lemma handle_packet:
  "receive_from observe False (rtp_packet mp seq ts ssrc payload @ stale)
      (length (rtp_packet mp seq ts ssrc payload)) r =
    bind_ok (nalu_incoming observe (packet_header mp seq ts ssrc (le32_at (payload @ stale) 0)) payload
      (seq_continus seq (expseq r)) (r\<lparr>expseq := ucast seq + 1\<rparr>)) (\<lambda>r1. Inr (r1, True))"
proof -
  have "0 < length (rtp_packet mp seq ts ssrc payload)" by (simp add: rtp_packet_length)
  then show ?thesis
    by (simp add: receive_from_def handle_datagram_def rtp_cast_packet)
      (simp add: packet_header_def drop_packet)
qed

lemma receive_all_received:
  "receive_all observe (received stale p # ds) r =
    bind_ok (receive_from observe False (fst (received stale p)) (snd (received stale p)) r)
      (\<lambda>(r1, _). receive_all observe ds r1)"
  by (simp add: received_def)

subsection \<open>Bits of the headers\<close>

lemma fu_indicator: "nal_type ((h AND 0xe0) OR 28) = 28"
proof (rule bit_word_eqI)
  fix n
  assume "n < LENGTH(8)"
  then have "n = 0 \<or> n = 1 \<or> n = 2 \<or> n = 3 \<or> n = 4 \<or> n = 5 \<or> n = 6 \<or> n = 7" by auto
  then show "bit (nal_type ((h AND 0xe0) OR 28)) n = bit (28 :: u8) n"
    by (auto simp: nal_type_def bit_simps)
qed

lemma fu_header_back:
  assumes "x AND 0x1f = 0"
  shows "nal_merge ((h AND 0xe0) OR 28) (x OR (h AND 0x1f)) = h"
proof (rule bit_word_eqI)
  fix n
  assume "n < LENGTH(8)"
  then have "n = 0 \<or> n = 1 \<or> n = 2 \<or> n = 3 \<or> n = 4 \<or> n = 5 \<or> n = 6 \<or> n = 7" by auto
  moreover have "\<not> bit (x AND 0x1f) n" using assms by simp
  ultimately show "bit (nal_merge ((h AND 0xe0) OR 28) (x OR (h AND 0x1f))) n = bit h n"
    by (auto simp: nal_merge_def bit_simps)
qed

lemma fu_flags:
  "fu_s ((if a then 0x80 else 0) OR (if e then 0x40 else 0) OR (h AND 0x1f)) = a"
  "fu_e ((if a then 0x80 else 0) OR (if e then 0x40 else 0) OR (h AND 0x1f)) = e"
  by (auto simp: fu_s_def fu_e_def bit_simps)

lemma fu_flags_low: "((if a then 0x80 else 0) OR (if e then 0x40 else 0) :: u8) AND 0x1f = 0"
  by simp

subsection \<open>Sequence numbers\<close>

lemma seq_next: "seq_continus (seq + 1) (ucast seq + 1)"
proof -
  have "ucast (seq + 1) = (ucast seq + 1 :: u32) AND 0xffff"
  proof -
    have m: "x AND 0xffff = take_bit 16 x" for x :: u32
      by (simp add: take_bit_eq_mask mask_eq_exp_minus_1)
    have "unat (ucast (seq + 1) :: u32) = (unat seq + 1) mod 65536"
      by (simp add: unsigned_ucast_eq unat_word_ariths(1) take_bit_eq_mod)
    moreover have "unat seq < 65536" using unsigned_less [of seq] by simp
    then have "unat (ucast seq + 1 :: u32) = unat seq + 1"
      by (simp add: unat_word_ariths(1) unsigned_ucast_eq take_bit_eq_mod)
    then have "unat (take_bit 16 (ucast seq + 1 :: u32)) = (unat seq + 1) mod 65536"
      unfolding unsigned_take_bit_eq by (simp add: take_bit_eq_mod)
    ultimately show ?thesis unfolding m by (metis word_unat_eq_iff)
  qed
  then show ?thesis by (simp add: seq_continus_def)
qed

subsection \<open>The contract of the callback\<close>

locale rtp_observer =
  fixes st_ok :: "'s \<Rightarrow> bool"
    and header_ok :: "rtp_header \<Rightarrow> bool"
    and observe :: "'s observer"
  assumes observe_ok: "st_ok st \<Longrightarrow> header_ok h \<Longrightarrow> \<exists>st'. observe h d st = Inr st' \<and> st_ok st'"
begin

text \<open>Fragments after the first: each is appended to the buffer, the last commits it.\<close>

lemma fragments_go_on:
  assumes "\<And>seq tail. header_ok (packet_header mp seq ts ssrc tail)"
    and "cs \<noteq> []" and "mb_ok (bufp r)" and "mb_base (bufp r) = Some (rh, content)"
    and "st_ok (stat r)" and "seq_continus seq (expseq r)"
    and "length content + length (concat cs) < 2000000000"
  shows "\<exists>r' b. receive_all observe (map (received stale) (fu_packets mp ts ssrc h seq False cs)) r = Inr r' \<and>
    sunk r' = sunk r @ [b] \<and> mb_base b = Some (rh, content @ concat cs) \<and> mb_ok b \<and>
    bufp r' = mb_empty \<and> st_ok (stat r')"
  using assms(2-)
proof (induction cs arbitrary: r content seq)
  case (Cons c cs)
  let ?fu = "(if cs = [] then 0x40 else 0) OR (h AND 0x1f)"
  let ?p = "((h AND 0xe0) OR 28) # ?fu # c"
  let ?h = "packet_header mp seq ts ssrc (le32_at (?p @ stale) 0)"
  have fl: "\<not> fu_s ?fu" "fu_e ?fu = (cs = [])"
    using fu_flags [of False "cs = []" h] by simp_all
  have ty: "nal_type ((h AND 0xe0) OR 28) = 28" by (rule fu_indicator)
  have ne: "\<not> mb_is_empty (bufp r)"
  proof -
    have "unat (mb_size (bufp r)) = 20 + length content" using Cons.prems(2,3) by (simp add: mb_ok_def)
    then show ?thesis by (auto simp: mb_is_empty_def)
  qed
  obtain st where st: "observe ?h (?fu # c) (stat r) = Inr st" "st_ok st"
    using observe_ok [OF Cons.prems(4) assms(1)] by blast
  obtain b where b: "mb_put c (bufp r) = Inr b" "mb_ok b" "mb_base b = Some (rh, content @ c)"
    using mb_put_ok [OF Cons.prems(2,3), of c] Cons.prems(6) by auto
  have step: "receive_from observe False (fst (received stale (rtp_packet mp seq ts ssrc ?p)))
      (snd (received stale (rtp_packet mp seq ts ssrc ?p))) r =
    Inr (if cs = [] then r\<lparr>expseq := ucast seq + 1, bufp := mb_empty, sunk := sunk r @ [b], stat := st\<rparr>
      else r\<lparr>expseq := ucast seq + 1, bufp := b, stat := st\<rparr>, True)"
    using Cons.prems(5) fl ne st(1) b(1)
    by (simp add: received_def handle_packet nalu_incoming_def nal_cast_def ty fu_incoming_def)
  show ?case
  proof (cases "cs = []")
    case True
    then show ?thesis using step b st(2) by (simp add: receive_all_received)
  next
    case False
    let ?r = "r\<lparr>expseq := ucast seq + 1, bufp := b, stat := st\<rparr>"
    have "seq_continus (seq + 1) (expseq ?r)" using seq_next by simp
    then obtain r' b' where ih: "receive_all observe (map (received stale) (fu_packets mp ts ssrc h (seq + 1) False cs)) ?r = Inr r'"
      "sunk r' = sunk ?r @ [b']" "mb_base b' = Some (rh, (content @ c) @ concat cs)" "mb_ok b'"
      "bufp r' = mb_empty" "st_ok (stat r')"
      using Cons.IH [of ?r "content @ c" "seq + 1"] False b st(2) Cons.prems(6) by auto
    then show ?thesis using step False by (simp add: receive_all_received)
  qed
qed simp

lemma unit_reassembled:
  assumes "\<And>seq tail. header_ok (packet_header mp seq ts ssrc tail)"
    and "cs \<noteq> []" and "st_ok (stat r)" and "length (concat cs) < 1900000000"
  shows "\<exists>r' b tail. receive_all observe (map (received stale) (fu_packets mp ts ssrc h seq True cs)) r = Inr r' \<and>
    sunk r' = sunk r @ [b] \<and> mb_base b = Some (packet_header mp seq ts ssrc tail, h # concat cs) \<and>
    bufp r' = mb_empty \<and> st_ok (stat r')"
proof -
  obtain c cs' where cs: "cs = c # cs'" using assms(2) by (cases cs) auto
  let ?fu = "0x80 OR (if cs' = [] then 0x40 else 0) OR (h AND 0x1f)"
  let ?p = "((h AND 0xe0) OR 28) # ?fu # c"
  let ?h = "packet_header mp seq ts ssrc (le32_at (?p @ stale) 0)"
  have fl: "fu_s ?fu" "fu_e ?fu = (cs' = [])"
    using fu_flags [of True "cs' = []" h] by simp_all
  have ty: "nal_type ((h AND 0xe0) OR 28) = 28" by (rule fu_indicator)
  have mg: "nal_merge ((h AND 0xe0) OR 28) ?fu = h"
    using fu_header_back [OF fu_flags_low [of True "cs' = []"], of h] by (simp add: or.assoc)
  obtain st where st: "observe ?h (h # c) (stat r) = Inr st" "st_ok st"
    using observe_ok [OF assms(3,1)] by blast
  obtain b where b: "mb_put c (mb_init ?h h) = Inr b" "mb_ok b" "mb_base b = Some (?h, [h] @ c)"
    using mb_put_ok [OF mb_ok_init, of ?h h ?h "[h]" c] assms(4) cs by (auto simp: mb_init_def)
  have step: "receive_from observe False (fst (received stale (rtp_packet mp seq ts ssrc ?p)))
      (snd (received stale (rtp_packet mp seq ts ssrc ?p))) r =
    Inr (if cs' = [] then r\<lparr>expseq := ucast seq + 1, bufp := mb_empty, sunk := sunk r @ [b], stat := st\<rparr>
      else r\<lparr>expseq := ucast seq + 1, bufp := b, stat := st\<rparr>, True)"
    using fl st(1) b(1)
    by (simp add: received_def handle_packet nalu_incoming_def nal_cast_def ty fu_incoming_def mg)
  show ?thesis
  proof (cases "cs' = []")
    case True
    then show ?thesis using step b st(2) cs by (auto simp: receive_all_received)
  next
    case False
    let ?r = "r\<lparr>expseq := ucast seq + 1, bufp := b, stat := st\<rparr>"
    have "seq_continus (seq + 1) (expseq ?r)" using seq_next by simp
    then obtain r' b' where ih: "receive_all observe (map (received stale) (fu_packets mp ts ssrc h (seq + 1) False cs')) ?r = Inr r'"
      "sunk r' = sunk ?r @ [b']" "mb_base b' = Some (?h, ([h] @ c) @ concat cs')"
      "bufp r' = mb_empty" "st_ok (stat r')"
      using fragments_go_on [OF assms(1) False, where r = ?r and content = "[h] @ c" and seq = "seq + 1" and stale = stale
          and h = h and rh = ?h] b st(2) assms(4) cs by auto
    then show ?thesis using step False cs by (auto simp: receive_all_received)
  qed
qed

end

subsection \<open>Aggregated units\<close>

definition stap_payload :: "u8 list list \<Rightarrow> u8 list" where
  "stap_payload nals = concat (map (\<lambda>n. be16_bytes (of_nat (length n)) @ n) nals)"

lemma stap_loop_payload:
  "\<forall>n\<in>set nals. n \<noteq> [] \<and> length n < 65536 \<Longrightarrow>
    \<exists>bs. stap_loop rh (stap_payload nals) out = Inr (out @ bs) \<and> map mb_base bs = map (\<lambda>n. Some (rh, n)) nals"
proof (induction nals arbitrary: out)
  case Nil
  then show ?case by (simp add: stap_payload_def stap_loop.simps [of rh "[]"])
next
  case (Cons n nals)
  let ?d = "be16_bytes (of_nat (length n)) @ n @ stap_payload nals"
  have n: "n \<noteq> []" "length n < 65536" using Cons.prems by simp_all
  then obtain h t where ht: "n = h # t" by (cases n) auto
  have w: "be16_at ?d 0 = of_nat (length n)" using be16_at_front [of "[]" 0 "of_nat (length n)"] by simp
  have u: "unat (of_nat (length n) :: u16) = length n" using n(2) by (simp add: unat_of_nat)
  have d2: "drop 2 ?d = n @ stap_payload nals" by (simp add: be16_bytes_def)
  obtain b where b: "mb_make rh h t = Inr b" "mb_base b = Some (rh, n)"
    using mb_make_ok [of t rh h] n(2) ht by auto
  have "stap_loop rh ?d out = stap_loop rh (stap_payload nals) (out @ [b])"
  proof -
    have "\<not> length ?d < 2" by simp
    moreover have "nal_cast (take (length n) (n @ stap_payload nals)) = Some h" using ht by (simp add: nal_cast_def)
    moreover have "drop 1 (take (length n) (n @ stap_payload nals)) = t" using ht by simp
    ultimately show ?thesis
      by (subst stap_loop.simps) (simp add: ntoh16_def w u d2 b(1) Let_def del: take_append)
  qed
  moreover obtain bs where "stap_loop rh (stap_payload nals) (out @ [b]) = Inr ((out @ [b]) @ bs)"
    "map mb_base bs = map (\<lambda>n. Some (rh, n)) nals" using Cons.IH [of "out @ [b]"] Cons.prems by auto
  ultimately show ?case using b(2) by (intro exI [of _ "b # bs"]) (simp add: stap_payload_def)
qed

text \<open>
  the units a sender puts into one packet (STAP-A), none empty, come out one by one, whole,
  in their order and with the RTP header of the packet, whatever the sequence number is.
\<close>

theorem aggregated_units_come_out:
  assumes "nal_type h = 24" and "\<forall>n\<in>set nals. n \<noteq> [] \<and> length n < 65536"
  shows "\<exists>r' bs tail. receive_all observe [received stale (rtp_packet mp seq ts ssrc (h # stap_payload nals))] r = Inr r' \<and>
    sunk r' = sunk r @ bs \<and> map mb_base bs = map (\<lambda>n. Some (packet_header mp seq ts ssrc tail, n)) nals \<and>
    bufp r' = bufp r"
proof -
  let ?h = "packet_header mp seq ts ssrc (le32_at ((h # stap_payload nals) @ stale) 0)"
  obtain bs where bs: "stap_loop ?h (stap_payload nals) (sunk r) = Inr (sunk r @ bs)"
    "map mb_base bs = map (\<lambda>n. Some (?h, n)) nals" using stap_loop_payload [OF assms(2)] by blast
  have "sunk (r\<lparr>expseq := e\<rparr>) = sunk r" "bufp (r\<lparr>expseq := e\<rparr>) = bufp r" for e by (cases r; simp)+
  then show ?thesis using bs assms(1)
    by (auto simp: received_def handle_packet nalu_incoming_def nal_cast_def)
qed

definition plain_receiver :: "unit receiver" where
  "plain_receiver = \<lparr>bufp = mb_empty, sunk = [], stat = (), expseq = 0\<rparr>"

theorem aggregated_units_come_out_witness:
  "\<exists>r' bs tail. receive_all (\<lambda>h d s. Inr s) [received [] (rtp_packet 0x60 9 90 1 (0x78 # stap_payload [[0x67, 1], [0x68]]))]
      plain_receiver = Inr r' \<and>
    sunk r' = sunk plain_receiver @ bs \<and>
    map mb_base bs = map (\<lambda>n. Some (packet_header 0x60 9 90 1 tail, n)) [[0x67, 1], [0x68]] \<and>
    bufp r' = bufp plain_receiver"
  by (rule aggregated_units_come_out) (simp_all add: nal_type_def)

end
