(* ===== verification/Rtcp.thy ===== *)
theory Rtcp
  imports Rtp_H264
begin

section \<open>Reception statistics and RTCP reports (hgs-rtph264.cpp)\<close>

text \<open>
  \<open>rtp_statis_info\<close> counts the packets, \<open>rtcp_client\<close> takes the sender's reports and sends
  receiver reports. The clock \<open>stimestamp()\<close> (milliseconds), \<open>rand()\<close> and the local port are
  arguments. Signed arithmetic that leaves the range of \<open>int\<close> is \<open>Undefined\<close>.
\<close>

unbundle bit_operations_syntax

definition s32 :: "u32 \<Rightarrow> int" where
  "s32 w = sint w"

definition fits_int :: "int \<Rightarrow> bool" where
  "fits_int k \<longleftrightarrow> - 2147483648 \<le> k \<and> k \<le> 2147483647"

subsection \<open>Statistics\<close>

record statis_info =
  base_seq :: u32
  max_seq :: u16
  cycles :: u16
  bad_seq :: u32
  probation :: u32
  n_received :: u32
  expected_prior :: u32
  received_prior :: u32
  transit :: int
  jitter :: u32

text \<open>A packet slightly behind the highest one is passed over and \<open>None\<close> here.\<close>

definition statis_count :: "u16 \<Rightarrow> statis_info \<Rightarrow> statis_info option" where
  "statis_count seq s =
     (if cycles s = 0 then Some (s\<lparr>cycles := 1, base_seq := ucast seq, max_seq := seq, n_received := 1\<rparr>)
      else if seq < max_seq s then
        (if uint (max_seq s) - uint seq < 0x0fff then None
         else Some (s\<lparr>cycles := cycles s + 1, max_seq := seq, n_received := n_received s + 1\<rparr>))
      else Some (s\<lparr>max_seq := seq, n_received := n_received s + 1\<rparr>))"

definition statis :: "u32 \<Rightarrow> rtp_header \<Rightarrow> statis_info \<Rightarrow> statis_info outcome" where
  "statis now h s =
     (case statis_count (rtp_seq h) s of
        None \<Rightarrow> Inr s
      | Some s1 \<Rightarrow>
          let arrival = max now (rtp_timestamp h);
              tr = s32 (arrival - rtp_timestamp h);
              d = tr - transit s1
          in if \<not> fits_int d \<or> \<not> fits_int (- d) then Inl Undefined
             else Inr (s1\<lparr>transit := tr,
               jitter := jitter s1 + (word_of_int \<bar>d\<bar> - drop_bit 4 (jitter s1 + 8))\<rparr>))"

subsection \<open>Reports\<close>

text \<open>Words of a packet as they are in memory, on a little-endian machine.\<close>

definition le32_bytes :: "u32 \<Rightarrow> u8 list" where
  "le32_bytes w = rev (be32_bytes w)"

definition htonl :: "u32 \<Rightarrow> u32" where
  "htonl w = le32_at (be32_bytes w) 0"

record report_block =
  rb_ssrc :: u32
  rb_fraction :: u8
  rb_cumulative :: u32
  rb_exthsn :: u32
  rb_jitter :: u32
  rb_lsr :: u32
  rb_dlsr :: u32

definition rb_zero :: report_block where
  "rb_zero = \<lparr>rb_ssrc = 0, rb_fraction = 0, rb_cumulative = 0, rb_exthsn = 0, rb_jitter = 0, rb_lsr = 0, rb_dlsr = 0\<rparr>"

text \<open>\<open>fraction\<close> and \<open>cumulative\<close> are bit fields of 8 and 24 bits of one word.\<close>

definition rb_bytes :: "report_block \<Rightarrow> u8 list" where
  "rb_bytes b = le32_bytes (rb_ssrc b) @ le32_bytes (ucast (rb_fraction b) OR push_bit 8 (rb_cumulative b)) @
     le32_bytes (rb_exthsn b) @ le32_bytes (rb_jitter b) @ le32_bytes (rb_lsr b) @ le32_bytes (rb_dlsr b)"

record rtcp =
  rr_ssrc :: u32
  rr_cname :: "u8 list"
  rr_rb :: report_block
  ts_sr :: int
  ts_rr :: int
  rtpsi :: statis_info

text \<open>The constructor; the statistics are not initialised.\<close>

definition rtcp_new :: "u32 \<Rightarrow> u8 \<Rightarrow> u8 list \<Rightarrow> statis_info \<Rightarrow> rtcp" where
  "rtcp_new rnd letter port_digits junk_info =
     \<lparr>rr_ssrc = rnd, rr_cname = take 5 (letter # port_digits @ [0x2e]) @ [0], rr_rb = rb_zero,
      ts_sr = 0, ts_rr = 0, rtpsi = junk_info\<rparr>"

text \<open>The composed packet: receiver report and source description, as sent.\<close>

definition rr_bytes :: "rtcp \<Rightarrow> u8 list" where
  "rr_bytes c = [0x81, 201] @ be16_bytes 7 @ le32_bytes (rr_ssrc c) @ rb_bytes (rr_rb c) @
     [0x81, 202] @ be16_bytes 3 @ le32_bytes (rr_ssrc c) @ [1, 6] @ rr_cname c"

definition lost_fraction :: "int \<Rightarrow> int \<Rightarrow> u8 outcome" where
  "lost_fraction expected_interval received_interval =
     (let lost_interval = expected_interval - received_interval in
      if \<not> fits_int lost_interval then Inl Undefined
      else if expected_interval = 0 \<or> lost_interval \<le> 0 then Inr 0
      else if \<not> fits_int (lost_interval * 256) then Inl Undefined
      else Inr (word_of_int (cdiv (lost_interval * 256) expected_interval)))"

text \<open>\<open>rreport\<close>: the packet sent, if one is sent.\<close>

definition rreport :: "u32 \<Rightarrow> rtcp \<Rightarrow> (u8 list option \<times> rtcp) outcome" where
  "rreport now c =
     (if \<not> (ts_rr c + 100 < ts_sr c) then Inr (None, c)
      else if n_received (rtpsi c) \<le> 0 then Inr (None, c)
      else
        let s = rtpsi c;
            extended_max = push_bit 16 (ucast (cycles s)) OR ucast (max_seq s) :: u32;
            expected = extended_max - base_seq s + 1;
            lost = htonl (expected - n_received s)
        in if \<not> n_received s \<le> expected then Inl Assertion
           else bind_ok (lost_fraction (s32 (expected - expected_prior s)) (s32 (n_received s - received_prior s)))
             (\<lambda>fraction.
               let c1 = c\<lparr>rtpsi := s\<lparr>expected_prior := expected, received_prior := n_received s\<rparr>,
                     rr_rb := (rr_rb c)\<lparr>rb_jitter := htonl (drop_bit 4 (jitter s)), rb_fraction := fraction,
                       rb_cumulative := take_bit 24 (signed_drop_bit 8 lost), rb_exthsn := htonl extended_max,
                       rb_dlsr := htonl (word_of_int (uint now - ts_sr c))\<rparr>\<rparr>
               in Inr (Some (rr_bytes c1), c1\<lparr>ts_rr := uint now\<rparr>)))"

text \<open>\<open>rtcp_header::cast\<close> compares the length, which counts words, with a number of bytes.\<close>

definition rtcp_cast :: "u8 list \<Rightarrow> nat \<Rightarrow> (u8 \<times> u16) option" where
  "rtcp_cast buf n =
     (if n < 4 then None
      else if unat (be16_at buf 2) > n - 4 then None
      else Some (buf ! 1, be16_at buf 2))"

text \<open>The completion handler; the boolean tells whether the socket is read again.\<close>

definition rtcp_receive :: "u32 \<Rightarrow> bool \<Rightarrow> u8 list \<Rightarrow> nat \<Rightarrow> rtcp \<Rightarrow> (u8 list option \<times> rtcp \<times> bool) outcome" where
  "rtcp_receive now ec buf n c =
     bind_ok (rreport now c) (\<lambda>(out, c1).
       if ec then Inr (out, c1, False)
       else if n = 0 then Inr (out, c1, True)
       else case rtcp_cast buf n of
              None \<Rightarrow> Inl (Err_exit ''rtcp_header::cast'')
            | Some (pt, _) \<Rightarrow>
                if pt = 200 then
                  let ntpmsw = be32_at buf 8; ntplsw = be32_at buf 12 in
                  Inr (out, c1\<lparr>rr_rb := (rr_rb c1)\<lparr>rb_ssrc := htonl (be32_at buf 4),
                    rb_lsr := htonl (push_bit 16 (ntpmsw AND 0xffff) OR (drop_bit 16 ntplsw AND 0xffff))\<rparr>,
                    ts_sr := uint now\<rparr>, True)
                else Inr (out, c1, True))"

subsection \<open>The callback of the receiver\<close>

text \<open>
  The receiver's callback is \<open>statis\<close> at the present time. It keeps its contract as long as
  the clock is below \<open>2 ^ 31\<close> milliseconds, since then no difference of transit times
  overflows.
\<close>

definition observe_statis :: "(u32 \<times> statis_info) observer" where
  "observe_statis h d st = bind_ok (statis (fst st) h (snd st)) (\<lambda>s. Inr (fst st, s))"

definition statis_ok :: "u32 \<times> statis_info \<Rightarrow> bool" where
  "statis_ok st \<longleftrightarrow> fst st < 0x80000000 \<and> 0 \<le> transit (snd st) \<and> transit (snd st) < 2147483648"

definition any_header :: "rtp_header \<Rightarrow> bool" where
  "any_header h \<longleftrightarrow> True"

lemma max_minus_small:
  assumes "now < (0x80000000 :: u32)"
  shows "0 \<le> s32 (max now ts - ts) \<and> s32 (max now ts - ts) < 2147483648"
proof -
  have n: "uint now < 2147483648" using assms by (simp add: word_less_def)
  have "uint (max now ts - ts) < 2147483648"
  proof (cases "now \<le> ts")
    case True
    then show ?thesis by (simp add: max_def)
  next
    case False
    then have "ts \<le> now" by simp
    then have "uint (now - ts) = uint now - uint ts" by (simp add: uint_minus_simple_alt)
    then have "uint (now - ts) \<le> uint now" using uint_ge_0 [of ts] by linarith
    then show ?thesis using False n by (simp add: max_def)
  qed
  moreover have "signed_take_bit 31 (uint (max now ts - ts)) = uint (max now ts - ts)"
    using calculation order_trans [OF _ uint_ge_0 [of "max now ts - ts"], of "- 2147483648"]
    by (intro signed_take_bit_int_eq_self) simp_all
  ultimately show ?thesis unfolding s32_def by (simp add: sint_uint)
qed

lemma statis_count_transit: "statis_count seq s = Some s1 \<Longrightarrow> transit s1 = transit s \<and> jitter s1 = jitter s"
  by (auto simp: statis_count_def split: if_splits)

interpretation reception: rtp_observer statis_ok any_header observe_statis
proof
  fix st :: "u32 \<times> statis_info" and h d
  assume ok: "statis_ok st"
  show "\<exists>st'. observe_statis h d st = Inr st' \<and> statis_ok st'"
  proof (cases "statis_count (rtp_seq h) (snd st)")
    case None
    then show ?thesis using ok by (simp add: observe_statis_def statis_def)
  next
    case (Some s1)
    let ?tr = "s32 (max (fst st) (rtp_timestamp h) - rtp_timestamp h)"
    have "0 \<le> ?tr \<and> ?tr < 2147483648" using max_minus_small ok by (simp add: statis_ok_def)
    moreover have "transit s1 = transit (snd st)" using statis_count_transit [OF Some] by simp
    ultimately show ?thesis using Some ok
      by (simp add: observe_statis_def statis_def statis_ok_def fits_int_def Let_def)
  qed
qed

subsection \<open>Properties of the receiver\<close>

text \<open>
  C5: a NAL unit that was cut into FU-A fragments of any sizes, sent in packets with
  consecutive sequence numbers (the numbers may start again at 0 on the way), comes out as
  exactly that unit, with its header restored from the fragments and the RTP header of the
  first packet; nothing else comes out and nothing is kept.
\<close>

theorem fragments_reassembled:
  assumes "cs \<noteq> []" and "length (concat cs) < 1900000000" and "statis_ok (stat r)"
  shows "\<exists>r' b tail. receive_all observe_statis (map (received stale) (fu_packets mp ts ssrc h seq True cs)) r = Inr r' \<and>
    sunk r' = sunk r @ [b] \<and> mb_base b = Some (packet_header mp seq ts ssrc tail, h # concat cs) \<and>
    bufp r' = mb_empty \<and> statis_ok (stat r')"
  by (rule reception.unit_reassembled) (use assms in \<open>auto simp: any_header_def\<close>)

definition demo_info :: statis_info where
  "demo_info = \<lparr>base_seq = 0, max_seq = 0, cycles = 0, bad_seq = 0, probation = 0, n_received = 0,
     expected_prior = 0, received_prior = 0, transit = 0, jitter = 0\<rparr>"

definition demo_receiver :: "(u32 \<times> statis_info) receiver" where
  "demo_receiver = \<lparr>bufp = mb_empty, sunk = [], stat = (1000, demo_info), expseq = 0\<rparr>"

theorem fragments_reassembled_witness:
  "\<exists>r' b tail. receive_all observe_statis
      (map (received [7, 7, 7, 7]) (fu_packets 0x60 900 5 0x65 65535 True [[1, 2], [3], [4, 5]])) demo_receiver = Inr r' \<and>
    sunk r' = sunk demo_receiver @ [b] \<and>
    mb_base b = Some (packet_header 0x60 65535 900 5 tail, 0x65 # concat [[1, 2], [3], [4, 5]]) \<and>
    bufp r' = mb_empty \<and> statis_ok (stat r')"
  by (rule fragments_reassembled) (simp_all add: demo_receiver_def statis_ok_def demo_info_def)

lemma bufp_expseq [simp]: "bufp (r\<lparr>expseq := e\<rparr>) = bufp r" "sunk (r\<lparr>expseq := e\<rparr>) = sunk r"
    "stat (r\<lparr>expseq := e\<rparr>) = stat r"
  by (cases r; simp)+

lemma fragments_passed_over:
  "mb_is_empty (bufp r) \<or> (cs \<noteq> [] \<and> \<not> seq_continus seq (expseq r)) \<Longrightarrow>
    \<exists>r'. receive_all observe (map (received stale) (fu_packets mp ts ssrc h seq False cs)) r = Inr r' \<and>
      sunk r' = sunk r \<and> stat r' = stat r \<and> mb_is_empty (bufp r')"
proof (induction cs arbitrary: r seq)
  case Nil
  then show ?case by simp
next
  case (Cons c cs)
  let ?fu = "(if cs = [] then 0x40 else 0) OR (h AND 0x1f)"
  let ?p = "((h AND 0xe0) OR 28) # ?fu # c"
  have fl: "\<not> fu_s ?fu" using fu_flags [of False "cs = []" h] by simp
  have ty: "nal_type ((h AND 0xe0) OR 28) = 28" by (rule fu_indicator)
  have e: "mb_is_empty mb_empty" by (simp add: mb_is_empty_def mb_empty_def)
  obtain r1 where r1: "receive_from observe False (fst (received stale (rtp_packet mp seq ts ssrc ?p)))
      (snd (received stale (rtp_packet mp seq ts ssrc ?p))) r = Inr (r1, True)"
    "sunk r1 = sunk r" "stat r1 = stat r" "mb_is_empty (bufp r1)"
    using Cons.prems fl e
    by (cases "seq_continus seq (expseq r)")
      (simp_all add: received_def handle_packet nalu_incoming_def nal_cast_def ty fu_incoming_def)
  then show ?case using Cons.IH [of r1 "seq + 1"] by (simp add: receive_all_received)
qed

text \<open>
  C33: when a fragment of a unit is lost, the rest of that unit is dropped: fragments behind a
  gap commit nothing, so no unit with a hole is handed to the decoder (where the gap is seen,
  which \<open>wrap_gap_spliced\<close> shows is not always so).
\<close>

theorem gap_drops_unit:
  assumes "\<not> seq_continus seq (expseq r)" and "cs \<noteq> []"
  shows "\<exists>r'. receive_all observe (map (received stale) (fu_packets mp ts ssrc h seq False cs)) r = Inr r' \<and>
    sunk r' = sunk r \<and> mb_is_empty (bufp r')"
  using fragments_passed_over [of r cs seq observe stale mp ts ssrc h] assms by blast

theorem gap_drops_unit_witness:
  "\<exists>r'. receive_all observe_statis (map (received []) (fu_packets 0x60 900 5 0x65 12 False [[1], [2]]))
      (demo_receiver\<lparr>expseq := 10, bufp := mb_init rtp_header_zero 0x65\<rparr>) = Inr r' \<and>
    sunk r' = sunk demo_receiver \<and> mb_is_empty (bufp r')"
proof -
  have "\<not> seq_continus 12 (expseq (demo_receiver\<lparr>expseq := 10, bufp := mb_init rtp_header_zero 0x65\<rparr>))"
    by (simp add: seq_continus_def)
  then show ?thesis using gap_drops_unit [of 12 _ "[[1], [2]]"] by fastforce
qed

text \<open>
  a gap over the restart of the numbers is not seen: when the packet's number is more than
  8191 below the expected one, the packet counts as continuous, and a fragment is appended to
  the open unit although fragments between are missing.
\<close>

theorem wrap_gap_spliced:
  assumes "ucast seq < expseq r" and "expseq r - ucast seq > 0x1fff"
    and "mb_ok (bufp r)" and "mb_base (bufp r) = Some (rh, content)" and "statis_ok (stat r)"
    and "length content + length c < 2000000000"
  shows "\<exists>r' b. receive_all observe_statis (map (received stale) (fu_packets mp ts ssrc h seq False [c])) r = Inr r' \<and>
    sunk r' = sunk r @ [b] \<and> mb_base b = Some (rh, content @ c)"
proof -
  have "seq_continus seq (expseq r)" using assms(1,2) by (simp add: seq_continus_def)
  then show ?thesis
    using reception.fragments_go_on [where cs = "[c]" and r = r and seq = seq and content = content
        and rh = rh and mp = mp and ts = ts and ssrc = ssrc and stale = stale and h = h] assms(3-)
    by (auto simp: any_header_def)
qed

theorem wrap_gap_spliced_witness:
  "\<exists>r' b. receive_all observe_statis (map (received []) (fu_packets 0x60 900 5 0x65 3 False [[9]]))
      (demo_receiver\<lparr>expseq := 65530, bufp := mb_init rtp_header_zero 0x65\<rparr>) = Inr r' \<and>
    sunk r' = [b] \<and> mb_base b = Some (rtp_header_zero, [0x65] @ [9])"
  using wrap_gap_spliced [where seq = 3 and c = "[9]" and rh = rtp_header_zero and content = "[0x65]" and stale = "[]"
      and mp = "0x60" and ts = 900 and ssrc = 5 and h = "0x65"
      and r = "demo_receiver\<lparr>expseq := 65530, bufp := mb_init rtp_header_zero 0x65\<rparr>"] mb_ok_init
  by (auto simp: demo_receiver_def statis_ok_def demo_info_def mb_init_def)

subsection \<open>Network order\<close>

lemma byte_of_nat: "unat (of_nat k :: u8) = k mod 256"
  by (simp add: unat_of_nat)

lemma digit_less:
  assumes "(a::nat) < n" and "x < 256"
  shows "a * 256 + x < n * 256"
proof -
  have "a * 256 + x < Suc a * 256" using assms(2) by simp
  also have "\<dots> \<le> n * 256" using assms(1) by (intro mult_le_mono1) simp
  finally show ?thesis .
qed

lemma unat_value:
  assumes "x3 < 256" "x2 < 256" "x1 < 256" "x0 < 256"
  shows "unat (of_nat (((x3 * 256 + x2) * 256 + x1) * 256 + x0) :: u32) = ((x3 * 256 + x2) * 256 + x1) * 256 + x0"
proof -
  have "((x3 * 256 + x2) * 256 + x1) * 256 + x0 < 256 * 256 * 256 * 256"
    by (intro digit_less assms)
  then show ?thesis unfolding unat_of_nat by simp
qed

lemma digit256: "x < 256 \<Longrightarrow> (a * 256 + x) mod 256 = x" "x < 256 \<Longrightarrow> (a * 256 + x) div 256 = (a :: nat)"
  by simp_all

lemma be32_bytes_value:
  assumes "x3 < 256" "x2 < 256" "x1 < 256" "x0 < 256"
  shows "be32_bytes (of_nat (((x3 * 256 + x2) * 256 + x1) * 256 + x0)) =
    [of_nat x3, of_nat x2, of_nat x1, of_nat x0]"
proof -
  let ?v = "((x3 * 256 + x2) * 256 + x1) * 256 + x0"
  have u: "unat (of_nat ?v :: u32) = ?v" by (rule unat_value [OF assms])
  have e1: "?v div 65536 = ?v div 256 div 256" by (simp only: div_mult2_eq [symmetric]) simp
  have e2: "?v div 16777216 = ?v div 256 div 256 div 256" by (simp only: div_mult2_eq [symmetric]) simp
  show ?thesis unfolding be32_bytes_def u e1 e2 by (simp only: digit256 assms)
qed

definition byte_at :: "u32 \<Rightarrow> nat \<Rightarrow> nat" where
  "byte_at w i = unat w div 256 ^ i mod 256"

lemma be32_bytes_byte: "be32_bytes w = [of_nat (byte_at w 3), of_nat (byte_at w 2), of_nat (byte_at w 1), of_nat (byte_at w 0)]"
proof -
  have "unat w div 16777216 < 256" using unsigned_less [of w, where ?'a = nat] by simp
  then show ?thesis by (simp add: be32_bytes_def byte_at_def)
qed

lemma byte_at_less: "byte_at w i < 256"
  by (simp add: byte_at_def)

lemma htonl_value: "htonl w = of_nat (((byte_at w 0 * 256 + byte_at w 1) * 256 + byte_at w 2) * 256 + byte_at w 3)"
  by (simp only: htonl_def le32_at_def be32_bytes_byte) (simp add: byte_of_nat byte_at_less)

lemma htonl_bytes: "le32_bytes (htonl w) = be32_bytes w"
  unfolding htonl_value le32_bytes_def
  by (simp only: be32_bytes_value [OF byte_at_less byte_at_less byte_at_less byte_at_less])
    (simp add: be32_bytes_byte)

lemma cumulative_bytes:
  "take 4 (drop 4 (rb_bytes (b\<lparr>rb_fraction := f, rb_cumulative := take_bit 24 (signed_drop_bit 8 (htonl lost))\<rparr>))) =
    f # drop 1 (be32_bytes lost)"
proof -
  let ?h = "htonl lost"
  let ?x0 = "byte_at lost 0" and ?x1 = "byte_at lost 1" and ?x2 = "byte_at lost 2" and ?x3 = "byte_at lost 3"
  have lt: "?x0 < 256" "?x1 < 256" "?x2 < 256" "?x3 < 256" by (simp_all add: byte_at_less)
  have "take_bit 24 (signed_drop_bit 8 ?h) = drop_bit 8 ?h"
    by (rule bit_word_eqI) (auto simp: bit_simps dest: bit_imp_le_length)
  then have "take_bit 24 (signed_drop_bit 8 ?h) = drop_bit 8 ?h" .
  moreover have u: "unat ?h = ((?x0 * 256 + ?x1) * 256 + ?x2) * 256 + ?x3"
    unfolding htonl_value by (rule unat_value [OF lt])
  have "unat (drop_bit 8 ?h) = (?x0 * 256 + ?x1) * 256 + ?x2"
  proof -
    have "unat (drop_bit 8 ?h) = unat ?h div 256"
      by (simp add: drop_bit_eq_div unat_div)
    then show ?thesis unfolding u by (simp only: digit256 lt)
  qed
  moreover have "ucast f OR push_bit 8 (drop_bit 8 ?h) = ucast f + push_bit 8 (drop_bit 8 ?h)"
  proof (rule disjunctive_add [symmetric])
    fix n
    show "\<not> bit (ucast f :: u32) n \<or> \<not> bit (push_bit 8 (drop_bit 8 ?h)) n"
      by (auto simp: bit_simps dest: bit_imp_le_length)
  qed
  moreover have "unat f < 256" using unsigned_less [of f, where ?'a = nat] by simp
  then have "unat (ucast f + push_bit 8 (drop_bit 8 ?h) :: u32) =
      ((?x0 * 256 + ?x1) * 256 + ?x2) * 256 + unat f"
    using calculation(2) lt by (simp add: push_bit_eq_mult unat_word_ariths unsigned_ucast_eq take_bit_eq_mod)
  then have "ucast f + push_bit 8 (drop_bit 8 ?h) = (of_nat (((?x0 * 256 + ?x1) * 256 + ?x2) * 256 + unat f) :: u32)"
    by (metis of_nat_unat ucast_id)
  ultimately have "le32_bytes (ucast f OR push_bit 8 (take_bit 24 (signed_drop_bit 8 ?h))) =
      [f, of_nat ?x2, of_nat ?x1, of_nat ?x0]"
    unfolding le32_bytes_def using lt \<open>unat f < 256\<close> by (simp only: be32_bytes_value) simp
  then show ?thesis by (simp add: rb_bytes_def le32_bytes_def be32_bytes_byte)
qed

text \<open>
  the bit field \<open>cumulative\<close>, set to the converted number shifted by eight, puts the low 24
  bits of the number of lost packets behind the fraction in network order, for negative
  numbers too.
\<close>

theorem lost_in_network_order:
  "take 4 (drop 4 (rb_bytes (b\<lparr>rb_fraction := f, rb_cumulative := take_bit 24 (signed_drop_bit 8 (htonl lost))\<rparr>))) =
    f # drop 1 (be32_bytes lost)"
  by (rule cumulative_bytes)

subsection \<open>The number of lost packets\<close>

fun statis_run :: "(u32 \<times> rtp_header) list \<Rightarrow> statis_info \<Rightarrow> statis_info outcome" where
  "statis_run [] s = Inr s"
| "statis_run ((now, h) # hs) s = bind_ok (statis now h s) (statis_run hs)"

lemma statis_keeps_counts:
  assumes "statis now h s = Inr s'" and "statis_count (rtp_seq h) s = Some s1"
  shows "base_seq s' = base_seq s1 \<and> max_seq s' = max_seq s1 \<and> cycles s' = cycles s1 \<and>
    n_received s' = n_received s1 \<and> expected_prior s' = expected_prior s1 \<and> received_prior s' = received_prior s1"
  using assms by (auto simp: statis_def Let_def split: if_splits)

lemma statis_in_order:
  assumes "statis_run hs s = Inr s'" and "cycles s = 1"
    and "map (\<lambda>p. rtp_seq (snd p)) hs = map (\<lambda>i. of_nat (k + i)) [0..<length hs]"
    and "unat (max_seq s) + 1 = k" and "k + length hs \<le> 65536"
  shows "cycles s' = 1 \<and> base_seq s' = base_seq s \<and> unat (max_seq s') + 1 = k + length hs \<and>
    n_received s' = n_received s + of_nat (length hs) \<and> expected_prior s' = expected_prior s \<and>
    received_prior s' = received_prior s"
  using assms
proof (induction hs arbitrary: s k)
  case (Cons p hs)
  obtain now h where p: "p = (now, h)" by (cases p)
  obtain sm where sm: "statis now h s = Inr sm" "statis_run hs sm = Inr s'"
    using Cons.prems(1) p by auto
  have m: "rtp_seq h # map (\<lambda>p. rtp_seq (snd p)) hs = map (\<lambda>i. of_nat (k + i)) [0..<Suc (length hs)]"
    using Cons.prems(3) p by simp
  then have h: "rtp_seq h = of_nat k" by (simp only: upt_conv_Cons [OF zero_less_Suc]) simp
  have rest: "map (\<lambda>p. rtp_seq (snd p)) hs = map (\<lambda>i. of_nat (Suc k + i)) [0..<length hs]"
  proof -
    have "map (\<lambda>i. of_nat (k + i)) [0..<Suc (length hs)] =
        (of_nat (k + 0) :: u16) # map (\<lambda>i. of_nat (k + i)) (map Suc [0..<length hs])"
      by (simp only: upt_conv_Cons [OF zero_less_Suc] map_Suc_upt list.map)
    then show ?thesis using m by (simp add: comp_def)
  qed
  have "k < 65536" using Cons.prems(5) by simp
  then have u: "unat (rtp_seq h) = k" unfolding h by (simp add: unat_of_nat)
  then have "\<not> rtp_seq h < max_seq s" using Cons.prems(4) by (simp add: word_less_nat_alt)
  then have c: "statis_count (rtp_seq h) s = Some (s\<lparr>max_seq := rtp_seq h, n_received := n_received s + 1\<rparr>)"
    using Cons.prems(2) by (simp add: statis_count_def)
  note kc = statis_keeps_counts [OF sm(1) c]
  have "cycles sm = 1" "unat (max_seq sm) + 1 = Suc k" using kc u Cons.prems(2) by simp_all
  then show ?case using Cons.IH [OF sm(2), of "Suc k"] rest Cons.prems(5) kc by simp
qed simp

lemma extended_max:
  "push_bit 16 (1 :: u32) OR ucast (m :: u16) = of_nat (65536 + unat m)"
proof -
  have "push_bit 16 (1 :: u32) OR ucast m = push_bit 16 1 + ucast m"
  proof (rule disjunctive_add [symmetric])
    fix n
    show "\<not> bit (push_bit 16 (1 :: u32)) n \<or> \<not> bit (ucast m :: u32) n"
      by (auto simp: bit_simps simp del: push_bit_of_1 dest: bit_imp_le_length)
  qed
  then show ?thesis by simp
qed

lemma s32_of_nat: "k < 2147483648 \<Longrightarrow> s32 (of_nat k) = int k"
proof -
  assume k: "k < 2147483648"
  then have "uint (of_nat k :: u32) = int k" by (simp add: uint_nat unat_of_nat)
  moreover have "signed_take_bit 31 (int k) = int k" using k by (intro signed_take_bit_int_eq_self) simp_all
  ultimately show ?thesis by (simp add: s32_def sint_uint)
qed

lemma be32_words_length [simp]: "length (be32_bytes w) = 4" "length (le32_bytes w) = 4"
  by (simp_all add: be32_bytes_def le32_bytes_def)

lemma rr_cumulative: "take 3 (drop 13 (rr_bytes c)) = take 3 (drop 1 (take 4 (drop 4 (rb_bytes (rr_rb c)))))"
  by (simp add: rr_bytes_def rb_bytes_def be16_bytes_def)

text \<open>
  the first report after packets that arrived in order and without any loss announces
  65536 lost packets: \<open>cycles\<close> starts at 1 and goes into the extended highest number, but
  not into the number of the first packet it is compared with.
\<close>

theorem no_loss_reported_as_65536:
  assumes "cycles s = 0" and "expected_prior s = 0" and "received_prior s = 0"
    and "statis_run ((t, h) # hs) s = Inr s'"
    and "map (\<lambda>p. rtp_seq (snd p)) hs = map (\<lambda>i. rtp_seq h + 1 + of_nat i) [0..<length hs]"
    and "unat (rtp_seq h) + length hs < 65536"
    and "ts_rr c + 100 < ts_sr c" and "rtpsi c = s'"
  shows "\<exists>p c'. rreport now c = Inr (Some p, c') \<and> take 3 (drop 13 p) = [1, 0, 0]"
proof -
  let ?b = "unat (rtp_seq h)" and ?n = "length hs + 1"
  obtain s1 where s1: "statis t h s = Inr s1" "statis_run hs s1 = Inr s'" using assms(4) by auto
  have "statis_count (rtp_seq h) s = Some (s\<lparr>cycles := 1, base_seq := ucast (rtp_seq h), max_seq := rtp_seq h, n_received := 1\<rparr>)"
    using assms(1) by (simp add: statis_count_def)
  note k1 = statis_keeps_counts [OF s1(1) this]
  have "map (\<lambda>i. rtp_seq h + 1 + of_nat i) [0..<length hs] = map (\<lambda>i. of_nat (Suc ?b + i)) [0..<length hs]"
    by simp
  then have e: "cycles s' = 1 \<and> base_seq s' = ucast (rtp_seq h) \<and> unat (max_seq s') + 1 = Suc ?b + length hs \<and>
      n_received s' = of_nat ?n \<and> expected_prior s' = 0 \<and> received_prior s' = 0"
    using statis_in_order [OF s1(2), of "Suc ?b"] k1 assms(2,3,5,6) by (simp add: algebra_simps)
  let ?em = "push_bit 16 (ucast (cycles s')) OR ucast (max_seq s') :: u32"
  have n: "?n \<le> 65536" using assms(6) by simp
  have "?em = of_nat (65536 + (?b + length hs))" using e extended_max [of "max_seq s'"] by simp
  then have ex: "?em - base_seq s' + 1 = of_nat (65536 + ?n)" using e by (simp add: algebra_simps)
  have u: "unat (of_nat (65536 + ?n) :: u32) = 65536 + ?n" "unat (of_nat ?n :: u32) = ?n"
    unfolding unat_of_nat using n by simp_all
  have r: "n_received s' = of_nat ?n" "expected_prior s' = 0" "received_prior s' = 0" using e by blast+
  have le: "n_received s' \<le> of_nat (65536 + ?n)" unfolding r word_le_nat_alt u by simp
  have lost: "of_nat (65536 + ?n) - n_received s' = 65536" unfolding r by simp
  have i: "s32 (of_nat (65536 + ?n) - expected_prior s') = int (65536 + ?n)"
    "s32 (n_received s' - received_prior s') = int ?n"
    unfolding r diff_0_right using n by (intro s32_of_nat, simp)+
  obtain f where f: "lost_fraction (int (65536 + ?n)) (int ?n) = Inr f"
    by (simp add: lost_fraction_def fits_int_def)
  have nz: "\<not> n_received s' \<le> 0" using u(2) unfolding r by (auto simp: word_le_nat_alt simp del: of_nat_add)
  let ?lost = "htonl 65536"
  define c1 where "c1 = c\<lparr>rtpsi := s'\<lparr>expected_prior := of_nat (65536 + ?n), received_prior := n_received s'\<rparr>,
      rr_rb := (rr_rb c)\<lparr>rb_jitter := htonl (drop_bit 4 (jitter s')), rb_fraction := f,
        rb_cumulative := take_bit 24 (signed_drop_bit 8 ?lost), rb_exthsn := htonl ?em,
        rb_dlsr := htonl (word_of_int (uint now - ts_sr c))\<rparr>\<rparr>"
  have "rreport now c = Inr (Some (rr_bytes c1), c1\<lparr>ts_rr := uint now\<rparr>)"
    unfolding rreport_def Let_def assms(8) ex lost i f c1_def
    using assms(7) nz le by (simp only: simp_thms if_True if_False bind_ok_Inr)
  moreover have "take 3 (drop 13 (rr_bytes c1)) = [1, 0, 0]"
  proof -
    have "take 4 (drop 4 (rb_bytes (rr_rb c1))) = f # drop 1 (be32_bytes 65536)"
      using cumulative_bytes [where b = "(rr_rb c)\<lparr>rb_jitter := htonl (drop_bit 4 (jitter s')), rb_exthsn := htonl ?em,
        rb_dlsr := htonl (word_of_int (uint now - ts_sr c))\<rparr>" and f = f and lost = 65536]
      by (simp add: c1_def rb_bytes_def)
    then show ?thesis unfolding rr_cumulative by (simp add: be32_bytes_def)
  qed
  ultimately show ?thesis by blast
qed

definition demo_header :: "u16 \<Rightarrow> rtp_header" where
  "demo_header seq = rtp_header_zero\<lparr>rtp_seq := seq\<rparr>"

definition demo_rtcp :: "statis_info \<Rightarrow> rtcp" where
  "demo_rtcp s = (rtcp_new 7 0x41 [0x31, 0x30, 0x30, 0x30] s)\<lparr>ts_sr := 500\<rparr>"

lemma statis_run_returns:
  "statis_ok (0, s) \<Longrightarrow> \<forall>p\<in>set hs. fst p < 0x80000000 \<Longrightarrow> \<exists>s'. statis_run hs s = Inr s'"
proof (induction hs arbitrary: s)
  case (Cons p hs)
  obtain now h where p: "p = (now, h)" by (cases p)
  have "statis_ok (now, s)" using Cons.prems p by (simp add: statis_ok_def)
  then obtain st where st: "observe_statis h [] (now, s) = Inr st" "statis_ok st"
    using reception.observe_ok [of "(now, s)" h "[]"] by (auto simp: any_header_def)
  then obtain s1 where "statis now h s = Inr s1" "statis_ok (0, s1)"
    by (auto simp: observe_statis_def statis_ok_def)
  then show ?case using Cons p by simp
qed simp

theorem no_loss_reported_as_65536_witness:
  "\<exists>s' p c'. statis_run [(10, demo_header 5), (20, demo_header 6), (30, demo_header 7)] demo_info = Inr s' \<and>
    rreport 600 (demo_rtcp s') = Inr (Some p, c') \<and> take 3 (drop 13 p) = [1, 0, 0]"
proof -
  obtain s' where s': "statis_run [(10, demo_header 5), (20, demo_header 6), (30, demo_header 7)] demo_info = Inr s'"
    using statis_run_returns [of demo_info "[(10, demo_header 5), (20, demo_header 6), (30, demo_header 7)]"]
    by (auto simp: statis_ok_def demo_info_def)
  have "\<exists>p c'. rreport 600 (demo_rtcp s') = Inr (Some p, c') \<and> take 3 (drop 13 p) = [1, 0, 0]"
    by (rule no_loss_reported_as_65536 [OF _ _ _ s'])
      (simp_all add: demo_info_def demo_header_def rtp_header_zero_def demo_rtcp_def rtcp_new_def upt_conv_Cons)
  then show ?thesis using s' by blast
qed

text \<open>
  a datagram of one to three bytes on the RTCP port ends the process: \<open>cast\<close> refuses it
  and the handler answers with \<open>ERR_EXIT\<close>.
\<close>

theorem short_datagram_ends_process:
  assumes "0 < n" and "n < 4" and "ts_sr c \<le> ts_rr c + 100"
  shows "rtcp_receive now False buf n c = Inl (Err_exit ''rtcp_header::cast'')"
  using assms by (simp add: rtcp_receive_def rreport_def rtcp_cast_def)

theorem short_datagram_ends_process_witness:
  "rtcp_receive 5 False [0x80, 200, 0] 3 (rtcp_new 7 0x41 [0x31] demo_info) = Inl (Err_exit ''rtcp_header::cast'')"
  by (rule short_datagram_ends_process) (simp_all add: rtcp_new_def)

lemma digit64k: "x < 65536 \<Longrightarrow> (a * 65536 + x) mod 65536 = x" "x < 65536 \<Longrightarrow> (a * 65536 + x) div 65536 = (a :: nat)"
  by simp_all

lemma middle_bits:
  "be32_bytes (push_bit 16 (be32_at buf 8 AND 0xffff) OR (drop_bit 16 (be32_at buf 12) AND 0xffff)) =
    [buf ! 10, buf ! 11, buf ! 12, buf ! 13]"
proof -
  define x where "x i = unat (buf ! i)" for i
  have lt: "x i < 256" for i using unsigned_less [of "buf ! i", where ?'a = nat] by (simp add: x_def)
  let ?m = "be32_at buf 8" and ?l = "be32_at buf 12"
  have m: "unat ?m = ((x 8 * 256 + x 9) * 256 + x 10) * 256 + x 11"
    and l: "unat ?l = ((x 12 * 256 + x 13) * 256 + x 14) * 256 + x 15"
    unfolding be32_at_def using unat_value [OF lt lt lt lt] by (simp_all add: x_def)
  have msk: "w AND 0xffff = take_bit 16 w" for w :: u32
    by (simp add: take_bit_eq_mask mask_eq_exp_minus_1)
  have lo: "x 10 * 256 + x 11 < 65536" "x 12 * 256 + x 13 < 65536" using lt [of 10] lt [of 11] lt [of 12] lt [of 13] by linarith+
  have a: "unat (?m AND 0xffff) = x 10 * 256 + x 11"
  proof -
    have "unat ?m = (x 8 * 256 + x 9) * 65536 + (x 10 * 256 + x 11)" unfolding m by simp
    then have "unat ?m mod 65536 = x 10 * 256 + x 11" using lo(1) digit64k(1) by (simp only:)
    moreover have "unat (take_bit 16 ?m) = unat ?m mod 65536"
      unfolding unsigned_take_bit_eq by (simp add: take_bit_eq_mod)
    ultimately show ?thesis unfolding msk by simp
  qed
  have b: "unat (drop_bit 16 ?l AND 0xffff) = x 12 * 256 + x 13"
  proof -
    have "unat ?l = (x 12 * 256 + x 13) * 65536 + (x 14 * 256 + x 15)" unfolding l by simp
    moreover have "x 14 * 256 + x 15 < 65536" using lt [of 14] lt [of 15] by linarith
    ultimately have "unat ?l div 65536 = x 12 * 256 + x 13" using digit64k(2) by (simp only:)
    then have "unat (drop_bit 16 ?l) = x 12 * 256 + x 13" by (simp add: drop_bit_eq_div unat_div)
    then have "unat (take_bit 16 (drop_bit 16 ?l)) = (x 12 * 256 + x 13) mod 65536"
      unfolding unsigned_take_bit_eq by (simp add: take_bit_eq_mod)
    then show ?thesis unfolding msk using lo(2) by simp
  qed
  have "push_bit 16 (?m AND 0xffff) OR (drop_bit 16 ?l AND 0xffff) =
      push_bit 16 (?m AND 0xffff) + (drop_bit 16 ?l AND 0xffff)"
  proof (rule disjunctive_add [symmetric])
    fix n
    show "\<not> bit (push_bit 16 (?m AND 0xffff)) n \<or> \<not> bit (drop_bit 16 ?l AND 0xffff) n"
      unfolding msk by (auto simp: bit_simps)
  qed
  also have "\<dots> = of_nat (65536 * unat (?m AND 0xffff)) + of_nat (unat (drop_bit 16 ?l AND 0xffff))"
    by (simp add: push_bit_eq_mult)
  also have "\<dots> = of_nat (((x 10 * 256 + x 11) * 256 + x 12) * 256 + x 13)"
    unfolding a b by (simp add: algebra_simps)
  finally have "be32_bytes (push_bit 16 (?m AND 0xffff) OR (drop_bit 16 ?l AND 0xffff)) =
      [of_nat (x 10), of_nat (x 11), of_nat (x 12), of_nat (x 13)]"
    using be32_bytes_value [OF lt lt lt lt] by simp
  then show ?thesis by (simp add: x_def)
qed

text \<open>
  a sender report that is cut off is taken for a whole one: \<open>cast\<close> compares the length in
  words with the bytes there are, and the sender's part is read without a check. So a report of
  28 bytes of which only ten arrived is answered with times from what was in the buffer before.
\<close>

theorem truncated_report_uses_stale_bytes:
  assumes "be16_at buf 2 = 6" and "buf ! 1 = 200" and "10 \<le> n" and "28 \<le> length buf"
    and "ts_sr c \<le> ts_rr c + 100"
  shows "\<exists>c'. rtcp_receive now False buf n c = Inr (None, c', True) \<and>
    le32_bytes (rb_lsr (rr_rb c')) = take 4 (drop 10 buf)"
proof -
  have c: "rtcp_cast buf n = Some (200, 6)" using assms by (simp add: rtcp_cast_def)
  have "take 4 (drop 10 buf) = [buf ! 10, buf ! 11, buf ! 12, buf ! 13]"
    using assms(4) by (simp add: take_Suc_conv_app_nth numeral_eq_Suc)
  moreover define y where "y = push_bit 16 (be32_at buf 8 AND 0xffff) OR (drop_bit 16 (be32_at buf 12) AND 0xffff)"
  ultimately have y: "be32_bytes y = take 4 (drop 10 buf)" by (simp only: middle_bits)
  have "rtcp_receive now False buf n c = Inr (None, c\<lparr>rr_rb := (rr_rb c)\<lparr>rb_ssrc := htonl (be32_at buf 4),
      rb_lsr := htonl y\<rparr>, ts_sr := uint now\<rparr>, True)"
    using assms(3,5) c unfolding rtcp_receive_def rreport_def Let_def y_def by simp
  then show ?thesis using y by (simp add: htonl_bytes)
qed

theorem truncated_report_uses_stale_bytes_witness:
  "\<exists>c'. rtcp_receive 5 False ([0x80, 200, 0, 6] @ replicate 6 1 @ replicate 18 9) 10 (rtcp_new 7 0x41 [0x31] demo_info) =
      Inr (None, c', True) \<and>
    le32_bytes (rb_lsr (rr_rb c')) = take 4 (drop 10 ([0x80, 200, 0, 6] @ replicate 6 1 @ replicate 18 9))"
  by (rule truncated_report_uses_stale_bytes) (simp_all add: be16_at_def rtcp_new_def)

end
