(* ===== verification/Rtsp.thy ===== *)
theory Rtsp
  imports Rtcp Wap_Text "HOL-Library.Sublist"
begin

section \<open>The RTSP session (hgs-rtph264.cpp)\<close>

text \<open>
  \<open>rtsp_connection\<close> renders the requests and reads the responses, \<open>rtsp_client\<close> goes from
  one to the next. An asynchronous operation is first under way, then its completion waits
  in the queue of the \<open>io_service\<close>, then its handler runs; what the socket gives is an
  argument. The regular expressions are written out as what they match; the base64 decoder of
  Boost is a parameter.
\<close>

subsection \<open>Requests\<close>

text \<open>\<open>rtsp_request\<close> is what the stream buffer \<open>request_\<close> holds: what was put in and not consumed.\<close>

record rtsp =
  rtsp_path :: string
  rtsp_session :: string
  rtsp_cseq :: int
  rtsp_request :: string

definition request_line :: "string \<Rightarrow> rtsp \<Rightarrow> string" where
  "request_line start c = start @ '' RTSP/1.0'' @ crlf @ ''CSeq: '' @ show_int (rtsp_cseq c) @ crlf"

definition rtsp_send :: "string \<Rightarrow> rtsp \<Rightarrow> rtsp" where
  "rtsp_send req c = c\<lparr>rtsp_cseq := rtsp_cseq c + 1, rtsp_request := rtsp_request c @ req\<rparr>"

definition rtsp_options :: "rtsp \<Rightarrow> rtsp" where
  "rtsp_options c = rtsp_send (request_line (''OPTIONS '' @ rtsp_path c) c @ crlf) c"

definition rtsp_describe :: "rtsp \<Rightarrow> rtsp" where
  "rtsp_describe c = rtsp_send (request_line (''DESCRIBE '' @ rtsp_path c) c @ ''Accept: application/sdp'' @ crlf @ crlf) c"

definition rtsp_setup :: "string \<Rightarrow> string \<Rightarrow> rtsp \<Rightarrow> rtsp" where
  "rtsp_setup streamid transport c = rtsp_send (request_line (''SETUP '' @ rtsp_path c @ ''/'' @ streamid) c @
     ''Transport: '' @ transport @ crlf @ ''Range: 0.00-'' @ crlf @ crlf) c"

definition rtsp_play :: "rtsp \<Rightarrow> rtsp" where
  "rtsp_play c = rtsp_send (request_line (''PLAY '' @ rtsp_path c) c @ ''Session: '' @ rtsp_session c @ crlf @ crlf) c"

definition rtsp_teardown :: "rtsp \<Rightarrow> rtsp" where
  "rtsp_teardown c = rtsp_send (request_line (''TEARDOWN '' @ rtsp_path c) c @ ''Session: '' @ rtsp_session c @ crlf @ crlf) c"

subsection \<open>The regular expressions\<close>

definition trim_right :: "string \<Rightarrow> string" where
  "trim_right s = rev (dropWhile c_isspace (rev s))"

definition c_tolower :: "char \<Rightarrow> char" where
  "c_tolower c = (let n = of_char c :: nat in if 65 \<le> n \<and> n \<le> 90 then char_of (n + 32) else c)"

definition istarts_with :: "string \<Rightarrow> string \<Rightarrow> bool" where
  "istarts_with s sub = starts_with (map c_tolower s) (map c_tolower sub)"

text \<open>\<open>^([^:]+):\s+(.+)$\<close> on a line without spaces at its end: the second group.\<close>

definition match_field :: "string \<Rightarrow> string option" where
  "match_field l =
     (let name = takeWhile (\<lambda>c. c \<noteq> CHR '':'') l; after = drop (length name + 1) l;
          v = dropWhile c_isspace after
      in if name = [] \<or> length name = length l \<or> takeWhile c_isspace after = [] \<or> v = [] \<or>
            newline \<in> set v \<or> cret \<in> set v then None else Some v)"

text \<open>\<open>Session:[[:space:]]*([^[:space:]]+)\<close>, the first place where it matches.\<close>

fun match_session :: "string \<Rightarrow> string option" where
  "match_session [] = None"
| "match_session (c # s) =
     (let v = dropWhile c_isspace (drop 8 (c # s)) in
      if starts_with (c # s) ''Session:'' \<and> v \<noteq> [] then Some (takeWhile (\<lambda>c. \<not> c_isspace c) v)
      else match_session s)"

text \<open>\<open>sprop-parameter-sets=([^=,]+)=*,([^=,;]+)\<close>\<close>

definition sprop_at :: "string \<Rightarrow> (string \<times> string) option" where
  "sprop_at s =
     (if \<not> starts_with s ''sprop-parameter-sets='' then None
      else
        let r = drop 21 s; a = takeWhile (\<lambda>c. c \<notin> set ''=,'') r;
            r2 = dropWhile (\<lambda>c. c = CHR ''='') (drop (length a) r)
        in case r2 of
             [] \<Rightarrow> None
           | c # r3 \<Rightarrow>
               let b = takeWhile (\<lambda>c. c \<notin> set ''=,;'') r3 in
               if a = [] \<or> c \<noteq> CHR '','' \<or> b = [] then None else Some (a, b))"

fun match_sprop :: "string \<Rightarrow> (string \<times> string) option" where
  "match_sprop [] = None"
| "match_sprop (c # s) = (case sprop_at (c # s) of Some p \<Rightarrow> Some p | None \<Rightarrow> match_sprop s)"

text \<open>\<open>a=control:([^=]+=[0-9]+)\<close>\<close>

definition control_at :: "string \<Rightarrow> string option" where
  "control_at s =
     (if \<not> starts_with s ''a=control:'' then None
      else
        let r = drop 10 s; a = takeWhile (\<lambda>c. c \<noteq> CHR ''='') r; d = takeWhile c_isdigit (drop (length a + 1) r)
        in if a = [] \<or> d = [] then None else Some (a @ ''='' @ d))"

fun match_control :: "string \<Rightarrow> string option" where
  "match_control [] = None"
| "match_control (c # s) = (case control_at (c # s) of Some p \<Rightarrow> Some p | None \<Rightarrow> match_control s)"

subsection \<open>Responses\<close>

lemma head_loop_progress:
  assumes "\<not> length buf \<le> find_in c buf p (length buf)"
  shows "length buf - find_in c buf p (length buf) < Suc (length buf) - p"
proof -
  have "p < length buf"
  proof (rule ccontr)
    assume "\<not> p < length buf"
    then have "find_in c buf p (length buf) = length buf" by (subst find_in.simps) simp
    then show False using assms by simp
  qed
  moreover from this have "p \<le> find_in c buf p (length buf)" by (rule find_in_ge)
  ultimately show ?thesis by linarith
qed

text \<open>
  The loop of \<open>_parse_head\<close> over the lines from \<open>p\<close> on: the length found so far, the
  session and the position behind the last line looked at.
\<close>

function head_loop :: "string \<Rightarrow> nat \<Rightarrow> int option \<Rightarrow> string \<Rightarrow> (int option \<times> string \<times> nat) outcome" where
  "head_loop buf p clen session =
     (let nl = find_in newline buf p (length buf) in
      if length buf \<le> nl then Inr (clen, session, length buf)
      else
        let l = trim_right (slice buf p nl) in
        bind_ok (if istarts_with l ''Content-Length'' then
                   (case match_field l of
                      None \<Rightarrow> Inr (clen, session)
                    | Some v \<Rightarrow> bind_ok (atoi v) (\<lambda>n. Inr (Some n, session)))
                 else if starts_with l ''Session'' then
                   (case match_session l of None \<Rightarrow> Inr (clen, session) | Some v \<Rightarrow> Inr (clen, v))
                 else Inr (clen, session)) (\<lambda>(clen1, session1).
          if l = [] then Inr (clen1, session1, nl + 1)
          else head_loop buf (nl + 1) clen1 session1))"
  by pat_completeness auto
termination
proof (relation "measure (\<lambda>(buf, p, clen, session). Suc (length buf) - p)", goal_cases)
  case (2 buf p clen session x xa xb xc)
  have "\<not> length buf \<le> find_in newline buf p (length buf)" using 2(1,2) by (simp only:) simp
  from head_loop_progress [OF this] show ?case
    unfolding 2(1) in_measure prod.case by linarith
qed (rule wf_measure)

declare head_loop.simps [simp del]

text \<open>
  How many bytes are missing of the body (\<open>size_t\<close> of 32 bits, as on the phones), and the
  session.
\<close>

definition parse_head :: "string \<Rightarrow> string \<Rightarrow> (nat \<times> string) outcome" where
  "parse_head buf session =
     bind_ok (head_loop buf 0 None session) (\<lambda>(clen, session1, hlen).
       Inr (case clen of
              None \<Rightarrow> (0, session1)
            | Some n \<Rightarrow>
                let c = nat (n mod 4294967296); total = (c + hlen) mod 4294967296 in
                if c \<noteq> 4294967295 \<and> length buf < total then (total - length buf, session1) else (0, session1)))"

definition describe_line :: "(string \<Rightarrow> u8 list) \<Rightarrow> string \<Rightarrow> bool \<times> u8 list \<times> u8 list \<times> string \<Rightarrow>
    bool \<times> u8 list \<times> u8 list \<times> string" where
  "describe_line b64 line0 st =
     (case st of (m_v, sps, pps, streamid) \<Rightarrow>
        let line = trim_right line0 in
        if starts_with line ''m='' then (starts_with line ''m=video'', sps, pps, streamid)
        else if \<not> m_v then st
        else if starts_with line ''a=fmtp:'' then
          (case match_sprop line of None \<Rightarrow> st | Some (a, b) \<Rightarrow> (m_v, sps @ b64 a, pps @ b64 b, streamid))
        else if starts_with line ''a=control:'' then
          (case match_control line of None \<Rightarrow> st | Some v \<Rightarrow> (m_v, sps, pps, v))
        else st)"

definition transport_text :: "nat \<Rightarrow> string" where
  "transport_text port = ''RTP/AVP;unicast;client_port='' @ show_nat port @ ''-'' @ show_nat (port + 1)"

definition setup_line :: "string \<Rightarrow> string \<Rightarrow> string" where
  "setup_line line0 session =
     (let line = trim_right line0 in
      if starts_with line ''Session:'' then
        (case match_session line of None \<Rightarrow> session | Some v \<Rightarrow> v)
      else session)"

subsection \<open>The client\<close>

datatype action = Connect | Options | Describe | Setup | Play

text \<open>
  The asynchronous operations of the TCP socket: of a write its data and how many bytes of it
  have passed, of the second read of a response what is there and how many bytes are to come.
\<close>

datatype operation = Connecting | Writing action string nat | Reading action | Reading_rest action string nat

datatype completion = Finished string | Failed

text \<open>
  \<open>cl_op\<close> is the operation under way, \<open>cl_ready\<close> the one whose handler waits in the queue;
  \<open>cl_tcp\<close> and \<open>cl_udp\<close> say that the sockets are open, \<open>cl_connected\<close> that the first was
  connected, \<open>cl_wire\<close> is what has been passed to the
  TCP socket. \<open>cl_started\<close>: \<open>start_playing\<close> was called. \<open>cl_dead\<close>: an exception has left
  \<open>io_service::run\<close> and with it the thread, which ends the process.
\<close>

record client =
  cl_rtsp :: rtsp
  cl_op :: "operation option"
  cl_ready :: "(operation \<times> completion) option"
  cl_tcp :: bool
  cl_connected :: bool
  cl_udp :: bool
  cl_started :: bool
  cl_dead :: bool
  cl_wire :: string
  cl_sprop :: "(u8 list \<times> u8 list) list"

definition client_new :: "string \<Rightarrow> client" where
  "client_new path = \<lparr>cl_rtsp = \<lparr>rtsp_path = path, rtsp_session = '''', rtsp_cseq = 1, rtsp_request = ''''\<rparr>,
     cl_op = Some Connecting, cl_ready = None, cl_tcp = True, cl_connected = False, cl_udp = True, cl_started = False, cl_dead = False,
     cl_wire = '''', cl_sprop = []\<rparr>"

text \<open>An operation on a closed socket fails at once; its handler is queued all the same.\<close>

definition start_op :: "operation \<Rightarrow> client \<Rightarrow> client" where
  "start_op op c = (if cl_tcp c then c\<lparr>cl_op := Some op\<rparr> else c\<lparr>cl_ready := Some (op, Failed)\<rparr>)"

text \<open>\<open>async_write(tcpsock_, request_, ..)\<close>: everything in the stream buffer.\<close>

definition write_request :: "action \<Rightarrow> client \<Rightarrow> client" where
  "write_request act c = start_op (Writing act (rtsp_request (cl_rtsp c)) 0) c"

definition on_success :: "(string \<Rightarrow> u8 list) \<Rightarrow> nat \<Rightarrow> action \<Rightarrow> string \<Rightarrow> client \<Rightarrow> client" where
  "on_success b64 port act response c =
     (case act of
        Connect \<Rightarrow> write_request Options (c\<lparr>cl_rtsp := rtsp_options (cl_rtsp c)\<rparr>)
      | Options \<Rightarrow> write_request Describe (c\<lparr>cl_rtsp := rtsp_describe (cl_rtsp c)\<rparr>)
      | Describe \<Rightarrow>
          (case fold (describe_line b64) (getlines response) (False, [], [], '''') of
             (_, sps, pps, streamid) \<Rightarrow>
               write_request Setup (c\<lparr>cl_sprop := (if sps = [] then cl_sprop c else cl_sprop c @ [(sps, pps)]),
                 cl_rtsp := rtsp_setup streamid (transport_text port) (cl_rtsp c)\<rparr>))
      | Setup \<Rightarrow>
          let r = (cl_rtsp c)\<lparr>rtsp_session := fold setup_line (getlines response) (rtsp_session (cl_rtsp c))\<rparr>
          in write_request Play (c\<lparr>cl_started := True, cl_rtsp := rtsp_play r\<rparr>)
      | Play \<Rightarrow> c)"

definition consume_request :: "nat \<Rightarrow> client \<Rightarrow> client" where
  "consume_request n c = c\<lparr>cl_rtsp := (cl_rtsp c)\<lparr>rtsp_request := drop n (rtsp_request (cl_rtsp c))\<rparr>\<rparr>"

text \<open>
  The handlers. The end of a write consumes what has passed; then the response is read up to
  the empty line, and the rest of its body. \<open>on_error\<close> only logs.
\<close>

definition on_ready :: "(string \<Rightarrow> u8 list) \<Rightarrow> nat \<Rightarrow> operation \<Rightarrow> completion \<Rightarrow> client \<Rightarrow> client outcome" where
  "on_ready b64 port op res c =
     (case op of
        Connecting \<Rightarrow> (case res of Failed \<Rightarrow> Inr c | Finished _ \<Rightarrow> Inr (on_success b64 port Connect '''' c))
      | Writing act s n \<Rightarrow>
          let c1 = consume_request n c
          in (case res of Failed \<Rightarrow> Inr c1 | Finished _ \<Rightarrow> Inr (start_op (Reading act) c1))
      | Reading act \<Rightarrow>
          (case res of
             Failed \<Rightarrow> Inr c
           | Finished got \<Rightarrow> bind_ok (parse_head got (rtsp_session (cl_rtsp c))) (\<lambda>(missing, session).
               let c1 = c\<lparr>cl_rtsp := (cl_rtsp c)\<lparr>rtsp_session := session\<rparr>\<rparr>
               in Inr (if missing = 0 then on_success b64 port act got c1
                       else start_op (Reading_rest act got missing) c1)))
      | Reading_rest act got missing \<Rightarrow>
          (case res of Failed \<Rightarrow> Inr c | Finished body \<Rightarrow> Inr (on_success b64 port act (got @ body) c)))"

text \<open>
  \<open>RtpH264::teardown\<close> closes the UDP sockets; then its request goes into \<open>request_\<close> behind
  what is still there, and all of that is written at once. When the write fails
  (\<open>w = Some m\<close>, after \<open>m\<close> bytes) it throws; otherwise the socket is closed, which ends the
  operation under way, but not the handler that is already queued.
\<close>

definition client_teardown :: "nat option \<Rightarrow> client \<Rightarrow> client" where
  "client_teardown w c =
     (let c1 = c\<lparr>cl_udp := False, cl_rtsp := rtsp_teardown (cl_rtsp c)\<rparr>; req = rtsp_request (cl_rtsp c1)
      in case w of
           Some m \<Rightarrow> c1\<lparr>cl_wire := cl_wire c1 @ take m req, cl_dead := True\<rparr>
         | None \<Rightarrow> c1\<lparr>cl_wire := cl_wire c1 @ req, cl_rtsp := (cl_rtsp c1)\<lparr>rtsp_request := ''''\<rparr>, cl_tcp := False,
             cl_op := None, cl_ready := (case cl_op c of None \<Rightarrow> cl_ready c | Some op \<Rightarrow> Some (op, Failed))\<rparr>)"

text \<open>
  A write on a socket that is closed, or was never connected, throws at once; while the
  connection is being made it waits for it.
\<close>

definition can_write :: "client \<Rightarrow> bool" where
  "can_write c \<longleftrightarrow> cl_tcp c \<and> (cl_connected c \<or> cl_op c = Some Connecting)"

text \<open>
  The steps of the thread of the \<open>io_service\<close>: bytes pass, an operation ends, a handler runs,
  \<open>hgsnwk_exit\<close> has posted a teardown. \<open>stop\<close> ends the run wherever it is.
\<close>

inductive rtsp_step :: "(string \<Rightarrow> u8 list) \<Rightarrow> nat \<Rightarrow> client \<Rightarrow> client \<Rightarrow> bool" for b64 port where
  step_passes: "\<not> cl_dead c \<Longrightarrow> cl_op c = Some (Writing act s n) \<Longrightarrow> n < m \<Longrightarrow> m < length s \<Longrightarrow>
    rtsp_step b64 port c (c\<lparr>cl_op := Some (Writing act s m), cl_wire := cl_wire c @ take (m - n) (drop n s)\<rparr>)"
| step_written: "\<not> cl_dead c \<Longrightarrow> cl_op c = Some (Writing act s n) \<Longrightarrow>
    rtsp_step b64 port c (c\<lparr>cl_op := None, cl_ready := Some (Writing act s (length s), Finished ''''),
      cl_wire := cl_wire c @ drop n s\<rparr>)"
| step_connected: "\<not> cl_dead c \<Longrightarrow> cl_op c = Some Connecting \<Longrightarrow>
    rtsp_step b64 port c (c\<lparr>cl_op := None, cl_ready := Some (Connecting, Finished ''''), cl_connected := True\<rparr>)"
| step_read: "\<not> cl_dead c \<Longrightarrow> cl_op c = Some (Reading act) \<Longrightarrow>
    rtsp_step b64 port c (c\<lparr>cl_op := None, cl_ready := Some (Reading act, Finished got)\<rparr>)"
| step_read_rest: "\<not> cl_dead c \<Longrightarrow> cl_op c = Some (Reading_rest act got missing) \<Longrightarrow> length body = missing \<Longrightarrow>
    rtsp_step b64 port c (c\<lparr>cl_op := None, cl_ready := Some (Reading_rest act got missing, Finished body)\<rparr>)"
| step_failed: "\<not> cl_dead c \<Longrightarrow> cl_op c = Some op \<Longrightarrow>
    rtsp_step b64 port c (c\<lparr>cl_op := None, cl_ready := Some (op, Failed)\<rparr>)"
| step_handler: "\<not> cl_dead c \<Longrightarrow> cl_ready c = Some (op, res) \<Longrightarrow>
    on_ready b64 port op res (c\<lparr>cl_ready := None\<rparr>) = Inr c' \<Longrightarrow> rtsp_step b64 port c c'"
| step_teardown: "\<not> cl_dead c \<Longrightarrow> can_write c \<or> w = Some 0 \<Longrightarrow>
    rtsp_step b64 port c (client_teardown w c)"

inductive_cases rtsp_stepE: "rtsp_step b64 port c c'"

subsection \<open>The order of the requests\<close>

text \<open>The four requests of a session that gets to playing, and that of \<open>teardown\<close>.\<close>

definition session_script :: "string \<Rightarrow> nat \<Rightarrow> string \<Rightarrow> string \<Rightarrow> string list" where
  "session_script path port streamid session =
     [''OPTIONS '' @ path @ '' RTSP/1.0'' @ crlf @ ''CSeq: 1'' @ crlf @ crlf,
      ''DESCRIBE '' @ path @ '' RTSP/1.0'' @ crlf @ ''CSeq: 2'' @ crlf @ ''Accept: application/sdp'' @ crlf @ crlf,
      ''SETUP '' @ path @ ''/'' @ streamid @ '' RTSP/1.0'' @ crlf @ ''CSeq: 3'' @ crlf @
        ''Transport: RTP/AVP;unicast;client_port='' @ show_nat port @ ''-'' @ show_nat (port + 1) @ crlf @
        ''Range: 0.00-'' @ crlf @ crlf,
      ''PLAY '' @ path @ '' RTSP/1.0'' @ crlf @ ''CSeq: 4'' @ crlf @ ''Session: '' @ session @ crlf @ crlf]"

definition teardown_text :: "string \<Rightarrow> int \<Rightarrow> string \<Rightarrow> string" where
  "teardown_text path n session =
     ''TEARDOWN '' @ path @ '' RTSP/1.0'' @ crlf @ ''CSeq: '' @ show_int n @ crlf @ ''Session: '' @ session @ crlf @ crlf"

text \<open>The number of the request an action is the answer to.\<close>

fun requests_out :: "action \<Rightarrow> nat" where
  "requests_out Connect = 0"
| "requests_out Options = 1"
| "requests_out Describe = 2"
| "requests_out Setup = 3"
| "requests_out Play = 4"

definition busy :: "client \<Rightarrow> operation option" where
  "busy c = (case cl_op c of Some op \<Rightarrow> Some op | None \<Rightarrow> map_option fst (cl_ready c))"

text \<open>What is on the wire and in \<open>request_\<close> in each state of a session that was not torn down.\<close>

definition at_write :: "string list \<Rightarrow> action \<Rightarrow> string \<Rightarrow> nat \<Rightarrow> client \<Rightarrow> bool" where
  "at_write S act s n c \<longleftrightarrow> act \<noteq> Connect \<and> s = S ! (requests_out act - 1) \<and> n \<le> length s \<and>
     rtsp_request (cl_rtsp c) = s \<and> cl_wire c = concat (take (requests_out act - 1) S) @ take n s \<and>
     rtsp_cseq (cl_rtsp c) = int (requests_out act) + 1 \<and> (cl_started c \<longleftrightarrow> act = Play)"

definition at_read :: "string list \<Rightarrow> action \<Rightarrow> client \<Rightarrow> bool" where
  "at_read S act c \<longleftrightarrow> act \<noteq> Connect \<and> rtsp_request (cl_rtsp c) = '''' \<and>
     cl_wire c = concat (take (requests_out act) S) \<and>
     rtsp_cseq (cl_rtsp c) = int (requests_out act) + 1 \<and> (cl_started c \<longleftrightarrow> act = Play)"

definition at_rest :: "string list \<Rightarrow> client \<Rightarrow> bool" where
  "at_rest S c \<longleftrightarrow> prefix (cl_wire c) (concat S) \<and>
     (rtsp_request (cl_rtsp c) = '''' \<or> (\<exists>q \<in> set S. suffix (rtsp_request (cl_rtsp c)) q)) \<and>
     (if cl_started c then prefix (concat (take 3 S)) (cl_wire c) else prefix (cl_wire c) (concat (take 3 S)))"

definition phase_ok :: "string list \<Rightarrow> client \<Rightarrow> bool" where
  "phase_ok S c \<longleftrightarrow> cl_udp c \<and> (cl_op c = None \<or> cl_ready c = None) \<and>
     (case busy c of
        None \<Rightarrow> at_rest S c
      | Some Connecting \<Rightarrow> cl_wire c = '''' \<and> rtsp_request (cl_rtsp c) = '''' \<and> rtsp_cseq (cl_rtsp c) = 1 \<and> \<not> cl_started c
      | Some (Writing act s n) \<Rightarrow> at_write S act s n c \<and>
          (case cl_ready c of Some (_, Finished _) \<Rightarrow> n = length s | _ \<Rightarrow> True)
      | Some (Reading act) \<Rightarrow> at_read S act c
      | Some (Reading_rest act _ _) \<Rightarrow> at_read S act c)"

text \<open>What is on the wire after a teardown, for good.\<close>

definition wire_torn :: "string \<Rightarrow> nat \<Rightarrow> string \<Rightarrow> bool" where
  "wire_torn path port w \<longleftrightarrow>
     (\<exists>streamid session before again n session' sent. w = before @ sent \<and>
        prefix before (concat (session_script path port streamid session)) \<and>
        (again = '''' \<or> (\<exists>q \<in> set (session_script path port streamid session). suffix again q)) \<and>
        prefix sent (again @ teardown_text path n session'))"

definition session_ok :: "string \<Rightarrow> nat \<Rightarrow> client \<Rightarrow> bool" where
  "session_ok path port c \<longleftrightarrow> rtsp_path (cl_rtsp c) = path \<and>
     (if cl_tcp c \<and> \<not> cl_dead c
      then \<exists>streamid session. phase_ok (session_script path port streamid session) c
      else \<not> cl_udp c \<and> wire_torn path port (cl_wire c) \<and> (cl_dead c \<or> cl_op c = None))"

lemma show_int_small [simp]: "show_int 1 = ''1''" "show_int 2 = ''2''" "show_int 3 = ''3''" "show_int 4 = ''4''"
  by code_simp+

lemmas request_defs = rtsp_options_def rtsp_describe_def rtsp_setup_def rtsp_play_def rtsp_send_def
  request_line_def session_script_def transport_text_def

lemma length_script [simp]: "length (session_script path port sid ses) = 4"
  by (simp add: session_script_def)

lemma one_more: "k < length S \<Longrightarrow> concat (take (Suc k) S) = concat (take k S) @ S ! k"
  by (simp add: take_Suc_conv_app_nth)

lemma wire_of_script:
  assumes "act \<noteq> Connect"
  shows "concat (take (requests_out act) (session_script path port sid ses)) =
    concat (take (requests_out act - 1) (session_script path port sid ses)) @ session_script path port sid ses ! (requests_out act - 1)"
proof -
  have k: "Suc (requests_out act - 1) = requests_out act" "requests_out act - 1 < 4" using assms by (cases act; simp)+
  then show ?thesis using one_more [of "requests_out act - 1" "session_script path port sid ses"] unfolding k(1) by simp
qed

lemma prefix_of_requests: "prefix (concat (take n S)) (concat S)"
  by (metis append_take_drop_id concat_append prefixI)

text \<open>The first two requests do not depend on what the answers give, the third not on the session.\<close>

lemma script_same:
  "concat (take 2 (session_script path port sid ses)) = concat (take 2 (session_script path port sid' ses'))"
  "concat (take 3 (session_script path port sid ses)) = concat (take 3 (session_script path port sid ses'))"
  by (simp_all add: session_script_def numeral_eq_Suc)

lemma next_request:
  assumes "at_read S act c" and "cl_tcp c" and "cl_udp c" and "cl_op c = None" and "cl_ready c = None"
    and "rtsp_request (cl_rtsp c') = S' ! requests_out act" and "requests_out act' = Suc (requests_out act)"
    and "rtsp_cseq (cl_rtsp c') = rtsp_cseq (cl_rtsp c) + 1" and "cl_wire c' = cl_wire c"
    and "concat (take (requests_out act) S) = concat (take (requests_out act) S')"
    and "cl_started c' \<longleftrightarrow> act' = Play" and "cl_tcp c'" and "cl_udp c'" and "cl_op c' = None" and "cl_ready c' = None"
  shows "phase_ok S' (write_request act' c')"
  using assms by (auto simp: phase_ok_def busy_def write_request_def start_op_def at_write_def at_read_def)

lemma success_ok:
  assumes "at_read (session_script path port sid ses) act c" and "cl_tcp c" and "cl_udp c" and "cl_op c = None"
    and "cl_ready c = None" and "rtsp_path (cl_rtsp c) = path"
  shows "\<exists>sid' ses'. phase_ok (session_script path port sid' ses') (on_success b64 port act response c)"
proof -
  let ?S = "session_script path port sid ses"
  have r: "rtsp_request (cl_rtsp c) = ''''" "rtsp_cseq (cl_rtsp c) = int (requests_out act) + 1" "act \<noteq> Connect"
      "cl_started c \<longleftrightarrow> act = Play" using assms(1) by (auto simp: at_read_def)
  note nx = next_request [OF assms(1-5)]
  show ?thesis
  proof (cases act)
    case Connect
    then show ?thesis using r(3) by simp
  next
    case Options
    have "phase_ok ?S (write_request Describe (c\<lparr>cl_rtsp := rtsp_describe (cl_rtsp c)\<rparr>))"
      by (rule nx) (use Options r assms in \<open>simp_all add: request_defs\<close>)
    then show ?thesis unfolding on_success_def Options action.case by blast
  next
    case Describe
    obtain m sps pps streamid where f: "fold (describe_line b64) (getlines response) (False, [], [], '''') =
        (m, sps, pps, streamid)" by (metis prod_cases4)
    have "phase_ok (session_script path port streamid ses) (write_request Setup (c\<lparr>cl_sprop :=
        (if sps = [] then cl_sprop c else cl_sprop c @ [(sps, pps)]), cl_rtsp := rtsp_setup streamid (transport_text port) (cl_rtsp c)\<rparr>))"
      by (rule nx) (use Describe r assms in \<open>simp_all add: request_defs numeral_eq_Suc\<close>)
    then show ?thesis unfolding on_success_def Describe action.case f prod.case by blast
  next
    case Setup
    let ?s = "fold setup_line (getlines response) (rtsp_session (cl_rtsp c))"
    have "phase_ok (session_script path port sid ?s) (write_request Play (c\<lparr>cl_started := True,
        cl_rtsp := rtsp_play ((cl_rtsp c)\<lparr>rtsp_session := ?s\<rparr>)\<rparr>))"
      by (rule nx) (use Setup r assms in \<open>simp_all add: request_defs numeral_eq_Suc\<close>)
    then show ?thesis unfolding on_success_def Setup action.case Let_def by blast
  next
    case Play
    have "take 4 ?S = ?S" by (simp add: session_script_def)
    then have "cl_wire c = concat ?S" using assms(1) Play by (simp add: at_read_def)
    then have "phase_ok ?S c" using assms r Play prefix_of_requests [of 3 ?S]
      by (simp add: phase_ok_def busy_def at_rest_def)
    then show ?thesis unfolding on_success_def Play action.case by blast
  qed
qed

lemma connected_ok:
  assumes "cl_wire c = ''''" and "rtsp_request (cl_rtsp c) = ''''" and "rtsp_cseq (cl_rtsp c) = 1" and "\<not> cl_started c"
    and "cl_tcp c" and "cl_udp c" and "cl_op c = None" and "cl_ready c = None" and "rtsp_path (cl_rtsp c) = path"
  shows "phase_ok (session_script path port sid ses) (on_success b64 port Connect response c)"
  using assms by (simp add: on_success_def phase_ok_def busy_def write_request_def start_op_def at_write_def request_defs)

lemma on_success_keeps [simp]:
  "rtsp_path (cl_rtsp (on_success b64 port act response c)) = rtsp_path (cl_rtsp c)"
  "cl_tcp (on_success b64 port act response c) = cl_tcp c" "cl_dead (on_success b64 port act response c) = cl_dead c"
  "cl_udp (on_success b64 port act response c) = cl_udp c" "cl_wire (on_success b64 port act response c) = cl_wire c"
  "\<not> cl_tcp c \<Longrightarrow> cl_op (on_success b64 port act response c) = cl_op c"
  by (cases act; simp add: on_success_def write_request_def start_op_def rtsp_options_def rtsp_describe_def rtsp_setup_def
      rtsp_play_def rtsp_send_def Let_def split: prod.split)+

text \<open>The requests are not empty, and their beginnings are beginnings of the script.\<close>

lemma concat_take_mono: "k \<le> n \<Longrightarrow> prefix (concat (take k S)) (concat (take n S))"
  using prefix_of_requests [of k "take n S"] by (simp add: min_def)

lemma write_is_rest:
  assumes "at_write S act s n c" and "length S = 4"
  shows "prefix (cl_wire c) (concat S)" "s \<in> set S"
    "if cl_started c then prefix (concat (take 3 S)) (cl_wire c) else prefix (cl_wire c) (concat (take 3 S))"
proof -
  let ?k = "requests_out act - 1"
  have k: "?k < length S" "s = S ! ?k" "Suc ?k = requests_out act" using assms by (cases act; simp add: at_write_def)+
  then show "s \<in> set S" by simp
  have "concat (take (Suc ?k) S) = concat (take ?k S) @ s" using one_more [OF k(1)] k(2) by (simp only:)
  moreover have "prefix (cl_wire c) (concat (take ?k S) @ s)"
    using assms(1) by (simp add: at_write_def take_is_prefix)
  ultimately have w: "prefix (cl_wire c) (concat (take (requests_out act) S))" using k(3) by simp
  show "prefix (cl_wire c) (concat S)"
    by (rule prefix_order.trans [OF w prefix_of_requests])
  have "act \<noteq> Play \<Longrightarrow> requests_out act \<le> 3" by (cases act) auto
  then have "act \<noteq> Play \<Longrightarrow> prefix (cl_wire c) (concat (take 3 S))"
    using prefix_order.trans [OF w concat_take_mono] by blast
  then show "if cl_started c then prefix (concat (take 3 S)) (cl_wire c) else prefix (cl_wire c) (concat (take 3 S))"
    using assms(1) by (auto simp: at_write_def)
qed

lemma read_is_rest:
  assumes "at_read S act c"
  shows "at_rest S c"
proof -
  have "act \<noteq> Play \<Longrightarrow> requests_out act \<le> 3" by (cases act) auto
  then show ?thesis using assms prefix_of_requests [of "requests_out act" S] concat_take_mono [of 3 4 S]
      concat_take_mono [of "requests_out act" 3 S] by (auto simp: at_read_def at_rest_def)
qed

lemma phase_rest:
  assumes "phase_ok (session_script path port sid ses) c"
  shows "at_rest (session_script path port sid ses) c"
proof (cases "busy c")
  case None
  then show ?thesis using assms by (simp add: phase_ok_def)
next
  case (Some op)
  show ?thesis
  proof (cases op)
    case (Writing act s n)
    then have w: "at_write (session_script path port sid ses) act s n c" using assms Some by (auto simp: phase_ok_def)
    then have "suffix (rtsp_request (cl_rtsp c)) s" by (simp add: at_write_def)
    then show ?thesis using write_is_rest [OF w length_script] unfolding at_rest_def by blast
  qed (use assms Some read_is_rest in \<open>auto simp: phase_ok_def at_rest_def\<close>)
qed

text \<open>A handler on an open socket, for each operation.\<close>

lemma rest_phase:
  "at_rest S c \<Longrightarrow> cl_udp c \<Longrightarrow> cl_op c = None \<Longrightarrow> cl_ready c = None \<Longrightarrow> phase_ok S c"
  by (simp add: phase_ok_def busy_def)

lemma write_handler_ok:
  assumes "at_write (session_script path port sid ses) act s n c" and "res \<noteq> Failed \<longrightarrow> n = length s"
    and "cl_tcp c" and "cl_udp c" and "cl_op c = None" and "cl_ready c = None"
    and "on_ready b64 port (Writing act s n) res c = Inr c'"
  shows "phase_ok (session_script path port sid ses) c'"
proof (cases res)
  case Failed
  then have c': "c' = consume_request n c" using assms(7) by (simp add: on_ready_def)
  have "suffix (drop n s) s" by (rule suffix_drop)
  then have "at_rest (session_script path port sid ses) c'"
    using assms(1) write_is_rest [OF assms(1) length_script] c' unfolding at_rest_def consume_request_def
    by (auto simp: at_write_def)
  then show ?thesis using c' assms(4-6) by (simp add: rest_phase consume_request_def)
next
  case (Finished x)
  let ?S = "session_script path port sid ses"
  have c': "c' = start_op (Reading act) (consume_request n c)" and n: "n = length s"
    using assms(2,7) Finished by (simp_all add: on_ready_def Let_def)
  have "concat (take (requests_out act) ?S) = concat (take (requests_out act - 1) ?S) @ ?S ! (requests_out act - 1)"
    using assms(1) by (intro wire_of_script) (simp add: at_write_def)
  then have "at_read ?S act c'" using assms(1,3) n c' unfolding at_read_def at_write_def
    by (simp add: consume_request_def start_op_def)
  then show ?thesis using c' assms(3-6) by (auto simp: phase_ok_def busy_def start_op_def consume_request_def)
qed

lemma read_handler_ok:
  assumes "at_read (session_script path port sid ses) act c" and "cl_tcp c" and "cl_udp c" and "cl_op c = None"
    and "cl_ready c = None" and "rtsp_path (cl_rtsp c) = path"
    and "op = Reading act \<or> op = Reading_rest act got missing" and "on_ready b64 port op res c = Inr c'"
  shows "\<exists>sid' ses'. phase_ok (session_script path port sid' ses') c'"
proof -
  let ?S = "session_script path port sid ses"
  consider "res = Failed" | body where "res = Finished body" "op = Reading_rest act got missing"
    | got' where "res = Finished got'" "op = Reading act" using assms(7) by (cases res) auto
  then show ?thesis
  proof cases
    case 1
    then have "c' = c" using assms(7,8) by (auto simp: on_ready_def)
    then show ?thesis using rest_phase [OF read_is_rest [OF assms(1)]] assms(3-5) by auto
  next
    case (2 body)
    then have "c' = on_success b64 port act (got @ body) c" using assms(8) by (simp add: on_ready_def)
    then show ?thesis using success_ok [OF assms(1-6)] by simp
  next
    case (3 got')
    obtain m session where p: "parse_head got' (rtsp_session (cl_rtsp c)) = Inr (m, session)"
      using assms(8) 3 by (auto simp: on_ready_def bind_ok_def split: sum.splits)
    let ?c1 = "c\<lparr>cl_rtsp := (cl_rtsp c)\<lparr>rtsp_session := session\<rparr>\<rparr>"
    have r1: "at_read ?S act ?c1" using assms(1) by (simp add: at_read_def)
    have c': "c' = (if m = 0 then on_success b64 port act got' ?c1 else start_op (Reading_rest act got' m) ?c1)"
      using assms(8) 3 p by (simp add: on_ready_def Let_def)
    have "phase_ok ?S (start_op (Reading_rest act got' m) ?c1)"
      using r1 assms(2-5) by (auto simp: phase_ok_def busy_def start_op_def at_read_def)
    then show ?thesis using c' success_ok [OF r1] assms(2-6) by auto
  qed
qed

lemma handler_live:
  assumes "phase_ok (session_script path port sid ses) c" and "cl_tcp c" and "rtsp_path (cl_rtsp c) = path"
    and "cl_ready c = Some (op, res)" and "on_ready b64 port op res (c\<lparr>cl_ready := None\<rparr>) = Inr c'"
  shows "\<exists>sid' ses'. phase_ok (session_script path port sid' ses') c'"
proof -
  let ?S = "session_script path port sid ses" and ?c = "c\<lparr>cl_ready := None\<rparr>"
  have o: "cl_op ?c = None" "cl_udp ?c" "cl_ready ?c = None" "cl_tcp ?c" "rtsp_path (cl_rtsp ?c) = path" and b: "busy c = Some op"
    using assms(1-4) by (auto simp: phase_ok_def busy_def)
  show ?thesis
  proof (cases op)
    case Connecting
    then have w: "cl_wire ?c = ''''" "rtsp_request (cl_rtsp ?c) = ''''" "rtsp_cseq (cl_rtsp ?c) = 1" "\<not> cl_started ?c"
      using assms(1) b by (auto simp: phase_ok_def)
    have "c' = ?c \<or> c' = on_success b64 port Connect '''' ?c"
      using assms(5) Connecting by (auto simp: on_ready_def split: completion.splits)
    moreover have "phase_ok ?S ?c" using w o by (intro rest_phase) (simp_all add: at_rest_def)
    ultimately show ?thesis using connected_ok [OF w o(4,2,1,3,5)] by blast
  next
    case (Writing act s n)
    then have "at_write ?S act s n ?c" "res \<noteq> Failed \<longrightarrow> n = length s"
      using assms(1,4) b by (auto simp: phase_ok_def at_write_def split: completion.splits)
    from write_handler_ok [OF this o(4,2,1,3)] show ?thesis using assms(5) Writing by auto
  next
    case (Reading act)
    then have "at_read ?S act ?c" using assms(1) b by (auto simp: phase_ok_def at_read_def)
    from read_handler_ok [OF this o(4,2,1,3,5)] show ?thesis using assms(5) Reading by blast
  next
    case (Reading_rest act got missing)
    then have "at_read ?S act ?c" using assms(1) b by (auto simp: phase_ok_def at_read_def)
    from read_handler_ok [OF this o(4,2,1,3,5)] show ?thesis using assms(5) Reading_rest by blast
  qed
qed

lemma handler_keeps:
  assumes "on_ready b64 port op res c = Inr c'"
  shows "rtsp_path (cl_rtsp c') = rtsp_path (cl_rtsp c) \<and> cl_tcp c' = cl_tcp c \<and> cl_dead c' = cl_dead c \<and>
    cl_udp c' = cl_udp c \<and> cl_wire c' = cl_wire c \<and> (\<not> cl_tcp c \<longrightarrow> cl_op c' = cl_op c)"
  using assms
  by (auto simp: on_ready_def bind_ok_def start_op_def consume_request_def Let_def
      split: operation.splits completion.splits sum.splits if_splits)

text \<open>The other steps, on an open socket.\<close>

lemma moves_live:
  assumes "phase_ok S c" and "cl_op c = Some op"
  shows "phase_ok S (c\<lparr>cl_op := None, cl_ready := Some (op, Failed)\<rparr>)"
    and "op = Writing act s n \<Longrightarrow> n < m \<Longrightarrow> m < length s \<Longrightarrow>
      phase_ok S (c\<lparr>cl_op := Some (Writing act s m), cl_wire := cl_wire c @ take (m - n) (drop n s)\<rparr>)"
    and "op = Writing act s n \<Longrightarrow> phase_ok S (c\<lparr>cl_op := None, cl_ready := Some (Writing act s (length s), Finished ''''),
      cl_wire := cl_wire c @ drop n s\<rparr>)"
    and "op = Connecting \<or> op = Reading act \<or> op = Reading_rest act got missing \<Longrightarrow>
      phase_ok S (c\<lparr>cl_op := None, cl_ready := Some (op, Finished x)\<rparr>)"
proof -
  have add: "take n s @ take (m - n) (drop n s) = take m s" if "n < m" for n m and s :: string
    using that take_add [of n "m - n" s] by simp
  show "phase_ok S (c\<lparr>cl_op := None, cl_ready := Some (op, Failed)\<rparr>)"
    using assms by (auto simp: phase_ok_def busy_def at_write_def at_read_def split: operation.splits)
  show "phase_ok S (c\<lparr>cl_op := Some (Writing act s m), cl_wire := cl_wire c @ take (m - n) (drop n s)\<rparr>)"
    if "op = Writing act s n" "n < m" "m < length s"
    using assms that add by (auto simp: phase_ok_def busy_def at_write_def)
  show "phase_ok S (c\<lparr>cl_op := None, cl_ready := Some (Writing act s (length s), Finished ''''), cl_wire := cl_wire c @ drop n s\<rparr>)"
    if "op = Writing act s n"
    using assms that by (auto simp: phase_ok_def busy_def at_write_def)
  show "phase_ok S (c\<lparr>cl_op := None, cl_ready := Some (op, Finished x)\<rparr>)"
    if "op = Connecting \<or> op = Reading act \<or> op = Reading_rest act got missing"
    using assms that by (auto simp: phase_ok_def busy_def at_read_def)
qed

lemma session_liveI:
  "cl_tcp c \<Longrightarrow> \<not> cl_dead c \<Longrightarrow> rtsp_path (cl_rtsp c) = path \<Longrightarrow>
    \<exists>sid ses. phase_ok (session_script path port sid ses) c \<Longrightarrow> session_ok path port c"
  by (simp add: session_ok_def)

lemma teardown_ok:
  assumes "session_ok path port c" and "\<not> cl_dead c" and "can_write c \<or> w = Some 0"
  shows "session_ok path port (client_teardown w c)"
proof -
  let ?r = "cl_rtsp c"
  have p: "rtsp_path ?r = path" using assms(1) by (simp add: session_ok_def)
  have req: "rtsp_request (rtsp_teardown ?r) = rtsp_request ?r @ teardown_text path (rtsp_cseq ?r) (rtsp_session ?r)"
    using p by (simp add: rtsp_teardown_def rtsp_send_def request_line_def teardown_text_def)
  have same: "\<not> cl_udp (client_teardown w c)" "cl_dead (client_teardown w c) \<or> \<not> cl_tcp (client_teardown w c) \<and> cl_op (client_teardown w c) = None"
    "rtsp_path (cl_rtsp (client_teardown w c)) = path"
    using p by (auto simp: client_teardown_def rtsp_teardown_def rtsp_send_def Let_def split: option.split)
  have "wire_torn path port (cl_wire (client_teardown w c))"
  proof (cases "cl_tcp c")
    case True
    then obtain sid ses where "phase_ok (session_script path port sid ses) c"
      using assms(1,2) by (auto simp: session_ok_def)
    from phase_rest [OF this] have rest: "prefix (cl_wire c) (concat (session_script path port sid ses))"
      "rtsp_request ?r = '''' \<or> (\<exists>q \<in> set (session_script path port sid ses). suffix (rtsp_request ?r) q)"
      by (auto simp: at_rest_def)
    obtain m where m: "cl_wire (client_teardown w c) = cl_wire c @ take m (rtsp_request (rtsp_teardown ?r))"
    proof (cases w)
      case None
      then show thesis using that [of "length (rtsp_request (rtsp_teardown ?r))"] by (simp add: client_teardown_def Let_def)
    qed (use that in \<open>simp add: client_teardown_def Let_def\<close>)
    then show ?thesis unfolding wire_torn_def req using rest take_is_prefix by blast
  next
    case False
    then have "w = Some 0" using assms(3) by (auto simp: can_write_def)
    then show ?thesis using False assms(1) by (simp add: client_teardown_def session_ok_def Let_def)
  qed
  then show ?thesis using same by (auto simp: session_ok_def)
qed

lemma session_step:
  assumes "rtsp_step b64 port c c'" and "session_ok path port c"
  shows "session_ok path port c'"
proof (cases "cl_tcp c \<and> \<not> cl_dead c")
  case True
  then obtain sid ses where ph: "phase_ok (session_script path port sid ses) c" and p: "rtsp_path (cl_rtsp c) = path"
    using assms(2) by (auto simp: session_ok_def)
  note mv = moves_live [OF ph]
  show ?thesis
    using assms(1)
  proof cases
    case (step_passes act s n m)
    then show ?thesis using mv(2) [OF step_passes(3) refl] True p by (intro session_liveI) auto
  next
    case (step_written act s n)
    then show ?thesis using mv(3) [OF step_written(3) refl] True p by (intro session_liveI) auto
  next
    case step_connected
    have "phase_ok S (d\<lparr>cl_connected := True\<rparr>) = phase_ok S d" for S d
      by (simp add: phase_ok_def busy_def at_write_def at_read_def at_rest_def split: option.split operation.split)
    then have "phase_ok (session_script path port sid ses) c'" using mv(4) [of Connecting] step_connected by simp
    then show ?thesis using step_connected True p by (intro session_liveI) auto
  next
    case (step_read act got)
    then show ?thesis using mv(4) [OF step_read(3)] True p by (intro session_liveI) auto
  next
    case (step_read_rest act got missing body)
    then show ?thesis using mv(4) [OF step_read_rest(3)] True p by (intro session_liveI) auto
  next
    case (step_failed op)
    then show ?thesis using mv(1) [OF step_failed(3)] True p by (intro session_liveI) auto
  next
    case (step_handler op res)
    then show ?thesis
      using handler_live [OF ph _ p step_handler(2,3)] handler_keeps [OF step_handler(3)] True p
      by (intro session_liveI) auto
  next
    case (step_teardown w)
    then show ?thesis using teardown_ok [OF assms(2)] by simp
  qed
next
  case False
  then have t: "\<not> cl_udp c" "wire_torn path port (cl_wire c)" "cl_dead c \<or> cl_op c = None" "rtsp_path (cl_rtsp c) = path"
    using assms(2) by (auto simp: session_ok_def)
  show ?thesis
    using assms(1)
  proof cases
    case (step_handler op res)
    then show ?thesis using handler_keeps [OF step_handler(3)] t False by (auto simp: session_ok_def)
  next
    case (step_teardown w)
    then show ?thesis using teardown_ok [OF assms(2)] by simp
  qed (use t in auto)
qed

lemma session_new: "session_ok path port (client_new path)"
  by (simp add: session_ok_def client_new_def phase_ok_def busy_def)

lemma session_run: "(rtsp_step b64 port)\<^sup>*\<^sup>* c c' \<Longrightarrow> session_ok path port c \<Longrightarrow> session_ok path port c'"
  by (induction rule: rtranclp_induct) (auto intro: session_step)

text \<open>
  C14: whatever the server answers and whenever an operation fails, as long as no teardown has
  been tried the bytes passed to the TCP socket are a beginning of OPTIONS, DESCRIBE, SETUP,
  PLAY, with CSeq 1 to 4; the RTP receiver is started after all of the first three has passed
  and before any byte of PLAY. After a teardown, however it ends and whatever handlers still run,
  the UDP socket is closed, and such a beginning is followed only by the rest, or the whole, of
  at most one request of the four once more and by TEARDOWN, or by a beginning of these. The
  status line of a response is never looked at.
\<close>

theorem requests_in_order:
  assumes "(rtsp_step b64 port)\<^sup>*\<^sup>* (client_new path) c"
  shows "\<exists>streamid session. let S = session_script path port streamid session in
    if cl_tcp c \<and> \<not> cl_dead c
    then cl_udp c \<and> prefix (cl_wire c) (concat S) \<and>
      (if cl_started c then prefix (concat (take 3 S)) (cl_wire c) else prefix (cl_wire c) (concat (take 3 S)))
    else \<not> cl_udp c \<and>
      (\<exists>before again n session' sent. cl_wire c = before @ sent \<and> prefix before (concat S) \<and>
        (again = '''' \<or> (\<exists>q \<in> set S. suffix again q)) \<and> prefix sent (again @ teardown_text path n session'))"
proof -
  have ok: "session_ok path port c" using session_run [OF assms session_new] .
  show ?thesis
  proof (cases "cl_tcp c \<and> \<not> cl_dead c")
    case True
    then obtain sid ses where ph: "phase_ok (session_script path port sid ses) c" using ok by (auto simp: session_ok_def)
    from phase_rest [OF this] ph True show ?thesis
      unfolding Let_def at_rest_def by (intro exI [of _ sid] exI [of _ ses]) (simp add: phase_ok_def)
  next
    case False
    then have "\<not> cl_udp c" "wire_torn path port (cl_wire c)" using ok by (auto simp: session_ok_def)
    then show ?thesis using False unfolding Let_def wire_torn_def by (simp only: if_False) blast
  qed
qed

text \<open>One request and its response, when nothing goes wrong.\<close>

lemma exchange_run:
  assumes "\<not> cl_dead c" and "cl_tcp c" and "cl_op c = Some (Writing act s 0)" and "cl_ready c = None"
    and "rtsp_request (cl_rtsp c) = s" and "parse_head got (rtsp_session (cl_rtsp c)) = Inr (0, ses)"
  shows "(rtsp_step b64 port)\<^sup>*\<^sup>* c (on_success b64 port act got (c\<lparr>cl_op := None, cl_wire := cl_wire c @ s,
    cl_rtsp := (cl_rtsp c)\<lparr>rtsp_request := '''', rtsp_session := ses\<rparr>\<rparr>))"
proof -
  let ?S = "rtsp_step b64 port"
  let ?r = "(cl_rtsp c)\<lparr>rtsp_request := ''''\<rparr>"
  let ?c1 = "c\<lparr>cl_op := None, cl_ready := Some (Writing act s (length s), Finished ''''), cl_wire := cl_wire c @ s\<rparr>"
  let ?c2 = "?c1\<lparr>cl_ready := None, cl_rtsp := ?r, cl_op := Some (Reading act)\<rparr>"
  let ?c3 = "?c2\<lparr>cl_op := None, cl_ready := Some (Reading act, Finished got)\<rparr>"
  let ?c4 = "?c3\<lparr>cl_ready := None, cl_rtsp := ?r\<lparr>rtsp_session := ses\<rparr>\<rparr>"
  have 1: "?S c ?c1" using step_written [OF assms(1,3)] by simp
  have 2: "?S ?c1 ?c2"
    by (rule step_handler [of _ "Writing act s (length s)" "Finished ''''"])
      (use assms in \<open>simp_all add: on_ready_def consume_request_def start_op_def Let_def\<close>)
  have 3: "?S ?c2 ?c3" using step_read [of ?c2 act] assms by simp
  have 4: "?S ?c3 (on_success b64 port act got ?c4)"
    by (rule step_handler [of _ "Reading act" "Finished got"])
      (use assms in \<open>simp_all add: on_ready_def Let_def\<close>)
  have c4: "?c4 = c\<lparr>cl_op := None, cl_wire := cl_wire c @ s,
      cl_rtsp := (cl_rtsp c)\<lparr>rtsp_request := '''', rtsp_session := ses\<rparr>\<rparr>"
    using assms(4) by (intro client.equality) auto
  have "?S\<^sup>*\<^sup>* c (on_success b64 port act got ?c4)"
    using 1 2 3 4 by (meson converse_rtranclp_into_rtranclp rtranclp.rtrancl_refl)
  then show ?thesis unfolding c4 .
qed

text \<open>
  The handshake with a camera: three responses, the third with the session, lead to PLAY;
  a refused SETUP is followed by PLAY all the same.
\<close>

definition sample_setup_response :: string where
  "sample_setup_response = ''RTSP/1.0 404 Not Found'' @ crlf @ ''Session: 7'' @ crlf @ crlf"

lemma sample_head: "parse_head sample_setup_response '''' = Inr (0, ''7'')"
  "parse_head crlf '''' = Inr (0, '''')"
  by (code_simp)+

definition after_exchange :: "action \<Rightarrow> string \<Rightarrow> string \<Rightarrow> client \<Rightarrow> client" where
  "after_exchange act got ses c = on_success (\<lambda>s. []) 2000 act got (c\<lparr>cl_op := None,
     cl_wire := cl_wire c @ rtsp_request (cl_rtsp c), cl_rtsp := (cl_rtsp c)\<lparr>rtsp_request := '''', rtsp_session := ses\<rparr>\<rparr>)"

definition sample_connected :: client where
  "sample_connected = on_success (\<lambda>s. []) 2000 Connect '''' ((client_new ''/a'')\<lparr>cl_op := None, cl_connected := True\<rparr>)"

lemma sample_connected_run: "(rtsp_step (\<lambda>s. []) 2000)\<^sup>*\<^sup>* (client_new ''/a'') sample_connected"
proof -
  let ?c = "client_new ''/a''"
  let ?c1 = "?c\<lparr>cl_op := None, cl_ready := Some (Connecting, Finished ''''), cl_connected := True\<rparr>"
  have "rtsp_step (\<lambda>s. []) 2000 ?c ?c1" by (rule step_connected) (simp_all add: client_new_def)
  moreover have "rtsp_step (\<lambda>s. []) 2000 ?c1 sample_connected"
    by (rule step_handler [of _ Connecting "Finished ''''"])
      (simp_all add: client_new_def on_ready_def sample_connected_def)
  ultimately show ?thesis by (meson converse_rtranclp_into_rtranclp rtranclp.rtrancl_refl)
qed

definition writes :: "action \<Rightarrow> client \<Rightarrow> bool" where
  "writes act c \<longleftrightarrow> \<not> cl_dead c \<and> cl_tcp c \<and> cl_op c = Some (Writing act (rtsp_request (cl_rtsp c)) 0) \<and> cl_ready c = None"

lemma sample_exchange:
  assumes "(rtsp_step (\<lambda>s. []) 2000)\<^sup>*\<^sup>* c0 c" and "writes act c" and "parse_head got (rtsp_session (cl_rtsp c)) = Inr (0, ses)"
  shows "(rtsp_step (\<lambda>s. []) 2000)\<^sup>*\<^sup>* c0 (after_exchange act got ses c)"
  using assms(1,2) exchange_run [of c act "rtsp_request (cl_rtsp c)" got ses "\<lambda>s. []" 2000] assms(3)
  by (simp add: after_exchange_def writes_def)

lemma after_exchange_writes:
  assumes "writes act c" and "(act, act') \<in> {(Options, Describe), (Describe, Setup), (Setup, Play)}"
  shows "writes act' (after_exchange act got ses c)" "act \<noteq> Setup \<Longrightarrow> rtsp_session (cl_rtsp (after_exchange act got ses c)) = ses"
    "act = Setup \<Longrightarrow> cl_started (after_exchange act got ses c)"
  using assms by (auto simp: writes_def after_exchange_def on_success_def write_request_def start_op_def Let_def rtsp_describe_def
      rtsp_setup_def rtsp_play_def rtsp_send_def split: prod.split)

theorem requests_in_order_witness:
  "\<exists>c streamid session. (rtsp_step (\<lambda>s. []) 2000)\<^sup>*\<^sup>* (client_new ''/a'') c \<and> cl_tcp c \<and> \<not> cl_dead c \<and> cl_started c \<and>
    prefix (cl_wire c) (concat (session_script ''/a'' 2000 streamid session)) \<and>
    prefix (concat (take 3 (session_script ''/a'' 2000 streamid session))) (cl_wire c)"
proof -
  let ?c2 = "after_exchange Options crlf '''' sample_connected"
  let ?c3 = "after_exchange Describe crlf '''' ?c2"
  let ?c4 = "after_exchange Setup sample_setup_response ''7'' ?c3"
  have w1: "writes Options sample_connected" "rtsp_session (cl_rtsp sample_connected) = ''''" unfolding writes_def by code_simp+
  have w2: "writes Describe ?c2" "rtsp_session (cl_rtsp ?c2) = ''''" using after_exchange_writes [OF w1(1)] by simp_all
  have w3: "writes Setup ?c3" "rtsp_session (cl_rtsp ?c3) = ''''" using after_exchange_writes [OF w2(1)] by simp_all
  have w4: "writes Play ?c4" "cl_started ?c4" using after_exchange_writes [OF w3(1)] by simp_all
  have "(rtsp_step (\<lambda>s. []) 2000)\<^sup>*\<^sup>* (client_new ''/a'') ?c2"
    by (rule sample_exchange [OF sample_connected_run w1(1)]) (simp add: w1 sample_head)
  then have "(rtsp_step (\<lambda>s. []) 2000)\<^sup>*\<^sup>* (client_new ''/a'') ?c3"
    by (rule sample_exchange [OF _ w2(1)]) (simp add: w2 sample_head)
  then have run: "(rtsp_step (\<lambda>s. []) 2000)\<^sup>*\<^sup>* (client_new ''/a'') ?c4"
    by (rule sample_exchange [OF _ w3(1)]) (simp add: w3 sample_head)
  have "cl_tcp ?c4" "\<not> cl_dead ?c4" "cl_started ?c4" using w4 by (simp_all add: writes_def)
  note st = this
  obtain sid ses where "prefix (cl_wire ?c4) (concat (session_script ''/a'' 2000 sid ses)) \<and>
      prefix (concat (take 3 (session_script ''/a'' 2000 sid ses))) (cl_wire ?c4)"
    using requests_in_order [OF run] unfolding Let_def by (simp only: st simp_thms if_True) blast
  with run st show ?thesis by blast
qed

text \<open>
  a teardown that is posted between the end of a write and its handler, which is what
  empties \<open>request_\<close>, sends that request a second time in front of TEARDOWN.
\<close>

theorem teardown_repeats_request:
  assumes "(rtsp_step b64 port)\<^sup>*\<^sup>* (client_new path) c" and "cl_tcp c" and "cl_connected c" and "\<not> cl_dead c"
    and "cl_ready c = Some (Writing act s n, Finished x)"
  shows "\<exists>before. cl_wire c = before @ s \<and> s \<noteq> '''' \<and> rtsp_step b64 port c (client_teardown None c) \<and>
    cl_wire (client_teardown None c) = before @ s @ s @ teardown_text path (rtsp_cseq (cl_rtsp c)) (rtsp_session (cl_rtsp c))"
proof -
  have ok: "session_ok path port c" using session_run [OF assms(1) session_new] .
  then obtain sid ses where ph: "phase_ok (session_script path port sid ses) c" and p: "rtsp_path (cl_rtsp c) = path"
    using assms(2,4) by (auto simp: session_ok_def)
  let ?S = "session_script path port sid ses" and ?before = "concat (take (requests_out act - 1) (session_script path port sid ses))"
  have "cl_op c = None" using ph assms(5) by (auto simp: phase_ok_def)
  then have "at_write ?S act s n c" "n = length s" using ph assms(5) by (auto simp: phase_ok_def busy_def)
  then have w: "cl_wire c = ?before @ s" "rtsp_request (cl_rtsp c) = s" "act \<noteq> Connect" "s = ?S ! (requests_out act - 1)"
    by (auto simp: at_write_def)
  have ne: "s \<noteq> ''''" using w(3,4) by (cases act) (simp_all add: session_script_def numeral_eq_Suc)
  have "cl_wire (client_teardown None c) = cl_wire c @ s @ teardown_text path (rtsp_cseq (cl_rtsp c)) (rtsp_session (cl_rtsp c))"
    using w(2) p by (simp add: client_teardown_def rtsp_teardown_def rtsp_send_def request_line_def teardown_text_def)
  moreover have "rtsp_step b64 port c (client_teardown None c)"
    by (rule step_teardown) (use assms in \<open>simp_all add: can_write_def\<close>)
  ultimately show ?thesis using w(1) ne by (intro exI [of _ ?before]) simp
qed

theorem teardown_repeats_request_witness:
  "\<exists>c before s. (rtsp_step (\<lambda>s. []) 2000)\<^sup>*\<^sup>* (client_new ''/a'') c \<and>
    cl_wire c = before @ s \<and> s \<noteq> '''' \<and> rtsp_step (\<lambda>s. []) 2000 c (client_teardown None c) \<and>
    cl_wire (client_teardown None c) = before @ s @ s @ teardown_text ''/a'' 2 ''''"
proof -
  let ?s = "''OPTIONS /a RTSP/1.0'' @ crlf @ ''CSeq: 1'' @ crlf @ crlf"
  let ?c = "sample_connected\<lparr>cl_op := None, cl_ready := Some (Writing Options ?s (length ?s), Finished ''''),
    cl_wire := cl_wire sample_connected @ drop 0 ?s\<rparr>"
  have "cl_op sample_connected = Some (Writing Options ?s 0)" "\<not> cl_dead sample_connected" by code_simp+
  then have "rtsp_step (\<lambda>s. []) 2000 sample_connected ?c" by (intro step_written)
  then have run: "(rtsp_step (\<lambda>s. []) 2000)\<^sup>*\<^sup>* (client_new ''/a'') ?c"
    using sample_connected_run by (rule rtranclp.rtrancl_into_rtrancl [rotated])
  have st: "cl_tcp ?c" "cl_connected ?c" "\<not> cl_dead ?c" by code_simp+
  have r: "rtsp_cseq (cl_rtsp ?c) = 2" "rtsp_session (cl_rtsp ?c) = ''''" by code_simp+
  have "cl_ready ?c = Some (Writing Options ?s (length ?s), Finished '''')" by simp
  from teardown_repeats_request [OF run st this] show ?thesis using run unfolding r by blast
qed

end
