(* ===== verification/Push_Http.thy ===== *)
theory Push_Http
  imports Wap_Text Wap_Binary Std_Map
begin

section \<open>Requests and responses of the push proxy (apple\_push\_proxy.cpp)\<close>

text \<open>
  The HTTP side: request line, path and parameters, header lines, the content, the rendering
  of a response, and the binary message for the push gateway. The decoder of escaped text
  (\<open>urldecode\<close>), the JSON encoder, \<open>boost::lexical_cast\<close> and the clock are parameters.
  The regular expressions are written out as what they match.
\<close>

unbundle bit_operations_syntax

record push_env =
  urldecode :: "string \<Rightarrow> string"
  json_alert :: "string \<Rightarrow> string"
  lex_int :: "string \<Rightarrow> int option"
  push_now :: nat

subsection \<open>Key and value lists\<close>

type_synonym keyvalues = "(string \<times> string) list"

fun kv_find :: "keyvalues \<Rightarrow> string \<Rightarrow> string option" where
  "kv_find [] k = None"
| "kv_find ((a, v) # l) k = (if a = k then Some v else kv_find l k)"

definition kv_insert :: "string \<times> string \<Rightarrow> keyvalues \<Rightarrow> keyvalues" where
  "kv_insert kv l = l @ [kv]"

text \<open>\<open>get\<close> with one name throws, with a default it does not.\<close>

definition kv_get :: "keyvalues \<Rightarrow> string \<Rightarrow> string outcome" where
  "kv_get l k = (case kv_find l k of None \<Rightarrow> Inl (Thrown ''EN_HTTPParam_NotFound'') | Some v \<Rightarrow> Inr v)"

definition kv_get_or :: "keyvalues \<Rightarrow> string \<Rightarrow> string \<Rightarrow> string" where
  "kv_get_or l k defa = (case kv_find l k of None \<Rightarrow> defa | Some v \<Rightarrow> v)"

definition kv_exist :: "keyvalues \<Rightarrow> string \<Rightarrow> bool" where
  "kv_exist l k \<longleftrightarrow> kv_find l k \<noteq> None"

subsection \<open>Path and parameters\<close>

function param_loop :: "(string \<Rightarrow> string) \<Rightarrow> string \<Rightarrow> nat \<Rightarrow> nat \<Rightarrow> keyvalues \<Rightarrow> keyvalues" where
  "param_loop dec s b e params =
     (if e \<le> b then params
      else
        let b1 = b + 1; eop = find_in (CHR ''&'') s b1 e; i = find_in (CHR ''='') s b1 eop;
            params1 = (if i \<noteq> eop then kv_insert (dec (slice s b1 i), dec (slice s (i + 1) eop)) params else params)
        in param_loop dec s eop e params1)"
  by pat_completeness auto
termination
proof (relation "measure (\<lambda>(dec, s, b, e, params). e - b)", goal_cases)
  case (2 dec s b e params b1 eop i params1)
  have "b1 \<le> eop \<and> eop \<le> e"
    unfolding 2(3) by (rule find_in_bounds) (use 2(1,2) in simp)
  then show ?case using 2(1,2) unfolding in_measure prod.case by linarith
qed (rule wf_measure)

declare param_loop.simps [simp del]

text \<open>The path and the parameters; \<open>None\<close> for an empty path.\<close>

definition path_params :: "(string \<Rightarrow> string) \<Rightarrow> string \<Rightarrow> keyvalues \<Rightarrow> (string \<times> keyvalues) option" where
  "path_params dec fullpath params =
     (let i = (if fullpath ! 0 = CHR ''/'' then 1 else 0);
          e = find_in (CHR ''#'') fullpath i (length fullpath);
          b = find_in (CHR ''?'') fullpath i e
      in if b = i then None else Some (slice fullpath i b, param_loop dec fullpath b e params))"

subsection \<open>Requests\<close>

record hrequest =
  hr_method :: string
  hr_path :: string
  hr_params :: keyvalues
  hr_headers :: keyvalues
  hr_content :: string

definition hrequest_new :: hrequest where
  "hrequest_new = \<lparr>hr_method = '''', hr_path = '''', hr_params = [], hr_headers = [], hr_content = ''''\<rparr>"

text \<open>\<open>std::getline\<close> on the rest of the buffer: the line and what is left.\<close>

definition next_line :: "string \<Rightarrow> (string \<times> string) option" where
  "next_line s = (if s = [] then None
     else Some (takeWhile (\<lambda>c. c \<noteq> newline) s, drop 1 (dropWhile (\<lambda>c. c \<noteq> newline) s)))"

lemma next_line_shorter: "next_line s = Some (l, r) \<Longrightarrow> length r < length s"
  using length_dropWhile_le [of "\<lambda>c. c \<noteq> newline" s]
  by (cases s) (auto simp: next_line_def split: if_splits)

text \<open>The first line that is not blank.\<close>

function skip_blank :: "string \<Rightarrow> (string \<times> string) option" where
  "skip_blank s =
     (case next_line s of
        None \<Rightarrow> None
      | Some (l, r) \<Rightarrow> if list_all c_isspace l then skip_blank r else Some (l, r))"
  by pat_completeness auto
termination by (relation "measure length") (auto dest: next_line_shorter)

declare skip_blank.simps [simp del]

text \<open>\<open>^\s*(GET|POST)\s+([^\s]+)\s+(HTTP/1.[01])\s*$\<close>, where the dot is any character.\<close>

definition match_method_line :: "string \<Rightarrow> (string \<times> string) option" where
  "match_method_line line =
     (let a = dropWhile c_isspace line; m = takeWhile (\<lambda>c. \<not> c_isspace c) a;
          b = dropWhile c_isspace (drop (length m) a); p = takeWhile (\<lambda>c. \<not> c_isspace c) b;
          v = dropWhile c_isspace (drop (length p) b)
      in if m \<in> {''GET'', ''POST''} \<and> p \<noteq> [] \<and> take 6 v = ''HTTP/1'' \<and> 8 \<le> length v \<and>
            v ! 7 \<in> {CHR ''0'', CHR ''1''} \<and> list_all c_isspace (drop 8 v)
         then Some (m, p) else None)"

text \<open>
  The status line is taken from the buffer; what is left of the buffer is returned.
  \<open>make_error_code\<close> answers a code that says success, so no error of the parser is seen by
  its caller and only the changes remain.
\<close>

definition parse_status_line :: "push_env \<Rightarrow> string \<Rightarrow> hrequest \<Rightarrow> string \<times> hrequest" where
  "parse_status_line env buf r =
     (case skip_blank buf of
        None \<Rightarrow> ('''', r)
      | Some (line, rest) \<Rightarrow>
          (case match_method_line line of
             None \<Rightarrow> (rest, r)
           | Some (m, p) \<Rightarrow>
               let r1 = r\<lparr>hr_method := m\<rparr> in
               (case path_params (urldecode env) p (hr_params r1) of
                  None \<Rightarrow> (rest, r1)
                | Some (path, params) \<Rightarrow> (rest, r1\<lparr>hr_path := path, hr_params := params\<rparr>))))"

text \<open>\<open>^\s*([^:]+)\s*:\s*(.*?)\s*$\<close>: the name keeps the spaces before the colon.\<close>

definition match_header :: "string \<Rightarrow> (string \<times> string) option" where
  "match_header line =
     (let n = takeWhile (\<lambda>c. c \<noteq> CHR '':'') line;
          k = (case dropWhile c_isspace n of [] \<Rightarrow> drop (length n - 1) n | t \<Rightarrow> t);
          v = dropWhile c_isspace (drop (length n + 1) line)
      in if n = [] \<or> length n = length line then None
         else Some (k, rev (dropWhile c_isspace (rev v))))"

definition iequals :: "string \<Rightarrow> string \<Rightarrow> bool" where
  "iequals a b \<longleftrightarrow> map c_toupper a = map c_toupper b"

text \<open>\<open>content_.resize(lexical_cast<int>(val))\<close>; both calls may throw.\<close>

definition resize_content :: "push_env \<Rightarrow> string \<Rightarrow> string \<Rightarrow> string outcome" where
  "resize_content env val s =
     (case lex_int env val of
        None \<Rightarrow> Inl (Thrown ''bad_lexical_cast'')
      | Some n \<Rightarrow> if n < 0 then Inl (Thrown ''length_error'')
                  else Inr (take (nat n) s @ replicate (nat n - length s) (CHR 0x00)))"

definition parse_header_line :: "push_env \<Rightarrow> string \<Rightarrow> hrequest \<Rightarrow> hrequest outcome" where
  "parse_header_line env line r =
     (case match_header line of
        None \<Rightarrow> Inr r
      | Some (k, val) \<Rightarrow>
          bind_ok (if iequals k ''Content-Length'' then resize_content env val (hr_content r)
                   else Inr (hr_content r)) (\<lambda>c.
            Inr (r\<lparr>hr_content := c, hr_headers := kv_insert (k, val) (hr_headers r)\<rparr>)))"

function header_lines :: "push_env \<Rightarrow> string \<Rightarrow> hrequest \<Rightarrow> (string \<times> hrequest) outcome" where
  "header_lines env buf r =
     (case next_line buf of
        None \<Rightarrow> Inr ('''', r)
      | Some (l, rest) \<Rightarrow>
          if l = [] \<or> hd l = cret then Inr (rest, r)
          else (case parse_header_line env l r of Inl e \<Rightarrow> Inl e | Inr r1 \<Rightarrow> header_lines env rest r1))"
  by pat_completeness auto
termination by (relation "measure (\<lambda>(env, buf, r). length buf)") (auto dest: next_line_shorter)

declare header_lines.simps [simp del]

text \<open>\<open>content(sbuf)\<close>: as many bytes as the content is long, as far as there are that many.\<close>

definition take_content :: "string \<Rightarrow> hrequest \<Rightarrow> string \<times> hrequest" where
  "take_content buf r =
     (let n = min (length (hr_content r)) (length buf)
      in (drop n buf, r\<lparr>hr_content := take n buf @ drop n (hr_content r)\<rparr>))"

subsection \<open>Responses\<close>

record hresponse =
  hs_status :: int
  hs_headers :: keyvalues
  hs_content :: string

fun rsp_header :: "string \<Rightarrow> string \<Rightarrow> keyvalues \<Rightarrow> keyvalues" where
  "rsp_header k v [] = [(k, v)]"
| "rsp_header k v ((a, w) # l) = (if a = k then (a, v) # l else (a, w) # rsp_header k v l)"

definition hresponse_new :: "int \<Rightarrow> hresponse" where
  "hresponse_new status = \<lparr>hs_status = status,
     hs_headers = rsp_header ''Content-Type'' ''text/plain;charset=UTF-8'' [], hs_content = ''''\<rparr>"

definition code_str :: "int \<Rightarrow> string" where
  "code_str code =
     (case map_of [(200, ''OK''), (400, ''Bad Request''), (401, ''Unauthorized''), (403, ''Forbidden''),
         (404, ''Not Found''), (500, ''Internal Server Error'')] code of Some s \<Rightarrow> s | None \<Rightarrow> ''Unknown'')"

definition encode_header :: "hresponse \<Rightarrow> string" where
  "encode_header r = ''HTTP/1.1 '' @ show_int (hs_status r) @ '' '' @ code_str (hs_status r) @ crlf @
     concat (map (\<lambda>(k, v). k @ '': '' @ v @ crlf) (hs_headers r)) @
     ''Content-Length: '' @ show_nat (length (hs_content r)) @ crlf"

definition encode :: "hresponse \<Rightarrow> string" where
  "encode r = encode_header r @ crlf @ hs_content r"

subsection \<open>The message for the gateway\<close>

text \<open>\<open>pint\<close>: the low \<open>k\<close> bytes of a number, the highest first.\<close>

fun pint :: "nat \<Rightarrow> nat \<Rightarrow> string" where
  "pint 0 n = []"
| "pint (Suc k) n = pint k (n div 256) @ [char_of (n mod 256)]"

text \<open>\<open>pdata\<close> gets the length as a \<open>uint16_t\<close> and copies that many bytes.\<close>

definition pdata :: "string \<Rightarrow> string" where
  "pdata d = (let n = length d mod 65536 in pint 2 n @ take n d)"

definition apack :: "push_env \<Rightarrow> string \<Rightarrow> string \<Rightarrow> string outcome" where
  "apack env tok aps =
     (if length tok \<noteq> 32 then Inl Assertion
      else
        let len = 1 + 2 * 4 + 2 * 2 + length tok + length aps;
            m = pint 1 1 @ pint 4 1234 @ pint 4 (push_now env + 86400) @ pdata tok @ pdata aps
        in Inr (m @ replicate (len - length m) (CHR 0x00)))"

text \<open>
  A hexadecimal digit is taken for its distance from \<open>'0'\<close> or from \<open>'a'\<close>, without the ten
  the letters stand for. \<open>char\<close> is signed; shifts are done on \<open>int\<close> and cut to a byte.
\<close>

definition schar :: "char \<Rightarrow> int" where
  "schar c = (let n = of_char c in if n < 128 then n else n - 256)"

definition hexdigit :: "char \<Rightarrow> int" where
  "hexdigit c = (let h = schar c - (if schar c \<le> 57 then 48 else 97) in (h + 128) mod 256 - 128)"

fun unhex :: "string \<Rightarrow> string" where
  "unhex (h # l # s) = char_of (hexdigit h * 16 OR hexdigit l) # unhex s"
| "unhex _ = []"

definition on_REQUEST :: "push_env \<Rightarrow> hrequest \<Rightarrow> string outcome" where
  "on_REQUEST env m =
     bind_ok (kv_get (hr_params m) ''devtok'') (\<lambda>tok.
     bind_ok (kv_get (hr_params m) ''message'') (\<lambda>msg.
     apack env (unhex tok) (json_alert env msg)))"

subsection \<open>Header names of a response\<close>

text \<open>The headers of a response are a store by name: a second value replaces the first.\<close>

definition names_once :: "keyvalues \<Rightarrow> bool" where
  "names_once l \<longleftrightarrow> distinct (map fst l)"

lemma rsp_header_names: "fst ` set (rsp_header k v l) = insert k (fst ` set l)"
  by (induction k v l rule: rsp_header.induct) auto

lemma names_once_header: "names_once l \<Longrightarrow> names_once (rsp_header k v l)"
proof (induction k v l rule: rsp_header.induct)
  case (2 k v a w l)
  then show ?case using rsp_header_names [of k v l] by (auto simp: names_once_def)
qed (simp add: names_once_def)

lemma kv_find_header: "kv_find (rsp_header k v l) k' = (if k' = k then Some v else kv_find l k')"
  by (induction k v l rule: rsp_header.induct) auto

interpretation rsp_headers: kv_store names_once kv_find rsp_header
  by unfold_locales (auto simp: names_once_header kv_find_header)

subsection \<open>Parameters stay\<close>

lemma kv_find_append: "kv_find (l @ m) k = (case kv_find l k of Some v \<Rightarrow> Some v | None \<Rightarrow> kv_find m k)"
  by (induction l k rule: kv_find.induct) auto

lemma param_loop_extends: "\<exists>new. param_loop dec s b e params = params @ new"
proof (induction dec s b e params rule: param_loop.induct)
  case (1 dec s b e params)
  show ?case
  proof (cases "e \<le> b")
    case False
    define eop where "eop = find_in (CHR ''&'') s (b + 1) e"
    define i where "i = find_in (CHR ''='') s (b + 1) eop"
    have "param_loop dec s b e params = param_loop dec s eop e (if i \<noteq> eop
        then kv_insert (dec (slice s (b + 1) i), dec (slice s (i + 1) eop)) params else params)"
      using False by (subst param_loop.simps) (simp add: eop_def i_def Let_def)
    moreover obtain new where "param_loop dec s eop e (if i \<noteq> eop
        then kv_insert (dec (slice s (b + 1) i), dec (slice s (i + 1) eop)) params else params) =
        (if i \<noteq> eop then kv_insert (dec (slice s (b + 1) i), dec (slice s (i + 1) eop)) params else params) @ new"
      using 1 [OF False refl eop_def i_def refl] by blast
    ultimately show ?thesis by (simp add: kv_insert_def split: if_splits)
  qed (simp add: param_loop.simps)
qed

lemma path_params_extends: "path_params dec p params = Some (path, params') \<Longrightarrow> \<exists>new. params' = params @ new"
  using param_loop_extends by (auto simp: path_params_def Let_def split: if_splits)

lemma status_line_extends: "\<exists>new. hr_params (snd (parse_status_line env buf r)) = hr_params r @ new"
  using path_params_extends by (auto simp: parse_status_line_def Let_def split: option.splits)

lemma header_lines_params: "header_lines env buf r = Inr (rest, r') \<Longrightarrow> hr_params r' = hr_params r"
proof (induction env buf r rule: header_lines.induct)
  case (1 env buf r)
  have "parse_header_line env l r = Inr r1 \<Longrightarrow> hr_params r1 = hr_params r" for l r1
    by (auto simp: parse_header_line_def split: option.splits if_splits)
  then show ?case using 1
    by (subst (asm) (2) header_lines.simps) (fastforce split: option.splits if_splits sum.splits)
qed

text \<open>One request as \<open>connection\<close> reads it: status line, header lines, content.\<close>

definition next_request :: "push_env \<Rightarrow> string \<Rightarrow> string \<Rightarrow> string \<Rightarrow> hrequest \<Rightarrow> hrequest outcome" where
  "next_request env line head later r =
     bind_ok (header_lines env (fst (parse_status_line env line r) @ head) (snd (parse_status_line env line r))) (\<lambda>(rest, r1).
       Inr (snd (take_content (rest @ later) r1)))"

text \<open>
  C23: parameters are never forgotten on a connection that is kept: \<open>params\<close> is only appended
  to and looked up from the front. So once a request had a device and a message, every further
  request on the connection, whatever its first line says (and also when that line is no
  request at all), sends the first message to the first device again.
\<close>

theorem keep_alive_repeats_first:
  assumes "kv_exist (hr_params r) ''devtok''" and "kv_exist (hr_params r) ''message''"
    and "next_request env line head later r = Inr r'"
  shows "on_REQUEST env' r' = on_REQUEST env' r"
proof -
  obtain new where "hr_params (snd (parse_status_line env line r)) = hr_params r @ new"
    using status_line_extends by blast
  then have "hr_params r' = hr_params r @ new"
    using assms(3) header_lines_params
    by (fastforce simp: next_request_def take_content_def Let_def)
  then show ?thesis using assms(1,2)
    by (auto simp: on_REQUEST_def kv_get_def kv_exist_def kv_find_append)
qed

definition demo_push :: push_env where
  "demo_push = \<lparr>urldecode = (\<lambda>s. s), json_alert = (\<lambda>s. s), lex_int = (\<lambda>s. Some (int (digits_val 0 s))), push_now = 1000\<rparr>"

definition demo_request :: hrequest where
  "demo_request = hrequest_new\<lparr>hr_params := [(''devtok'', replicate 64 (CHR ''1'')), (''message'', ''hello'')]\<rparr>"

theorem keep_alive_repeats_first_witness:
  "\<exists>r'. next_request demo_push (''POST /push?devtok=2&message=bye HTTP/1.1'' @ crlf) crlf [] demo_request = Inr r' \<and>
    hr_params r' \<noteq> hr_params demo_request \<and> on_REQUEST demo_push r' = on_REQUEST demo_push demo_request"
proof -
  have "case next_request demo_push (''POST /push?devtok=2&message=bye HTTP/1.1'' @ crlf) crlf [] demo_request of
      Inl e \<Rightarrow> False | Inr r' \<Rightarrow> hr_params r' \<noteq> hr_params demo_request" by code_simp
  then obtain r' where r: "next_request demo_push (''POST /push?devtok=2&message=bye HTTP/1.1'' @ crlf) crlf [] demo_request = Inr r'"
    "hr_params r' \<noteq> hr_params demo_request" by (auto split: sum.splits)
  moreover have "kv_exist (hr_params demo_request) ''devtok''" "kv_exist (hr_params demo_request) ''message''" by code_simp+
  ultimately show ?thesis using keep_alive_repeats_first by blast
qed

subsection \<open>The message of the gateway\<close>

lemma be_val_snoc: "be_val (a @ [c]) = be_val a * 256 + of_char c"
  by (induction a) (auto simp: algebra_simps)

lemma of_char_of_nat: "(of_char (char_of n :: char) :: int) = int (n mod 256)" for n :: nat
proof -
  have "(of_char (char_of n :: char) :: int) = of_nat (of_char (char_of n :: char))"
    by (rule of_nat_of_char [symmetric])
  then show ?thesis by (simp only: of_char_of)
qed

lemma be_val_pint: "be_val (pint k n) = int (n mod 256 ^ k)"
proof (induction k arbitrary: n)
  case (Suc k)
  have "n mod 256 ^ Suc k = 256 * (n div 256 mod 256 ^ k) + n mod 256"
    using mod_mult2_eq [of n 256 "256 ^ k"] by simp
  then show ?case using Suc by (simp add: be_val_snoc of_char_of_nat zmod_int)
qed simp

lemma length_pint [simp]: "length (pint k n) = k"
  by (induction k arbitrary: n) auto

text \<open>The layout the gateway reads: command, id, expiry, device token, payload.\<close>

definition read_push :: "string \<Rightarrow> int \<times> int \<times> int \<times> string \<times> string" where
  "read_push m =
     (let tl = nat (be_val (take 2 (drop 9 m))); p = drop (11 + tl) m; pl = nat (be_val (take 2 p))
      in (be_val (take 1 m), be_val (take 4 (drop 1 m)), be_val (take 4 (drop 5 m)), take tl (drop 11 m),
          take pl (drop 2 p)))"

text \<open>
  the gateway reads back what \<open>apack\<close> packed, the device token and the payload with
  their lengths, except that a payload of 65536 bytes or more is cut to its length modulo
  65536 and followed by zeros.
\<close>

theorem gateway_reads_message:
  assumes "apack env tok aps = Inr m"
  shows "read_push m = (1, 1234, int ((push_now env + 86400) mod 4294967296), tok, take (length aps mod 65536) aps) \<and>
    length m = 45 + length aps"
proof -
  let ?n = "length aps mod 65536"
  let ?z = "replicate (length aps - ?n) (CHR 0x00)"
  have t: "length tok = 32" using assms by (simp add: apack_def split: if_splits)
  have n: "?n \<le> length aps" by simp
  have m: "m = pint 1 1 @ pint 4 1234 @ pint 4 (push_now env + 86400) @ pint 2 32 @ tok @ pint 2 ?n @ take ?n aps @ ?z"
    using assms t n by (simp add: apack_def pdata_def Let_def min_absorb2)
  have d: "drop 1 m = pint 4 1234 @ pint 4 (push_now env + 86400) @ pint 2 32 @ tok @ pint 2 ?n @ take ?n aps @ ?z"
    "drop 5 m = pint 4 (push_now env + 86400) @ pint 2 32 @ tok @ pint 2 ?n @ take ?n aps @ ?z"
    "drop 9 m = pint 2 32 @ tok @ pint 2 ?n @ take ?n aps @ ?z"
    "drop 11 m = tok @ pint 2 ?n @ take ?n aps @ ?z"
    "drop (11 + 32) m = pint 2 ?n @ take ?n aps @ ?z"
    unfolding m using t by (simp_all del: pint.simps)
  have v: "be_val (pint 2 32) = 32" "be_val (pint 2 ?n) = int ?n" "be_val (pint 1 1) = 1" "be_val (pint 4 1234) = 1234"
    unfolding be_val_pint by simp_all
  show ?thesis
    unfolding read_push_def Let_def d
    using t n by (simp add: v del: pint.simps) (simp add: m be_val_pint del: pint.simps)
qed

theorem gateway_reads_message_witness:
  "\<exists>m. apack demo_push (replicate 32 (CHR ''t'')) ''hello'' = Inr m \<and>
    read_push m = (1, 1234, 87400, replicate 32 (CHR ''t''), ''hello'') \<and> length m = 50"
proof -
  have "case apack demo_push (replicate 32 (CHR ''t'')) ''hello'' of Inl e \<Rightarrow> False | Inr m \<Rightarrow> True"
    by (simp add: apack_def)
  then obtain m where m: "apack demo_push (replicate 32 (CHR ''t'')) ''hello'' = Inr m"
    by (auto split: sum.splits)
  show ?thesis using m gateway_reads_message [OF m] by (simp add: demo_push_def)
qed

subsection \<open>Hexadecimal tokens\<close>

definition hex_char :: "char \<Rightarrow> bool" where
  "hex_char c \<longleftrightarrow> c \<in> set ''0123456789abcdef''"

definition hex_value :: "char \<Rightarrow> nat" where
  "hex_value c = (if c_isdigit c then of_char c - 48 else of_char c - 87)"

text \<open>The decoding meant.\<close>

fun hex_decode :: "string \<Rightarrow> string" where
  "hex_decode (h # l # s) = char_of (16 * hex_value h + hex_value l) # hex_decode s"
| "hex_decode _ = []"

lemma hex_char_values:
  assumes "hex_char c"
  shows "\<exists>n \<le> 9. hexdigit c = int n \<and> hex_value c = n + (if c_isdigit c then 0 else 10) \<and> hex_value c \<le> 15"
proof -
  have "list_all (\<lambda>c. 0 \<le> hexdigit c \<and> hexdigit c \<le> 9 \<and> hex_value c = nat (hexdigit c) + (if c_isdigit c then 0 else 10) \<and> hex_value c \<le> 15)
      ''0123456789abcdef''" by code_simp
  then have "0 \<le> hexdigit c" "hexdigit c \<le> 9" "hex_value c = nat (hexdigit c) + (if c_isdigit c then 0 else 10)" "hex_value c \<le> 15"
    using assms unfolding hex_char_def list_all_iff by blast+
  then show ?thesis by (intro exI [of _ "nat (hexdigit c)"] conjI) simp_all
qed

lemma nibbles_or:
  assumes "n \<le> 9" and "m \<le> 9"
  shows "int n * 16 OR int m = int (16 * n + m)"
proof -
  have "list_all (\<lambda>n. list_all (\<lambda>m. n * 16 OR m = 16 * n + m) [0, 1, 2, 3, 4, 5, 6, 7, 8, 9])
      [0, 1, 2, 3, 4, 5, 6, 7, 8, 9 :: int]" by simp
  moreover have "int k \<in> set [0, 1, 2, 3, 4, 5, 6, 7, 8, 9 :: int]" if "k \<le> 9" for k using that by auto
  ultimately have "int n * 16 OR int m = 16 * int n + int m"
    using assms unfolding list_all_iff by blast
  then show ?thesis by simp
qed

lemma hex_pair:
  assumes "hex_char h" and "hex_char l"
  shows "char_of (hexdigit h * 16 OR hexdigit l) = (char_of (16 * hex_value h + hex_value l) :: char) \<longleftrightarrow>
    c_isdigit h \<and> c_isdigit l"
proof -
  obtain n m where n: "n \<le> 9" "hexdigit h = int n" "hex_value h = n + (if c_isdigit h then 0 else 10)" "hex_value h \<le> 15"
    and m: "m \<le> 9" "hexdigit l = int m" "hex_value l = m + (if c_isdigit l then 0 else 10)" "hex_value l \<le> 15"
    using assms [THEN hex_char_values] by blast
  have "char_of (int (16 * n + m)) = (char_of (16 * hex_value h + hex_value l) :: char) \<longleftrightarrow>
      (of_char (char_of (int (16 * n + m)) :: char) :: int) = of_char (char_of (16 * hex_value h + hex_value l) :: char)"
    by (rule of_char_eq_iff [symmetric])
  also have "\<dots> \<longleftrightarrow> (16 * n + m) mod 256 = (16 * hex_value h + hex_value l) mod 256"
  proof -
    have "int (16 * n + m) mod 256 = int ((16 * n + m) mod 256)" by (simp add: zmod_int)
    then show ?thesis by (simp only: of_char_of_nat of_char_of of_nat_eq_iff)
  qed
  also have "\<dots> \<longleftrightarrow> 16 * n + m = 16 * hex_value h + hex_value l" using n(1,4) m(1,4) by simp
  also have "\<dots> \<longleftrightarrow> c_isdigit h \<and> c_isdigit l" using n(3) m(3) by simp
  finally show ?thesis unfolding n(2) m(2) nibbles_or [OF n(1) m(1)] .
qed

text \<open>
  C36: \<open>unhex\<close> decodes a token of lower case hexadecimal digits as meant exactly when no
  letter is among them: a letter counts ten too little, so the message goes to another device.
\<close>

theorem unhex_right_iff_digits:
  assumes "list_all hex_char s" and "even (length s)"
  shows "unhex s = hex_decode s \<longleftrightarrow> list_all c_isdigit s"
  using assms
proof (induction s rule: unhex.induct)
  case (1 h l s)
  then show ?case using hex_pair [of h l] by auto
qed auto

theorem unhex_right_iff_digits_witness:
  "unhex ''12'' = hex_decode ''12'' \<and> unhex ''a0'' \<noteq> hex_decode ''a0''"
proof -
  have "list_all hex_char ''12''" "even (length ''12'')" "list_all c_isdigit ''12''"
    "list_all hex_char ''a0''" "even (length ''a0'')" "\<not> list_all c_isdigit ''a0''" by code_simp+
  then show ?thesis using unhex_right_iff_digits [of "''12''"] unhex_right_iff_digits [of "''a0''"] by blast
qed

subsection \<open>A request as a client writes it\<close>

lemma find_in_stop:
  "c \<notin> set x \<Longrightarrow> find_in c (u @ x @ y) (length u) (length u + length x) = length u + length x"
proof (induction x arbitrary: u)
  case Nil
  then show ?case by (subst find_in.simps) simp
next
  case (Cons a x)
  have "find_in c ((u @ [a]) @ x @ y) (length (u @ [a])) (length (u @ [a]) + length x) = length (u @ [a]) + length x"
    by (rule Cons.IH) (use Cons.prems in simp)
  then show ?case using Cons.prems by (subst find_in.simps) auto
qed

lemma find_in_hit:
  "c \<notin> set x \<Longrightarrow> length u + length x < e \<Longrightarrow> find_in c (u @ x @ c # y) (length u) e = length u + length x"
proof (induction x arbitrary: u)
  case Nil
  then show ?case by (subst find_in.simps) simp
next
  case (Cons a x)
  have "find_in c ((u @ [a]) @ x @ c # y) (length (u @ [a])) e = length (u @ [a]) + length x"
    by (rule Cons.IH) (use Cons.prems in simp_all)
  then show ?case using Cons.prems by (subst find_in.simps) auto
qed

lemma slice_mid: "slice (u @ x @ y) (length u) (length u + length x) = x"
  by (simp add: slice_def)

fun query :: "keyvalues \<Rightarrow> string" where
  "query [] = []"
| "query [(k, v)] = k @ ''='' @ v"
| "query ((k, v) # p # ps) = k @ ''='' @ v @ ''&'' @ query (p # ps)"

text \<open>Text without a character that means something in the request line.\<close>

definition url_plain :: "string \<Rightarrow> bool" where
  "url_plain s \<longleftrightarrow> list_all (\<lambda>c. \<not> c_isspace c \<and> c \<notin> set ''?#&='') s"

definition url_params :: "keyvalues \<Rightarrow> bool" where
  "url_params ps \<longleftrightarrow> list_all (\<lambda>(k, v). url_plain k \<and> url_plain v) ps"

lemma plain_notin: "url_plain s \<Longrightarrow> CHR ''?'' \<notin> set s \<and> CHR ''#'' \<notin> set s \<and> CHR ''&'' \<notin> set s \<and> CHR ''='' \<notin> set s"
  by (auto simp: url_plain_def list_all_iff)

lemma param_loop_query:
  "ps \<noteq> [] \<Longrightarrow> url_params ps \<Longrightarrow>
    param_loop dec (u @ c # query ps) (length u) (length u + 1 + length (query ps)) acc =
    acc @ map (\<lambda>(k, v). (dec k, dec v)) ps"
proof (induction ps arbitrary: u c acc rule: query.induct)
  case (2 k v)
  let ?u = "u @ [c]"
  let ?s = "u @ c # query [(k, v)]" and ?e = "length u + 1 + length (query [(k, v)])"
  have n: "CHR ''&'' \<notin> set (k @ ''='' @ v)" "CHR ''='' \<notin> set k"
    using 2 plain_notin [of k] plain_notin [of v] by (auto simp: url_params_def)
  have "find_in (CHR ''&'') (?u @ (k @ ''='' @ v) @ []) (length ?u) (length ?u + length (k @ ''='' @ v)) =
      length ?u + length (k @ ''='' @ v)" by (rule find_in_stop) (rule n)
  then have eop: "find_in (CHR ''&'') ?s (length u + 1) ?e = ?e" by simp
  have "find_in (CHR ''='') (?u @ k @ CHR ''='' # v) (length ?u) ?e = length ?u + length k"
    by (rule find_in_hit) (use n in simp_all)
  then have i: "find_in (CHR ''='') ?s (length u + 1) ?e = length u + 1 + length k" by simp
  have "slice (?u @ k @ (''='' @ v)) (length ?u) (length ?u + length k) = k" by (rule slice_mid)
  then have sk: "slice ?s (length u + 1) (length u + 1 + length k) = k" by simp
  have "slice ((?u @ k @ ''='') @ v @ []) (length (?u @ k @ ''='')) (length (?u @ k @ ''='') + length v) = v"
    by (rule slice_mid)
  then have sv: "slice ?s (length u + 1 + length k + 1) ?e = v" by (simp add: add_ac)
  have "param_loop dec ?s ?e ?e a = a" for a by (simp add: param_loop.simps)
  then show ?case by (subst param_loop.simps) (simp only: Let_def eop i sk sv, simp add: kv_insert_def)
next
  case (3 k v p ps)
  let ?u = "u @ [c]" and ?q = "query (p # ps)"
  let ?s = "u @ c # query ((k, v) # p # ps)" and ?e = "length u + 1 + length (query ((k, v) # p # ps))"
  let ?eop = "length u + 1 + length k + 1 + length v"
  have n: "CHR ''&'' \<notin> set (k @ ''='' @ v)" "CHR ''='' \<notin> set k"
    using 3(3) plain_notin [of k] plain_notin [of v] by (auto simp: url_params_def)
  have "find_in (CHR ''&'') (?u @ (k @ ''='' @ v) @ CHR ''&'' # ?q) (length ?u) ?e = length ?u + length (k @ ''='' @ v)"
    by (rule find_in_hit) (use n in simp_all)
  then have eop: "find_in (CHR ''&'') ?s (length u + 1) ?e = ?eop" by simp
  have "find_in (CHR ''='') (?u @ k @ CHR ''='' # (v @ ''&'' @ ?q)) (length ?u) ?eop = length ?u + length k"
    by (rule find_in_hit) (use n in simp_all)
  then have i: "find_in (CHR ''='') ?s (length u + 1) ?eop = length u + 1 + length k" by simp
  have "slice (?u @ k @ (''='' @ v @ ''&'' @ ?q)) (length ?u) (length ?u + length k) = k" by (rule slice_mid)
  then have sk: "slice ?s (length u + 1) (length u + 1 + length k) = k" by simp
  have "slice ((?u @ k @ ''='') @ v @ (''&'' @ ?q)) (length (?u @ k @ ''='')) (length (?u @ k @ ''='') + length v) = v"
    by (rule slice_mid)
  then have sv: "slice ?s (length u + 1 + length k + 1) ?eop = v" by (simp add: add_ac)
  let ?u2 = "u @ c # k @ ''='' @ v"
  have "param_loop dec (?u2 @ CHR ''&'' # ?q) (length ?u2) (length ?u2 + 1 + length ?q) (acc @ [(dec k, dec v)]) =
      (acc @ [(dec k, dec v)]) @ map (\<lambda>(k, v). (dec k, dec v)) (p # ps)"
    by (rule 3(1)) (use 3(3) in \<open>simp_all add: url_params_def\<close>)
  then have "param_loop dec ?s ?eop ?e (acc @ [(dec k, dec v)]) = acc @ map (\<lambda>(k, v). (dec k, dec v)) ((k, v) # p # ps)"
    by (simp add: add_ac)
  moreover have "\<not> ?e \<le> length u" by simp
  moreover have "length u + 1 + length k \<noteq> ?eop" by simp
  ultimately show ?case
    by (subst param_loop.simps) (simp only: Let_def eop i sk sv kv_insert_def if_False if_True not_False_eq_True)
qed simp

text \<open>The request line of a client, and the header lines with the length of the body.\<close>

definition push_line :: "string \<Rightarrow> keyvalues \<Rightarrow> string" where
  "push_line path ps = ''POST /'' @ path @ ''?'' @ query ps @ '' HTTP/1.1'' @ crlf"

definition push_head :: "nat \<Rightarrow> string" where
  "push_head n = ''Content-Length: '' @ show_nat n @ crlf @ crlf"

definition url_char :: "char \<Rightarrow> bool" where
  "url_char c \<longleftrightarrow> \<not> c_isspace c \<and> c \<noteq> CHR ''?'' \<and> c \<noteq> CHR ''#''"

lemma plain_url: "url_plain s \<Longrightarrow> list_all url_char s"
  by (simp add: url_plain_def url_char_def list_all_iff)

lemma url_separators: "url_char (CHR ''='')" "url_char (CHR ''&'')"
  by code_simp+

lemma plain_query: "url_params ps \<Longrightarrow> list_all url_char (query ps)"
  by (induction ps rule: query.induct) (simp_all add: url_params_def plain_url url_separators)

lemma takeWhile_all_append: "list_all P x \<Longrightarrow> takeWhile P (x @ y) = x @ takeWhile P y"
  by (simp add: list_all_iff)

lemma next_line_append: "newline \<notin> set l \<Longrightarrow> next_line (l @ newline # r) = Some (l, r)"
  by (auto simp: next_line_def takeWhile_append dropWhile_append)

lemma match_method_lineI:
  assumes "dropWhile c_isspace line = a" "takeWhile (\<lambda>c. \<not> c_isspace c) a = m"
    and "dropWhile c_isspace (drop (length m) a) = b" "takeWhile (\<lambda>c. \<not> c_isspace c) b = p"
    and "dropWhile c_isspace (drop (length p) b) = v"
    and "m \<in> {''GET'', ''POST''}" "p \<noteq> []" "take 6 v = ''HTTP/1''" "8 \<le> length v"
      "v ! 7 \<in> {CHR ''0'', CHR ''1''}" "list_all c_isspace (drop 8 v)"
  shows "match_method_line line = Some (m, p)"
  unfolding match_method_line_def Let_def assms(1-5) using assms(6-) by simp

lemma match_push_line:
  assumes "url_plain path" and "url_params ps" and "ps \<noteq> []"
  shows "match_method_line (''POST /'' @ path @ ''?'' @ query ps @ '' HTTP/1.1'' @ [cret]) =
    Some (''POST'', ''/'' @ path @ ''?'' @ query ps)"
proof -
  let ?p = "''/'' @ path @ ''?'' @ query ps"
  have "list_all (\<lambda>c. \<not> c_isspace c) s" if "list_all url_char s" for s
    using that by (simp add: list_all_iff url_char_def)
  then have "list_all (\<lambda>c. \<not> c_isspace c) path" "list_all (\<lambda>c. \<not> c_isspace c) (query ps)"
    using plain_url [OF assms(1)] plain_query [OF assms(2)] by blast+
  moreover have "\<not> c_isspace (CHR ''/'')" "\<not> c_isspace (CHR ''?'')" by code_simp+
  ultimately have "list_all (\<lambda>c. \<not> c_isspace c) ?p" by simp
  then have "takeWhile (\<lambda>c. \<not> c_isspace c) (?p @ '' HTTP/1.1'' @ [cret]) = ?p @ takeWhile (\<lambda>c. \<not> c_isspace c) ('' HTTP/1.1'' @ [cret])"
    by (rule takeWhile_all_append)
  then have p: "takeWhile (\<lambda>c. \<not> c_isspace c) (?p @ '' HTTP/1.1'' @ [cret]) = ?p" by (simp add: c_isspace_def)
  have "match_method_line (''POST '' @ ?p @ '' HTTP/1.1'' @ [cret]) = Some (''POST'', ?p)"
  proof (rule match_method_lineI [OF _ _ _ p])
    show "dropWhile c_isspace (''POST '' @ ?p @ '' HTTP/1.1'' @ [cret]) = ''POST '' @ ?p @ '' HTTP/1.1'' @ [cret]"
      and "takeWhile (\<lambda>c. \<not> c_isspace c) (''POST '' @ ?p @ '' HTTP/1.1'' @ [cret]) = ''POST''"
      and "dropWhile c_isspace (drop (length ''POST'') (''POST '' @ ?p @ '' HTTP/1.1'' @ [cret])) = ?p @ '' HTTP/1.1'' @ [cret]"
      and "dropWhile c_isspace (drop (length ?p) (?p @ '' HTTP/1.1'' @ [cret])) = ''HTTP/1.1'' @ [cret]"
      by (simp_all add: c_isspace_def)
    show "take 6 (''HTTP/1.1'' @ [cret]) = ''HTTP/1''" "8 \<le> length (''HTTP/1.1'' @ [cret])"
      "(''HTTP/1.1'' @ [cret]) ! 7 \<in> {CHR ''0'', CHR ''1''}" "list_all c_isspace (drop 8 (''HTTP/1.1'' @ [cret]))"
      by code_simp+
  qed simp_all
  then show ?thesis by simp
qed

lemma path_params_query:
  assumes "url_plain path" and "path \<noteq> []" and "url_params ps" and "ps \<noteq> []"
  shows "path_params dec (''/'' @ path @ ''?'' @ query ps) acc =
    Some (path, acc @ map (\<lambda>(k, v). (dec k, dec v)) ps)"
proof -
  let ?f = "''/'' @ path @ ''?'' @ query ps"
  have h: "CHR ''#'' \<notin> set (path @ ''?'' @ query ps)"
    using plain_url [OF assms(1)] plain_query [OF assms(3)] by (auto simp: url_char_def list_all_iff)
  have q: "CHR ''?'' \<notin> set path" using plain_notin [OF assms(1)] by simp
  have "find_in (CHR ''#'') (''/'' @ (path @ ''?'' @ query ps) @ []) (length ''/'') (length ''/'' + length (path @ ''?'' @ query ps)) =
      length ''/'' + length (path @ ''?'' @ query ps)" by (rule find_in_stop) (rule h)
  then have e: "find_in (CHR ''#'') ?f 1 (length ?f) = length ?f" by simp
  have "find_in (CHR ''?'') (''/'' @ path @ CHR ''?'' # query ps) (length ''/'') (length ?f) = length ''/'' + length path"
    by (rule find_in_hit) (use q in simp_all)
  then have b: "find_in (CHR ''?'') ?f 1 (length ?f) = 1 + length path" by simp
  have "slice (''/'' @ path @ (''?'' @ query ps)) (length ''/'') (length ''/'' + length path) = path" by (rule slice_mid)
  then have s: "slice ?f 1 (1 + length path) = path" by simp
  have "param_loop dec ((''/'' @ path) @ CHR ''?'' # query ps) (length (''/'' @ path)) (length (''/'' @ path) + 1 + length (query ps)) acc =
      acc @ map (\<lambda>(k, v). (dec k, dec v)) ps" by (rule param_loop_query) (use assms in simp_all)
  then have l: "param_loop dec ?f (1 + length path) (length ?f) acc = acc @ map (\<lambda>(k, v). (dec k, dec v)) ps"
    by simp
  have i: "(if ?f ! 0 = CHR ''/'' then 1 else 0) = (1::nat)" by simp
  show ?thesis unfolding path_params_def i Let_def e b s l using assms(2) by simp
qed

lemma plain_newline: "list_all url_char s \<Longrightarrow> newline \<notin> set s"
  by (auto simp: url_char_def list_all_iff c_isspace_def newline_def)

lemma status_line_parsed:
  assumes "url_plain path" and "path \<noteq> []" and "url_params ps" and "ps \<noteq> []"
  shows "parse_status_line env (push_line path ps @ rest) r = (rest, r\<lparr>hr_method := ''POST'', hr_path := path,
    hr_params := hr_params r @ map (\<lambda>(k, v). (urldecode env k, urldecode env v)) ps\<rparr>)"
proof -
  let ?l = "''POST /'' @ path @ ''?'' @ query ps @ '' HTTP/1.1'' @ [cret]"
  have "newline \<notin> set ?l"
    using plain_newline [OF plain_url [OF assms(1)]] plain_newline [OF plain_query [OF assms(3)]]
    by (simp add: newline_def cret_def)
  then have "next_line (?l @ newline # rest) = Some (?l, rest)" by (rule next_line_append)
  moreover have "push_line path ps @ rest = ?l @ newline # rest"
    by (simp add: push_line_def crlf_def cret_def newline_def)
  moreover have "\<not> list_all c_isspace ?l" by (simp add: c_isspace_def)
  ultimately have "skip_blank (push_line path ps @ rest) = Some (?l, rest)"
    by (subst skip_blank.simps) (simp only: option.case prod.case if_False)
  then show ?thesis
    unfolding parse_status_line_def
    by (simp only: option.case prod.case match_push_line [OF assms(1,3,4)] Let_def path_params_query [OF assms])
      simp
qed

lemma match_length_header:
  "match_header (''Content-Length: '' @ show_nat n @ [cret]) = Some (''Content-Length'', show_nat n)"
proof -
  let ?l = "''Content-Length: '' @ show_nat n @ [cret]"
  obtain d ds where d: "show_nat n = d # ds" "\<not> c_isspace d" using show_nat_Cons [of n] by metis
  have "c_isdigit (last (show_nat n))" using show_nat_digits [of n] last_in_set by blast
  then have ld: "\<not> c_isspace (last (show_nat n))" using digit_no_space by blast
  have t: "takeWhile (\<lambda>c. c \<noteq> CHR '':'') ?l = ''Content-Length''" by simp
  have w: "dropWhile c_isspace ''Content-Length'' = ''Content-Length''" by code_simp
  have "drop (length ''Content-Length'' + 1) ?l = '' '' @ show_nat n @ [cret]" by simp
  then have v: "dropWhile c_isspace (drop (length ''Content-Length'' + 1) ?l) = show_nat n @ [cret]"
    using d by (simp add: c_isspace_def)
  have "rev (show_nat n) = last (show_nat n) # rev (butlast (show_nat n))"
    using append_butlast_last_id [of "show_nat n"] d(1) by (metis list.distinct(1) rev_eq_Cons_iff rev_rev_ident)
  then have "dropWhile c_isspace (rev (show_nat n)) = rev (show_nat n)" using ld by (metis dropWhile.simps(2))
  then have r: "rev (dropWhile c_isspace (rev (show_nat n @ [cret]))) = show_nat n"
    by (simp add: c_isspace_def cret_def)
  show ?thesis unfolding match_header_def Let_def t w v r by simp
qed

lemma length_header_parsed:
  assumes "lex_int env (show_nat n) = Some (int n)"
  shows "header_lines env (push_head n @ rest) r = Inr (rest, r\<lparr>
    hr_content := take n (hr_content r) @ replicate (n - length (hr_content r)) (CHR 0x00),
    hr_headers := hr_headers r @ [(''Content-Length'', show_nat n)]\<rparr>)"
proof -
  let ?l = "''Content-Length: '' @ show_nat n @ [cret]"
  have "newline \<notin> set (show_nat n)" using show_nat_digits [of n] by (auto simp: newline_def c_isdigit_def)
  then have "newline \<notin> set ?l" by (simp add: newline_def cret_def)
  then have "next_line (?l @ newline # [cret] @ newline # rest) = Some (?l, [cret] @ newline # rest)"
    by (rule next_line_append)
  moreover have "push_head n @ rest = ?l @ newline # [cret] @ newline # rest"
    by (simp add: push_head_def crlf_def cret_def newline_def)
  ultimately have a: "next_line (push_head n @ rest) = Some (?l, [cret] @ newline # rest)" by simp
  have b: "next_line ([cret] @ newline # rest) = Some ([cret], rest)"
    by (rule next_line_append) (simp add: cret_def newline_def)
  have c: "iequals ''Content-Length'' ''Content-Length''" by (simp add: iequals_def)
  have p: "parse_header_line env ?l r = Inr (r\<lparr>
      hr_content := take n (hr_content r) @ replicate (n - length (hr_content r)) (CHR 0x00),
      hr_headers := hr_headers r @ [(''Content-Length'', show_nat n)]\<rparr>)"
    unfolding parse_header_line_def match_length_header
    by (simp add: c resize_content_def assms kv_insert_def del: One_nat_def)
  have h: "\<not> (?l = [] \<or> hd ?l = cret)" by (simp add: cret_def)
  have e: "header_lines env ([cret] @ newline # rest) q = Inr (rest, q)" for q
    by (subst header_lines.simps) (simp only: b, simp)
  show ?thesis
    by (subst header_lines.simps) (simp only: a option.case prod.case h if_False p sum.case e)
qed

text \<open>
  C20: a request as a client writes it, with a path, parameters without special characters and
  a body with its length, is read back by a new connection as exactly these: the parameters
  decoded, in their order, and the content the body.
\<close>

theorem push_request_roundtrip:
  assumes "url_plain path" and "path \<noteq> []" and "url_params ps" and "ps \<noteq> []"
    and "lex_int env (show_nat (length body)) = Some (int (length body))"
  shows "next_request env (push_line path ps) (push_head (length body)) body hrequest_new = Inr
    \<lparr>hr_method = ''POST'', hr_path = path, hr_params = map (\<lambda>(k, v). (urldecode env k, urldecode env v)) ps,
     hr_headers = [(''Content-Length'', show_nat (length body))], hr_content = body\<rparr>"
proof -
  have "parse_status_line env (push_line path ps) hrequest_new = ([], hrequest_new\<lparr>hr_method := ''POST'', hr_path := path,
      hr_params := hr_params hrequest_new @ map (\<lambda>(k, v). (urldecode env k, urldecode env v)) ps\<rparr>)"
    using status_line_parsed [OF assms(1-4), of env "[]"] by simp
  then show ?thesis
    using length_header_parsed [OF assms(5), of "[]"]
    by (simp add: next_request_def take_content_def hrequest_new_def)
qed

theorem push_request_roundtrip_witness:
  "next_request demo_push (push_line ''push'' [(''devtok'', ''00''), (''message'', ''hi'')]) (push_head (length ''abc'')) ''abc'' hrequest_new = Inr
    \<lparr>hr_method = ''POST'', hr_path = ''push'', hr_params = [(''devtok'', ''00''), (''message'', ''hi'')],
     hr_headers = [(''Content-Length'', show_nat (length ''abc''))], hr_content = ''abc''\<rparr>"
proof -
  have "url_plain ''push''" "url_params [(''devtok'', ''00''), (''message'', ''hi'')]" by code_simp+
  moreover have "lex_int demo_push (show_nat (length ''abc'')) = Some (int (length ''abc''))" by code_simp
  ultimately show ?thesis
    using push_request_roundtrip [of "''push''" "[(''devtok'', ''00''), (''message'', ''hi'')]" demo_push "''abc''"]
    by (simp add: demo_push_def)
qed

end
