(* ===== verification/Push_Proxy.thy ===== *)
theory Push_Proxy
  imports Push_Http "HOL-Library.Sublist"
begin

section \<open>The push proxy (apple\_push\_proxy.cpp)\<close>

text \<open>
  Clients connect to \<open>relay_server\<close>; each \<open>connection\<close> reads requests one after the other and
  hands them to \<open>apple_push\<close>, which keeps a \<open>push_data\<close> for each connection and writes one
  message at a time to the gateway. Every handler that \<open>io_service\<close> runs is a function on the
  whole state \<open>proxy\<close>, and \<open>px_step\<close> the choice of the next one. A connection is named by the
  number of its acceptance, and so is its \<open>push_data\<close>; a flag says that an asynchronous
  operation is under way. The member \<open>stage_\<close> is not initialised by the constructor.
\<close>

datatype stage = Idle | Halt | Connecting | Handshaking | Writing | Indeterminate

record push_data =
  pd_connected :: bool
  pd_data :: "string list"
  pd_reply :: string

datatype await = Await_line | Await_headers | Await_content nat

record pconn =
  pc_server :: bool
  pc_mapped :: bool
  pc_messager :: bool
  pc_await :: "await option"
  pc_buf :: string
  pc_msg :: hrequest
  pc_writes :: "nat list"

text \<open>
  \<open>px_wire\<close> is what \<open>async_write\<close> was given for the gateway with the client it is from,
  \<open>px_asked\<close> the messages the clients have asked for.
\<close>

record proxy =
  px_listening :: bool
  px_next :: nat
  px_conns :: "nat \<Rightarrow> pconn option"
  px_posted :: "nat list"
  px_stage :: stage
  px_bufs :: "nat list"
  px_push :: "nat \<Rightarrow> push_data"
  px_opening :: bool
  px_shaking :: bool
  px_reading :: bool
  px_writing :: bool
  px_connects :: nat
  px_wire :: "(nat \<times> string) list"
  px_asked :: "(nat \<times> string) list"

definition proxy_new :: "stage \<Rightarrow> proxy" where
  "proxy_new junk = \<lparr>px_listening = True, px_next = 0, px_conns = (\<lambda>_. None), px_posted = [], px_stage = junk, px_bufs = [],
     px_push = (\<lambda>_. \<lparr>pd_connected = False, pd_data = [], pd_reply = ''''\<rparr>),
     px_opening = False, px_shaking = False, px_reading = False, px_writing = False,
     px_connects = 0, px_wire = [], px_asked = []\<rparr>"

subsection \<open>Writing to the gateway\<close>

text \<open>The first with data is moved to the front, the others keep their order.\<close>

definition data_first :: "(nat \<Rightarrow> push_data) \<Rightarrow> nat list \<Rightarrow> nat list" where
  "data_first pd bs = (case dropWhile (\<lambda>i. pd_data (pd i) = []) bs of
     [] \<Rightarrow> bs
   | i # later \<Rightarrow> i # takeWhile (\<lambda>i. pd_data (pd i) = []) bs @ later)"

text \<open>When every client is gone, \<open>bufs_.front()\<close> is taken of an empty list.\<close>

definition write_msg :: "proxy \<Rightarrow> proxy outcome" where
  "write_msg s =
     (if px_stage s \<noteq> Idle \<or> px_bufs s = [] then Inr s
      else case data_first (px_push s) (filter (\<lambda>i. pd_connected (px_push s i)) (px_bufs s)) of
        [] \<Rightarrow> Inl Undefined
      | i # bs \<Rightarrow>
          (case pd_data (px_push s i) of
             [] \<Rightarrow> Inr (s\<lparr>px_bufs := i # bs\<rparr>)
           | m # ms \<Rightarrow> Inr (s\<lparr>px_bufs := i # bs, px_stage := Writing, px_writing := True,
                 px_wire := px_wire s @ [(i, m)]\<rparr>)))"

definition px_connect :: "proxy \<Rightarrow> proxy" where
  "px_connect s = s\<lparr>px_stage := Connecting, px_connects := px_connects s + 1, px_opening := True\<rparr>"

definition handle_connect :: "bool \<Rightarrow> proxy \<Rightarrow> proxy" where
  "handle_connect ec s =
     (let s1 = s\<lparr>px_opening := False\<rparr> in
      if ec then px_connect s1 else s1\<lparr>px_stage := Handshaking, px_shaking := True\<rparr>)"

definition handle_handshake :: "bool \<Rightarrow> proxy \<Rightarrow> proxy outcome" where
  "handle_handshake ec s =
     (let s1 = s\<lparr>px_shaking := False\<rparr> in
      if ec then Inr s1 else write_msg (s1\<lparr>px_reading := True\<rparr>))"

definition handle_read :: "bool \<Rightarrow> proxy \<Rightarrow> proxy" where
  "handle_read ec s = (if ec then px_connect (s\<lparr>px_reading := False\<rparr>) else s)"

text \<open>\<open>connection::send\<close>: the reply is queued behind those that are not written yet.\<close>

definition conn_send :: "nat \<Rightarrow> nat \<Rightarrow> proxy \<Rightarrow> proxy outcome" where
  "conn_send i len s =
     (case px_conns s i of
        None \<Rightarrow> Inl Undefined
      | Some c \<Rightarrow> Inr (s\<lparr>px_conns := (px_conns s)(i \<mapsto> c\<lparr>pc_writes := pc_writes c @ [len]\<rparr>)\<rparr>))"

definition conn_handle_write :: "nat \<Rightarrow> proxy \<Rightarrow> proxy outcome" where
  "conn_handle_write i s =
     (case px_conns s i of
        None \<Rightarrow> Inl Undefined
      | Some c \<Rightarrow> Inr (s\<lparr>px_conns := (px_conns s)(i \<mapsto> c\<lparr>pc_writes := tl (pc_writes c)\<rparr>)\<rparr>))"

datatype wresult = Written | Failed | Aborted

definition relay_back :: "nat \<Rightarrow> wresult \<Rightarrow> proxy \<Rightarrow> proxy outcome" where
  "relay_back i ec s =
     (let reply = (if ec = Written then ''OK'' else ''FAIL''); d = px_push s i
      in conn_send i (length reply) (s\<lparr>px_push := (px_push s)(i := d\<lparr>pd_reply := reply, pd_data := tl (pd_data d)\<rparr>)\<rparr>))"

definition push_handle_write :: "wresult \<Rightarrow> proxy \<Rightarrow> proxy outcome" where
  "push_handle_write ec s =
     (case px_bufs s of
        [] \<Rightarrow> Inl Assertion
      | i # bs \<Rightarrow>
          let s1 = s\<lparr>px_writing := False, px_stage := Idle\<rparr> in
          if \<not> pd_connected (px_push s i) then write_msg (s1\<lparr>px_bufs := bs\<rparr>)
          else if ec = Aborted then Inr s1
          else bind_ok (relay_back i ec s1) (\<lambda>s2. write_msg (s2\<lparr>px_bufs := bs @ [i]\<rparr>)))"

subsection \<open>Messages of the clients\<close>

text \<open>\<open>None\<close> is a message that stands for an error.\<close>

definition pmessage :: "push_env \<Rightarrow> nat \<Rightarrow> hrequest option \<Rightarrow> proxy \<Rightarrow> proxy outcome" where
  "pmessage env i msg s =
     (case msg of
        None \<Rightarrow> Inr (s\<lparr>px_push := (px_push s)(i := (px_push s i)\<lparr>pd_connected := False\<rparr>)\<rparr>)
      | Some r \<Rightarrow>
          bind_ok (on_REQUEST env r) (\<lambda>m.
            let d = px_push s i;
                s1 = s\<lparr>px_push := (px_push s)(i := d\<lparr>pd_data := pd_data d @ [m]\<rparr>), px_asked := px_asked s @ [(i, m)]\<rparr>
            in if px_stage s1 = Idle then write_msg s1 else Inr s1))"

text \<open>The first message of a connection makes its \<open>push_data\<close>.\<close>

definition first_message :: "push_env \<Rightarrow> nat \<Rightarrow> hrequest option \<Rightarrow> proxy \<Rightarrow> proxy outcome" where
  "first_message env i msg s =
     pmessage env i msg (s\<lparr>px_bufs := px_bufs s @ [i],
       px_push := (px_push s)(i := \<lparr>pd_connected = True, pd_data = [], pd_reply = ''''\<rparr>)\<rparr>)"

definition set_conn :: "nat \<Rightarrow> (pconn \<Rightarrow> pconn) \<Rightarrow> proxy \<Rightarrow> proxy" where
  "set_conn i f s = s\<lparr>px_conns := (px_conns s)(i := map_option f (px_conns s i))\<rparr>"

definition conn_request :: "push_env \<Rightarrow> nat \<Rightarrow> pconn \<Rightarrow> hrequest option \<Rightarrow> proxy \<Rightarrow> proxy outcome" where
  "conn_request env i c msg s =
     (if \<not> pc_server c then Inr s
      else if \<not> pc_messager c then
        bind_ok (first_message env i msg s) (\<lambda>s1. Inr (set_conn i (\<lambda>c. c\<lparr>pc_messager := True\<rparr>) s1))
      else pmessage env i msg s)"

subsection \<open>Connections\<close>

text \<open>
  \<open>handle_accept\<close>: the waiting connection is entered under its socket and starts to read.
  After an error no further connection is waited for.
\<close>

definition handle_accept :: "bool \<Rightarrow> proxy \<Rightarrow> proxy" where
  "handle_accept ec s =
     (if ec then s\<lparr>px_listening := False\<rparr>
      else s\<lparr>px_next := px_next s + 1, px_conns := (px_conns s)(px_next s \<mapsto>
        \<lparr>pc_server = True, pc_mapped = True, pc_messager = False, pc_await = Some Await_line, pc_buf = '''',
         pc_msg = hrequest_new, pc_writes = []\<rparr>)\<rparr>)"

text \<open>\<open>destroy\<close> takes the connection out of the map and posts the release of its last pointer.\<close>

definition destroy :: "nat \<Rightarrow> pconn \<Rightarrow> proxy \<Rightarrow> proxy" where
  "destroy i c s =
     (if pc_mapped c then set_conn i (\<lambda>c. c\<lparr>pc_mapped := False\<rparr>) (s\<lparr>px_posted := px_posted s @ [i]\<rparr>) else s)"

definition conn_error :: "push_env \<Rightarrow> nat \<Rightarrow> pconn \<Rightarrow> proxy \<Rightarrow> proxy outcome" where
  "conn_error env i c s =
     bind_ok (conn_request env i c None s) (\<lambda>s1. Inr (set_conn i (\<lambda>c. c\<lparr>pc_await := None\<rparr>) (destroy i c s1)))"

text \<open>
  The posted release: the destructor reports the error once more, closes, and the connection
  is gone. The handler of a reply that is still being written keeps a pointer to it.
\<close>

definition conn_release :: "push_env \<Rightarrow> nat \<Rightarrow> proxy \<Rightarrow> proxy outcome" where
  "conn_release env i s =
     (case px_conns s i of
        None \<Rightarrow> Inl Undefined
      | Some c \<Rightarrow> bind_ok (conn_request env i c None s) (\<lambda>s1. Inr (s1\<lparr>px_conns := (px_conns s1)(i := None)\<rparr>)))"

definition handle_method_line :: "push_env \<Rightarrow> nat \<Rightarrow> pconn \<Rightarrow> string \<Rightarrow> proxy \<Rightarrow> proxy" where
  "handle_method_line env i c buf s =
     (case parse_status_line env buf (pc_msg c) of
        (rest, r) \<Rightarrow> set_conn i (\<lambda>c. c\<lparr>pc_buf := rest, pc_msg := r, pc_await := Some Await_headers\<rparr>) s)"

definition handle_content :: "push_env \<Rightarrow> nat \<Rightarrow> pconn \<Rightarrow> string \<Rightarrow> proxy \<Rightarrow> proxy outcome" where
  "handle_content env i c buf s =
     (case take_content buf (pc_msg c) of
        (rest, r) \<Rightarrow>
          bind_ok (conn_request env i c (Some r)
            (set_conn i (\<lambda>c. c\<lparr>pc_buf := rest, pc_msg := r, pc_await := None\<rparr>) s)) (\<lambda>s1.
            Inr (if pc_server c then set_conn i (\<lambda>c. c\<lparr>pc_await := Some Await_line\<rparr>) s1 else s1)))"

definition handle_headers :: "push_env \<Rightarrow> nat \<Rightarrow> pconn \<Rightarrow> string \<Rightarrow> proxy \<Rightarrow> proxy outcome" where
  "handle_headers env i c buf s =
     bind_ok (header_lines env buf (pc_msg c)) (\<lambda>(rest, r).
       if length (hr_content r) \<le> length rest then handle_content env i (c\<lparr>pc_msg := r\<rparr>) rest s
       else Inr (set_conn i (\<lambda>c. c\<lparr>pc_buf := rest, pc_msg := r,
         pc_await := Some (Await_content (length (hr_content r) - length rest))\<rparr>) s))"

definition has_text :: "string \<Rightarrow> string \<Rightarrow> bool" where
  "has_text p s \<longleftrightarrow> search_in p s 0 (length s) < length s"

text \<open>
  \<open>got\<close> bytes come in for a connection; its operation is complete when the delimiter, or the
  number of bytes it waits for, is there.
\<close>

definition conn_receive :: "push_env \<Rightarrow> nat \<Rightarrow> string \<Rightarrow> proxy \<Rightarrow> proxy outcome" where
  "conn_receive env i got s =
     (case px_conns s i of
        None \<Rightarrow> Inr s
      | Some c \<Rightarrow>
          let buf = pc_buf c @ got; keep = set_conn i (\<lambda>c. c\<lparr>pc_buf := buf\<rparr>) s
          in case pc_await c of
               None \<Rightarrow> Inr s
             | Some Await_line \<Rightarrow> Inr (if has_text crlf buf then handle_method_line env i c buf s else keep)
             | Some Await_headers \<Rightarrow> if has_text crlf2 buf then handle_headers env i c buf s else Inr keep
             | Some (Await_content n) \<Rightarrow>
                 if n \<le> length got then handle_content env i c buf s
                 else Inr (set_conn i (\<lambda>c. c\<lparr>pc_await := Some (Await_content (n - length got))\<rparr>) keep))"

subsection \<open>Steps\<close>

text \<open>
  The next handler that runs. An operation is aborted only when its socket was closed, which
  \<open>connect\<close> does. The handler of a reply to a connection that has been released uses that
  connection, which is undefined: the runs here end before such a handler.
\<close>

inductive px_step :: "push_env \<Rightarrow> proxy \<Rightarrow> proxy \<Rightarrow> bool" for env where
  accepted: "px_listening s \<Longrightarrow> px_step env s (handle_accept ec s)"
| incoming: "conn_receive env i got s = Inr s' \<Longrightarrow> px_step env s s'"
| broken: "px_conns s i = Some c \<Longrightarrow> pc_await c \<noteq> None \<Longrightarrow> conn_error env i c s = Inr s' \<Longrightarrow> px_step env s s'"
| released: "px_posted s = i # later \<Longrightarrow> conn_release env i (s\<lparr>px_posted := later\<rparr>) = Inr s' \<Longrightarrow> px_step env s s'"
| replied: "px_conns s i = Some c \<Longrightarrow> pc_writes c \<noteq> [] \<Longrightarrow> conn_handle_write i s = Inr s' \<Longrightarrow> px_step env s s'"
| pushed: "px_writing s \<Longrightarrow> (ec = Aborted \<Longrightarrow> 0 < px_connects s) \<Longrightarrow> push_handle_write ec s = Inr s' \<Longrightarrow>
    px_step env s s'"
| opened: "px_opening s \<Longrightarrow> px_step env s (handle_connect ec s)"
| shaken: "px_shaking s \<Longrightarrow> handle_handshake ec s = Inr s' \<Longrightarrow> px_step env s s'"
| readback: "px_reading s \<Longrightarrow> px_step env s (handle_read ec s)"

inductive_cases px_stepE: "px_step env s s'"

subsection \<open>The gateway is never connected\<close>

text \<open>What no client can change: the operations on the gateway's socket other than a write.\<close>

definition still :: "proxy \<Rightarrow> proxy \<Rightarrow> bool" where
  "still s s' \<longleftrightarrow> px_connects s' = px_connects s \<and> px_opening s' = px_opening s \<and> px_shaking s' = px_shaking s \<and>
     px_reading s' = px_reading s \<and>
     (px_stage s \<noteq> Idle \<longrightarrow> px_stage s' = px_stage s \<and> px_wire s' = px_wire s \<and> px_writing s' = px_writing s)"

named_theorems still_intros

lemma still_refl [still_intros]: "still s s"
  by (simp add: still_def)

lemma still_trans: "still s s' \<Longrightarrow> still s' s'' \<Longrightarrow> still s s''"
  by (auto simp: still_def)

lemma still_set_conn [still_intros]: "still s (set_conn i f s)"
  by (simp add: still_def set_conn_def)

lemma still_write_msg: "write_msg s = Inr s' \<Longrightarrow> still s s'"
  by (auto simp: write_msg_def still_def split: if_splits list.splits)

lemma still_pmessage: "pmessage env i msg s = Inr s' \<Longrightarrow> still s s'"
proof (cases msg)
  case (Some r)
  assume a: "pmessage env i msg s = Inr s'"
  then obtain m where "(let s1 = s\<lparr>px_push := (px_push s)(i := (px_push s i)\<lparr>pd_data := pd_data (px_push s i) @ [m]\<rparr>),
      px_asked := px_asked s @ [(i, m)]\<rparr> in if px_stage s1 = Idle then write_msg s1 else Inr s1) = Inr s'"
    using Some by (auto simp: pmessage_def Let_def)
  then show ?thesis by (auto simp: Let_def still_def dest: still_write_msg split: if_splits)
qed (auto simp: pmessage_def still_def)

lemma still_first_message: "first_message env i msg s = Inr s' \<Longrightarrow> still s s'"
  by (auto simp: first_message_def still_def dest!: still_pmessage)

lemma still_conn_request: "conn_request env i c msg s = Inr s' \<Longrightarrow> still s s'"
  by (auto simp: conn_request_def split: if_splits
      intro: still_refl still_trans [OF _ still_set_conn] dest: still_first_message still_pmessage)

lemma still_destroy: "still s (destroy i c s)"
  by (simp add: destroy_def still_def set_conn_def)

lemma still_conn_error: "conn_error env i c s = Inr s' \<Longrightarrow> still s s'"
  by (auto simp: conn_error_def intro!: still_trans [OF _ still_set_conn] still_trans [OF _ still_destroy]
      dest: still_conn_request)

lemma still_conn_release: "conn_release env i s = Inr s' \<Longrightarrow> still s s'"
  by (auto simp: conn_release_def still_def split: option.splits dest!: still_conn_request)

lemma still_handle_content: "handle_content env i c buf s = Inr s' \<Longrightarrow> still s s'"
  by (auto simp: handle_content_def split: prod.splits if_splits
      intro: still_trans [OF still_trans [OF still_set_conn still_conn_request] still_set_conn]
        still_trans [OF still_set_conn still_conn_request])

lemma still_conn_receive: "conn_receive env i got s = Inr s' \<Longrightarrow> still s s'"
  by (auto simp: conn_receive_def handle_headers_def handle_method_line_def Let_def
      split: option.splits await.splits if_splits prod.splits
      intro: still_intros still_handle_content still_trans [OF still_set_conn still_set_conn])

lemma still_push_handle_write:
  assumes "push_handle_write ec s = Inr s'" and "px_writing s"
  shows "px_connects s' = px_connects s \<and> px_opening s' = px_opening s \<and> px_shaking s' = px_shaking s \<and>
    px_reading s' = px_reading s"
  using assms
  by (auto simp: push_handle_write_def relay_back_def conn_send_def still_def Let_def
      split: list.splits if_splits option.splits dest!: still_write_msg)

definition unconnected :: "stage \<Rightarrow> proxy \<Rightarrow> bool" where
  "unconnected junk s \<longleftrightarrow> px_connects s = 0 \<and> \<not> px_opening s \<and> \<not> px_shaking s \<and> \<not> px_reading s \<and>
     (junk \<noteq> Idle \<longrightarrow> px_stage s = junk \<and> px_wire s = [] \<and> \<not> px_writing s)"

lemma unconnected_still: "still s s' \<Longrightarrow> unconnected junk s \<Longrightarrow> unconnected junk s'"
  by (auto simp: unconnected_def still_def)

lemma unconnected_step:
  assumes "px_step env s s'" and "unconnected junk s"
  shows "unconnected junk s'"
  using assms(1)
proof cases
  case (accepted ec)
  then show ?thesis using assms(2) by (simp add: handle_accept_def unconnected_def)
next
  case (incoming i got)
  then show ?thesis using assms(2) still_conn_receive unconnected_still by blast
next
  case (broken i c)
  then show ?thesis using assms(2) still_conn_error unconnected_still by blast
next
  case (released i later)
  then have "still (s\<lparr>px_posted := later\<rparr>) s'" using still_conn_release by blast
  then show ?thesis using assms(2) by (auto simp: unconnected_def still_def)
next
  case (replied i c)
  then show ?thesis using assms(2) by (auto simp: conn_handle_write_def unconnected_def)
next
  case (pushed ec)
  then show ?thesis using assms(2) still_push_handle_write [OF pushed(3,1)] by (auto simp: unconnected_def)
next
  case (opened ec)
  then show ?thesis using assms(2) by (simp add: unconnected_def)
next
  case (shaken ec)
  then show ?thesis using assms(2) by (simp add: unconnected_def)
next
  case (readback ec)
  then show ?thesis using assms(2) by (simp add: unconnected_def)
qed

text \<open>
  C22: the proxy never connects to the gateway: \<open>connect\<close> is called only from handlers that a
  call of \<open>connect\<close> has armed, the constructor's call being commented out. So whatever clients
  do, no connection is attempted; and when the uninitialised \<open>stage_\<close> is not \<open>idle\<close> by chance,
  no message is ever given to the socket at all.
\<close>

theorem proxy_never_connects:
  assumes "(px_step env)\<^sup>*\<^sup>* (proxy_new junk) s"
  shows "px_connects s = 0 \<and> \<not> px_opening s \<and> \<not> px_reading s \<and> (junk \<noteq> Idle \<longrightarrow> px_wire s = [] \<and> px_stage s = junk)"
proof -
  have "unconnected junk (proxy_new junk)" by (simp add: unconnected_def proxy_new_def)
  with assms have "unconnected junk s"
    by (induction rule: rtranclp_induct) (auto intro: unconnected_step)
  then show ?thesis by (simp add: unconnected_def)
qed

subsection \<open>Messages are written in order\<close>

text \<open>What of a list of entries belongs to one client.\<close>

definition mine :: "nat \<Rightarrow> (nat \<times> string) list \<Rightarrow> string list" where
  "mine i l = map snd (filter (\<lambda>p. fst p = i) l)"

lemma mine_append [simp]: "mine i (l @ [(j, m)]) = mine i l @ (if i = j then [m] else [])"
  by (simp add: mine_def)

lemma mine_Nil [simp]: "mine i [] = []"
  by (simp add: mine_def)

text \<open>What is not written yet: the message that is being written stays in the list until then.\<close>

definition waiting :: "proxy \<Rightarrow> nat \<Rightarrow> string list" where
  "waiting s i = (if px_stage s = Writing \<and> i = hd (px_bufs s) then tl (pd_data (px_push s i)) else pd_data (px_push s i))"

definition push_ok :: "proxy \<Rightarrow> bool" where
  "push_ok s \<longleftrightarrow> distinct (px_bufs s) \<and>
     (px_stage s = Idle \<and> \<not> px_writing s \<or>
      px_stage s = Writing \<and> px_writing s \<and> px_bufs s \<noteq> [] \<and> pd_data (px_push s (hd (px_bufs s))) \<noteq> []) \<and>
     (\<forall>i. prefix (mine i (px_wire s)) (mine i (px_asked s))) \<and>
     (\<forall>i. pd_connected (px_push s i) \<longrightarrow> mine i (px_asked s) = mine i (px_wire s) @ waiting s i)"

definition nothing_waits :: "proxy \<Rightarrow> bool" where
  "nothing_waits s \<longleftrightarrow> (px_stage s = Idle \<longrightarrow>
     (\<forall>i\<in>set (px_bufs s). pd_connected (px_push s i) \<longrightarrow> pd_data (px_push s i) = []))"

lemma data_first_set: "set (data_first pd bs) = set bs"
proof (cases "dropWhile (\<lambda>i. pd_data (pd i) = []) bs")
  case (Cons i later)
  have "set (takeWhile (\<lambda>i. pd_data (pd i) = []) bs @ dropWhile (\<lambda>i. pd_data (pd i) = []) bs) = set bs"
    by (simp only: takeWhile_dropWhile_id)
  then show ?thesis unfolding data_first_def Cons by auto
next
  case Nil
  then show ?thesis unfolding data_first_def Nil by simp
qed

lemma data_first_distinct:
  assumes "distinct bs"
  shows "distinct (data_first pd bs)"
proof (cases "dropWhile (\<lambda>i. pd_data (pd i) = []) bs")
  case (Cons i later)
  have "distinct (takeWhile (\<lambda>i. pd_data (pd i) = []) bs @ dropWhile (\<lambda>i. pd_data (pd i) = []) bs)"
    using assms by (simp only: takeWhile_dropWhile_id)
  then show ?thesis unfolding data_first_def Cons by auto
next
  case Nil
  then show ?thesis using assms unfolding data_first_def Nil by simp
qed

lemma data_first_empty:
  assumes "data_first pd bs = i # bs'" and "pd_data (pd i) = []" and "j \<in> set bs"
  shows "pd_data (pd j) = []"
proof (cases "dropWhile (\<lambda>i. pd_data (pd i) = []) bs")
  case Nil
  then show ?thesis using assms(3) by (simp add: dropWhile_eq_Nil_conv)
next
  case (Cons k later)
  then have "pd_data (pd k) \<noteq> []" by (simp add: dropWhile_eq_Cons_conv)
  then show ?thesis using assms(1,2) Cons by (simp add: data_first_def)
qed

lemma write_msg_frame:
  assumes "write_msg s = Inr s'"
  shows "px_asked s' = px_asked s \<and> px_push s' = px_push s \<and> px_conns s' = px_conns s \<and> px_next s' = px_next s \<and>
    px_posted s' = px_posted s \<and> set (px_bufs s') \<subseteq> set (px_bufs s) \<and>
    (\<forall>j. j \<notin> set (px_bufs s) \<longrightarrow> mine j (px_wire s') = mine j (px_wire s))"
proof -
  let ?fs = "filter (\<lambda>i. pd_connected (px_push s i)) (px_bufs s)"
  have "set (data_first (px_push s) ?fs) \<subseteq> set (px_bufs s)" unfolding data_first_set by auto
  then show ?thesis using assms by (auto simp: write_msg_def split: if_splits list.splits)
qed

lemma write_msg_ok:
  assumes "write_msg s = Inr s'" and "push_ok s"
  shows "push_ok s' \<and> nothing_waits s'"
proof (cases "px_stage s = Idle \<and> px_bufs s \<noteq> []")
  case False
  then have "s' = s" using assms(1) by (auto simp: write_msg_def split: if_splits)
  then show ?thesis using False assms(2) by (auto simp: nothing_waits_def push_ok_def)
next
  case True
  let ?fs = "filter (\<lambda>i. pd_connected (px_push s i)) (px_bufs s)"
  have eq: "mine i (px_asked s) = mine i (px_wire s) @ pd_data (px_push s i)" if "pd_connected (px_push s i)" for i
    using assms(2) True that by (simp add: push_ok_def waiting_def)
  obtain i bs where f: "data_first (px_push s) ?fs = i # bs"
    using assms(1) True by (cases "data_first (px_push s) ?fs") (auto simp: write_msg_def)
  have d: "distinct (i # bs)" using data_first_distinct [of ?fs "px_push s"] assms(2) unfolding f push_ok_def by simp
  have sub: "set (i # bs) = set ?fs" using data_first_set [of "px_push s" ?fs] unfolding f .
  then have c: "pd_connected (px_push s i)" by auto
  have pr: "prefix (mine j (px_wire s)) (mine j (px_asked s))" for j using assms(2) by (simp add: push_ok_def)
  show ?thesis
  proof (cases "pd_data (px_push s i)")
    case Nil
    then have s': "s' = s\<lparr>px_bufs := i # bs\<rparr>" using assms(1) True f by (simp add: write_msg_def)
    have "pd_data (px_push s j) = []" if "j \<in> set (i # bs)" for j
      using data_first_empty [OF f Nil] that sub by blast
    then show ?thesis using assms(2) True d by (auto simp: s' push_ok_def nothing_waits_def waiting_def)
  next
    case (Cons m ms)
    then have s': "s' = s\<lparr>px_bufs := i # bs, px_stage := Writing, px_writing := True, px_wire := px_wire s @ [(i, m)]\<rparr>"
      using assms(1) True f by (simp add: write_msg_def)
    have "prefix (mine i (px_wire s) @ [m]) (mine i (px_asked s))" unfolding eq [OF c] Cons by simp
    then show ?thesis using d Cons pr eq by (auto simp: s' push_ok_def nothing_waits_def waiting_def)
  qed
qed

lemma push_ok_conns: "push_ok (s\<lparr>px_conns := cs\<rparr>) = push_ok s" "nothing_waits (s\<lparr>px_conns := cs\<rparr>) = nothing_waits s"
  "push_ok (s\<lparr>px_posted := ps\<rparr>) = push_ok s" "nothing_waits (s\<lparr>px_posted := ps\<rparr>) = nothing_waits s"
  by (simp_all add: push_ok_def nothing_waits_def waiting_def)

lemma pmessage_ok:
  assumes "pmessage env i msg s = Inr s'" and "push_ok s" and "nothing_waits s"
  shows "push_ok s' \<and> nothing_waits s'"
proof (cases msg)
  case None
  then show ?thesis using assms by (auto simp: pmessage_def push_ok_def nothing_waits_def waiting_def split: if_splits)
next
  case (Some r)
  then obtain m where m: "on_REQUEST env r = Inr m" using assms(1) by (auto simp: pmessage_def)
  let ?s = "s\<lparr>px_push := (px_push s)(i := (px_push s i)\<lparr>pd_data := pd_data (px_push s i) @ [m]\<rparr>),
      px_asked := px_asked s @ [(i, m)]\<rparr>"
  have ok: "push_ok ?s"
    using assms(2) by (auto simp: push_ok_def waiting_def intro: prefix_prefix split: if_splits)
  show ?thesis
  proof (cases "px_stage s = Idle")
    case True
    then have "write_msg ?s = Inr s'" using assms(1) Some m by (simp add: pmessage_def Let_def)
    then show ?thesis using ok by (rule write_msg_ok)
  next
    case False
    then have "s' = ?s" using assms(1) Some m by (simp add: pmessage_def Let_def)
    then show ?thesis using ok False by (simp add: nothing_waits_def)
  qed
qed

text \<open>A connection that has not sent a message yet, or is not there yet, has nothing to do with the pusher.\<close>

definition fresh :: "nat \<Rightarrow> proxy \<Rightarrow> bool" where
  "fresh i s \<longleftrightarrow> i \<notin> set (px_bufs s) \<and> mine i (px_asked s) = [] \<and> mine i (px_wire s) = []"

definition conn_ok :: "proxy \<Rightarrow> bool" where
  "conn_ok s \<longleftrightarrow> (\<forall>i c. px_conns s i = Some c \<longrightarrow> \<not> pc_messager c \<longrightarrow> fresh i s) \<and>
     (\<forall>i\<ge>px_next s. px_conns s i = None \<and> fresh i s)"

definition proxy_ok :: "proxy \<Rightarrow> bool" where
  "proxy_ok s \<longleftrightarrow> push_ok s \<and> nothing_waits s \<and> conn_ok s"

lemma pmessage_frame:
  assumes "pmessage env i msg s = Inr s'"
  shows "px_conns s' = px_conns s \<and> px_next s' = px_next s \<and> (\<forall>j. j \<noteq> i \<longrightarrow> fresh j s \<longrightarrow> fresh j s')"
proof (cases msg)
  case (Some r)
  then obtain m where m: "on_REQUEST env r = Inr m" using assms by (auto simp: pmessage_def)
  let ?s = "s\<lparr>px_push := (px_push s)(i := (px_push s i)\<lparr>pd_data := pd_data (px_push s i) @ [m]\<rparr>),
      px_asked := px_asked s @ [(i, m)]\<rparr>"
  have "write_msg ?s = Inr s' \<or> s' = ?s" using assms Some m by (auto simp: pmessage_def Let_def split: if_splits)
  then show ?thesis using write_msg_frame [of ?s s'] by (auto simp: fresh_def)
qed (use assms in \<open>auto simp: pmessage_def fresh_def\<close>)

lemma conn_ok_set_conn:
  "conn_ok s \<Longrightarrow> (\<And>c. pc_messager (f c) \<longleftrightarrow> pc_messager c) \<Longrightarrow> conn_ok (set_conn i f s)"
  by (auto simp: conn_ok_def set_conn_def fresh_def)

lemma proxy_ok_set_conn:
  "proxy_ok s \<Longrightarrow> (\<And>c. pc_messager (f c) \<longleftrightarrow> pc_messager c) \<Longrightarrow> proxy_ok (set_conn i f s)"
  using conn_ok_set_conn [of s f i] by (simp add: proxy_ok_def set_conn_def push_ok_conns)

lemma set_conn_at: "px_conns (set_conn i f s) i = map_option f (px_conns s i)"
  by (simp add: set_conn_def)

lemma conn_request_ok:
  assumes "conn_request env i c msg s = Inr s'" and "proxy_ok s"
    and "px_conns s i = Some c0" and "pc_messager c0 \<longleftrightarrow> pc_messager c"
  shows "proxy_ok s' \<and> px_next s' = px_next s \<and> i < px_next s \<and> px_conns s' i \<noteq> None"
proof -
  have lt: "i < px_next s" using assms(2,3) by (auto simp: proxy_ok_def conn_ok_def intro: ccontr)
  consider (off) "\<not> pc_server c" | (first) "pc_server c" "\<not> pc_messager c" | (again) "pc_server c" "pc_messager c"
    by blast
  then show ?thesis
  proof cases
    case off
    then show ?thesis using assms lt by (simp add: conn_request_def)
  next
    case again
    then have p: "pmessage env i msg s = Inr s'" using assms(1) by (simp add: conn_request_def)
    have "push_ok s' \<and> nothing_waits s'" using pmessage_ok [OF p] assms(2) by (simp add: proxy_ok_def)
    moreover have "conn_ok s'" unfolding conn_ok_def
    proof (intro conjI allI impI)
      fix j c1
      assume j: "px_conns s' j = Some c1" "\<not> pc_messager c1"
      then have "j \<noteq> i" using pmessage_frame [OF p] assms(3,4) again by auto
      then show "fresh j s'" using pmessage_frame [OF p] assms(2) j by (auto simp: proxy_ok_def conn_ok_def)
    next
      fix j
      assume "px_next s' \<le> j"
      then show "px_conns s' j = None" and "fresh j s'"
        using pmessage_frame [OF p] assms(2) lt by (auto simp: proxy_ok_def conn_ok_def)
    qed
    ultimately show ?thesis using pmessage_frame [OF p] assms(3) lt by (simp add: proxy_ok_def)
  next
    case first
    let ?s = "s\<lparr>px_bufs := px_bufs s @ [i],
        px_push := (px_push s)(i := \<lparr>pd_connected = True, pd_data = [], pd_reply = ''''\<rparr>)\<rparr>"
    obtain s1 where s1: "pmessage env i msg ?s = Inr s1" "s' = set_conn i (\<lambda>c. c\<lparr>pc_messager := True\<rparr>) s1"
      using assms(1) first by (auto simp: conn_request_def first_message_def)
    have f: "fresh i s" using assms(2-4) first by (auto simp: proxy_ok_def conn_ok_def)
    have "hd (px_bufs s) \<noteq> i" if "px_bufs s \<noteq> []" using f that hd_in_set [OF that] by (auto simp: fresh_def)
    then have "push_ok ?s" "nothing_waits ?s"
      using assms(2) f by (auto simp: proxy_ok_def push_ok_def nothing_waits_def waiting_def fresh_def)
    then have "push_ok s1 \<and> nothing_waits s1" using pmessage_ok [OF s1(1)] by blast
    then have "push_ok s' \<and> nothing_waits s'" unfolding s1(2) set_conn_def by (simp add: push_ok_conns)
    moreover have fj: "fresh j s'" if "j \<noteq> i" "fresh j s" for j
    proof -
      have "fresh j ?s" using that by (simp add: fresh_def)
      then have "fresh j s1" using pmessage_frame [OF s1(1)] that(1) by blast
      then show ?thesis unfolding s1(2) by (simp add: fresh_def set_conn_def)
    qed
    moreover have cs: "px_conns s' = (px_conns s)(i := Some (c0\<lparr>pc_messager := True\<rparr>))" "px_next s' = px_next s"
      using pmessage_frame [OF s1(1)] assms(3) by (auto simp: s1(2) set_conn_def)
    moreover have "conn_ok s'"
      using assms(2) lt fj unfolding conn_ok_def proxy_ok_def cs by (auto split: if_splits)
    ultimately show ?thesis using lt by (simp add: proxy_ok_def)
  qed
qed

lemma conn_error_ok:
  assumes "conn_error env i c s = Inr s'" and "proxy_ok s" and "px_conns s i = Some c"
  shows "proxy_ok s'"
proof -
  obtain s1 where s1: "conn_request env i c None s = Inr s1"
      "s' = set_conn i (\<lambda>c. c\<lparr>pc_await := None\<rparr>) (destroy i c s1)"
    using assms(1) by (auto simp: conn_error_def)
  have "proxy_ok s1" using conn_request_ok [OF s1(1) assms(2,3)] by simp
  moreover have "proxy_ok (s1\<lparr>px_posted := ps\<rparr>)" if "proxy_ok s1" for ps
    using that by (auto simp: proxy_ok_def push_ok_conns conn_ok_def fresh_def)
  ultimately have "proxy_ok (destroy i c s1)" by (simp add: destroy_def proxy_ok_set_conn)
  then show ?thesis unfolding s1(2) by (rule proxy_ok_set_conn) simp
qed

lemma conn_release_ok:
  assumes "conn_release env i s = Inr s'" and "proxy_ok s"
  shows "proxy_ok s'"
proof -
  obtain c s1 where c: "px_conns s i = Some c" "conn_request env i c None s = Inr s1"
      "s' = s1\<lparr>px_conns := (px_conns s1)(i := None)\<rparr>"
    using assms(1) by (auto simp: conn_release_def split: option.splits)
  then have "proxy_ok s1" using conn_request_ok [OF c(2) assms(2) c(1)] by simp
  then show ?thesis unfolding c(3) by (auto simp: proxy_ok_def push_ok_conns conn_ok_def fresh_def)
qed

lemma handle_content_ok:
  assumes "handle_content env i c buf s = Inr s'" and "proxy_ok s"
    and "px_conns s i = Some c0" and "pc_messager c0 \<longleftrightarrow> pc_messager c"
  shows "proxy_ok s'"
proof -
  obtain rest r where t: "take_content buf (pc_msg c) = (rest, r)" by fastforce
  let ?s = "set_conn i (\<lambda>c. c\<lparr>pc_buf := rest, pc_msg := r, pc_await := None\<rparr>) s"
  obtain s1 where s1: "conn_request env i c (Some r) ?s = Inr s1"
      "s' = (if pc_server c then set_conn i (\<lambda>c. c\<lparr>pc_await := Some Await_line\<rparr>) s1 else s1)"
    using assms(1) by (auto simp: handle_content_def t)
  have "proxy_ok ?s" by (rule proxy_ok_set_conn [OF assms(2)]) simp
  moreover have "px_conns ?s i = Some (c0\<lparr>pc_buf := rest, pc_msg := r, pc_await := None\<rparr>)"
    using assms(3) by (simp add: set_conn_def)
  ultimately have "proxy_ok s1" using conn_request_ok [OF s1(1)] assms(4) by fastforce
  then show ?thesis unfolding s1(2) by (simp add: proxy_ok_set_conn)
qed

lemma conn_receive_ok:
  assumes "conn_receive env i got s = Inr s'" and "proxy_ok s"
  shows "proxy_ok s'"
proof (cases "px_conns s i")
  case None
  then show ?thesis using assms by (simp add: conn_receive_def)
next
  case (Some c)
  show ?thesis
  proof (cases "pc_await c")
    case None
    then show ?thesis using assms Some by (simp add: conn_receive_def)
  next
    case a: (Some a)
    show ?thesis
      using assms Some a
      by (cases a) (auto simp: conn_receive_def Let_def handle_method_line_def handle_headers_def
          split: if_splits prod.splits intro!: proxy_ok_set_conn intro: handle_content_ok)
  qed
qed

lemma proxy_ok_wire:
  assumes "proxy_ok s" and "px_bufs s = i # bs" and "px_stage s = Writing"
  shows "distinct (i # bs)" and "\<And>j. j \<noteq> i \<Longrightarrow> pd_connected (px_push s j) \<Longrightarrow>
      mine j (px_asked s) = mine j (px_wire s) @ pd_data (px_push s j)"
    and "pd_connected (px_push s i) \<Longrightarrow> mine i (px_asked s) = mine i (px_wire s) @ tl (pd_data (px_push s i))"
  using assms by (auto simp: proxy_ok_def push_ok_def waiting_def)

lemma conn_ok_frame:
  assumes "conn_ok s" and "px_next s' = px_next s" and "\<And>j. fresh j s \<Longrightarrow> fresh j s'"
    and "\<And>j. map_option pc_messager (px_conns s' j) = map_option pc_messager (px_conns s j)"
  shows "conn_ok s'"
  unfolding conn_ok_def
proof (intro conjI allI impI)
  fix j c
  assume j: "px_conns s' j = Some c" "\<not> pc_messager c"
  then obtain c0 where "px_conns s j = Some c0" "\<not> pc_messager c0"
    using assms(4) [of j] by (cases "px_conns s j") auto
  then show "fresh j s'" using assms(1,3) by (auto simp: conn_ok_def)
next
  fix j
  assume "px_next s' \<le> j"
  then show "px_conns s' j = None" and "fresh j s'" using assms(1,2,3) assms(4) [of j] by (auto simp: conn_ok_def)
qed

lemma push_handle_write_ok:
  assumes "push_handle_write ec s = Inr s'" and "proxy_ok s" and "px_writing s" and "ec \<noteq> Aborted"
  shows "proxy_ok s'"
proof -
  have st: "px_stage s = Writing" using assms(2,3) by (auto simp: proxy_ok_def push_ok_def)
  obtain i bs where b: "px_bufs s = i # bs" using assms(1) by (auto simp: push_handle_write_def split: list.splits)
  note w = proxy_ok_wire [OF assms(2) b st]
  have pr: "prefix (mine j (px_wire s)) (mine j (px_asked s))" for j
    using assms(2) by (simp add: proxy_ok_def push_ok_def)
  have co: "conn_ok s" using assms(2) by (simp add: proxy_ok_def)
  have fin: "proxy_ok s'" if t: "write_msg t = Inr s'" and ok: "push_ok t" and c: "conn_ok t" for t
  proof -
    have "fresh j s'" if "fresh j t" for j using write_msg_frame [OF t] that by (auto simp: fresh_def)
    then have "conn_ok s'" using write_msg_frame [OF t] by (intro conn_ok_frame [OF c]) auto
    then show ?thesis using write_msg_ok [OF t ok] by (simp add: proxy_ok_def)
  qed
  show ?thesis
  proof (cases "pd_connected (px_push s i)")
    case False
    let ?t = "s\<lparr>px_writing := False, px_stage := Idle, px_bufs := bs\<rparr>"
    have t: "write_msg ?t = Inr s'" using assms(1) b False by (simp add: push_handle_write_def)
    have "mine j (px_asked s) = mine j (px_wire s) @ pd_data (px_push s j)" if "pd_connected (px_push s j)" for j
      using w(2) that False by metis
    then have "push_ok ?t" using w(1) pr by (simp add: push_ok_def waiting_def)
    moreover have "conn_ok ?t" by (rule conn_ok_frame [OF co]) (simp_all add: fresh_def b)
    ultimately show ?thesis using fin [OF t] by blast
  next
    case True
    let ?s1 = "s\<lparr>px_writing := False, px_stage := Idle\<rparr>"
    obtain t where t: "relay_back i ec ?s1 = Inr t" "write_msg (t\<lparr>px_bufs := bs @ [i]\<rparr>) = Inr s'"
      using assms(1,4) b True by (auto simp: push_handle_write_def)
    obtain c r where c: "px_conns s i = Some c" "t = ?s1\<lparr>px_push := (px_push s)(i := (px_push s i)\<lparr>pd_reply := r,
          pd_data := tl (pd_data (px_push s i))\<rparr>),
        px_conns := (px_conns s)(i \<mapsto> c\<lparr>pc_writes := pc_writes c @ [length r]\<rparr>)\<rparr>"
      using t(1) by (auto simp: relay_back_def conn_send_def Let_def split: option.splits)
    have "push_ok (t\<lparr>px_bufs := bs @ [i]\<rparr>)"
      using w pr True unfolding c(2) by (auto simp: push_ok_def waiting_def)
    moreover have "conn_ok (t\<lparr>px_bufs := bs @ [i]\<rparr>)"
      unfolding c(2) by (rule conn_ok_frame [OF co]) (simp_all add: fresh_def b c(1))
    ultimately show ?thesis using fin [OF t(2)] by blast
  qed
qed

lemma proxy_ok_step:
  assumes "px_step env s s'" and "proxy_ok s" and "unconnected Idle s"
  shows "proxy_ok s'"
  using assms(1)
proof cases
  case (accepted ec)
  have "fresh j (handle_accept ec s) \<longleftrightarrow> fresh j s" for j by (simp add: handle_accept_def fresh_def)
  then have "conn_ok (handle_accept ec s)"
    using assms(2) by (auto simp: proxy_ok_def conn_ok_def handle_accept_def)
  then show ?thesis using assms(2) unfolding accepted
    by (simp add: proxy_ok_def handle_accept_def push_ok_def nothing_waits_def waiting_def)
next
  case (incoming i got)
  then show ?thesis using assms(2) conn_receive_ok by blast
next
  case (broken i c)
  then show ?thesis using assms(2) conn_error_ok by blast
next
  case (released i later)
  moreover have "proxy_ok (s\<lparr>px_posted := later\<rparr>)"
    using assms(2) by (auto simp: proxy_ok_def push_ok_conns conn_ok_def fresh_def)
  ultimately show ?thesis using conn_release_ok by blast
next
  case (replied i c)
  then have s': "s' = s\<lparr>px_conns := (px_conns s)(i \<mapsto> c\<lparr>pc_writes := tl (pc_writes c)\<rparr>)\<rparr>"
    by (simp add: conn_handle_write_def)
  have "conn_ok s" using assms(2) by (simp add: proxy_ok_def)
  then have "conn_ok s'" unfolding s' by (rule conn_ok_frame) (simp_all add: fresh_def replied(1))
  then show ?thesis using assms(2) by (simp add: s' proxy_ok_def push_ok_conns)
next
  case (pushed ec)
  then show ?thesis using push_handle_write_ok assms(2,3) by (metis unconnected_def less_irrefl)
next
  case (opened ec)
  then show ?thesis using assms(3) by (simp add: unconnected_def)
next
  case (shaken ec)
  then show ?thesis using assms(3) by (simp add: unconnected_def)
next
  case (readback ec)
  then show ?thesis using assms(3) by (simp add: unconnected_def)
qed

text \<open>
  C4: when the pusher starts out idle, the messages of each client are given to the gateway's
  socket in the order they were asked for, none twice and none left out; and while the pusher
  is idle no message of a client that is still there waits.
\<close>

theorem messages_in_order:
  assumes "(px_step env)\<^sup>*\<^sup>* (proxy_new Idle) s"
  shows "prefix (mine i (px_wire s)) (mine i (px_asked s)) \<and>
    (px_stage s = Idle \<and> i \<in> set (px_bufs s) \<and> pd_connected (px_push s i) \<longrightarrow>
      mine i (px_wire s) = mine i (px_asked s))"
proof -
  have "proxy_ok (proxy_new Idle) \<and> unconnected Idle (proxy_new Idle)"
    by (simp add: proxy_ok_def push_ok_def nothing_waits_def waiting_def conn_ok_def fresh_def
        unconnected_def proxy_new_def)
  with assms have "proxy_ok s \<and> unconnected Idle s"
    by (induction rule: rtranclp_induct) (auto intro: proxy_ok_step unconnected_step)
  then show ?thesis by (auto simp: proxy_ok_def push_ok_def nothing_waits_def waiting_def)
qed

text \<open>
  when the client whose message is being written has gone and all the others too, the
  completion of that write takes the first of an empty list.
\<close>

theorem all_gone_undefined:
  assumes "px_bufs s = i # j # bs" and "list_all (\<lambda>k. \<not> pd_connected (px_push s k)) (px_bufs s)"
  shows "push_handle_write ec s = Inl Undefined"
proof -
  have "filter (\<lambda>k. pd_connected (px_push s k)) (j # bs) = []"
    using assms by (auto simp: list_all_iff filter_empty_conv)
  then show ?thesis using assms by (simp add: push_handle_write_def write_msg_def data_first_def)
qed

subsection \<open>A run\<close>

definition demo_env :: push_env where
  "demo_env = demo_push\<lparr>urldecode := (\<lambda>s. if s = ''T'' then replicate 64 (CHR ''1'') else s)\<rparr>"

definition demo_line :: string where
  "demo_line = push_line ''p'' [(''devtok'', ''T''), (''message'', ''m'')]"

definition demo_head :: string where
  "demo_head = ''A:b'' @ crlf2"

definition demo_params :: keyvalues where
  "demo_params = [(''devtok'', replicate 64 (CHR ''1'')), (''message'', ''m'')]"

definition demo_read :: hrequest where
  "demo_read = hrequest_new\<lparr>hr_method := ''POST'', hr_path := ''p'', hr_params := demo_params\<rparr>"

lemma demo_parsed:
  "parse_status_line demo_env demo_line hrequest_new = ([], demo_read)"
  "header_lines demo_env demo_head demo_read = Inr ([], demo_read\<lparr>hr_headers := [(''A'', ''b'')]\<rparr>)"
  "has_text crlf demo_line" "has_text crlf2 demo_head"
  by (code_simp)+

lemma demo_read_fields: "hr_content demo_read = []" "hr_params demo_read = demo_params"
  by (simp_all add: demo_read_def hrequest_new_def)

lemma demo_message: "\<exists>m. \<forall>r. hr_params r = demo_params \<longrightarrow> on_REQUEST demo_env r = Inr m"
proof -
  have "kv_get demo_params ''devtok'' = Inr (replicate 64 (CHR ''1''))" "kv_get demo_params ''message'' = Inr ''m''"
    by code_simp+
  moreover have "length (unhex (replicate 64 (CHR ''1''))) = 32" by (simp add: numeral_eq_Suc)
  ultimately show ?thesis by (auto simp: on_REQUEST_def apack_def)
qed

text \<open>The client connects and sends its request in two pieces.\<close>

definition demo_run :: "stage \<Rightarrow> proxy outcome" where
  "demo_run junk = bind_ok (conn_receive demo_env 0 demo_line (handle_accept False (proxy_new junk)))
     (conn_receive demo_env 0 demo_head)"

lemma demo_run_state:
  "\<exists>m s. demo_run junk = Inr s \<and> px_asked s = [(0, m)] \<and> px_bufs s = [0] \<and> pd_connected (px_push s 0) \<and>
    (junk = Idle \<longrightarrow> px_wire s = [(0, m)] \<and> px_stage s = Writing)"
proof -
  obtain m where m: "\<And>r. hr_params r = demo_params \<Longrightarrow> on_REQUEST demo_env r = Inr m" using demo_message by blast
  let ?c = "\<lparr>pc_server = True, pc_mapped = True, pc_messager = False, pc_await = Some Await_headers, pc_buf = '''',
      pc_msg = demo_read, pc_writes = []\<rparr>"
  let ?s = "(proxy_new junk)\<lparr>px_next := 1, px_conns := [0 \<mapsto> ?c]\<rparr>"
  have "conn_receive demo_env 0 demo_line (handle_accept False (proxy_new junk)) = Inr ?s"
    by (simp add: conn_receive_def handle_accept_def proxy_new_def handle_method_line_def set_conn_def demo_parsed)
  moreover have "\<exists>s. conn_receive demo_env 0 demo_head ?s = Inr s \<and> px_asked s = [(0, m)] \<and> px_bufs s = [0] \<and>
      pd_connected (px_push s 0) \<and> (junk = Idle \<longrightarrow> px_wire s = [(0, m)] \<and> px_stage s = Writing)"
    using m
    by (simp add: conn_receive_def proxy_new_def handle_headers_def handle_content_def set_conn_def demo_parsed
        take_content_def conn_request_def first_message_def pmessage_def write_msg_def data_first_def demo_read_fields Let_def)
  ultimately show ?thesis unfolding demo_run_def by auto
qed

lemma demo_run_reached:
  assumes "demo_run junk = Inr s"
  shows "(px_step demo_env)\<^sup>*\<^sup>* (proxy_new junk) s"
proof -
  obtain s1 where s1: "conn_receive demo_env 0 demo_line (handle_accept False (proxy_new junk)) = Inr s1"
      "conn_receive demo_env 0 demo_head s1 = Inr s"
    using assms by (auto simp: demo_run_def)
  have "px_listening (proxy_new junk)" by (simp add: proxy_new_def)
  then have "px_step demo_env (proxy_new junk) (handle_accept False (proxy_new junk))" by (rule accepted)
  moreover have "px_step demo_env (handle_accept False (proxy_new junk)) s1" by (rule incoming) (rule s1)
  moreover have "px_step demo_env s1 s" by (rule incoming) (rule s1)
  ultimately show ?thesis by (meson rtranclp.intros)
qed

theorem proxy_never_connects_witness:
  "\<exists>s. (px_step demo_env)\<^sup>*\<^sup>* (proxy_new Halt) s \<and> px_asked s \<noteq> [] \<and> px_connects s = 0 \<and> px_wire s = []"
proof -
  obtain s m where s: "demo_run Halt = Inr s" "px_asked s = [(0, m)]" using demo_run_state [of Halt] by blast
  have r: "(px_step demo_env)\<^sup>*\<^sup>* (proxy_new Halt) s" using s(1) by (rule demo_run_reached)
  show ?thesis using r s(2) proxy_never_connects [OF r] by auto
qed

theorem messages_in_order_witness:
  "\<exists>s m. (px_step demo_env)\<^sup>*\<^sup>* (proxy_new Idle) s \<and> mine 0 (px_asked s) = [m] \<and>
    prefix (mine 0 (px_wire s)) (mine 0 (px_asked s))"
proof -
  obtain s m where s: "demo_run Idle = Inr s" "px_asked s = [(0, m)]" using demo_run_state [of Idle] by blast
  have r: "(px_step demo_env)\<^sup>*\<^sup>* (proxy_new Idle) s" using s(1) by (rule demo_run_reached)
  have "mine 0 (px_asked s) = [m]" using s(2) by (simp add: mine_def)
  then show ?thesis using r messages_in_order [OF r, of 0] by blast
qed

theorem all_gone_undefined_witness:
  "push_handle_write Written ((proxy_new Writing)\<lparr>px_bufs := [0, 1]\<rparr>) = Inl Undefined"
  using all_gone_undefined [of "(proxy_new Writing)\<lparr>px_bufs := [0, 1]\<rparr>" 0 1 "[]" Written]
  by (simp add: proxy_new_def)

end
