(* ===== verification/Js_Sax.thy ===== *)
theory Js_Sax
  imports Wap_Text
begin

section \<open>The event driven JSON reader (js.cc)\<close>

text \<open>
  \<open>jsax_array\<close>, \<open>jsax_walk\<close> and the three readers of scalars run over one buffer from
  \<open>beg\<close> to \<open>end\<close> and call the client's nodes on the way. A position is an offset into the
  buffer; the byte behind the last one is the terminating zero of the \<open>std::string\<close> of \<open>main\<close>.
  The exception \<open>jsax_fail\<close> is a result with the position it carries. The recursion is given
  fuel, and \<open>reader_within\<close> shows how much is enough. Exceptions a client's node throws are
  not modelled.
\<close>

subsection \<open>Positions and scalars\<close>

definition cur :: "string \<Rightarrow> nat \<Rightarrow> char" where
  "cur s b = (if b < length s then s ! b else CHR 0x00)"

function skipss :: "string \<Rightarrow> nat \<Rightarrow> nat" where
  "skipss s b = (if b < length s \<and> c_isspace (s ! b) then skipss s (Suc b) else b)"
  by pat_completeness auto
termination by (relation "measure (\<lambda>(s, b). length s - b)") auto

declare skipss.simps [simp del]

text \<open>A scalar gives its text and the position behind it, or the position of the failure.\<close>

type_synonym scalar = "nat + (string \<times> nat)"

definition jsax_string :: "string \<Rightarrow> nat \<Rightarrow> scalar" where
  "jsax_string s b =
     (let sb = skipss s b in
      if cur s sb \<notin> {CHR 0x22, CHR 0x27} \<or> length s \<le> sb + 1 then Inl sb
      else let e = find_in (cur s sb) s (sb + 1) (length s)
           in if e = length s then Inl sb else Inr (slice s (sb + 1) e, e + 1))"

function digits_end :: "string \<Rightarrow> nat \<Rightarrow> nat" where
  "digits_end s b = (if b < length s \<and> (c_isdigit (s ! b) \<or> s ! b = CHR ''.'') then digits_end s (Suc b) else b)"
  by pat_completeness auto
termination by (relation "measure (\<lambda>(s, b). length s - b)") auto

declare digits_end.simps [simp del]

definition jsax_digital :: "string \<Rightarrow> nat \<Rightarrow> scalar" where
  "jsax_digital s b =
     (let sb = skipss s b; d = (if cur s sb \<in> {CHR ''-'', CHR ''+''} then sb + 1 else sb) in
      if length s \<le> d \<or> \<not> c_isdigit (cur s d) then Inl sb
      else let e = digits_end s (d + 1)
           in if 1 < count_list (slice s sb e) CHR ''.'' then Inl sb else Inr (slice s sb e, e))"

definition jsax_boolean :: "string \<Rightarrow> nat \<Rightarrow> scalar" where
  "jsax_boolean s b =
     (let sb = skipss s b in
      if cur s sb \<in> {CHR ''T'', CHR ''t''}
      then (if slice s (sb + 1) (sb + 4) = ''rue'' then Inr (slice s sb (sb + 4), sb + 4) else Inl sb)
      else if cur s sb \<in> {CHR ''F'', CHR ''f''}
      then (if slice s (sb + 1) (sb + 5) = ''alse'' then Inr (slice s sb (sb + 5), sb + 5) else Inl sb)
      else Inl sb)"

subsection \<open>The client's nodes\<close>

text \<open>
  The key is a union: an index inside \<open>[\<close>, a piece of the buffer inside \<open>{\<close>. A node is one of
  the client's, or the static \<open>jsax_nullnode\<close> that takes the place of a null pointer.
\<close>

datatype jkey = Idx u32 | Name string

datatype jty = Ty_Str | Ty_Int | Ty_Bool

datatype 'n jnode = Client 'n | Nullnode

record ('n, 's) jsnode =
  on_New :: "'n \<Rightarrow> jkey \<Rightarrow> string \<Rightarrow> 's \<Rightarrow> 'n option \<times> 's"
  on_Fin :: "'n \<Rightarrow> jkey \<Rightarrow> 'n jnode \<Rightarrow> 's \<Rightarrow> 's"
  on_Set :: "'n \<Rightarrow> jkey \<Rightarrow> string \<Rightarrow> jty \<Rightarrow> 's \<Rightarrow> 's"

fun jsax_new :: "('n, 's) jsnode \<Rightarrow> 'n jnode \<Rightarrow> jkey \<Rightarrow> string \<Rightarrow> 's \<Rightarrow> 'n jnode option \<times> 's" where
  "jsax_new H (Client n) k x st = (case on_New H n k x st of (r, st1) \<Rightarrow> (map_option Client r, st1))"
| "jsax_new H Nullnode k x st = (Some Nullnode, st)"

fun jsax_done :: "('n, 's) jsnode \<Rightarrow> 'n jnode \<Rightarrow> jkey \<Rightarrow> 'n jnode \<Rightarrow> 's \<Rightarrow> 's" where
  "jsax_done H (Client n) k m st = on_Fin H n k m st"
| "jsax_done H Nullnode k m st = st"

fun jsax_set :: "('n, 's) jsnode \<Rightarrow> 'n jnode \<Rightarrow> jkey \<Rightarrow> string \<Rightarrow> jty \<Rightarrow> 's \<Rightarrow> 's" where
  "jsax_set H (Client n) k x t st = on_Set H n k x t st"
| "jsax_set H Nullnode k x t st = st"

definition child_of :: "'n jnode option \<Rightarrow> 'n jnode" where
  "child_of r = (case r of None \<Rightarrow> Nullnode | Some m \<Rightarrow> m)"

subsection \<open>The reader\<close>

datatype 's jret = Jpos nat 's | Jfail nat 's

text \<open>The closing bracket is two behind the opening one in ASCII.\<close>

definition closes :: "char \<Rightarrow> char \<Rightarrow> bool" where
  "closes c p \<longleftrightarrow> (of_char p :: int) = of_char c + 2"

text \<open>The key of the next element: the member before it, or the index one higher.\<close>

definition next_key :: "string \<Rightarrow> char \<Rightarrow> u32 \<Rightarrow> nat \<Rightarrow> nat + (jkey \<times> nat)" where
  "next_key s ty i b =
     (if ty = CHR ''['' then Inr (Idx (i + 1), b)
      else case jsax_string s b of
          Inl p \<Rightarrow> Inl p
        | Inr (x, b1) \<Rightarrow>
            let b2 = skipss s b1
            in if b2 = length s \<or> cur s b2 \<noteq> CHR '':'' then Inl b2 else Inr (Name x, b2 + 1))"

text \<open>The scalar that its first byte announces; \<open>None\<close> is the default of the \<open>switch\<close>.\<close>

definition jsax_scalar :: "string \<Rightarrow> nat \<Rightarrow> (scalar \<times> jty) option" where
  "jsax_scalar s b =
     (let c = cur s b in
      if c \<in> {CHR 0x22, CHR 0x27} then Some (jsax_string s b, Ty_Str)
      else if c \<in> {CHR ''+'', CHR ''-''} \<or> c_isdigit c then Some (jsax_digital s b, Ty_Int)
      else if c \<in> {CHR ''T'', CHR ''F'', CHR ''t'', CHR ''f''} then Some (jsax_boolean s b, Ty_Bool)
      else None)"

function jsax_array :: "('n, 's) jsnode \<Rightarrow> string \<Rightarrow> nat \<Rightarrow> 'n jnode \<Rightarrow> nat \<Rightarrow> 's \<Rightarrow> 's jret option"
and jsax_items :: "('n, 's) jsnode \<Rightarrow> string \<Rightarrow> nat \<Rightarrow> 'n jnode \<Rightarrow> char \<Rightarrow> u32 \<Rightarrow> nat \<Rightarrow> 's \<Rightarrow> 's jret option"
and jsax_walk :: "('n, 's) jsnode \<Rightarrow> string \<Rightarrow> nat \<Rightarrow> 'n jnode \<Rightarrow> jkey \<Rightarrow> nat \<Rightarrow> 's \<Rightarrow> 's jret option" where
  "jsax_array H s 0 nd b st = None"
| "jsax_array H s (Suc n) nd b st =
     (let sb = skipss s b in
      if cur s sb \<noteq> CHR ''{'' \<and> cur s sb \<noteq> CHR ''['' then Some (Jfail sb st)
      else let p = skipss s (sb + 1) in
           if p = length s then Some (Jfail sb st)
           else if closes (cur s sb) (cur s p) then Some (Jpos (p + 1) st)
           else jsax_items H s n nd (cur s sb) 0 sb st)"
| "jsax_items H s 0 nd ty i b st = None"
| "jsax_items H s (Suc n) nd ty i b st =
     (case next_key s ty i (b + 1) of
        Inl p \<Rightarrow> Some (Jfail p st)
      | Inr (k, b1) \<Rightarrow>
          (case jsax_walk H s n nd k b1 st of
             None \<Rightarrow> None
           | Some (Jfail p st1) \<Rightarrow> Some (Jfail p st1)
           | Some (Jpos b2 st1) \<Rightarrow>
               let b3 = skipss s b2 in
               if cur s b3 = CHR '','' then jsax_items H s n nd ty (i + 1) b3 st1
               else if closes ty (cur s b3) then Some (Jpos (b3 + 1) st1)
               else Some (Jfail b3 st1)))"
| "jsax_walk H s 0 nd k b st = None"
| "jsax_walk H s (Suc n) nd k b st =
     (let b1 = skipss s b in
      if length s \<le> b1 then Some (Jpos b1 st)
      else if cur s b1 = CHR ''{'' \<or> cur s b1 = CHR ''['' then
        (case jsax_new H nd k (drop b1 s) st of (r, st1) \<Rightarrow>
           (case jsax_array H s n (child_of r) b1 st1 of
              None \<Rightarrow> None
            | Some (Jfail p st2) \<Rightarrow> Some (Jfail p st2)
            | Some (Jpos b2 st2) \<Rightarrow> Some (Jpos b2 (jsax_done H nd k (child_of r) st2))))
      else case jsax_scalar s b1 of
          None \<Rightarrow> Some (Jfail b1 st)
        | Some (Inl p, t) \<Rightarrow> Some (Jfail p st)
        | Some (Inr (x, b2), t) \<Rightarrow> Some (Jpos b2 (jsax_set H nd k x t st)))"
  by pat_completeness auto
termination
  by (relation "measure (\<lambda>x. case x of Inl (H, s, n, _) \<Rightarrow> n | Inr (Inl (H, s, n, _)) \<Rightarrow> n | Inr (Inr (H, s, n, _)) \<Rightarrow> n)") auto

text \<open>\<open>jsax_parse\<close>: the error code, and the position the reader came to.\<close>

definition jsax_fuel :: "string \<Rightarrow> nat" where
  "jsax_fuel s = 3 * length s + 1"

definition jsax_parse :: "('n, 's) jsnode \<Rightarrow> string \<Rightarrow> 'n jnode \<Rightarrow> nat \<Rightarrow> 's \<Rightarrow> (int \<times> nat \<times> 's) option" where
  "jsax_parse H s nd b st = (case jsax_array H s (jsax_fuel s) nd b st of
     None \<Rightarrow> None
   | Some (Jpos p st1) \<Rightarrow> Some (0, p, st1)
   | Some (Jfail p st1) \<Rightarrow> Some (1, p, st1))"

lemmas skipss_step = skipss.simps
lemmas digits_step = digits_end.simps

subsection \<open>Bounds and termination\<close>

lemma skipss_ge: "b \<le> skipss s b"
proof (induction s b rule: skipss.induct)
  case (1 s b)
  show ?case
  proof (cases "b < length s \<and> c_isspace (s ! b)")
    case True
    then show ?thesis using 1 by (subst skipss_step) simp
  next
    case False
    then show ?thesis by (subst skipss_step) auto
  qed
qed

lemma skipss_le [simp]: "b \<le> length s \<Longrightarrow> skipss s b \<le> length s"
  by (induction s b rule: skipss.induct) (subst skipss_step, simp)

lemma digits_ge: "b \<le> digits_end s b"
proof (induction s b rule: digits_end.induct)
  case (1 s b)
  show ?case
  proof (cases "b < length s \<and> (c_isdigit (s ! b) \<or> s ! b = CHR ''.'')")
    case True
    then show ?thesis using 1 by (subst digits_step) simp
  next
    case False
    then show ?thesis by (subst digits_step) auto
  qed
qed

lemma digits_le [simp]: "b \<le> length s \<Longrightarrow> digits_end s b \<le> length s"
  by (induction s b rule: digits_end.induct) (subst digits_step, simp)

lemma cur_end [simp]: "length s \<le> b \<Longrightarrow> cur s b = CHR 0x00"
  by (simp add: cur_def)

lemma cur_inside: "cur s b \<noteq> CHR 0x00 \<Longrightarrow> b < length s"
  by (cases "b < length s") auto

text \<open>A reader that starts inside the buffer stays inside, and what it accepts is not empty.\<close>

definition scalar_within :: "string \<Rightarrow> nat \<Rightarrow> scalar \<Rightarrow> bool" where
  "scalar_within s b r = (case r of Inl p \<Rightarrow> b \<le> p \<and> p \<le> length s | Inr (x, p) \<Rightarrow> b < p \<and> p \<le> length s)"

lemma find_in_range: "b \<le> e \<Longrightarrow> b \<le> find_in c s b e \<and> find_in c s b e \<le> e"
  using find_in_bounds find_in_ge by metis

lemma string_within:
  assumes "b \<le> length s"
  shows "scalar_within s b (jsax_string s b)"
proof -
  have sk: "b \<le> skipss s b" "skipss s b \<le> length s" using assms by (auto simp: skipss_ge)
  show ?thesis
  proof (cases "length s \<le> skipss s b + 1")
    case True
    then show ?thesis using sk by (simp add: jsax_string_def scalar_within_def)
  next
    case False
    then show ?thesis
      using sk find_in_range [of "skipss s b + 1" "length s" "cur s (skipss s b)" s]
      by (auto simp: jsax_string_def scalar_within_def Let_def)
  qed
qed

lemma digital_within:
  assumes "b \<le> length s"
  shows "scalar_within s b (jsax_digital s b)"
proof -
  define sb where "sb = skipss s b"
  define d where "d = (if cur s sb \<in> {CHR ''-'', CHR ''+''} then sb + 1 else sb)"
  have sk: "b \<le> sb" "sb \<le> length s" using assms by (auto simp: skipss_ge sb_def)
  have "sb \<le> d" by (simp add: d_def)
  moreover have "d < length s \<Longrightarrow> d < digits_end s (d + 1) \<and> digits_end s (d + 1) \<le> length s"
    using digits_ge [of "d + 1" s] by simp
  moreover have "jsax_digital s b = (if length s \<le> d \<or> \<not> c_isdigit (cur s d) then Inl sb
      else if 1 < count_list (slice s sb (digits_end s (d + 1))) CHR ''.'' then Inl sb
      else Inr (slice s sb (digits_end s (d + 1)), digits_end s (d + 1)))"
    by (simp add: jsax_digital_def Let_def sb_def d_def)
  ultimately show ?thesis using sk by (auto simp: scalar_within_def)
qed

lemma slice_full: "slice s b e = x \<Longrightarrow> b \<le> length s \<Longrightarrow> length x = e - b \<Longrightarrow> b < e \<Longrightarrow> e \<le> length s"
  by (auto simp: slice_def)

lemma boolean_within:
  assumes "b \<le> length s"
  shows "scalar_within s b (jsax_boolean s b)"
proof -
  have sk: "b \<le> skipss s b" "skipss s b \<le> length s" using assms by (auto simp: skipss_ge)
  show ?thesis
  proof (cases "skipss s b < length s")
    case True
    then show ?thesis
      using sk slice_full [of s "skipss s b + 1" "skipss s b + 4"] slice_full [of s "skipss s b + 1" "skipss s b + 5"]
      by (auto simp: jsax_boolean_def scalar_within_def Let_def)
  next
    case False
    then show ?thesis using sk by (simp add: jsax_boolean_def scalar_within_def)
  qed
qed

lemma scalar_bounds:
  assumes "jsax_scalar s b = Some (r, t)" "b \<le> length s"
  shows "scalar_within s b r"
  using assms by (auto simp: jsax_scalar_def Let_def string_within digital_within boolean_within split: if_splits)

lemma key_within:
  assumes "b \<le> length s"
  shows "case next_key s ty i b of Inl p \<Rightarrow> b \<le> p \<and> p \<le> length s | Inr (k, p) \<Rightarrow> b \<le> p \<and> p \<le> length s"
proof (cases "jsax_string s b")
  case (Inl p)
  then show ?thesis using string_within [OF assms] assms by (auto simp: next_key_def scalar_within_def)
next
  case (Inr r)
  then obtain x b1 where r: "jsax_string s b = Inr (x, b1)" by (cases r) auto
  then have b1: "b < b1" "b1 \<le> length s" using string_within [OF assms] by (auto simp: scalar_within_def)
  then have "b1 \<le> skipss s b1" "skipss s b1 \<le> length s" by (auto simp: skipss_ge)
  moreover have "cur s (skipss s b1) = CHR '':'' \<Longrightarrow> skipss s b1 < length s" by (intro cur_inside) simp
  ultimately show ?thesis using r b1 assms by (auto simp: next_key_def Let_def)
qed

definition ret_within :: "string \<Rightarrow> nat \<Rightarrow> nat \<Rightarrow> 's jret option \<Rightarrow> bool" where
  "ret_within s b d r = (case r of None \<Rightarrow> False
     | Some (Jpos p st) \<Rightarrow> b + d \<le> p \<and> p \<le> length s | Some (Jfail p st) \<Rightarrow> b \<le> p \<and> p \<le> length s)"

lemma ret_withinI [simp]:
  "ret_within s b d (Some (Jpos p st)) \<longleftrightarrow> b + d \<le> p \<and> p \<le> length s"
  "ret_within s b d (Some (Jfail p st)) \<longleftrightarrow> b \<le> p \<and> p \<le> length s"
  "\<not> ret_within s b d None"
  by (simp_all add: ret_within_def)

lemma ret_withinE:
  assumes "ret_within s b d r"
  obtains p st where "r = Some (Jpos p st)" "b + d \<le> p" "p \<le> length s"
        | p st where "r = Some (Jfail p st)" "b \<le> p" "p \<le> length s"
  using assms by (auto simp: ret_within_def split: option.splits jret.splits)

lemma closes_zero [simp]: "\<not> closes c CHR 0x00"
proof -
  have "of_char CHR 0x00 = (0 :: int)" "(0 :: int) \<le> of_char c" by (simp_all add: of_char_def)
  then show ?thesis by (simp add: closes_def)
qed

lemma array_within_step:
  assumes "\<And>nd ty i b st. b < length s \<Longrightarrow> 3 * (length s - b) \<le> n \<Longrightarrow> ret_within s b 1 (jsax_items H s n nd ty i b st)"
    and "b \<le> length s" "3 * (length s - b) + 1 \<le> Suc n"
  shows "ret_within s b 1 (jsax_array H s (Suc n) nd b st)"
proof -
  have sk: "b \<le> skipss s b" "skipss s b \<le> length s" using assms by (auto simp: skipss_ge)
  show ?thesis
  proof (cases "skipss s b < length s")
    case True
    have p: "skipss s b + 1 \<le> skipss s (skipss s b + 1)" "skipss s (skipss s b + 1) \<le> length s"
      using True by (auto simp: skipss_ge)
    have "ret_within s (skipss s b) 1 (jsax_items H s n nd (cur s (skipss s b)) 0 (skipss s b) st)"
      using True sk assms(3) by (intro assms(1)) auto
    then have "ret_within s b 1 (jsax_items H s n nd (cur s (skipss s b)) 0 (skipss s b) st)"
      using sk by (auto elim!: ret_withinE)
    then show ?thesis using sk p by (auto simp: Let_def)
  next
    case False
    then show ?thesis using sk by (simp add: Let_def)
  qed
qed

lemma items_within_step:
  assumes W: "\<And>nd k b st. b \<le> length s \<Longrightarrow> 3 * (length s - b) + 2 \<le> n \<Longrightarrow> ret_within s b 0 (jsax_walk H s n nd k b st)"
    and I: "\<And>nd ty i b st. b < length s \<Longrightarrow> 3 * (length s - b) \<le> n \<Longrightarrow> ret_within s b 1 (jsax_items H s n nd ty i b st)"
    and "b < length s" "3 * (length s - b) \<le> Suc n"
  shows "ret_within s b 1 (jsax_items H s (Suc n) nd ty i b st)"
proof (cases "next_key s ty i (b + 1)")
  case (Inl p)
  then show ?thesis using key_within [of "b + 1" s ty i] assms by auto
next
  case (Inr r)
  then obtain k b1 where k: "next_key s ty i (b + 1) = Inr (k, b1)" by (cases r) auto
  then have b1: "b + 1 \<le> b1" "b1 \<le> length s" using key_within [of "b + 1" s ty i] assms by auto
  have "ret_within s b1 0 (jsax_walk H s n nd k b1 st)" using b1 assms(4) by (intro W) auto
  then show ?thesis
  proof (cases rule: ret_withinE)
    case (1 b2 st1)
    define b3 where "b3 = skipss s b2"
    have b3: "b2 \<le> b3" "b3 \<le> length s" using 1 by (auto simp: skipss_ge b3_def)
    show ?thesis
    proof (cases "cur s b3 = CHR '',''")
      case True
      then have "b3 < length s" by (intro cur_inside) simp
      then have "ret_within s b3 1 (jsax_items H s n nd ty (i + 1) b3 st1)" using b1 1 b3 assms(4) by (intro I) auto
      then show ?thesis using 1 b1 b3 True k by (auto simp: Let_def b3_def [symmetric] elim!: ret_withinE)
    next
      case False
      moreover have "closes ty (cur s b3) \<Longrightarrow> b3 < length s"
        by (intro cur_inside) (auto simp: closes_zero)
      ultimately show ?thesis using 1 b1 b3 k by (auto simp: Let_def b3_def [symmetric])
    qed
  next
    case (2 p st1)
    then show ?thesis using b1 k by auto
  qed
qed

lemma walk_within_step:
  assumes A: "\<And>nd b st. b \<le> length s \<Longrightarrow> 3 * (length s - b) + 1 \<le> n \<Longrightarrow> ret_within s b 1 (jsax_array H s n nd b st)"
    and "b \<le> length s" "3 * (length s - b) + 2 \<le> Suc n"
  shows "ret_within s b 0 (jsax_walk H s (Suc n) nd k b st)"
proof -
  define b1 where "b1 = skipss s b"
  have b1: "b \<le> b1" "b1 \<le> length s" using assms by (auto simp: skipss_ge b1_def)
  obtain r st1 where new: "jsax_new H nd k (drop b1 s) st = (r, st1)" by (cases "jsax_new H nd k (drop b1 s) st")
  have "ret_within s b1 1 (jsax_array H s n (child_of r) b1 st1)" using b1 assms(3) by (intro A) auto
  moreover have "case jsax_scalar s b1 of None \<Rightarrow> True | Some (q, t) \<Rightarrow> scalar_within s b1 q"
    using scalar_bounds b1 by (auto split: option.splits)
  ultimately show ?thesis
    using b1 new
    by (auto simp: Let_def b1_def [symmetric] scalar_within_def elim!: ret_withinE split: option.splits sum.splits prod.splits)
qed

lemma reader_within:
  "(b \<le> length s \<longrightarrow> 3 * (length s - b) + 1 \<le> n \<longrightarrow> ret_within s b 1 (jsax_array H s n nd b st)) \<and>
   (b < length s \<longrightarrow> 3 * (length s - b) \<le> n \<longrightarrow> ret_within s b 1 (jsax_items H s n nd ty i b st)) \<and>
   (b \<le> length s \<longrightarrow> 3 * (length s - b) + 2 \<le> n \<longrightarrow> ret_within s b 0 (jsax_walk H s n nd k b st))"
proof (induction n arbitrary: nd b st ty i k)
  case 0
  then show ?case by auto
next
  case (Suc n)
  show ?case
    by (intro conjI impI array_within_step items_within_step walk_within_step) (use Suc in auto)
qed


lemma parse_within:
  assumes "b \<le> length s"
  shows "\<exists>ec p st1. jsax_parse H s nd b st = Some (ec, p, st1) \<and> ec \<in> {0, 1} \<and> b \<le> p \<and> p \<le> length s \<and> (ec = 0 \<longrightarrow> b < p)"
proof -
  have "ret_within s b 1 (jsax_array H s (jsax_fuel s) nd b st)"
    using reader_within [of b s "jsax_fuel s" H nd st] assms by (simp add: jsax_fuel_def)
  then show ?thesis by (auto simp: jsax_parse_def elim!: ret_withinE)
qed

subsection \<open>The node and the loop of \<open>main\<close>\<close>

text \<open>\<open>P\<close> prints what it is called with and is its own child.\<close>

datatype jevent = Ev_New jkey string | Ev_Fin jkey | Ev_Set jkey string

definition P_node :: "(unit, jevent list) jsnode" where
  "P_node = \<lparr>on_New = (\<lambda>n k x st. (Some n, st @ [Ev_New k x])), on_Fin = (\<lambda>n k m st. st @ [Ev_Fin k]),
     on_Set = (\<lambda>n k x t st. st @ [Ev_Set k x])\<rparr>"

lemma parse_progress: "jsax_parse H s nd b st = Some (0, p, st1) \<Longrightarrow> b < length s \<Longrightarrow> b < p \<and> p \<le> length s"
  using parse_within [of b s H nd st] by auto

text \<open>
  A line holds one text behind the other; each is written out when it was read, and the first
  error drops the rest.
\<close>

function json_line :: "('n, 's) jsnode \<Rightarrow> 'n jnode \<Rightarrow> string \<Rightarrow> nat \<Rightarrow> 's \<Rightarrow> string list \<times> 's" where
  "json_line H nd s b st =
     (if b < length s
      then case jsax_parse H s nd b st of
          None \<Rightarrow> ([], st)
        | Some (ec, p, st1) \<Rightarrow>
            if ec \<noteq> 0 then ([], st1)
            else (case json_line H nd s p st1 of (out, st2) \<Rightarrow> (slice s b p # out, st2))
      else ([], st))"
  by pat_completeness auto
termination by (relation "measure (\<lambda>(H, nd, s, b, st). length s - b)") (auto dest: parse_progress)

subsection \<open>The grammar the reader is for\<close>

text \<open>
  A reference grammar for the accepted texts, with the value tree of each. A container carries
  the offset it starts at. \<open>here s b t\<close> says that the buffer holds \<open>t\<close> at \<open>b\<close>.
\<close>

datatype jv = VStr string | VInt string | VBool string | VArr nat "jv list" | VObj nat "(string \<times> jv) list"

definition numeral_text :: "string \<Rightarrow> bool" where
  "numeral_text x \<longleftrightarrow>
     (\<exists>sg c y. sg \<in> {[], ''-'', ''+''} \<and> x = sg @ c # y \<and> c_isdigit c \<and>
        list_all (\<lambda>c. c_isdigit c \<or> c = CHR ''.'') y \<and> count_list x CHR ''.'' \<le> 1)"

definition quoted :: "string \<Rightarrow> string \<Rightarrow> bool" where
  "quoted x t \<longleftrightarrow> (\<exists>q \<in> {CHR 0x22, CHR 0x27}. q \<notin> set x \<and> t = q # x @ [q])"

abbreviation blank :: "string \<Rightarrow> bool" where
  "blank w \<equiv> list_all c_isspace w"

inductive jval :: "nat \<Rightarrow> jv \<Rightarrow> string \<Rightarrow> bool"
  and jelems :: "nat \<Rightarrow> jv list \<Rightarrow> string \<Rightarrow> bool"
  and jmems :: "nat \<Rightarrow> (string \<times> jv) list \<Rightarrow> string \<Rightarrow> bool" where
  v_str: "quoted x t \<Longrightarrow> jval b (VStr x) t"
| v_int: "numeral_text t \<Longrightarrow> jval b (VInt t) t"
| v_bool: "t \<in> {''true'', ''True'', ''false'', ''False''} \<Longrightarrow> jval b (VBool t) t"
| v_arr0: "blank w \<Longrightarrow> jval b (VArr b []) (''['' @ w @ '']'')"
| v_arr: "jelems (b + 1) vs t \<Longrightarrow> jval b (VArr b vs) (''['' @ t @ '']'')"
| v_obj0: "blank w \<Longrightarrow> jval b (VObj b []) (''{'' @ w @ ''}'')"
| v_obj: "jmems (b + 1) ms t \<Longrightarrow> jval b (VObj b ms) (''{'' @ t @ ''}'')"
| e_last: "blank w \<Longrightarrow> jval (b + length w) v t \<Longrightarrow> blank w' \<Longrightarrow> jelems b [v] (w @ t @ w')"
| e_more: "blank w \<Longrightarrow> jval (b + length w) v t \<Longrightarrow> blank w' \<Longrightarrow> jelems (b + length w + length t + length w' + 1) vs ts \<Longrightarrow>
    jelems b (v # vs) (w @ t @ w' @ '','' @ ts)"
| m_last: "blank w1 \<Longrightarrow> quoted x k \<Longrightarrow> blank w2 \<Longrightarrow> blank w \<Longrightarrow>
    jval (b + length w1 + length k + length w2 + 1 + length w) v t \<Longrightarrow> blank w' \<Longrightarrow>
    jmems b [(x, v)] (w1 @ k @ w2 @ '':'' @ w @ t @ w')"
| m_more: "blank w1 \<Longrightarrow> quoted x k \<Longrightarrow> blank w2 \<Longrightarrow> blank w \<Longrightarrow>
    jval (b + length w1 + length k + length w2 + 1 + length w) v t \<Longrightarrow> blank w' \<Longrightarrow>
    jmems (b + length w1 + length k + length w2 + 1 + length w + length t + length w' + 1) ms ts \<Longrightarrow>
    jmems b ((x, v) # ms) (w1 @ k @ w2 @ '':'' @ w @ t @ w' @ '','' @ ts)"

text \<open>The calls a value stands for. The first element of an array has index 1.\<close>

fun play :: "('n, 's) jsnode \<Rightarrow> string \<Rightarrow> 'n jnode \<Rightarrow> jkey \<Rightarrow> jv \<Rightarrow> 's \<Rightarrow> 's"
and play_arr :: "('n, 's) jsnode \<Rightarrow> string \<Rightarrow> 'n jnode \<Rightarrow> u32 \<Rightarrow> jv list \<Rightarrow> 's \<Rightarrow> 's"
and play_obj :: "('n, 's) jsnode \<Rightarrow> string \<Rightarrow> 'n jnode \<Rightarrow> (string \<times> jv) list \<Rightarrow> 's \<Rightarrow> 's" where
  "play H s nd k (VStr x) st = jsax_set H nd k x Ty_Str st"
| "play H s nd k (VInt x) st = jsax_set H nd k x Ty_Int st"
| "play H s nd k (VBool x) st = jsax_set H nd k x Ty_Bool st"
| "play H s nd k (VArr b vs) st = (case jsax_new H nd k (drop b s) st of (r, st1) \<Rightarrow>
     jsax_done H nd k (child_of r) (play_arr H s (child_of r) 0 vs st1))"
| "play H s nd k (VObj b ms) st = (case jsax_new H nd k (drop b s) st of (r, st1) \<Rightarrow>
     jsax_done H nd k (child_of r) (play_obj H s (child_of r) ms st1))"
| "play_arr H s nd i [] st = st"
| "play_arr H s nd i (v # vs) st = play_arr H s nd (i + 1) vs (play H s nd (Idx (i + 1)) v st)"
| "play_obj H s nd [] st = st"
| "play_obj H s nd ((x, v) # ms) st = play_obj H s nd ms (play H s nd (Name x) v st)"

fun play_doc :: "('n, 's) jsnode \<Rightarrow> string \<Rightarrow> 'n jnode \<Rightarrow> jv \<Rightarrow> 's \<Rightarrow> 's" where
  "play_doc H s nd (VArr b vs) st = play_arr H s nd 0 vs st"
| "play_doc H s nd (VObj b ms) st = play_obj H s nd ms st"
| "play_doc H s nd v st = st"

fun is_doc :: "jv \<Rightarrow> bool" where
  "is_doc (VArr b vs) = True"
| "is_doc (VObj b ms) = True"
| "is_doc v = False"

definition here :: "string \<Rightarrow> nat \<Rightarrow> string \<Rightarrow> bool" where
  "here s b t \<longleftrightarrow> take (length t) (drop b s) = t"

lemma here_Nil [simp]: "here s b []"
  by (simp add: here_def)

lemma here_Cons [simp]: "here s b (c # t) \<longleftrightarrow> b < length s \<and> cur s b = c \<and> here s (b + 1) t"
proof (cases "b < length s")
  case True
  then have "drop b s = s ! b # drop (Suc b) s" by (simp add: Cons_nth_drop_Suc)
  then show ?thesis using True by (auto simp: here_def cur_def)
qed (auto simp: here_def)

lemma here_append [simp]: "here s b (x @ y) \<longleftrightarrow> here s b x \<and> here s (b + length x) y"
  by (induction x arbitrary: b) auto

lemma here_le: "here s b t \<Longrightarrow> b \<le> length s \<Longrightarrow> b + length t \<le> length s"
proof (induction t arbitrary: b)
  case (Cons c t)
  then show ?case using Cons.IH [of "b + 1"] by simp
qed simp

lemma here_slice: "e \<le> length s \<Longrightarrow> here s b (slice s b e)"
  by (simp add: here_def slice_def min_def)

subsection \<open>What the grammar generates is accepted\<close>

lemma skipss_blank:
  assumes "blank w" "here s b w" "\<not> c_isspace (cur s (b + length w))"
  shows "skipss s b = b + length w"
  using assms
proof (induction w arbitrary: b)
  case Nil
  then show ?case by (subst skipss_step) (auto simp: cur_def)
next
  case (Cons c w)
  then have "skipss s (b + 1) = b + 1 + length w" by (intro Cons.IH) auto
  then show ?case using Cons.prems by (subst skipss_step) (auto simp: cur_def)
qed

lemma digits_end_text:
  assumes "list_all (\<lambda>c. c_isdigit c \<or> c = CHR ''.'') x" "here s b x"
    "\<not> (c_isdigit (cur s (b + length x)) \<or> cur s (b + length x) = CHR ''.'')"
  shows "digits_end s b = b + length x"
  using assms
proof (induction x arbitrary: b)
  case Nil
  then show ?case by (subst digits_step) (auto simp: cur_def)
next
  case (Cons c x)
  then have "digits_end s (b + 1) = b + 1 + length x" by (intro Cons.IH) auto
  then show ?case using Cons.prems by (subst digits_step) (auto simp: cur_def)
qed

lemma slice_here: "here s b t \<Longrightarrow> slice s b (b + length t) = t"
  by (simp add: here_def slice_def)

lemma find_in_here:
  assumes "here s b (x @ [q])" "q \<notin> set x"
  shows "find_in q s b (length s) = b + length x"
  using assms
proof (induction x arbitrary: b)
  case Nil
  then show ?case by (subst find_in.simps) (auto simp: cur_def)
next
  case (Cons c x)
  then have "find_in q s (b + 1) (length s) = b + 1 + length x" by (intro Cons.IH) auto
  then show ?case using Cons.prems by (subst find_in.simps) (auto simp: cur_def)
qed

lemma space_not [simp]: "\<not> c_isspace CHR 0x22" "\<not> c_isspace CHR 0x27" "\<not> c_isspace CHR '':''" "\<not> c_isspace CHR '',''"
  "\<not> c_isspace CHR ''[''" "\<not> c_isspace CHR ''{''" "\<not> c_isspace CHR '']''" "\<not> c_isspace CHR ''}''" "\<not> c_isspace CHR ''+''"
  "\<not> c_isspace CHR ''-''" "\<not> c_isspace CHR ''T''" "\<not> c_isspace CHR ''F''" "\<not> c_isspace CHR ''t''" "\<not> c_isspace CHR ''f''"
  by code_simp+


lemma digit_not [simp]: "c_isdigit c \<Longrightarrow> \<not> c_isspace c"
  by (auto simp: c_isdigit_def c_isspace_def)

lemma digit_not2: "c_isdigit c \<Longrightarrow> c \<notin> {CHR 0x22, CHR 0x27, CHR ''-'', CHR ''+'', CHR ''{'', CHR ''[''}"
  by (auto simp: c_isdigit_def)

lemma string_here:
  assumes "quoted x t" "blank w" "here s b (w @ t)"
  shows "jsax_string s b = Inr (x, b + length w + length t)"
proof -
  obtain q where q: "q \<in> {CHR 0x22, CHR 0x27}" "q \<notin> set x" "t = q # x @ [q]"
    using assms(1) by (auto simp: quoted_def)
  have sk: "skipss s b = b + length w" using assms q by (intro skipss_blank) auto
  have "find_in q s (b + length w + 1) (length s) = b + length w + 1 + length x"
    using assms(3) q by (intro find_in_here) auto
  moreover have "slice s (b + length w + 1) (b + length w + 1 + length x) = x"
    using assms(3) q by (intro slice_here) auto
  ultimately show ?thesis using assms(3) q by (auto simp: jsax_string_def Let_def sk)
qed

lemma digital_here:
  assumes "numeral_text t" "here s b t" "\<not> (c_isdigit (cur s (b + length t)) \<or> cur s (b + length t) = CHR ''.'')"
  shows "jsax_digital s b = Inr (t, b + length t)"
proof -
  obtain sg c y where t: "t = sg @ c # y" "sg \<in> {[], ''-'', ''+''}"
    and d: "c_isdigit c" "list_all (\<lambda>c. c_isdigit c \<or> c = CHR ''.'') y" "count_list t CHR ''.'' \<le> 1"
    using assms(1) unfolding numeral_text_def by blast
  have h: "here s b sg" "b + length sg < length s" "cur s (b + length sg) = c" "here s (b + length sg + 1) y"
    using assms(2) t(1) by auto
  have sk: "skipss s b = b"
    using t(2) h d(1) by (subst skipss_step) (auto simp: cur_def)
  have m: "(if cur s b \<in> {CHR ''-'', CHR ''+''} then b + 1 else b) = b + length sg"
    using t(2) h d(1) digit_not2 [of c] by auto
  have len: "length t = length sg + 1 + length y" using t(1) by simp
  have "digits_end s (b + length sg + 1) = b + length sg + 1 + length y"
    using h d(2) assms(3) len by (intro digits_end_text) (auto simp: add.assoc)
  then have e: "digits_end s (b + length sg + 1) = b + length t" using len by simp
  have "slice s b (b + length t) = t" using assms(2) by (rule slice_here)
  then show ?thesis
    unfolding jsax_digital_def Let_def sk m e using h(2,3) d by simp
qed

lemma boolean_here:
  assumes "t \<in> {''true'', ''True'', ''false'', ''False''}" "here s b t"
  shows "jsax_boolean s b = Inr (t, b + length t)"
proof -
  obtain c y where t: "t = c # y" "c \<in> {CHR ''t'', CHR ''T''} \<and> y = ''rue'' \<or> c \<in> {CHR ''f'', CHR ''F''} \<and> y = ''alse''"
    using assms(1) by auto
  have h: "b < length s" "cur s b = c" "here s (b + 1) y" using assms(2) t(1) by auto
  have sk: "skipss s b = b" using t(2) h by (subst skipss_step) (auto simp: cur_def)
  have sl: "slice s (b + 1) (b + 1 + length y) = y" "slice s b (b + 1 + length y) = t"
    using slice_here [OF h(3)] slice_here [OF assms(2)] t(1) by simp_all
  show ?thesis
  proof (cases "y = ''rue''")
    case True
    then have "c \<in> {CHR ''T'', CHR ''t''}" using t(2) by auto
    then show ?thesis unfolding jsax_boolean_def Let_def sk h(2) using sl True t(1) by (simp add: eval_nat_numeral)
  next
    case False
    then have "c \<in> {CHR ''F'', CHR ''f''}" "c \<notin> {CHR ''T'', CHR ''t''}" "y = ''alse''" using t(2) by auto
    then show ?thesis unfolding jsax_boolean_def Let_def sk h(2) using sl t(1) by (simp add: eval_nat_numeral)
  qed
qed

lemma jval_first:
  assumes "jval b v t"
  shows "t \<noteq> []" "\<not> c_isspace (hd t)" "is_doc v \<Longrightarrow> hd t \<in> {CHR ''{'', CHR ''[''}"
  using assms by (cases; cases t; auto simp: quoted_def numeral_text_def)+

lemma key_here:
  assumes "quoted x k" "blank w1" "blank w2" "here s b (w1 @ k @ w2 @ '':'')"
  shows "next_key s CHR ''{'' i b = Inr (Name x, b + length w1 + length k + length w2 + 1)"
proof -
  have "jsax_string s b = Inr (x, b + length w1 + length k)" using assms by (intro string_here) auto
  moreover have "skipss s (b + length w1 + length k) = b + length w1 + length k + length w2"
    using assms by (intro skipss_blank) auto
  ultimately show ?thesis using assms(4) by (auto simp: next_key_def Let_def)
qed

text \<open>What stands behind a value cannot be taken for a part of it.\<close>

definition ends_value :: "string \<Rightarrow> nat \<Rightarrow> bool" where
  "ends_value s b \<longleftrightarrow> \<not> (c_isdigit (cur s b) \<or> cur s b = CHR ''.'')"

lemma ends_value_delim:
  assumes "blank w" "here s b (w @ [c])" "\<not> c_isdigit c" "c \<noteq> CHR ''.''"
  shows "ends_value s b"
  using assms by (cases w) (auto simp: ends_value_def c_isspace_def c_isdigit_def)

lemma delim_not [simp]: "\<not> c_isdigit CHR '',''" "\<not> c_isdigit CHR '']''" "\<not> c_isdigit CHR ''}''" "\<not> c_isdigit CHR ''{''"
  "\<not> c_isdigit CHR ''[''" "\<not> c_isdigit CHR ''t''" "\<not> c_isdigit CHR ''f''" "\<not> c_isdigit CHR ''T''" "\<not> c_isdigit CHR ''F''"
  "\<not> c_isdigit CHR 0x22" "\<not> c_isdigit CHR 0x27"
  by code_simp+

lemma closes_simps [simp]: "closes CHR ''['' c \<longleftrightarrow> c = CHR '']''" "closes CHR ''{'' c \<longleftrightarrow> c = CHR ''}''"
proof -
  have two: "(of_char CHR ''['' :: int) + 2 = of_char CHR '']''" "(of_char CHR ''{'' :: int) + 2 = of_char CHR ''}''"
    by code_simp+
  show "closes CHR ''['' c \<longleftrightarrow> c = CHR '']''" "closes CHR ''{'' c \<longleftrightarrow> c = CHR ''}''"
    unfolding closes_def two by (rule of_char_eq_iff)+
qed

lemma walk_scalar:
  assumes "blank w" "here s b (w @ t)" "\<not> c_isspace (hd t)" "t \<noteq> []" "hd t \<notin> {CHR ''{'', CHR ''[''}"
    "jsax_scalar s (b + length w) = Some (Inr (x, b + length w + length t), ty)"
  shows "jsax_walk H s (Suc n) nd k b st = Some (Jpos (b + length w + length t) (jsax_set H nd k x ty st))"
proof -
  have "cur s (b + length w) = hd t" "b + length w < length s" using assms(2,4) by (cases t; auto)+
  moreover from this have "skipss s b = b + length w" using assms by (intro skipss_blank) auto
  ultimately show ?thesis using assms by (simp add: Let_def)
qed


definition reads :: "('n, 's) jsnode \<Rightarrow> string \<Rightarrow> nat \<Rightarrow> jv \<Rightarrow> string \<Rightarrow> bool" where
  "reads H s b v t \<longleftrightarrow>
     (if is_doc v
      then \<forall>n nd st. 3 * (length s - b) + 1 \<le> n \<longrightarrow> jsax_array H s n nd b st = Some (Jpos (b + length t) (play_doc H s nd v st))
      else \<exists>x ty. jsax_scalar s b = Some (Inr (x, b + length t), ty) \<and>
             (\<forall>nd k st. play H s nd k v st = jsax_set H nd k x ty st))"

lemma play_is_doc: "is_doc v \<Longrightarrow> jval b v t \<Longrightarrow> play H s nd k v st = (case jsax_new H nd k (drop b s) st of (r, st1) \<Rightarrow>
    jsax_done H nd k (child_of r) (play_doc H s (child_of r) v st1))"
  by (erule jval.cases) (auto split: prod.splits)

lemma walk_reads:
  assumes r: "reads H s b v t" and v: "jval b v t" and w: "blank w" "here s b0 (w @ t)" "b = b0 + length w"
    and n: "3 * (length s - b0) + 2 \<le> n"
  shows "jsax_walk H s n nd k b0 st = Some (Jpos (b + length t) (play H s nd k v st))"
proof -
  obtain m where m: "n = Suc m" using n by (cases n) auto
  have t: "cur s b = hd t" "b < length s" using w jval_first(1) [OF v] by (cases t; auto)+
  have sk: "skipss s b0 = b" using w t jval_first(2) [OF v] by (simp add: skipss_blank)
  show ?thesis
  proof (cases "is_doc v")
    case True
    obtain q st1 where q: "jsax_new H nd k (drop b s) st = (q, st1)" by (cases "jsax_new H nd k (drop b s) st")
    have "jsax_array H s m (child_of q) b st1 = Some (Jpos (b + length t) (play_doc H s (child_of q) v st1))"
      using r True n m w(3) by (simp add: reads_def)
    moreover have "hd t = CHR ''{'' \<or> hd t = CHR ''[''" using jval_first(3) [OF v True] by simp
    ultimately show ?thesis using t sk m q play_is_doc [OF True v, of H s nd k st] by (simp add: Let_def)
  next
    case False
    then obtain x ty where x: "jsax_scalar s b = Some (Inr (x, b + length t), ty)"
      "play H s nd k v st = jsax_set H nd k x ty st"
      using r by (auto simp: reads_def)
    then have "hd t \<noteq> CHR ''{'' \<and> hd t \<noteq> CHR ''[''"
      using t(1) by (auto simp: jsax_scalar_def Let_def split: if_splits)
    then show ?thesis using t sk m x by (simp add: Let_def)
  qed
qed

lemma scalar_reads:
  assumes "here s b t" "ends_value s (b + length t)"
  shows "quoted x t \<Longrightarrow> reads H s b (VStr x) t" "numeral_text t \<Longrightarrow> reads H s b (VInt t) t"
    "t \<in> {''true'', ''True'', ''false'', ''False''} \<Longrightarrow> reads H s b (VBool t) t"
proof -
  show "reads H s b (VStr x) t" if q: "quoted x t"
  proof -
    have "jsax_string s b = Inr (x, b + length t)" using string_here [OF q, of "[]" s b] assms(1) by simp
    moreover have "cur s b \<in> {CHR 0x22, CHR 0x27}" using q assms(1) by (auto simp: quoted_def)
    ultimately show ?thesis by (auto simp: reads_def jsax_scalar_def Let_def)
  qed
  show "reads H s b (VInt t) t" if q: "numeral_text t"
  proof -
    have "jsax_digital s b = Inr (t, b + length t)" using digital_here [OF q assms(1)] assms(2) by (simp add: ends_value_def)
    moreover have "cur s b \<in> {CHR ''+'', CHR ''-''} \<or> c_isdigit (cur s b)" using q assms(1) by (auto simp: numeral_text_def)
    moreover have "cur s b \<notin> {CHR 0x22, CHR 0x27}" using calculation(2) digit_not2 by auto
    ultimately show ?thesis by (auto simp: reads_def jsax_scalar_def Let_def)
  qed
  show "reads H s b (VBool t) t" if q: "t \<in> {''true'', ''True'', ''false'', ''False''}"
  proof -
    have "jsax_boolean s b = Inr (t, b + length t)" using boolean_here [OF q assms(1)] .
    moreover have "cur s b \<in> {CHR ''T'', CHR ''F'', CHR ''t'', CHR ''f''}" using q assms(1) by auto
    ultimately show ?thesis by (auto simp: reads_def jsax_scalar_def Let_def)
  qed
qed

lemma array_open:
  assumes "cur s b = c" "b < length s" "c \<in> {CHR ''{'', CHR ''[''}"
    "\<not> closes c (cur s (skipss s (b + 1)))" "skipss s (b + 1) < length s"
  shows "jsax_array H s (Suc n) nd b st = jsax_items H s n nd c 0 b st"
proof -
  have "skipss s b = b" using assms(1-3) by (auto simp: skipss_blank [of "[]", simplified])
  then show ?thesis using assms by (auto simp: Let_def)
qed

lemma array_empty:
  assumes "here s b (c # w @ [d])" "c \<in> {CHR ''{'', CHR ''[''}" "blank w" "closes c d" "3 * (length s - b) + 1 \<le> n"
  shows "jsax_array H s n nd b st = Some (Jpos (b + length w + 2) st)"
proof -
  have d: "\<not> c_isspace d" using assms(2,4) by auto
  have c: "cur s b = c" "skipss s b = b" using assms(1,2) by (auto simp: skipss_blank [of "[]", simplified])
  have "skipss s (b + 1) = b + 1 + length w" using assms(1,3) d by (intro skipss_blank) auto
  then show ?thesis using assms c by (cases n) (auto simp: Let_def)
qed

text \<open>The text of the elements starts, behind blanks, with something that is not a closing bracket.\<close>

lemma elems_first:
  assumes "jelems b vs t" "here s b t"
  shows "skipss s b < length s \<and> cur s (skipss s b) \<noteq> CHR '']''"
proof -
  obtain w v x y where t: "t = w @ x @ y" "blank w" "jval (b + length w) v x"
    using assms(1) by cases auto
  then obtain c z where c: "x = c # z" "\<not> c_isspace c" using jval_first [OF t(3)] by (cases x) auto
  have "c \<noteq> CHR '']''" using t(3) c by cases (auto simp: quoted_def numeral_text_def c_isdigit_def)
  then show ?thesis using assms(2) t c skipss_blank [of w s b] by auto
qed

lemma mems_first:
  assumes "jmems b ms t" "here s b t"
  shows "skipss s b < length s \<and> cur s (skipss s b) \<noteq> CHR ''}''"
proof -
  obtain w x k y where t: "t = w @ k @ y" "blank w" "quoted x k"
    using assms(1) by cases auto
  then obtain c z where c: "k = c # z" "c \<in> {CHR 0x22, CHR 0x27}" by (auto simp: quoted_def)
  then show ?thesis using assms(2) t c skipss_blank [of w s b] by auto
qed


lemma items_last:
  assumes key: "next_key s ty i (a + 1) = Inr (k, b)" and v: "jval (b + length w) v t" "reads H s (b + length w) v t"
    and h: "here s b (w @ t @ w' @ [d])" "blank w" "blank w'" "closes ty d" "ty \<in> {CHR ''['', CHR ''{''}"
    and n: "a < b" "3 * (length s - a) \<le> n" "a < length s"
  shows "jsax_items H s n nd ty i a st = Some (Jpos (b + length w + length t + length w' + 1) (play H s nd k v st))"
proof -
  have "n \<noteq> 0" using n(2,3) by linarith
  then obtain m where m: "n = Suc m" using not0_implies_Suc by blast
  have "jsax_walk H s m nd k b st = Some (Jpos (b + length w + length t) (play H s nd k v st))"
    using walk_reads [OF v(2,1), of w b m nd k st] h n m by auto
  moreover have "skipss s (b + length w + length t) = b + length w + length t + length w'"
    using h by (intro skipss_blank) auto
  moreover have "d \<noteq> CHR '',''" using h(4,5) by auto
  ultimately show ?thesis using key m h by (auto simp: Let_def)
qed

lemma items_more:
  assumes key: "next_key s ty i (a + 1) = Inr (k, b)" and v: "jval (b + length w) v t" "reads H s (b + length w) v t"
    and h: "here s b (w @ t @ w' @ '','')" "blank w" "blank w'"
    and n: "a < b" "3 * (length s - a) \<le> Suc m" "a < length s"
  shows "jsax_items H s (Suc m) nd ty i a st =
    jsax_items H s m nd ty (i + 1) (b + length w + length t + length w') (play H s nd k v st)"
proof -
  have "jsax_walk H s m nd k b st = Some (Jpos (b + length w + length t) (play H s nd k v st))"
    using walk_reads [OF v(2,1), of w b m nd k st] h n by auto
  moreover have "skipss s (b + length w + length t) = b + length w + length t + length w'"
    using h by (intro skipss_blank) auto
  ultimately show ?thesis using key h by (auto simp: Let_def)
qed

definition reads_elems :: "('n, 's) jsnode \<Rightarrow> string \<Rightarrow> nat \<Rightarrow> jv list \<Rightarrow> string \<Rightarrow> bool" where
  "reads_elems H s b vs t \<longleftrightarrow> (\<forall>a n nd i st. b = a + 1 \<longrightarrow> 3 * (length s - a) \<le> n \<longrightarrow>
     jsax_items H s n nd CHR ''['' i a st = Some (Jpos (b + length t + 1) (play_arr H s nd i vs st)))"

definition reads_mems :: "('n, 's) jsnode \<Rightarrow> string \<Rightarrow> nat \<Rightarrow> (string \<times> jv) list \<Rightarrow> string \<Rightarrow> bool" where
  "reads_mems H s b ms t \<longleftrightarrow> (\<forall>a n nd i st. b = a + 1 \<longrightarrow> 3 * (length s - a) \<le> n \<longrightarrow>
     jsax_items H s n nd CHR ''{'' i a st = Some (Jpos (b + length t + 1) (play_obj H s nd ms st)))"

lemma grammar_read:
  "(jval b v t \<longrightarrow> here s b t \<longrightarrow> is_doc v \<or> ends_value s (b + length t) \<longrightarrow> reads H s b v t) \<and>
   (jelems b' vs t' \<longrightarrow> here s b' (t' @ '']'') \<longrightarrow> reads_elems H s b' vs t') \<and>
   (jmems b'' ms t'' \<longrightarrow> here s b'' (t'' @ ''}'') \<longrightarrow> reads_mems H s b'' ms t'')"
proof (induction rule: jval_jelems_jmems.induct)
  case (v_str x t b)
  then show ?case using scalar_reads [where H = H] by auto
next
  case (v_int t b)
  then show ?case using scalar_reads [where H = H] by auto
next
  case (v_bool t b)
  then show ?case using scalar_reads [where H = H] by auto
next
  case (v_arr0 w b)
  then show ?case using array_empty [of s b "CHR ''[''" w "CHR '']''"] by (auto simp: reads_def)
next
  case (v_obj0 w b)
  then show ?case using array_empty [of s b "CHR ''{''" w "CHR ''}''"] by (auto simp: reads_def)
next
  case (v_arr b vs t)
  show ?case
  proof (intro impI)
    assume h: "here s b (''['' @ t @ '']'')"
    then have f: "skipss s (b + 1) < length s \<and> cur s (skipss s (b + 1)) \<noteq> CHR '']''"
      using elems_first [OF v_arr.hyps] by simp
    have "jsax_array H s n nd b st = Some (Jpos (b + length t + 2) (play_arr H s nd 0 vs st))"
      if "3 * (length s - b) + 1 \<le> n" for n nd st
    proof -
      from that obtain m where m: "n = Suc m" by (metis add_is_0 le_zero_eq not0_implies_Suc one_neq_zero)
      have "jsax_array H s n nd b st = jsax_items H s m nd CHR ''['' 0 b st"
        unfolding m using h f by (intro array_open) auto
      then show ?thesis using v_arr.IH h that m by (auto simp: reads_elems_def)
    qed
    then show "reads H s b (VArr b vs) (''['' @ t @ '']'')" by (auto simp: reads_def)
  qed
next
  case (v_obj b ms t)
  show ?case
  proof (intro impI)
    assume h: "here s b (''{'' @ t @ ''}'')"
    then have f: "skipss s (b + 1) < length s \<and> cur s (skipss s (b + 1)) \<noteq> CHR ''}''"
      using mems_first [OF v_obj.hyps] by simp
    have "jsax_array H s n nd b st = Some (Jpos (b + length t + 2) (play_obj H s nd ms st))"
      if "3 * (length s - b) + 1 \<le> n" for n nd st
    proof -
      from that obtain m where m: "n = Suc m" by (metis add_is_0 le_zero_eq not0_implies_Suc one_neq_zero)
      have "jsax_array H s n nd b st = jsax_items H s m nd CHR ''{'' 0 b st"
        unfolding m using h f by (intro array_open) auto
      then show ?thesis using v_obj.IH h that m by (auto simp: reads_mems_def)
    qed
    then show "reads H s b (VObj b ms) (''{'' @ t @ ''}'')" by (auto simp: reads_def)
  qed
next
  case (e_last w b v t w')
  then show ?case
    using items_last [of s "CHR ''[''" _ _ _ b w v t H w' "CHR '']''"]
    by (auto simp: reads_elems_def next_key_def ends_value_delim add.assoc)
next
  case (e_more w b v t w' vs ts)
  show ?case
  proof (intro impI)
    assume h: "here s b ((w @ t @ w' @ '','' @ ts) @ '']'')"
    show "reads_elems H s b (v # vs) (w @ t @ w' @ '','' @ ts)"
      unfolding reads_elems_def
    proof (intro allI impI)
      fix a n nd i st
      assume a: "b = a + 1" "3 * (length s - a) \<le> n"
      have len: "a < length s" "b + length w + length t + length w' < length s" using h a(1) by auto
      obtain m where m: "n = Suc m" using a(2) len(1) by (cases n) auto
      have "reads H s (b + length w) v t" using e_more.IH h e_more.hyps
        by (auto intro!: ends_value_delim [of w' _ _ "CHR '',''"])
      then have "jsax_items H s (Suc m) nd CHR ''['' i a st =
          jsax_items H s m nd CHR ''['' (i + 1) (b + length w + length t + length w') (play H s nd (Idx (i + 1)) v st)"
        using e_more.hyps h a len m by (intro items_more [where b = b]) (auto simp: next_key_def)
      also have "\<dots> = Some (Jpos (b + length (w @ t @ w' @ '','' @ ts) + 1) (play_arr H s nd i (v # vs) st))"
        using e_more.IH h a len m by (auto simp: reads_elems_def)
      finally show "jsax_items H s n nd CHR ''['' i a st =
          Some (Jpos (b + length (w @ t @ w' @ '','' @ ts) + 1) (play_arr H s nd i (v # vs) st))" using m by simp
    qed
  qed
next
  case (m_last w1 x k w2 w b v t w')
  show ?case
  proof (intro impI)
    assume h: "here s b ((w1 @ k @ w2 @ '':'' @ w @ t @ w') @ ''}'')"
    have "reads H s (b + length w1 + length k + length w2 + 1 + length w) v t" using m_last.IH h m_last.hyps
      by (auto intro!: ends_value_delim [of w' _ _ "CHR ''}''"])
    moreover have "next_key s CHR ''{'' i b = Inr (Name x, b + length w1 + length k + length w2 + 1)" for i
      using m_last.hyps h by (intro key_here) auto
    ultimately show "reads_mems H s b [(x, v)] (w1 @ k @ w2 @ '':'' @ w @ t @ w')"
      using m_last.hyps h
        items_last [of s "CHR ''{''" _ _ "Name x" "b + length w1 + length k + length w2 + 1" w v t H w' "CHR ''}''"]
      by (auto simp: reads_mems_def)
  qed
next
  case (m_more w1 x k w2 w b v t w' ms ts)
  show ?case
  proof (intro impI)
    assume h: "here s b ((w1 @ k @ w2 @ '':'' @ w @ t @ w' @ '','' @ ts) @ ''}'')"
    define c where "c = b + length w1 + length k + length w2 + 1"
    show "reads_mems H s b ((x, v) # ms) (w1 @ k @ w2 @ '':'' @ w @ t @ w' @ '','' @ ts)"
      unfolding reads_mems_def
    proof (intro allI impI)
      fix a n nd i st
      assume a: "b = a + 1" "3 * (length s - a) \<le> n"
      have len: "a < length s" "c + length w + length t + length w' < length s" using h a(1) by (auto simp: c_def)
      obtain m where m: "n = Suc m" using a(2) len(1) by (cases n) auto
      have "next_key s CHR ''{'' i b = Inr (Name x, c)"
        unfolding c_def using m_more.hyps h by (intro key_here) auto
      moreover have "reads H s (c + length w) v t" using m_more.IH h m_more.hyps
        by (auto simp: c_def intro!: ends_value_delim [of w' _ _ "CHR '',''"])
      ultimately have "jsax_items H s (Suc m) nd CHR ''{'' i a st =
          jsax_items H s m nd CHR ''{'' (i + 1) (c + length w + length t + length w') (play H s nd (Name x) v st)"
        using m_more.hyps h a len m by (intro items_more [where b = c]) (auto simp: c_def)
      also have "\<dots> = Some (Jpos (b + length (w1 @ k @ w2 @ '':'' @ w @ t @ w' @ '','' @ ts) + 1) (play_obj H s nd ((x, v) # ms) st))"
        using m_more.IH h a len m by (auto simp: reads_mems_def c_def)
      finally show "jsax_items H s n nd CHR ''{'' i a st =
          Some (Jpos (b + length (w1 @ k @ w2 @ '':'' @ w @ t @ w' @ '','' @ ts) + 1) (play_obj H s nd ((x, v) # ms) st))"
        using m by simp
    qed
  qed
qed


subsection \<open>What is accepted is generated by the grammar\<close>

lemma skipss_here:
  "b \<le> length s \<Longrightarrow> \<exists>w. blank w \<and> here s b w \<and> skipss s b = b + length w \<and> \<not> c_isspace (cur s (skipss s b))"
proof (induction s b rule: skipss.induct)
  case (1 s b)
  show ?case
  proof (cases "b < length s \<and> c_isspace (s ! b)")
    case True
    then obtain w where w: "blank w" "here s (Suc b) w" "skipss s (Suc b) = Suc b + length w" "\<not> c_isspace (cur s (skipss s (Suc b)))"
      using 1 by auto
    have "skipss s b = skipss s (Suc b)" using True by (subst skipss_step) simp
    then show ?thesis using w True by (intro exI [of _ "s ! b # w"]) (auto simp: cur_def)
  next
    case False
    then have "skipss s b = b" by (subst skipss_step) auto
    then show ?thesis using False 1 by (intro exI [of _ "[]"]) (auto simp: cur_def c_isspace_def)
  qed
qed

lemma digits_end_here:
  "b \<le> length s \<Longrightarrow> \<exists>x. list_all (\<lambda>c. c_isdigit c \<or> c = CHR ''.'') x \<and> here s b x \<and> digits_end s b = b + length x"
proof (induction s b rule: digits_end.induct)
  case (1 s b)
  show ?case
  proof (cases "b < length s \<and> (c_isdigit (s ! b) \<or> s ! b = CHR ''.'')")
    case True
    then obtain x where x: "list_all (\<lambda>c. c_isdigit c \<or> c = CHR ''.'') x" "here s (Suc b) x" "digits_end s (Suc b) = Suc b + length x"
      using 1 by auto
    have "digits_end s b = digits_end s (Suc b)" using True by (subst digits_step) simp
    then show ?thesis using x True by (intro exI [of _ "s ! b # x"]) (auto simp: cur_def)
  next
    case False
    then have "digits_end s b = b" by (subst digits_step) auto
    then show ?thesis using 1 by (intro exI [of _ "[]"]) auto
  qed
qed

lemma find_in_sound:
  "find_in q s b (length s) < length s \<Longrightarrow> b \<le> length s \<Longrightarrow>
   \<exists>x. q \<notin> set x \<and> here s b (x @ [q]) \<and> find_in q s b (length s) = b + length x"
proof (induction "length s - b" arbitrary: b)
  case 0
  then show ?case by (subst (asm) find_in.simps) auto
next
  case (Suc k)
  then have b: "b < length s" by simp
  show ?case
  proof (cases "s ! b = q")
    case True
    then have "find_in q s b (length s) = b" using b by (subst find_in.simps) simp
    then show ?thesis using b True by (intro exI [of _ "[]"]) (simp add: cur_def)
  next
    case False
    then have f: "find_in q s b (length s) = find_in q s (Suc b) (length s)" using b by (subst find_in.simps) simp
    then obtain x where "q \<notin> set x" "here s (Suc b) (x @ [q])" "find_in q s (Suc b) (length s) = Suc b + length x"
      using Suc.hyps(1) [of "Suc b"] Suc.hyps(2) Suc.prems b by (metis Suc_leI diff_Suc_1' diff_Suc_eq_diff_pred diff_commute nat.inject Suc_diff_Suc)
    then show ?thesis using b False f by (intro exI [of _ "s ! b # x"]) (auto simp: cur_def)
  qed
qed

lemma string_sound:
  assumes "jsax_string s b = Inr (x, p)" "b \<le> length s"
  shows "\<exists>w t. blank w \<and> quoted x t \<and> here s b (w @ t) \<and> p = b + length w + length t"
proof -
  obtain w where w: "blank w" "here s b w" "skipss s b = b + length w" using skipss_here [OF assms(2)] by auto
  define sb where "sb = b + length w"
  have q: "cur s sb \<in> {CHR 0x22, CHR 0x27}" "sb + 1 < length s" "find_in (cur s sb) s (sb + 1) (length s) \<noteq> length s"
    "x = slice s (sb + 1) (find_in (cur s sb) s (sb + 1) (length s))" "p = find_in (cur s sb) s (sb + 1) (length s) + 1"
    using assms(1) w(3) by (auto simp: jsax_string_def Let_def sb_def split: if_splits)
  then have "find_in (cur s sb) s (sb + 1) (length s) < length s"
    using find_in_range [of "sb + 1" "length s" "cur s sb" s] by simp
  then obtain y where y: "cur s sb \<notin> set y" "here s (sb + 1) (y @ [cur s sb])"
    "find_in (cur s sb) s (sb + 1) (length s) = sb + 1 + length y"
    using find_in_sound [of "cur s sb" s "sb + 1"] q(2) by auto
  have "x = y" using q(4) y(2,3) slice_here [of s "sb + 1" y] by simp
  then show ?thesis
    using w q y by (intro exI [of _ w] exI [of _ "cur s sb # x @ [cur s sb]"]) (auto simp: quoted_def sb_def)
qed

lemma digital_sound:
  assumes "jsax_digital s b = Inr (x, p)" "b < length s" "\<not> c_isspace (cur s b)"
  shows "here s b x \<and> numeral_text x \<and> p = b + length x"
proof -
  have sk: "skipss s b = b" using assms(2,3) by (subst skipss_step) (auto simp: cur_def)
  define sg where "sg = (if cur s b \<in> {CHR ''-'', CHR ''+''} then [cur s b] else [])"
  define d where "d = b + length sg"
  have d: "(if cur s b \<in> {CHR ''-'', CHR ''+''} then b + 1 else b) = d" "here s b sg"
    using assms(2) by (auto simp: sg_def d_def)
  have r: "d < length s" "c_isdigit (cur s d)" "x = slice s b (digits_end s (d + 1))" "p = digits_end s (d + 1)"
    "count_list x CHR ''.'' \<le> 1"
    using assms(1) unfolding jsax_digital_def Let_def sk d(1) by (auto split: if_splits)
  obtain y where y: "list_all (\<lambda>c. c_isdigit c \<or> c = CHR ''.'') y" "here s (d + 1) y" "digits_end s (d + 1) = d + 1 + length y"
    using digits_end_here [of "d + 1" s] r(1) by auto
  have h: "here s b (sg @ cur s d # y)" using d r y by (simp add: d_def)
  have "x = sg @ cur s d # y" using slice_here [OF h] r(3) y(3) by (simp add: d_def add.assoc)
  moreover have "sg \<in> {[], ''-'', ''+''}" by (auto simp: sg_def)
  ultimately show ?thesis using h r y unfolding numeral_text_def by (auto simp: d_def)
qed

lemma boolean_sound:
  assumes "jsax_boolean s b = Inr (x, p)" "b < length s" "\<not> c_isspace (cur s b)"
  shows "here s b x \<and> x \<in> {''true'', ''True'', ''false'', ''False''} \<and> p = b + length x"
proof -
  have sk: "skipss s b = b" using assms(2,3) by (subst skipss_step) (auto simp: cur_def)
  define y where "y = (if cur s b \<in> {CHR ''T'', CHR ''t''} then ''rue'' else ''alse'')"
  have r: "cur s b \<in> {CHR ''T'', CHR ''t'', CHR ''F'', CHR ''f''}"
    "slice s (b + 1) (b + 1 + length y) = y" "x = slice s b (b + 1 + length y)" "p = b + 1 + length y"
    using assms(1) unfolding jsax_boolean_def Let_def sk by (auto simp: y_def eval_nat_numeral split: if_splits)
  have "y \<noteq> []" by (simp add: y_def)
  then have "b + 1 + length y \<le> length s" using slice_full [OF r(2)] assms(2) by simp
  then have h: "here s (b + 1) y" using here_slice [of "b + 1 + length y" s "b + 1"] r(2) by simp
  have h2: "here s b (cur s b # y)" using h assms(2) by simp
  have "x = cur s b # y" using slice_here [OF h2] r(3) by simp
  then show ?thesis using h2 r(1,4) by (auto simp: y_def split: if_splits)
qed

lemma scalar_sound:
  assumes "jsax_scalar s b = Some (Inr (x, p), ty)" "b < length s" "\<not> c_isspace (cur s b)"
  shows "\<exists>t v. here s b t \<and> p = b + length t \<and> jval b v t \<and> (\<forall>nd k st. play H s nd k v st = jsax_set H nd k x ty st)"
proof -
  consider "ty = Ty_Str" "jsax_string s b = Inr (x, p)" | "ty = Ty_Int" "jsax_digital s b = Inr (x, p)"
    | "ty = Ty_Bool" "jsax_boolean s b = Inr (x, p)"
    using assms(1) by (auto simp: jsax_scalar_def Let_def split: if_splits)
  then show ?thesis
  proof cases
    case 1
    then obtain w t where w: "blank w" "quoted x t" "here s b (w @ t)" "p = b + length w + length t"
      using string_sound [of s b x p] assms(2) by auto
    then have "w = []" using assms(3) by (cases w) auto
    then show ?thesis using w 1 by (intro exI [of _ t] exI [of _ "VStr x"]) (auto intro: v_str)
  next
    case 2
    then show ?thesis using digital_sound [OF 2(2) assms(2,3)]
      by (intro exI [of _ x] exI [of _ "VInt x"]) (auto intro: v_int)
  next
    case 3
    then show ?thesis using boolean_sound [OF 3(2) assms(2,3)]
      by (intro exI [of _ x] exI [of _ "VBool x"]) (auto intro: v_bool)
  qed
qed

lemma key_sound:
  assumes "next_key s CHR ''{'' i b = Inr (k, p)" "b \<le> length s"
  shows "\<exists>w1 x q w2. blank w1 \<and> quoted x q \<and> blank w2 \<and> here s b (w1 @ q @ w2 @ '':'') \<and> k = Name x \<and>
    p = b + length w1 + length q + length w2 + 1"
proof -
  obtain x b1 where x: "jsax_string s b = Inr (x, b1)" "skipss s b1 \<noteq> length s" "cur s (skipss s b1) = CHR '':''"
    "k = Name x" "p = skipss s b1 + 1"
    using assms(1) by (auto simp: next_key_def Let_def split: sum.splits if_splits)
  obtain w1 q where q: "blank w1" "quoted x q" "here s b (w1 @ q)" "b1 = b + length w1 + length q"
    using string_sound [OF x(1) assms(2)] by auto
  have "b1 \<le> length s" using here_le [OF q(3) assms(2)] q(4) by simp
  then obtain w2 where w2: "blank w2" "here s b1 w2" "skipss s b1 = b1 + length w2" using skipss_here by blast
  have "b1 + length w2 < length s" using x(3) w2(3) by (intro cur_inside) simp
  then show ?thesis using x q w2 by (intro exI [of _ w1] exI [of _ x] exI [of _ q] exI [of _ w2]) auto
qed


definition array_sound :: "('n, 's) jsnode \<Rightarrow> string \<Rightarrow> nat \<Rightarrow> bool" where
  "array_sound H s n \<longleftrightarrow> (\<forall>nd b st p st'. jsax_array H s n nd b st = Some (Jpos p st') \<longrightarrow> b \<le> length s \<longrightarrow>
     (\<exists>w t v. blank w \<and> here s b (w @ t) \<and> p = b + length w + length t \<and> jval (b + length w) v t \<and> is_doc v \<and>
        st' = play_doc H s nd v st))"

definition items_sound :: "('n, 's) jsnode \<Rightarrow> string \<Rightarrow> nat \<Rightarrow> bool" where
  "items_sound H s n \<longleftrightarrow> (\<forall>nd i a st p st'. a < length s \<longrightarrow>
     (jsax_items H s n nd CHR ''['' i a st = Some (Jpos p st') \<longrightarrow>
        (\<exists>t vs. here s (a + 1) (t @ '']'') \<and> p = a + 1 + length t + 1 \<and> jelems (a + 1) vs t \<and> st' = play_arr H s nd i vs st)) \<and>
     (jsax_items H s n nd CHR ''{'' i a st = Some (Jpos p st') \<longrightarrow>
        (\<exists>t ms. here s (a + 1) (t @ ''}'') \<and> p = a + 1 + length t + 1 \<and> jmems (a + 1) ms t \<and> st' = play_obj H s nd ms st)))"

text \<open>At the end of the buffer \<open>jsax_walk\<close> returns without a value.\<close>

definition walk_sound :: "('n, 's) jsnode \<Rightarrow> string \<Rightarrow> nat \<Rightarrow> bool" where
  "walk_sound H s n \<longleftrightarrow> (\<forall>nd k b st p st'. jsax_walk H s n nd k b st = Some (Jpos p st') \<longrightarrow> b \<le> length s \<longrightarrow> p < length s \<longrightarrow>
     (\<exists>w t v. blank w \<and> here s b (w @ t) \<and> p = b + length w + length t \<and> jval (b + length w) v t \<and>
        st' = play H s nd k v st))"

lemma array_sound_step:
  assumes "items_sound H s n"
  shows "array_sound H s (Suc n)"
  unfolding array_sound_def
proof (intro allI impI)
  fix nd b st p st'
  assume r: "jsax_array H s (Suc n) nd b st = Some (Jpos p st')" and b: "b \<le> length s"
  obtain w where w: "blank w" "here s b w" "skipss s b = b + length w" using skipss_here [OF b] by blast
  define sb where "sb = b + length w"
  have c: "cur s sb \<in> {CHR ''{'', CHR ''[''}" using r w(3) by (auto simp: Let_def sb_def split: if_splits)
  then have sb: "sb < length s" by (intro cur_inside) auto
  obtain u where u: "blank u" "here s (sb + 1) u" "skipss s (sb + 1) = sb + 1 + length u"
    using skipss_here [of "sb + 1" s] sb by auto
  define e where "e = sb + 1 + length u"
  consider "e < length s" "closes (cur s sb) (cur s e)" "p = e + 1" "st' = st"
    | "jsax_items H s n nd (cur s sb) 0 sb st = Some (Jpos p st')"
    using r c w(3) u(3) e_def cur_inside [of s e] by (auto simp: Let_def sb_def [symmetric] split: if_splits)
  then have "\<exists>t v. here s sb t \<and> p = sb + length t \<and> jval sb v t \<and> is_doc v \<and> st' = play_doc H s nd v st"
  proof cases
    case 1
    have "here s sb (cur s sb # u @ [cur s e])" using 1 sb u by (simp add: e_def)
    moreover have "jval sb (VArr sb []) (CHR ''['' # u @ [CHR '']''])" "jval sb (VObj sb []) (CHR ''{'' # u @ [CHR ''}''])"
      using v_arr0 [OF u(1), of sb] v_obj0 [OF u(1), of sb] by simp_all
    ultimately show ?thesis
      using 1 c by (intro exI [of _ "cur s sb # u @ [cur s e]"]
          exI [of _ "if cur s sb = CHR ''['' then VArr sb [] else VObj sb []"]) (auto simp: e_def)
  next
    case 2
    show ?thesis
    proof (cases "cur s sb = CHR ''[''")
      case True
      then obtain t vs where "here s (sb + 1) (t @ '']'')" "p = sb + 1 + length t + 1" "jelems (sb + 1) vs t" "st' = play_arr H s nd 0 vs st"
        using assms 2 sb unfolding items_sound_def by metis
      then show ?thesis using True sb v_arr [of sb vs t]
        by (intro exI [of _ "CHR ''['' # t @ [CHR '']'']"] exI [of _ "VArr sb vs"]) auto
    next
      case False
      then have o: "cur s sb = CHR ''{''" using c by simp
      then obtain t ms where "here s (sb + 1) (t @ ''}'')" "p = sb + 1 + length t + 1" "jmems (sb + 1) ms t" "st' = play_obj H s nd ms st"
        using assms 2 sb unfolding items_sound_def by metis
      then show ?thesis using o sb v_obj [of sb ms t]
        by (intro exI [of _ "CHR ''{'' # t @ [CHR ''}'']"] exI [of _ "VObj sb ms"]) auto
    qed
  qed
  then show "\<exists>w t v. blank w \<and> here s b (w @ t) \<and> p = b + length w + length t \<and> jval (b + length w) v t \<and> is_doc v \<and>
      st' = play_doc H s nd v st"
    using w sb_def by (metis here_append)
qed

lemma walk_sound_step:
  assumes "array_sound H s n"
  shows "walk_sound H s (Suc n)"
  unfolding walk_sound_def
proof (intro allI impI)
  fix nd k b st p st'
  assume r: "jsax_walk H s (Suc n) nd k b st = Some (Jpos p st')" and b: "b \<le> length s" and p: "p < length s"
  obtain w where w: "blank w" "here s b w" "skipss s b = b + length w" "\<not> c_isspace (cur s (skipss s b))"
    using skipss_here [OF b] by blast
  define b1 where "b1 = b + length w"
  have b1: "b1 < length s" using r p w(3) by (auto simp: Let_def b1_def split: if_splits)
  obtain q st1 where q: "jsax_new H nd k (drop b1 s) st = (q, st1)" by (cases "jsax_new H nd k (drop b1 s) st")
  have "\<exists>t v. here s b1 t \<and> p = b1 + length t \<and> jval b1 v t \<and> st' = play H s nd k v st"
  proof (cases "cur s b1 = CHR ''{'' \<or> cur s b1 = CHR ''[''")
    case True
    then obtain st2 where a: "jsax_array H s n (child_of q) b1 st1 = Some (Jpos p st2)" "st' = jsax_done H nd k (child_of q) st2"
      using r w(3) b1 q by (auto simp: Let_def b1_def [symmetric] split: option.splits jret.splits)
    then obtain u t v where v: "blank u" "here s b1 (u @ t)" "p = b1 + length u + length t" "jval (b1 + length u) v t"
      "is_doc v" "st2 = play_doc H s (child_of q) v st1"
      using assms b1 unfolding array_sound_def by (metis less_imp_le)
    have "u = []" using v(1,2) True by (cases u) auto
    then show ?thesis using v a(2) q play_is_doc [OF v(5), of b1 t H s nd k st]
      by (intro exI [of _ t] exI [of _ v]) auto
  next
    case False
    then obtain x ty where "jsax_scalar s b1 = Some (Inr (x, p), ty)" "st' = jsax_set H nd k x ty st"
      using r w(3) b1 by (auto simp: Let_def b1_def [symmetric] split: option.splits sum.splits)
    moreover from this obtain t v where "here s b1 t" "p = b1 + length t" "jval b1 v t"
      "\<forall>nd k st. play H s nd k v st = jsax_set H nd k x ty st"
      using scalar_sound [of s b1 x p ty H] b1 w(3,4) by (auto simp: b1_def)
    ultimately show ?thesis by (intro exI [of _ t] exI [of _ v]) auto
  qed
  then show "\<exists>w t v. blank w \<and> here s b (w @ t) \<and> p = b + length w + length t \<and> jval (b + length w) v t \<and>
      st' = play H s nd k v st"
    using w b1_def by (metis here_append)
qed


lemma items_split:
  assumes "walk_sound H s n" "jsax_items H s (Suc n) nd ty i a st = Some (Jpos p st')" "a < length s"
  obtains k b w t v w' where "next_key s ty i (a + 1) = Inr (k, b)" "blank w" "blank w'" "here s b (w @ t @ w')"
    "jval (b + length w) v t" "b + length w + length t + length w' < length s"
    "cur s (b + length w + length t + length w') = CHR '','' \<and>
       jsax_items H s n nd ty (i + 1) (b + length w + length t + length w') (play H s nd k v st) = Some (Jpos p st') \<or>
     closes ty (cur s (b + length w + length t + length w')) \<and> p = b + length w + length t + length w' + 1 \<and>
       st' = play H s nd k v st"
proof -
  obtain k b b2 st1 where k: "next_key s ty i (a + 1) = Inr (k, b)" "jsax_walk H s n nd k b st = Some (Jpos b2 st1)"
    and e: "cur s (skipss s b2) = CHR '','' \<and> jsax_items H s n nd ty (i + 1) (skipss s b2) st1 = Some (Jpos p st') \<or>
      closes ty (cur s (skipss s b2)) \<and> p = skipss s b2 + 1 \<and> st' = st1"
    using assms(2) by (auto simp: Let_def split: sum.splits option.splits jret.splits if_splits)
  have b: "b \<le> length s" using key_within [of "a + 1" s ty i] k(1) assms(3) by simp
  have l: "skipss s b2 < length s" using e by (intro cur_inside) auto
  then have b2: "b2 < length s" using skipss_ge [of b2 s] by linarith
  obtain w t v where w: "blank w" "here s b (w @ t)" "b2 = b + length w + length t" "jval (b + length w) v t" "st1 = play H s nd k v st"
    using assms(1) k(2) b b2 unfolding walk_sound_def by metis
  obtain w' where w': "blank w'" "here s b2 w'" "skipss s b2 = b2 + length w'" using skipss_here [of b2 s] b2 by auto
  show ?thesis using that [OF k(1) w(1) w'(1) _ w(4)] w w' l e by auto
qed

lemma items_sound_step:
  assumes W: "walk_sound H s n" and I: "items_sound H s n"
  shows "items_sound H s (Suc n)"
  unfolding items_sound_def
proof (intro allI impI conjI)
  fix nd i a st p st'
  assume a: "a < length s" and r: "jsax_items H s (Suc n) nd CHR ''['' i a st = Some (Jpos p st')"
  show "\<exists>t vs. here s (a + 1) (t @ '']'') \<and> p = a + 1 + length t + 1 \<and> jelems (a + 1) vs t \<and> st' = play_arr H s nd i vs st"
    using W r a
  proof (cases rule: items_split)
    case (1 k b w t v w')
    note h = this
    define e where "e = b + length w + length t + length w'"
    have k: "k = Idx (i + 1)" "b = a + 1" using 1(1) by (auto simp: next_key_def)
    from 1(7) consider "cur s e = CHR '',''" "jsax_items H s n nd CHR ''['' (i + 1) e (play H s nd k v st) = Some (Jpos p st')"
      | "cur s e = CHR '']''" "p = e + 1" "st' = play H s nd k v st"
      by (auto simp: e_def)
    then show ?thesis
    proof cases
      case 1
      then obtain ts vs where ts: "here s (e + 1) (ts @ '']'')" "p = e + 1 + length ts + 1" "jelems (e + 1) vs ts"
        "st' = play_arr H s nd (i + 1) vs (play H s nd k v st)"
        using I 1 h(6) unfolding items_sound_def e_def by metis
      have "jelems (a + 1) (v # vs) (w @ t @ w' @ '','' @ ts)"
        using h(2,3,5) ts(3) k(2) by (intro e_more) (auto simp: e_def)
      then show ?thesis using h 1 ts k
        by (intro exI [of _ "w @ t @ w' @ '','' @ ts"] exI [of _ "v # vs"]) (auto simp: e_def)
    next
      case 2
      have "jelems (a + 1) [v] (w @ t @ w')" using h(2,3,5) k(2) by (intro e_last) auto
      then show ?thesis using h 2 k
        by (intro exI [of _ "w @ t @ w'"] exI [of _ "[v]"]) (auto simp: e_def)
    qed
  qed
next
  fix nd i a st p st'
  assume a: "a < length s" and r: "jsax_items H s (Suc n) nd CHR ''{'' i a st = Some (Jpos p st')"
  show "\<exists>t ms. here s (a + 1) (t @ ''}'') \<and> p = a + 1 + length t + 1 \<and> jmems (a + 1) ms t \<and> st' = play_obj H s nd ms st"
    using W r a
  proof (cases rule: items_split)
    case (1 k b w t v w')
    note h = this
    define e where "e = b + length w + length t + length w'"
    obtain w1 x q w2 where k: "blank w1" "quoted x q" "blank w2" "here s (a + 1) (w1 @ q @ w2 @ '':'')" "k = Name x"
      "b = a + 1 + length w1 + length q + length w2 + 1"
      using key_sound [OF 1(1)] a by auto
    from 1(7) consider "cur s e = CHR '',''" "jsax_items H s n nd CHR ''{'' (i + 1) e (play H s nd k v st) = Some (Jpos p st')"
      | "cur s e = CHR ''}''" "p = e + 1" "st' = play H s nd k v st"
      by (auto simp: e_def)
    then show ?thesis
    proof cases
      case 1
      then obtain ts ms where ts: "here s (e + 1) (ts @ ''}'')" "p = e + 1 + length ts + 1" "jmems (e + 1) ms ts"
        "st' = play_obj H s nd ms (play H s nd k v st)"
        using I 1 h(6) unfolding items_sound_def e_def by metis
      have "jmems (a + 1) ((x, v) # ms) (w1 @ q @ w2 @ '':'' @ w @ t @ w' @ '','' @ ts)"
        using h(2,3,5) ts(3) k by (intro m_more) (auto simp: e_def)
      then show ?thesis using h 1 ts k
        by (intro exI [of _ "w1 @ q @ w2 @ '':'' @ w @ t @ w' @ '','' @ ts"] exI [of _ "(x, v) # ms"]) (auto simp: e_def)
    next
      case 2
      have "jmems (a + 1) [(x, v)] (w1 @ q @ w2 @ '':'' @ w @ t @ w')" using h(2,3,5) k by (intro m_last) auto
      then show ?thesis using h 2 k
        by (intro exI [of _ "w1 @ q @ w2 @ '':'' @ w @ t @ w'"] exI [of _ "[(x, v)]"]) (auto simp: e_def)
    qed
  qed
qed

lemma reader_sound: "array_sound H s n \<and> items_sound H s n \<and> walk_sound H s n"
proof (induction n)
  case 0
  then show ?case by (simp add: array_sound_def items_sound_def walk_sound_def)
next
  case (Suc n)
  then show ?case by (simp add: array_sound_step items_sound_step walk_sound_step)
qed

lemma array_skip: "skipss s b = skipss s c \<Longrightarrow> jsax_array H s n nd b st = jsax_array H s n nd c st"
  by (cases n) simp_all

text \<open>
  C3: On every buffer and from every position the reader accepts exactly the texts of the
  reference grammar, stops right behind them, and has made exactly the calls of their values.
\<close>
theorem reader_accepts_grammar:
  assumes "b \<le> length s"
  shows "jsax_parse H s nd b st = Some (0, p, st') \<longleftrightarrow>
    (\<exists>w t v. blank w \<and> here s b (w @ t) \<and> p = b + length w + length t \<and> jval (b + length w) v t \<and> is_doc v \<and>
       st' = play_doc H s nd v st)"
    (is "?L \<longleftrightarrow> ?R")
proof
  assume ?L
  then have "jsax_array H s (jsax_fuel s) nd b st = Some (Jpos p st')"
    by (auto simp: jsax_parse_def split: option.splits jret.splits)
  then show ?R using reader_sound [of H s "jsax_fuel s"] assms unfolding array_sound_def by blast
next
  assume ?R
  then obtain w t v where w: "blank w" "here s b (w @ t)" "p = b + length w + length t" "jval (b + length w) v t" "is_doc v"
    "st' = play_doc H s nd v st" by blast
  have fuel: "3 * (length s - (b + length w)) + 1 \<le> jsax_fuel s" by (simp add: jsax_fuel_def)
  have t: "cur s (b + length w) = hd t" using w(2) jval_first(1) [OF w(4)] by (cases t) auto
  have "skipss s b = b + length w" using w t jval_first(2) [OF w(4)] by (simp add: skipss_blank)
  moreover have "skipss s (b + length w) = b + length w"
    using t jval_first(2) [OF w(4)] by (simp add: skipss_blank [of "[]", simplified])
  ultimately have "jsax_array H s (jsax_fuel s) nd b st = jsax_array H s (jsax_fuel s) nd (b + length w) st"
    by (intro array_skip) simp
  also have "reads H s (b + length w) v t"
    using grammar_read [of "b + length w" v t s H] w by simp
  then have "jsax_array H s (jsax_fuel s) nd (b + length w) st = Some (Jpos p st')"
    using w fuel by (simp add: reads_def)
  finally show ?L by (simp add: jsax_parse_def)
qed

lemma demo_grammar: "jval 0 (VArr 0 [VInt ''7'', VStr ''a'']) (''[ 7,'' @ [CHR 0x27, CHR ''a'', CHR 0x27] @ '']'')"
proof -
  have "jelems 1 [VInt ''7'', VStr ''a''] ('' '' @ ''7'' @ [] @ '','' @ [] @ [CHR 0x27, CHR ''a'', CHR 0x27] @ [])"
    by (intro e_more e_last v_int v_str) (auto simp: numeral_text_def quoted_def c_isspace_def c_isdigit_def)
  then show ?thesis using v_arr [of 0] by fastforce
qed

theorem reader_accepts_grammar_witness:
  "jsax_parse P_node (''[ 7,'' @ [CHR 0x27, CHR ''a'', CHR 0x27] @ '']5'') (Client ()) 0 [] =
     Some (0, 8, [Ev_Set (Idx 1) ''7'', Ev_Set (Idx 2) ''a''])"
  by (subst reader_accepts_grammar, simp, rule exI [of _ "[]"],
      rule exI [of _ "''[ 7,'' @ [CHR 0x27, CHR ''a'', CHR 0x27] @ '']''"], rule exI [of _ "VArr 0 [VInt ''7'', VStr ''a'']"])
    (use demo_grammar in \<open>simp add: here_def P_node_def\<close>)

text \<open>
  C37: \<open>jsax_parse\<close> returns for every buffer and every client, never reads behind the byte
  that ends the buffer, and moves on whenever it succeeds.
\<close>
theorem json_reader_total:
  assumes "b \<le> length s"
  shows "\<exists>ec p st1. jsax_parse H s nd b st = Some (ec, p, st1) \<and> ec \<in> {0, 1} \<and> b \<le> p \<and> p \<le> length s \<and> (ec = 0 \<longrightarrow> b < p)"
  using assms by (rule parse_within)

theorem json_reader_total_witness:
  "\<exists>ec p st1. jsax_parse P_node ''[1,'' (Client ()) 0 [] = Some (ec, p, st1) \<and> ec \<in> {0, 1} \<and> p \<le> length ''[1,''"
  using json_reader_total [of 0 "''[1,''" P_node "Client ()" "[]"] by auto

end
