(* ===== verification/Http_Echo.thy ===== *)
theory Http_Echo
  imports Push_Http
begin

section \<open>The HTTP echo server (as.cpp)\<close>

text \<open>
  \<open>Http_reader_impl\<close> reads the requests of a socket one after the other, \<open>MyService\<close> renders
  each again as its answer, and \<open>Sender\<close> keeps for each socket the \<open>socwriter\<close> that writes.
  A writer lives as long as the handler of a write that is under way holds it, \<open>hired_\<close> holds
  it weakly, and its destructor erases the entry of its socket. Every handler is a function on
  the whole state; \<open>lexc\<close> is \<open>boost::lexical_cast<int>\<close>, \<open>None\<close> when it throws.
\<close>

subsection \<open>Headers\<close>

text \<open>\<open>http_headers\<close>: \<open>operator[]\<close> appends an entry for a name that is not there.\<close>

fun headers_find :: "(string \<times> string) list \<Rightarrow> string \<Rightarrow> string option" where
  "headers_find [] k = None"
| "headers_find ((a, v) # l) k = (if a = k then Some v else headers_find l k)"

fun headers_set :: "string \<Rightarrow> string \<Rightarrow> (string \<times> string) list \<Rightarrow> (string \<times> string) list" where
  "headers_set k v [] = [(k, v)]"
| "headers_set k v ((a, w) # l) = (if a = k then (a, v) # l else (a, w) # headers_set k v l)"

record http_request =
  rq_method :: string
  rq_uri :: string
  rq_version :: string
  rq_headers :: "(string \<times> string) list"
  rq_cont :: string

definition request_new :: http_request where
  "request_new = \<lparr>rq_method = '''', rq_uri = '''', rq_version = '''', rq_headers = [], rq_cont = ''''\<rparr>"

text \<open>\<open>ins >> token\<close>\<close>

definition get_token :: "string \<Rightarrow> string \<times> string" where
  "get_token s = (let a = dropWhile c_isspace s
     in (takeWhile (\<lambda>c. \<not> c_isspace c) a, dropWhile (\<lambda>c. \<not> c_isspace c) a))"

definition word_char :: "char \<Rightarrow> bool" where
  "word_char c \<longleftrightarrow> c_isdigit c \<or> CHR ''A'' \<le> c \<and> c \<le> CHR ''Z'' \<or> CHR ''a'' \<le> c \<and> c \<le> CHR ''z'' \<or>
     c = CHR ''_'' \<or> c = CHR ''-''"

text \<open>\<open>^\s*([\w\-]+)\s*:\s*(.*?)\s*$\<close>\<close>

definition echo_header :: "string \<Rightarrow> (string \<times> string) option" where
  "echo_header line =
     (let a = dropWhile c_isspace line; k = takeWhile word_char a; b = dropWhile c_isspace (drop (length k) a)
      in if k = [] \<or> b = [] \<or> hd b \<noteq> CHR '':'' then None
         else Some (k, rev (dropWhile c_isspace (rev (dropWhile c_isspace (tl b))))))"

definition content_size :: "(string \<Rightarrow> int option) \<Rightarrow> string \<Rightarrow> string \<Rightarrow> string outcome" where
  "content_size lexc val s =
     (case lexc val of
        None \<Rightarrow> Inl (Thrown ''bad_lexical_cast'')
      | Some n \<Rightarrow> if n < 0 then Inl (Thrown ''length_error'')
                  else Inr (take (nat n) s @ replicate (nat n - length s) (CHR 0x00)))"

definition header_line :: "(string \<Rightarrow> int option) \<Rightarrow> string \<Rightarrow> http_request \<Rightarrow> http_request outcome" where
  "header_line lexc line r =
     (case echo_header line of
        None \<Rightarrow> Inr r
      | Some (k, val) \<Rightarrow>
          let r1 = r\<lparr>rq_headers := headers_set k val (rq_headers r)\<rparr> in
          if k = ''Content-Length'' \<or> k = ''Content-length''
          then bind_ok (content_size lexc val (rq_cont r1)) (\<lambda>c. Inr (r1\<lparr>rq_cont := c\<rparr>))
          else Inr r1)"

function echo_lines :: "(string \<Rightarrow> int option) \<Rightarrow> string \<Rightarrow> http_request \<Rightarrow> (string \<times> http_request) outcome" where
  "echo_lines lexc buf r =
     (case next_line buf of
        None \<Rightarrow> Inr ('''', r)
      | Some (l, rest) \<Rightarrow>
          if l = [cret] \<or> l = [] then Inr (rest, r)
          else (case header_line lexc l r of Inl e \<Rightarrow> Inl e | Inr r1 \<Rightarrow> echo_lines lexc rest r1))"
  by pat_completeness auto
termination by (relation "measure (\<lambda>(lexc, buf, r). length buf)") (auto dest: next_line_shorter)

declare echo_lines.simps [simp del]

text \<open>\<open>MyService::work\<close>: the answer is the request again.\<close>

definition echo_text :: "http_request \<Rightarrow> string" where
  "echo_text r = rq_method r @ '' '' @ rq_uri r @ '' '' @ rq_version r @ crlf @
     concat (map (\<lambda>(k, v). k @ '': '' @ v @ crlf) (rq_headers r)) @ crlf @ rq_cont r"

subsection \<open>Writers\<close>

record socwriter =
  wk_soc :: nat
  wk_ls :: "string list"

datatype awaits = Until_line | Until_headers | At_least nat

record echo_reader =
  rd_buf :: string
  rd_req :: http_request
  rd_await :: awaits

text \<open>\<open>es_started\<close> records the calls of \<open>async_write\<close>: socket, writer and text.\<close>

record echo =
  es_readers :: "nat \<Rightarrow> echo_reader option"
  es_hired :: "nat \<Rightarrow> nat option"
  es_workers :: "nat \<Rightarrow> socwriter option"
  es_next :: nat
  es_started :: "(nat \<times> nat \<times> string) list"

definition echo_new :: echo where
  "echo_new = \<lparr>es_readers = (\<lambda>_. None), es_hired = (\<lambda>_. None), es_workers = (\<lambda>_. None), es_next = 0, es_started = []\<rparr>"

text \<open>The destructor of a writer calls \<open>Sender::finish\<close>.\<close>

definition finish :: "nat \<Rightarrow> echo \<Rightarrow> echo" where
  "finish fd s = s\<lparr>es_hired := (es_hired s)(fd := None)\<rparr>"

definition release :: "nat \<Rightarrow> echo \<Rightarrow> echo" where
  "release w s = (case es_workers s w of
     None \<Rightarrow> s
   | Some k \<Rightarrow> finish (wk_soc k) (s\<lparr>es_workers := (es_workers s)(w := None)\<rparr>))"

text \<open>
  A new writer is made in any case. When the socket has one already, the new one is destroyed
  as \<open>ker\<close> is assigned, and its destructor erases the entry of the old one.
\<close>

definition associate :: "nat \<Rightarrow> echo \<Rightarrow> nat option \<times> echo" where
  "associate fd s =
     (let w = es_next s; s1 = s\<lparr>es_next := w + 1\<rparr> in
      case es_hired s fd of
        None \<Rightarrow> (Some w, s1\<lparr>es_hired := (es_hired s)(fd \<mapsto> w), es_workers := (es_workers s)(w \<mapsto> \<lparr>wk_soc = fd, wk_ls = []\<rparr>)\<rparr>)
      | Some old \<Rightarrow> (if es_workers s old = None then None else Some old, finish fd s1))"

definition start_write :: "nat \<Rightarrow> socwriter \<Rightarrow> echo \<Rightarrow> echo" where
  "start_write w k s = s\<lparr>es_started := es_started s @ [(wk_soc k, w, hd (wk_ls k))]\<rparr>"

definition writer_send :: "nat \<Rightarrow> string \<Rightarrow> echo \<Rightarrow> echo outcome" where
  "writer_send w x s = (case es_workers s w of
     None \<Rightarrow> Inl Undefined
   | Some k \<Rightarrow>
       let k1 = k\<lparr>wk_ls := wk_ls k @ [x]\<rparr>; s1 = s\<lparr>es_workers := (es_workers s)(w \<mapsto> k1)\<rparr>
       in Inr (if wk_ls k = [] then start_write w k1 s1 else s1))"

definition writeb :: "bool \<Rightarrow> nat \<Rightarrow> echo \<Rightarrow> echo outcome" where
  "writeb err w s = (case es_workers s w of
     None \<Rightarrow> Inl Undefined
   | Some k \<Rightarrow>
       if err then Inr (release w s)
       else let k1 = k\<lparr>wk_ls := tl (wk_ls k)\<rparr>; s1 = s\<lparr>es_workers := (es_workers s)(w \<mapsto> k1)\<rparr>
            in Inr (if wk_ls k1 \<noteq> [] then start_write w k1 s1 else release w s1))"

definition send_reply :: "nat \<Rightarrow> string \<Rightarrow> echo \<Rightarrow> echo outcome" where
  "send_reply fd x s = (case associate fd s of
     (None, s1) \<Rightarrow> Inl Undefined
   | (Some w, s1) \<Rightarrow> writer_send w x s1)"

subsection \<open>Readers\<close>

text \<open>\<open>async_read\<close> counts what it transfers itself, not what the buffer holds already.\<close>

definition read_ready :: "echo_reader \<Rightarrow> bool" where
  "read_ready r = (case rd_await r of
     Until_line \<Rightarrow> search_in crlf (rd_buf r) 0 (length (rd_buf r)) < length (rd_buf r)
   | Until_headers \<Rightarrow> search_in (crlf @ crlf) (rd_buf r) 0 (length (rd_buf r)) < length (rd_buf r)
   | At_least n \<Rightarrow> n = 0)"

definition arrives :: "string \<Rightarrow> echo_reader \<Rightarrow> echo_reader" where
  "arrives got r = r\<lparr>rd_buf := rd_buf r @ got,
     rd_await := (case rd_await r of At_least n \<Rightarrow> At_least (n - length got) | a \<Rightarrow> a)\<rparr>"

definition echo_method_line :: "echo_reader \<Rightarrow> echo_reader" where
  "echo_method_line r =
     (case get_token (rd_buf r) of (m, b1) \<Rightarrow>
        if m = [] then r\<lparr>rd_buf := b1, rd_req := request_new, rd_await := Until_line\<rparr>
        else (case get_token b1 of (u, b2) \<Rightarrow>
              case get_token b2 of (v, b3) \<Rightarrow>
                r\<lparr>rd_buf := (case next_line b3 of None \<Rightarrow> b3 | Some (l, b4) \<Rightarrow> b4),
                  rd_req := request_new\<lparr>rq_method := m, rq_uri := u, rq_version := v\<rparr>,
                  rd_await := Until_headers\<rparr>))"

definition echo_headers :: "(string \<Rightarrow> int option) \<Rightarrow> echo_reader \<Rightarrow> echo_reader outcome" where
  "echo_headers lexc r =
     bind_ok (echo_lines lexc (rd_buf r) (rd_req r)) (\<lambda>(rest, q).
       Inr (r\<lparr>rd_buf := rest, rd_req := q, rd_await := At_least (length (rq_cont q))\<rparr>))"

definition echo_content :: "echo_reader \<Rightarrow> echo_reader" where
  "echo_content r =
     (let n = min (length (rq_cont (rd_req r))) (length (rd_buf r)); q = rd_req r
      in r\<lparr>rd_buf := drop n (rd_buf r), rd_req := q\<lparr>rq_cont := take n (rd_buf r) @ drop n (rq_cont q)\<rparr>,
           rd_await := Until_line\<rparr>)"

definition set_reader :: "nat \<Rightarrow> echo_reader \<Rightarrow> echo \<Rightarrow> echo" where
  "set_reader fd r s = s\<lparr>es_readers := (es_readers s)(fd \<mapsto> r)\<rparr>"

definition echo_handler :: "(string \<Rightarrow> int option) \<Rightarrow> nat \<Rightarrow> echo_reader \<Rightarrow> echo \<Rightarrow> echo outcome" where
  "echo_handler lexc fd r s = (case rd_await r of
     Until_line \<Rightarrow> Inr (set_reader fd (echo_method_line r) s)
   | Until_headers \<Rightarrow> bind_ok (echo_headers lexc r) (\<lambda>r1. Inr (set_reader fd r1 s))
   | At_least n \<Rightarrow> let r1 = echo_content r in send_reply fd (echo_text (rd_req r1)) (set_reader fd r1 s))"

definition echo_reader_new :: echo_reader where
  "echo_reader_new = \<lparr>rd_buf = '''', rd_req = request_new, rd_await = Until_line\<rparr>"

text \<open>
  The handlers \<open>io_service\<close> runs. An error ends the reader of a socket; the writer goes on.
  The descriptor of a socket is used again when nothing holds the socket any more.
\<close>

inductive echo_step :: "(string \<Rightarrow> int option) \<Rightarrow> echo \<Rightarrow> echo \<Rightarrow> bool" for lexc where
  e_accept: "es_readers s fd = None \<Longrightarrow> (\<forall>w k. es_workers s w = Some k \<longrightarrow> wk_soc k \<noteq> fd) \<Longrightarrow>
    echo_step lexc s (set_reader fd echo_reader_new s)"
| e_arrive: "es_readers s fd = Some r \<Longrightarrow> \<not> read_ready r \<Longrightarrow> echo_step lexc s (set_reader fd (arrives got r) s)"
| e_handle: "es_readers s fd = Some r \<Longrightarrow> read_ready r \<Longrightarrow> echo_handler lexc fd r s = Inr s' \<Longrightarrow> echo_step lexc s s'"
| e_error: "es_readers s fd = Some r \<Longrightarrow> \<not> read_ready r \<Longrightarrow> echo_step lexc s (s\<lparr>es_readers := (es_readers s)(fd := None)\<rparr>)"
| e_written: "es_workers s w = Some k \<Longrightarrow> writeb err w s = Inr s' \<Longrightarrow> echo_step lexc s s'"

inductive_cases echo_stepE: "echo_step lexc s s'"


subsection \<open>Writers stay alive\<close>

lemma headers_set_find: "headers_find (headers_set k v l) k' = (if k' = k then Some v else headers_find l k')"
  by (induction k v l rule: headers_set.induct) auto

interpretation echo_store: kv_store "\<lambda>_. True" headers_find headers_set
  by unfold_locales (auto simp: headers_set_find)

text \<open>An entry of \<open>hired_\<close> is never expired, and every writer has something to write.\<close>

definition echo_ok :: "echo \<Rightarrow> bool" where
  "echo_ok s \<longleftrightarrow>
     (\<forall>fd w. es_hired s fd = Some w \<longrightarrow> (\<exists>k. es_workers s w = Some k \<and> wk_soc k = fd)) \<and>
     (\<forall>w k. es_workers s w = Some k \<longrightarrow> wk_ls k \<noteq> [] \<and> w < es_next s)"

lemma echo_ok_hired: "echo_ok s \<Longrightarrow> es_hired s fd = Some w \<Longrightarrow> \<exists>k. es_workers s w = Some k \<and> wk_soc k = fd"
  by (simp add: echo_ok_def)

lemma echo_ok_worker: "echo_ok s \<Longrightarrow> es_workers s w = Some k \<Longrightarrow> wk_ls k \<noteq> [] \<and> w < es_next s"
  by (simp add: echo_ok_def)

lemma echo_ok_readers: "echo_ok (s\<lparr>es_readers := f\<rparr>) = echo_ok s"
  by (simp add: echo_ok_def)

lemma reply_cases:
  assumes "echo_ok s"
  shows "send_reply fd x s = Inr (case es_hired s fd of
      None \<Rightarrow> s\<lparr>es_next := es_next s + 1, es_hired := (es_hired s)(fd \<mapsto> es_next s),
        es_workers := (es_workers s)(es_next s \<mapsto> \<lparr>wk_soc = fd, wk_ls = [x]\<rparr>),
        es_started := es_started s @ [(fd, es_next s, x)]\<rparr>
    | Some w \<Rightarrow> s\<lparr>es_next := es_next s + 1, es_hired := (es_hired s)(fd := None),
        es_workers := (es_workers s)(w := map_option (\<lambda>k. k\<lparr>wk_ls := wk_ls k @ [x]\<rparr>) (es_workers s w))\<rparr>)"
proof (cases "es_hired s fd")
  case None
  then show ?thesis by (simp add: send_reply_def associate_def writer_send_def start_write_def Let_def)
next
  case (Some w)
  then obtain k where k: "es_workers s w = Some k" "wk_ls k \<noteq> []"
    using assms echo_ok_hired echo_ok_worker by blast
  then show ?thesis using Some by (simp add: send_reply_def associate_def writer_send_def finish_def Let_def)
qed

lemma reply_ok:
  assumes "echo_ok s" "send_reply fd x s = Inr s'"
  shows "echo_ok s'"
proof (cases "es_hired s fd")
  case None
  then have s': "es_hired s' = (es_hired s)(fd \<mapsto> es_next s)" "es_next s' = es_next s + 1"
    "es_workers s' = (es_workers s)(es_next s \<mapsto> \<lparr>wk_soc = fd, wk_ls = [x]\<rparr>)"
    using assms(2) by (auto simp: reply_cases [OF assms(1)])
  have "w \<noteq> es_next s" if "es_hired s f = Some w" for f w
    using echo_ok_hired [OF assms(1) that] echo_ok_worker [OF assms(1)] by blast
  then show ?thesis
    using echo_ok_hired [OF assms(1)] echo_ok_worker [OF assms(1)]
    unfolding echo_ok_def s' by (auto simp: less_SucI)
next
  case (Some w)
  then obtain k where k: "es_workers s w = Some k" "wk_soc k = fd" using assms(1) echo_ok_hired by blast
  have s': "es_hired s' = (es_hired s)(fd := None)" "es_next s' = es_next s + 1"
    "es_workers s' = (es_workers s)(w \<mapsto> k\<lparr>wk_ls := wk_ls k @ [x]\<rparr>)"
    using assms(2) Some k by (auto simp: reply_cases [OF assms(1)])
  have "es_hired s f \<noteq> Some w" if "f \<noteq> fd" for f
    using echo_ok_hired [OF assms(1), of f w] k that by auto
  then show ?thesis
    using echo_ok_hired [OF assms(1)] echo_ok_worker [OF assms(1)] k
    unfolding echo_ok_def s' by (auto simp: less_SucI split: if_splits)
qed

lemma release_ok: "echo_ok s \<Longrightarrow> es_workers s w = Some k \<Longrightarrow>
    echo_ok (finish (wk_soc k) (s\<lparr>es_workers := (es_workers s)(w := None)\<rparr>))"
  by (fastforce simp: echo_ok_def finish_def)

lemma writeb_ok:
  assumes "echo_ok s" "writeb err w s = Inr s'"
  shows "echo_ok s'"
proof -
  obtain k where k: "es_workers s w = Some k" using assms(2) by (auto simp: writeb_def split: option.splits)
  define s1 where "s1 = s\<lparr>es_workers := (es_workers s)(w \<mapsto> k\<lparr>wk_ls := tl (wk_ls k)\<rparr>)\<rparr>"
  have d: "release w s1 = finish (wk_soc k) (s\<lparr>es_workers := (es_workers s)(w := None)\<rparr>)"
    "release w s = finish (wk_soc k) (s\<lparr>es_workers := (es_workers s)(w := None)\<rparr>)"
    using k by (simp_all add: release_def s1_def)
  consider "s' = release w s" | "s' = release w s1" | "tl (wk_ls k) \<noteq> []" "s' = start_write w (k\<lparr>wk_ls := tl (wk_ls k)\<rparr>) s1"
    using assms(2) k by (auto simp: writeb_def s1_def Let_def split: if_splits)
  then show ?thesis
  proof cases
    case 3
    then show ?thesis using assms(1) k by (fastforce simp: echo_ok_def start_write_def s1_def)
  qed (use d release_ok [OF assms(1) k] in simp_all)
qed

lemma echo_ok_new: "echo_ok echo_new"
  by (simp add: echo_ok_def echo_new_def)

lemma handler_ok:
  assumes "echo_ok s" "echo_handler lexc fd r s = Inr s'"
  shows "echo_ok s'"
proof (cases "rd_await r")
  case (At_least n)
  then show ?thesis using assms reply_ok [of "set_reader fd (echo_content r) s"]
    by (auto simp: echo_handler_def set_reader_def echo_ok_readers Let_def)
qed (use assms in \<open>auto simp: echo_handler_def set_reader_def echo_ok_readers\<close>)

lemma step_ok:
  assumes "echo_step lexc s s'" "echo_ok s"
  shows "echo_ok s'"
  using assms(1)
proof cases
  case (e_handle fd r)
  then show ?thesis using handler_ok assms(2) by blast
next
  case (e_written w k err)
  then show ?thesis using writeb_ok assms(2) by blast
qed (use assms(2) in \<open>simp_all add: set_reader_def echo_ok_readers\<close>)

lemma reachable_ok:
  assumes "(echo_step lexc)\<^sup>*\<^sup>* echo_new s"
  shows "echo_ok s"
  using assms by (induction rule: rtranclp_induct) (auto simp: echo_ok_new intro: step_ok)

lemma lines_defined: "echo_lines lexc buf r \<noteq> Inl Undefined"
proof (induction lexc buf r rule: echo_lines.induct)
  case (1 lexc buf r)
  have "header_line lexc l r \<noteq> Inl Undefined" for l
    by (auto simp: header_line_def content_size_def Let_def bind_ok_def split: option.splits if_splits)
  then show ?case using 1 by (subst echo_lines.simps) (auto split: option.splits sum.splits if_splits)
qed

text \<open>
  in every reachable state the handlers of the readers are defined: the weak pointer of
  a socket that has an entry always gives a writer, whatever order the requests, the writes
  and the errors come in.
\<close>
theorem writer_never_null:
  assumes "(echo_step lexc)\<^sup>*\<^sup>* echo_new s"
  shows "echo_handler lexc fd r s \<noteq> Inl Undefined"
proof (cases "rd_await r")
  case (At_least n)
  have "echo_ok (set_reader fd (echo_content r) s)"
    using reachable_ok [OF assms] by (simp add: set_reader_def echo_ok_readers)
  then show ?thesis using At_least by (simp add: echo_handler_def reply_cases Let_def)
next
  case Until_headers
  then show ?thesis using lines_defined by (auto simp: echo_handler_def echo_headers_def bind_ok_def split: sum.splits)
qed (simp add: echo_handler_def)

theorem writer_never_null_witness:
  "echo_handler (\<lambda>_. None) 3 echo_reader_new (set_reader 3 echo_reader_new echo_new) \<noteq> Inl Undefined"
  by (rule writer_never_null [where lexc = "\<lambda>_. None"])
    (auto intro!: r_into_rtranclp e_accept simp: echo_new_def)

text \<open>
  C17: the destructor of the spare writer that the second answer makes takes the socket's
  entry away, so a third answer gets a writer of its own: its write is started on the same
  socket while the first is under way, and before the second.
\<close>
theorem third_reply_overtakes:
  assumes "(echo_step lexc)\<^sup>*\<^sup>* echo_new s" "es_hired s fd = None"
  shows "\<exists>s1 s2 s3 v w. send_reply fd a s = Inr s1 \<and> send_reply fd b s1 = Inr s2 \<and> send_reply fd c s2 = Inr s3 \<and> v \<noteq> w \<and>
    es_started s3 = es_started s @ [(fd, v, a), (fd, w, c)] \<and>
    es_workers s3 v = Some \<lparr>wk_soc = fd, wk_ls = [a, b]\<rparr> \<and> es_workers s3 w = Some \<lparr>wk_soc = fd, wk_ls = [c]\<rparr>"
proof -
  have ok: "echo_ok s" using reachable_ok [OF assms(1)] .
  obtain s1 where s1: "send_reply fd a s = Inr s1" "es_hired s1 fd = Some (es_next s)" "es_next s1 = es_next s + 1"
    "es_workers s1 (es_next s) = Some \<lparr>wk_soc = fd, wk_ls = [a]\<rparr>" "es_started s1 = es_started s @ [(fd, es_next s, a)]"
    using assms(2) by (simp add: reply_cases [OF ok])
  have ok1: "echo_ok s1" using reply_ok [OF ok s1(1)] .
  obtain s2 where s2: "send_reply fd b s1 = Inr s2" "es_hired s2 fd = None" "es_next s2 = es_next s + 2"
    "es_workers s2 (es_next s) = Some \<lparr>wk_soc = fd, wk_ls = [a, b]\<rparr>" "es_started s2 = es_started s1"
    using s1 by (simp add: reply_cases [OF ok1])
  have ok2: "echo_ok s2" using reply_ok [OF ok1 s2(1)] .
  show ?thesis
    by (rule exI [of _ s1], rule exI [of _ s2]) (use s1 s2 in \<open>simp add: reply_cases [OF ok2]\<close>)
qed

theorem third_reply_overtakes_witness:
  "\<exists>s1 s2 s3 v w. send_reply 3 ''A'' echo_new = Inr s1 \<and> send_reply 3 ''B'' s1 = Inr s2 \<and> send_reply 3 ''C'' s2 = Inr s3 \<and> v \<noteq> w \<and>
    es_started s3 = es_started echo_new @ [(3, v, ''A''), (3, w, ''C'')] \<and>
    es_workers s3 v = Some \<lparr>wk_soc = 3, wk_ls = [''A'', ''B'']\<rparr> \<and> es_workers s3 w = Some \<lparr>wk_soc = 3, wk_ls = [''C'']\<rparr>"
  by (rule third_reply_overtakes [where lexc = "\<lambda>_. None"]) (simp_all add: echo_new_def)

subsection \<open>The body is waited for twice\<close>

lemma arrives_at_least:
  "rd_await r = At_least n \<Longrightarrow> fold arrives gots r = r\<lparr>rd_buf := rd_buf r @ concat gots, rd_await := At_least (n - length (concat gots))\<rparr>"
proof (induction gots arbitrary: r n)
  case (Cons g gots)
  then show ?case using Cons.IH [of "arrives g r" "n - length g"] by (simp add: arrives_def)
qed simp

text \<open>
  \<open>transfer_at_least\<close> counts only what it reads itself. A request whose body came together
  with its header lines is therefore held back until as many bytes again have come in, and
  then answered with the body that was there at first.
\<close>
theorem body_waited_for_twice:
  assumes "rd_await r = Until_headers" "echo_lines lexc (rd_buf r) (rd_req r) = Inr (body, q)"
    "length (rq_cont q) = length body" "echo_headers lexc r = Inr r1"
  shows "(read_ready (fold arrives gots r1) \<longleftrightarrow> length body \<le> length (concat gots)) \<and>
    rd_req (echo_content (fold arrives gots r1)) = q\<lparr>rq_cont := body\<rparr>"
proof -
  have r1: "r1 = r\<lparr>rd_buf := body, rd_req := q, rd_await := At_least (length body)\<rparr>"
    using assms by (simp add: echo_headers_def)
  then have "fold arrives gots r1 = r\<lparr>rd_buf := body @ concat gots, rd_req := q,
      rd_await := At_least (length body - length (concat gots))\<rparr>"
    using arrives_at_least [of r1 "length body" gots] by simp
  then show ?thesis
    using assms(3) by (auto simp: read_ready_def echo_content_def Let_def)
qed

definition demo_post :: string where
  "demo_post = ''POST /x HTTP/1.1'' @ crlf @ ''Content-Length: 2'' @ crlf @ crlf @ ''ab''"

definition demo_lex :: "string \<Rightarrow> int option" where
  "demo_lex x = (if x = ''2'' then Some 2 else None)"

definition demo_reader :: echo_reader where
  "demo_reader = echo_method_line (arrives demo_post echo_reader_new)"

definition demo_req :: http_request where
  "demo_req = \<lparr>rq_method = ''POST'', rq_uri = ''/x'', rq_version = ''HTTP/1.1'', rq_headers = [(''Content-Length'', ''2'')],
     rq_cont = [CHR 0x00, CHR 0x00]\<rparr>"

lemma demo_reader_lines: "rd_await demo_reader = Until_headers"
  "echo_lines demo_lex (rd_buf demo_reader) (rd_req demo_reader) = Inr (''ab'', demo_req)"
  by code_simp+

theorem body_waited_for_twice_witness:
  "\<exists>r1. echo_headers demo_lex demo_reader = Inr r1 \<and> \<not> read_ready (fold arrives [''X''] r1) \<and> read_ready (fold arrives [''X'', ''Y''] r1) \<and>
     rd_req (echo_content (fold arrives [''X'', ''Y''] r1)) = demo_req\<lparr>rq_cont := ''ab''\<rparr>"
proof -
  obtain r1 where r1: "echo_headers demo_lex demo_reader = Inr r1"
    using demo_reader_lines by (simp add: echo_headers_def)
  have len: "length (rq_cont demo_req) = length ''ab''" by (simp add: demo_req_def)
  note b = body_waited_for_twice [OF demo_reader_lines len r1]
  show ?thesis using r1 b [of "[''X'']"] b [of "[''X'', ''Y'']"] by auto
qed

end
