(* ===== verification/Im_Client.thy ===== *)
theory Im_Client
  imports Push_Http "HOL-Library.Sublist"
begin

section \<open>The message client (asio/ter.cpp)\<close>

text \<open>
  \<open>chat_client\<close> logs in over HTTP (\<open>http_t\<close>) for a token, connects to the message server, and
  then reads length prefixed messages, acknowledges each, and says hello when it was quiet for
  55 seconds. Its timer, the sockets and the posted functions of \<open>io_service\<close> call handlers;
  each handler is a function on the state \<open>im_client\<close>, and \<open>im_step\<close> chooses the next. The JSON
  reader and writer of \<open>boost::property_tree\<close> are parameters: \<open>js_decode\<close> gives the value at
  a path, and \<open>None\<close> when it throws. Aborting a pending operation runs its handler with an
  error at once; the handlers of an aborted read and of an aborted connect change nothing.
\<close>

record im_env =
  js_encode :: "(string \<times> string) list \<Rightarrow> string"
  js_decode :: "string \<Rightarrow> (string \<Rightarrow> string option) option"
  js_int :: "string \<Rightarrow> int option"
  im_user :: "string \<times> string"
  im_spot :: string

subsection \<open>Frames\<close>

text \<open>\<open>htons(static_cast<short>(n))\<close> in memory, and back.\<close>

definition be_short :: "nat \<Rightarrow> string" where
  "be_short n = [char_of (n div 256 mod 256), char_of (n mod 256)]"

definition short_at :: "string \<Rightarrow> nat \<Rightarrow> nat" where
  "short_at b i = 256 * of_char (b ! i) + of_char (b ! (i + 1))"

definition im_frame :: "string \<Rightarrow> string \<Rightarrow> string" where
  "im_frame heads bodys = be_short (length heads) @ be_short (length bodys) @ heads @ bodys"

text \<open>What the reader does with the stream: four bytes, then as many as they say.\<close>

definition im_split :: "string \<Rightarrow> (string \<times> string \<times> string) option" where
  "im_split s =
     (if length s < 4 then None
      else let h = short_at s 0; b = short_at s 2; msg = take (h + b) (drop 4 s)
           in if length msg < h + b then None else Some (take h msg, drop h msg, drop (4 + h + b) s))"

text \<open>Every \<open>"sequence":"digits"\<close> loses the quotes of its number.\<close>

definition seq_mark :: string where
  "seq_mark = [CHR 0x22] @ ''sequence'' @ [CHR 0x22, CHR '':'']"

definition unquote_at :: "string \<Rightarrow> (string \<times> string) option" where
  "unquote_at s =
     (let m = length seq_mark; r = drop (m + 1) s; d = takeWhile c_isdigit r
      in if take (m + 1) s = seq_mark @ [CHR 0x22] \<and> d \<noteq> [] \<and> drop (length d) r \<noteq> [] \<and> hd (drop (length d) r) = CHR 0x22
         then Some (seq_mark @ d, drop (length d + 1) r) else None)"

lemma unquote_at_shorter: "unquote_at s = Some (x, r) \<Longrightarrow> length r < length s"
  by (auto simp: unquote_at_def seq_mark_def Let_def split: if_splits dest!: arg_cong [of _ _ length])

function unquote_seq :: "string \<Rightarrow> string" where
  "unquote_seq s =
     (case unquote_at s of
        Some (x, r) \<Rightarrow> x @ unquote_seq r
      | None \<Rightarrow> (case s of [] \<Rightarrow> [] | c # t \<Rightarrow> c # unquote_seq t))"
  by pat_completeness auto
termination by (relation "measure length") (auto dest: unquote_at_shorter)

declare unquote_seq.simps [simp del]

subsection \<open>State\<close>

datatype im_stage = Init | Reconnect | Established

datatype http_op = Http_connect | Http_sign | Http_read

record http_t =
  ht_op :: "http_op option"
  ht_bufs :: string

datatype im_read = Read_size | Read_data nat nat

text \<open>
  \<open>cl_doomed\<close>: a replaced \<open>http_t\<close> left a write of its request behind, whose handler still
  points to it. \<open>cl_asked\<close> are the messages given to \<open>write\<close>, \<open>cl_wire\<close> those \<open>async_write\<close>
  was started for.
\<close>

record im_client =
  cl_stage :: im_stage
  cl_tp :: int
  cl_timer :: bool
  cl_token :: string
  cl_spot_in :: string
  cl_http :: "http_t option"
  cl_doomed :: bool
  cl_connect :: bool
  cl_read :: "im_read option"
  cl_posted :: "string list"
  cl_queue :: "string list"
  cl_writing :: bool
  cl_asked :: "string list"
  cl_wire :: "string list"

definition im_client_new :: im_client where
  "im_client_new = \<lparr>cl_stage = Init, cl_tp = 0, cl_timer = True, cl_token = '''', cl_spot_in = '''', cl_http = None,
     cl_doomed = False, cl_connect = False, cl_read = None, cl_posted = [], cl_queue = [], cl_writing = False,
     cl_asked = [], cl_wire = []\<rparr>"

subsection \<open>Writing\<close>

definition im_write :: "string \<Rightarrow> im_client \<Rightarrow> im_client" where
  "im_write m s = s\<lparr>cl_posted := cl_posted s @ [m], cl_asked := cl_asked s @ [m]\<rparr>"

definition do_write :: "im_client \<Rightarrow> im_client" where
  "do_write s = s\<lparr>cl_writing := True, cl_wire := cl_wire s @ [hd (cl_queue s)]\<rparr>"

definition write_posted :: "string \<Rightarrow> im_client \<Rightarrow> im_client" where
  "write_posted m s =
     (let busy = cl_queue s \<noteq> []; s1 = s\<lparr>cl_queue := cl_queue s @ [m]\<rparr>
      in if busy then s1 else do_write s1)"

text \<open>The handler of \<open>do_write\<close>: after an error the message stays at the front.\<close>

definition write_done :: "int \<Rightarrow> bool \<Rightarrow> im_client \<Rightarrow> im_client" where
  "write_done now ec s =
     (let s1 = s\<lparr>cl_writing := False, cl_tp := now + 55\<rparr> in
      if ec then s1
      else let s2 = s1\<lparr>cl_queue := tl (cl_queue s1)\<rparr> in if cl_queue s2 \<noteq> [] then do_write s2 else s2)"

definition ack :: "im_env \<Rightarrow> int \<Rightarrow> im_client \<Rightarrow> im_client" where
  "ack env seqn s =
     im_write (im_frame (unquote_seq (js_encode env [(''token'', cl_token s), (''method'', ''ack''), (''sequence'', show_int seqn)]))
       ''{}'') s"

definition hello :: "im_env \<Rightarrow> im_client \<Rightarrow> im_client" where
  "hello env s =
     im_write (im_frame (js_encode env [(''method'', ''hello''), (''token'', cl_token s)])
       (js_encode env ((if cl_spot_in s \<noteq> [] then [(''spotsid'', cl_spot_in s)] else []) @
                       (if im_spot env \<noteq> [] then [(''usingsid'', im_spot env)] else [])))) s"

subsection \<open>Logging in\<close>

definition login_text :: "string \<times> string \<Rightarrow> string" where
  "login_text user = ''GET /login?systemVersion=1.0&deviceType=3&channel=3&type=3&phone='' @ fst user @ ''&password='' @ snd user @
     '' HTTP/1.1'' @ crlf @ ''Host: moon.kklink.com:9000'' @ crlf @ ''Connection: close'' @ crlf @ crlf"

datatype tribool = Yes string | No | Indeterminate

definition parse_response_data :: "im_env \<Rightarrow> string \<Rightarrow> tribool outcome" where
  "parse_response_data env bufs =
     (let n = length bufs; eoh = search_in crlf2 bufs 0 n; cl = search_in (map c_toupper ''content-Length'') (map c_toupper bufs) 0 n
      in if eoh = n then Inr Indeterminate
         else if cl = n then Inr No
         else if n < cl + 14 + 2 then Inl Undefined
         else bind_ok (atoi (drop (cl + 14 + 2) bufs)) (\<lambda>clen.
           if clen < 0 then Inl Undefined
           else if n < eoh + 4 + nat clen then Inr Indeterminate
           else (case js_decode env (take (nat clen) (drop (eoh + 4) bufs)) of
                   None \<Rightarrow> Inl (Thrown ''json_parser_error'')
                 | Some t \<Rightarrow> Inr (case t ''token'' of None \<Rightarrow> No | Some [] \<Rightarrow> No | Some tok \<Rightarrow> Yes tok))))"

definition http_start :: "im_client \<Rightarrow> im_client" where
  "http_start s = s\<lparr>cl_http := Some \<lparr>ht_op = Some Http_connect, ht_bufs = ''''\<rparr>,
     cl_doomed := cl_doomed s \<or> (case cl_http s of None \<Rightarrow> False | Some h \<Rightarrow> ht_op h = Some Http_sign)\<rparr>"

definition set_http :: "http_t \<Rightarrow> im_client \<Rightarrow> im_client" where
  "set_http h s = s\<lparr>cl_http := Some h\<rparr>"

definition http_connected :: "im_env \<Rightarrow> bool \<Rightarrow> http_t \<Rightarrow> im_client \<Rightarrow> im_client" where
  "http_connected env ec h s =
     set_http (if ec then h\<lparr>ht_op := None\<rparr> else h\<lparr>ht_op := Some Http_sign, ht_bufs := login_text (im_user env)\<rparr>) s"

definition http_signed :: "bool \<Rightarrow> http_t \<Rightarrow> im_client \<Rightarrow> im_client" where
  "http_signed ec h s = set_http (h\<lparr>ht_bufs := '''', ht_op := (if ec then None else Some Http_read)\<rparr>) s"

definition got_token :: "int \<Rightarrow> string \<Rightarrow> im_client \<Rightarrow> im_client" where
  "got_token now tok s = s\<lparr>cl_token := tok, cl_stage := Reconnect, cl_tp := now - 6\<rparr>"

definition http_response :: "im_env \<Rightarrow> int \<Rightarrow> string option \<Rightarrow> http_t \<Rightarrow> im_client \<Rightarrow> im_client outcome" where
  "http_response env now got h s =
     (case got of
        None \<Rightarrow> Inr (set_http (h\<lparr>ht_op := None\<rparr>) s)
      | Some x \<Rightarrow>
          let h1 = h\<lparr>ht_op := None, ht_bufs := ht_bufs h @ x\<rparr> in
          bind_ok (parse_response_data env (ht_bufs h1)) (\<lambda>b. Inr (case b of
              Yes tok \<Rightarrow> got_token now tok (set_http h1 s)
            | Indeterminate \<Rightarrow> set_http (h1\<lparr>ht_op := Some Http_read\<rparr>) s
            | No \<Rightarrow> set_http h1 s)))"

subsection \<open>Reading\<close>

definition do_socket_error :: "int \<Rightarrow> im_client \<Rightarrow> im_client" where
  "do_socket_error now s =
     (let s1 = s\<lparr>cl_read := None\<rparr> in
      if cl_stage s1 = Established then s1\<lparr>cl_stage := Reconnect, cl_tp := now - 5\<rparr> else s1)"

definition size_read :: "string \<Rightarrow> im_client \<Rightarrow> im_client" where
  "size_read b s = s\<lparr>cl_read := Some (Read_data (short_at b 0) (short_at b 2))\<rparr>"

definition tree_get :: "(string \<Rightarrow> string option) \<Rightarrow> string \<Rightarrow> string outcome" where
  "tree_get t k = (case t k of None \<Rightarrow> Inl (Thrown ''ptree_bad_path'') | Some v \<Rightarrow> Inr v)"

definition process :: "(string \<Rightarrow> string option) \<Rightarrow> (string \<Rightarrow> string option) \<Rightarrow> im_client \<Rightarrow> im_client outcome" where
  "process head body s =
     bind_ok (tree_get head ''method'') (\<lambda>meth.
       if meth = ''chat/in-spot'' then bind_ok (tree_get body ''content'') (\<lambda>c. Inr (s\<lparr>cl_spot_in := c\<rparr>))
       else if meth = ''chat/out-spot'' then Inr (s\<lparr>cl_spot_in := ''''\<rparr>)
       else Inr s)"

definition decode :: "im_env \<Rightarrow> string \<Rightarrow> (string \<Rightarrow> string option) outcome" where
  "decode env x = (case js_decode env x of None \<Rightarrow> Inl (Thrown ''json_parser_error'') | Some t \<Rightarrow> Inr t)"

definition data_read :: "im_env \<Rightarrow> nat \<Rightarrow> string \<Rightarrow> im_client \<Rightarrow> im_client outcome" where
  "data_read env h msg s =
     bind_ok (decode env (take h msg)) (\<lambda>head.
     bind_ok (tree_get head ''sequence'') (\<lambda>q.
       case js_int env q of
         None \<Rightarrow> Inl (Thrown ''ptree_bad_data'')
       | Some seqn \<Rightarrow>
           let s1 = ack env seqn s in
           bind_ok (tree_get head ''method'') (\<lambda>meth.
           bind_ok (if take 5 meth = ''data/'' then Inr s1
                    else bind_ok (decode env (drop h msg)) (\<lambda>body. process head body s1)) (\<lambda>s2.
             Inr (s2\<lparr>cl_read := Some Read_size\<rparr>)))))"

subsection \<open>The timer\<close>

text \<open>
  Closing the socket aborts what is pending on it. The handler of a write runs later, with the
  error, or with success when that was queued already: it stays pending. Nothing is being read
  when the timer closes the socket. That an older attempt to connect has its success queued at
  that moment is left out.
\<close>

definition close_socket :: "im_client \<Rightarrow> im_client" where
  "close_socket s = s\<lparr>cl_read := None, cl_connect := False\<rparr>"

definition im_connected :: "int \<Rightarrow> bool \<Rightarrow> im_client \<Rightarrow> im_client" where
  "im_connected now ec s =
     (let s1 = s\<lparr>cl_connect := False\<rparr> in
      if ec then s1 else s1\<lparr>cl_stage := Established, cl_tp := now, cl_read := Some Read_size\<rparr>)"

definition timed_loop :: "im_env \<Rightarrow> int \<Rightarrow> im_client \<Rightarrow> im_client" where
  "timed_loop env now s =
     (case cl_stage s of
        Init \<Rightarrow> if cl_tp s + 12 < now then http_start (s\<lparr>cl_tp := now\<rparr>) else s
      | Reconnect \<Rightarrow> if cl_tp s + 6 > now then s
                     else (close_socket (s\<lparr>cl_tp := now\<rparr>))\<lparr>cl_connect := True\<rparr>
      | Established \<Rightarrow> if cl_tp s \<le> now then (hello env s)\<lparr>cl_tp := now + 55\<rparr> else s)"

subsection \<open>Steps\<close>

inductive im_step :: "im_env \<Rightarrow> im_client \<Rightarrow> im_client \<Rightarrow> bool" for env where
  i_tick: "cl_timer s \<Longrightarrow> im_step env s (timed_loop env now s)"
| i_connected: "cl_http s = Some h \<Longrightarrow> ht_op h = Some Http_connect \<Longrightarrow> im_step env s (http_connected env ec h s)"
| i_signed: "cl_http s = Some h \<Longrightarrow> ht_op h = Some Http_sign \<Longrightarrow> im_step env s (http_signed ec h s)"
| i_response: "cl_http s = Some h \<Longrightarrow> ht_op h = Some Http_read \<Longrightarrow> http_response env now got h s = Inr s' \<Longrightarrow> im_step env s s'"
| i_open: "cl_connect s \<Longrightarrow> im_step env s (im_connected now ec s)"
| i_size: "cl_read s = Some Read_size \<Longrightarrow> length b = 4 \<Longrightarrow> im_step env s (size_read b s)"
| i_data: "cl_read s = Some (Read_data h b) \<Longrightarrow> length msg = h + b \<Longrightarrow> data_read env h msg s = Inr s' \<Longrightarrow> im_step env s s'"
| i_broken: "cl_read s \<noteq> None \<Longrightarrow> im_step env s (do_socket_error now s)"
| i_posted: "cl_posted s = m # ms \<Longrightarrow> im_step env s (write_posted m (s\<lparr>cl_posted := ms\<rparr>))"
| i_written: "cl_writing s \<Longrightarrow> im_step env s (write_done now ec s)"

inductive_cases im_stepE: "im_step env s s'"

subsection \<open>Frames come back\<close>

lemma short_at_be: "n < 65536 \<Longrightarrow> short_at (x @ be_short n @ y) (length x) = n"
  by (simp add: short_at_def be_short_def nth_append)

lemma length_be_short: "length (be_short n) = 2"
  by (simp add: be_short_def)

text \<open>
  a frame is cut out of the stream as it was put in, head and body, as long as each fits
  sixteen bits; the rest of the stream is left.
\<close>
theorem im_frame_roundtrip:
  assumes "length heads < 65536" "length bodys < 65536"
  shows "im_split (im_frame heads bodys @ rest) = Some (heads, bodys, rest)"
proof -
  let ?f = "im_frame heads bodys @ rest"
  have f: "?f = be_short (length heads) @ be_short (length bodys) @ heads @ bodys @ rest" by (simp add: im_frame_def)
  have h: "short_at ?f 0 = length heads" using short_at_be [OF assms(1), of "[]"] f by simp
  have b: "short_at ?f 2 = length bodys"
    using short_at_be [OF assms(2), of "be_short (length heads)"] f by (simp add: length_be_short)
  have d: "drop 4 ?f = heads @ bodys @ rest" "4 \<le> length ?f"
    unfolding f using length_be_short [of "length heads"] length_be_short [of "length bodys"] by simp_all
  have "drop (4 + length heads + length bodys) ?f = drop (length heads + length bodys) (drop 4 ?f)"
    by (simp only: drop_drop) (simp add: ac_simps)
  also have "\<dots> = rest" unfolding d(1) by simp
  finally have "drop (4 + length heads + length bodys) ?f = rest" .
  then show ?thesis unfolding im_split_def h b d(1) Let_def using d(2) by simp
qed

theorem im_frame_roundtrip_witness: "im_split (im_frame ''head'' ''{}'' @ ''xy'') = Some (''head'', ''{}'', ''xy'')"
  by (rule im_frame_roundtrip) simp_all

subsection \<open>Reachable states\<close>

text \<open>What was asked for is on the wire, waits in the queue, or is posted.\<close>

definition im_ok :: "im_client \<Rightarrow> bool" where
  "im_ok s \<longleftrightarrow>
     cl_asked s = cl_wire s @ tl (cl_queue s) @ cl_posted s \<and>
     (cl_writing s \<longrightarrow> cl_queue s \<noteq> [] \<and> cl_wire s \<noteq> [] \<and> last (cl_wire s) = hd (cl_queue s)) \<and>
     (cl_stage s = Established \<longleftrightarrow> cl_read s \<noteq> None) \<and> (cl_connect s \<longrightarrow> cl_stage s = Reconnect) \<and>
     (\<forall>h. cl_http s = Some h \<longrightarrow> ht_op h \<noteq> None \<longrightarrow> cl_stage s = Init)"

named_theorems im_ops

lemmas [im_ops] = im_write_def ack_def hello_def got_token_def set_http_def http_start_def http_connected_def http_signed_def
  size_read_def do_socket_error_def im_connected_def Let_def

lemma im_ok_new: "im_ok im_client_new"
  by (simp add: im_ok_def im_client_new_def)

lemma im_ok_written: "im_ok s \<Longrightarrow> cl_writing s \<Longrightarrow> im_ok (write_done now ec s)"
  by (cases "cl_queue s"; cases "tl (cl_queue s)") (auto simp: im_ok_def write_done_def do_write_def Let_def)

lemma im_ok_posted: "im_ok s \<Longrightarrow> cl_posted s = m # ms \<Longrightarrow> im_ok (write_posted m (s\<lparr>cl_posted := ms\<rparr>))"
  by (cases "cl_queue s") (auto simp: im_ok_def write_posted_def do_write_def Let_def)

lemma write_done_frame:
  "cl_stage (write_done now ec s) = cl_stage s" "cl_read (write_done now ec s) = cl_read s" "cl_connect (write_done now ec s) = cl_connect s"
  by (auto simp: write_done_def do_write_def Let_def)

lemma im_ok_close: "im_ok s \<Longrightarrow> cl_stage s = Reconnect \<Longrightarrow> im_ok ((close_socket s)\<lparr>cl_connect := True\<rparr>)"
  by (auto simp: im_ok_def close_socket_def)

lemma im_ok_tick: "im_ok s \<Longrightarrow> im_ok (timed_loop env now s)"
proof (cases "cl_stage s")
  case Reconnect
  assume "im_ok s"
  then have "im_ok (s\<lparr>cl_tp := now\<rparr>)" by (simp add: im_ok_def)
  then show ?thesis using \<open>im_ok s\<close> Reconnect im_ok_close [of "s\<lparr>cl_tp := now\<rparr>"] by (simp add: timed_loop_def)
qed (auto simp: im_ok_def timed_loop_def im_ops)

lemma process_keeps:
  "process head body s = Inr s' \<Longrightarrow> \<exists>c. s' = s\<lparr>cl_spot_in := c\<rparr>"
  by (auto simp: process_def tree_get_def split: if_splits option.splits intro: exI [of _ "cl_spot_in s"])

lemma data_read_keeps:
  assumes "data_read env h msg s = Inr s'"
  shows "\<exists>m c. s' = s\<lparr>cl_posted := cl_posted s @ [m], cl_asked := cl_asked s @ [m], cl_spot_in := c, cl_read := Some Read_size\<rparr>"
proof -
  obtain seqn s2 c where "s2 = (ack env seqn s)\<lparr>cl_spot_in := c\<rparr>" "s' = s2\<lparr>cl_read := Some Read_size\<rparr>"
    using assms by (auto simp: data_read_def Let_def split: option.splits if_splits dest!: process_keeps)
      (metis im_client.surjective im_client.update_convs(5))+
  then show ?thesis by (auto simp: ack_def im_write_def intro!: exI)
qed

lemma im_ok_data: "im_ok s \<Longrightarrow> cl_read s \<noteq> None \<Longrightarrow> data_read env h msg s = Inr s' \<Longrightarrow> im_ok s'"
  by (drule data_read_keeps) (auto simp: im_ok_def)

lemma im_ok_response:
  assumes "http_response env now got h s = Inr s'" "cl_http s = Some h" "ht_op h \<noteq> None" "im_ok s"
  shows "im_ok s'"
proof (cases got)
  case None
  then show ?thesis using assms by (auto simp: http_response_def im_ok_def im_ops)
next
  case (Some x)
  then obtain b where b: "parse_response_data env (ht_bufs h @ x) = Inr b"
    using assms(1) by (auto simp: http_response_def Let_def)
  then show ?thesis using assms Some by (cases b) (auto simp: http_response_def im_ok_def im_ops)
qed

lemma response_keeps:
  assumes "http_response env now got h s = Inr s'"
  shows "cl_queue s' = cl_queue s \<and> cl_writing s' = cl_writing s \<and> cl_wire s' = cl_wire s"
proof (cases got)
  case None
  then show ?thesis using assms by (auto simp: http_response_def im_ops)
next
  case (Some x)
  then obtain b where b: "parse_response_data env (ht_bufs h @ x) = Inr b"
    using assms(1) by (auto simp: http_response_def Let_def)
  then show ?thesis using assms Some by (cases b) (auto simp: http_response_def im_ops)
qed

lemma im_ok_step:
  assumes "im_step env s s'" "im_ok s"
  shows "im_ok s'"
  using assms(1)
proof cases
  case (i_tick now)
  then show ?thesis using im_ok_tick assms(2) by simp
next
  case (i_response h now got)
  then show ?thesis using im_ok_response assms(2) by blast
next
  case (i_data h b msg)
  then show ?thesis using im_ok_data assms(2) by blast
next
  case (i_posted m ms)
  then show ?thesis using im_ok_posted assms(2) by simp
next
  case (i_written now ec)
  then show ?thesis using im_ok_written assms(2) by simp
qed (use assms(2) in \<open>auto simp: im_ok_def im_ops\<close>)

lemma im_ok_reachable:
  assumes "(im_step env)\<^sup>*\<^sup>* im_client_new s"
  shows "im_ok s"
  using assms by (induction rule: rtranclp_induct) (auto simp: im_ok_new intro: im_ok_step)

text \<open>
  C38: in every reachable state the messages \<open>write\<close> was called with are on the wire in that
  order, none twice and none left out, followed by those that wait; and the client reads
  exactly while it is established, and connects only while it is not.
\<close>
theorem im_messages_in_order:
  assumes "(im_step env)\<^sup>*\<^sup>* im_client_new s"
  shows "cl_asked s = cl_wire s @ tl (cl_queue s) @ cl_posted s \<and>
    (cl_stage s = Established \<longleftrightarrow> cl_read s \<noteq> None) \<and> (cl_connect s \<longrightarrow> cl_stage s = Reconnect)"
  using im_ok_reachable [OF assms] by (simp add: im_ok_def)

subsection \<open>A failed write\<close>

text \<open>After an error nothing is under way and the queue is not empty, and so it stays.\<close>

definition im_stuck :: "string list \<Rightarrow> im_client \<Rightarrow> bool" where
  "im_stuck w s \<longleftrightarrow> cl_queue s \<noteq> [] \<and> \<not> cl_writing s \<and> cl_wire s = w"

lemma stuck_failed: "cl_queue s \<noteq> [] \<Longrightarrow> im_stuck (cl_wire s) (write_done now True s)"
  by (simp add: im_stuck_def write_done_def Let_def)

lemma stuck_step:
  assumes "im_step env s s'" "im_stuck w s"
  shows "im_stuck w s'"
  using assms(1)
proof cases
  case (i_tick now)
  then show ?thesis using assms(2)
    by (cases "cl_stage s") (auto simp: im_stuck_def timed_loop_def close_socket_def im_ops)
next
  case (i_response h now got)
  then show ?thesis using response_keeps [OF i_response(3)] assms(2) by (simp add: im_stuck_def)
next
  case (i_data h b msg)
  then show ?thesis using assms(2) by (auto simp: im_stuck_def dest!: data_read_keeps)
next
  case (i_posted m ms)
  then show ?thesis using assms(2) by (auto simp: im_stuck_def write_posted_def Let_def)
qed (use assms(2) in \<open>auto simp: im_stuck_def im_ops\<close>)

lemma stuck_steps:
  assumes "(im_step env)\<^sup>*\<^sup>* s s'" "im_stuck w s"
  shows "im_stuck w s'"
  using assms by (induction rule: rtranclp_induct) (auto intro: stuck_step)

text \<open>
  C15: once a write has failed, the client never starts another one, also when it is connected
  again and asked to acknowledge or to say hello: the queue still holds the message that
  failed, and \<open>write\<close> takes that for a write that is under way.
\<close>
theorem no_write_after_failure:
  assumes "(im_step env)\<^sup>*\<^sup>* im_client_new s" "cl_writing s" "(im_step env)\<^sup>*\<^sup>* (write_done now True s) s'"
  shows "cl_wire s' = cl_wire s \<and> \<not> cl_writing s' \<and> cl_queue s' \<noteq> []"
proof -
  have "cl_queue s \<noteq> []" using im_ok_reachable [OF assms(1)] assms(2) by (simp add: im_ok_def)
  then show ?thesis using stuck_steps [OF assms(3) stuck_failed] by (simp add: im_stuck_def)
qed

subsection \<open>A run\<close>

definition demo_im :: im_env where
  "demo_im = \<lparr>js_encode = (\<lambda>l. concat (map (\<lambda>(k, v). k @ v) l)),
     js_decode = (\<lambda>x. Some (\<lambda>k. if k = ''token'' then Some x else None)), js_int = (\<lambda>_. Some 1),
     im_user = (''u'', ''p''), im_spot = []\<rparr>"

definition demo_response :: string where
  "demo_response = ''Content-Length: 2'' @ crlf2 @ ''ab''"

definition run1 :: im_client where "run1 = timed_loop demo_im 13 im_client_new"
definition run2 :: im_client where "run2 = http_connected demo_im False (the (cl_http run1)) run1"
definition run3 :: im_client where "run3 = http_signed False (the (cl_http run2)) run2"
definition run4 :: im_client where
  "run4 = (case http_response demo_im 14 (Some demo_response) (the (cl_http run3)) run3 of Inr s \<Rightarrow> s | Inl _ \<Rightarrow> run3)"
definition run5 :: im_client where "run5 = timed_loop demo_im 15 run4"
definition run6 :: im_client where "run6 = im_connected 16 False run5"
definition run7 :: im_client where "run7 = timed_loop demo_im 17 run6"
definition run8 :: im_client where "run8 = write_posted (hd (cl_posted run7)) (run7\<lparr>cl_posted := tl (cl_posted run7)\<rparr>)"

lemma run_facts:
  "cl_timer im_client_new" "cl_http run1 = Some (the (cl_http run1))" "ht_op (the (cl_http run1)) = Some Http_connect"
  "cl_http run2 = Some (the (cl_http run2))" "ht_op (the (cl_http run2)) = Some Http_sign"
  "cl_http run3 = Some (the (cl_http run3))" "ht_op (the (cl_http run3)) = Some Http_read"
  "http_response demo_im 14 (Some demo_response) (the (cl_http run3)) run3 = Inr run4"
  "cl_timer run4" "cl_connect run5" "cl_timer run6" "cl_posted run7 = hd (cl_posted run7) # tl (cl_posted run7)"
  "cl_writing run8" "length (cl_wire run8) = 1" "cl_stage run8 = Established"
  by code_simp+

lemma run_reached: "(im_step demo_im)\<^sup>*\<^sup>* im_client_new run8"
proof -
  have "im_step demo_im im_client_new run1" unfolding run1_def by (rule i_tick [OF run_facts(1)])
  moreover have "im_step demo_im run1 run2" unfolding run2_def by (rule i_connected [OF run_facts(2,3)])
  moreover have "im_step demo_im run2 run3" unfolding run3_def by (rule i_signed [OF run_facts(4,5)])
  moreover have "im_step demo_im run3 run4" by (rule i_response [OF run_facts(6,7,8)])
  moreover have "im_step demo_im run4 run5" unfolding run5_def by (rule i_tick [OF run_facts(9)])
  moreover have "im_step demo_im run5 run6" unfolding run6_def by (rule i_open [OF run_facts(10)])
  moreover have "im_step demo_im run6 run7" unfolding run7_def by (rule i_tick [OF run_facts(11)])
  moreover have "im_step demo_im run7 run8" unfolding run8_def by (rule i_posted [OF run_facts(12)])
  ultimately show ?thesis by (meson converse_rtranclp_into_rtranclp rtranclp.rtrancl_refl)
qed

theorem im_messages_in_order_witness:
  "cl_asked run8 = cl_wire run8 @ tl (cl_queue run8) @ cl_posted run8 \<and> cl_stage run8 = Established \<and> cl_read run8 \<noteq> None"
  using im_messages_in_order [OF run_reached] run_facts(15) by simp

theorem no_write_after_failure_witness:
  "cl_wire (timed_loop demo_im 99 (write_done 18 True run8)) = cl_wire run8 \<and>
    \<not> cl_writing (timed_loop demo_im 99 (write_done 18 True run8)) \<and> cl_queue (timed_loop demo_im 99 (write_done 18 True run8)) \<noteq> []"
proof (rule no_write_after_failure [OF run_reached run_facts(13)])
  have "cl_timer (write_done 18 True run8)" by code_simp
  then show "(im_step demo_im)\<^sup>*\<^sup>* (write_done 18 True run8) (timed_loop demo_im 99 (write_done 18 True run8))"
    by (intro r_into_rtranclp i_tick)
qed

end
