(* ===== verification/Omx_Ports.thy ===== *)
theory Omx_Ports
  imports Prelude "HOL-Library.Sublist"
begin

section \<open>The decoder ports (ildec.cpp)\<close>

text \<open>
  \<open>ILAvcDec\<close> feeds an OpenMAX component and takes pictures from it. Its buffers belong to the
  program while the flag \<open>MSK_USED\<close> is off, and to the component from \<open>OMX_EmptyThisBuffer\<close>
  or \<open>OMX_FillThisBuffer\<close> until its callback. The component is taken to accept every call;
  \<open>ip_sent\<close> and \<open>op_filled\<close> record what it was given. An iterator is its index. Negotiating the
  ports (\<open>setup\<close> up to its loops, \<open>sync_port_definition\<close>) is a sequence of calls into the
  component and is not modelled.
\<close>

unbundle bit_operations_syntax

subsection \<open>Buffers\<close>

definition MSK_USED :: u8 where "MSK_USED = 0x04"
definition MSK_COPYED :: u8 where "MSK_COPYED = 0x10"

record bufex =
  bx_flags :: u8
  bx_nflags :: u32
  bx_data :: "u8 list"
  bx_alloc :: nat

text \<open>\<open>FlagsHlp<y>::set\<close>\<close>

definition flags_set :: "bool \<Rightarrow> u8 \<Rightarrow> u8 \<Rightarrow> u8" where
  "flags_set y m v = (if y then v OR m else v AND NOT m)"

definition bx_used :: "bufex \<Rightarrow> bool" where
  "bx_used b \<longleftrightarrow> bx_flags b AND MSK_USED \<noteq> 0"

definition bx_copyed :: "bufex \<Rightarrow> bool" where
  "bx_copyed b \<longleftrightarrow> bx_flags b AND MSK_COPYED \<noteq> 0"

definition set_used :: "bool \<Rightarrow> bufex \<Rightarrow> bufex" where
  "set_used y b = b\<lparr>bx_flags := flags_set y MSK_USED (bx_flags b)\<rparr>"

definition set_copyed :: "bool \<Rightarrow> bufex \<Rightarrow> bufex" where
  "set_copyed y b = b\<lparr>bx_flags := flags_set y MSK_COPYED (bx_flags b)\<rparr>"

definition countf :: "u8 \<Rightarrow> bufex list \<Rightarrow> nat" where
  "countf msk bs = length (filter (\<lambda>b. bx_flags b AND msk \<noteq> 0) bs)"

text \<open>The first buffer that is not used, or the end.\<close>

definition find_free :: "bufex list \<Rightarrow> nat" where
  "find_free bs = length (takeWhile bx_used bs)"

subsection \<open>The input port\<close>

record input_port =
  ip_bufs :: "bufex list"
  ip_count :: u32
  ip_replaced :: u32
  ip_sent :: "u8 list list"

definition copydata :: "nat \<Rightarrow> u8 list \<Rightarrow> u32 \<Rightarrow> input_port \<Rightarrow> input_port outcome" where
  "copydata i data fl p =
     (let b = ip_bufs p ! i in
      if bx_alloc b < length data then Inl Undefined
      else Inr (p\<lparr>ip_bufs := (ip_bufs p)[i := set_copyed True (b\<lparr>bx_nflags := fl, bx_data := data\<rparr>)]\<rparr>))"

definition empty_buffer :: "nat \<Rightarrow> input_port \<Rightarrow> input_port" where
  "empty_buffer i p = p\<lparr>ip_bufs := (ip_bufs p)[i := set_used True (ip_bufs p ! i)], ip_replaced := 0,
     ip_sent := ip_sent p @ [bx_data (ip_bufs p ! i)]\<rparr>"

text \<open>\<open>EmptyThis\<close>, used for the parameter sets.\<close>

definition empty_this :: "u8 list \<Rightarrow> u32 \<Rightarrow> input_port \<Rightarrow> input_port outcome" where
  "empty_this data fl p =
     (let i = find_free (ip_bufs p) in
      if i = length (ip_bufs p) then Inl (Err_exit ''None'')
      else bind_ok (copydata i data fl p) (\<lambda>p1. Inr (empty_buffer i p1)))"

text \<open>The two buffers \<open>send\<close> uses: the first, and the one in the middle.\<close>

definition middle :: "input_port \<Rightarrow> nat" where
  "middle p = (length (ip_bufs p) + 1) div 2"

text \<open>
  The first half of \<open>send\<close> looks at the flags, the second fills the buffer. With less than two
  buffers the middle one is the end. The lock that would keep them together is a comment:
  \<open>port_send\<close> is the call as one thread sees it, and the runs below take its halves as steps
  between which a callback can fall. The copying itself is one step.
\<close>

definition send_choose :: "input_port \<Rightarrow> (nat \<times> bool) outcome" where
  "send_choose p =
     (let j = middle p in
      if length (ip_bufs p) \<le> j then Inl Undefined
      else if \<not> bx_used (ip_bufs p ! 0) \<and> \<not> bx_used (ip_bufs p ! j) then Inr (0, True)
      else if \<not> bx_used (ip_bufs p ! 0) then Inr (0, False)
      else if \<not> bx_used (ip_bufs p ! j) then Inr (j, False)
      else Inl (Err_exit ''both used''))"

definition send_fill :: "nat \<Rightarrow> bool \<Rightarrow> u8 list \<Rightarrow> u32 \<Rightarrow> input_port \<Rightarrow> input_port outcome" where
  "send_fill i doempty data fl p =
     (let p1 = (if bx_copyed (ip_bufs p ! i) then p\<lparr>ip_replaced := ip_replaced p + 1\<rparr> else p)
      in bind_ok (copydata i data (0x10 OR 0x04 OR fl) p1) (\<lambda>p2. Inr (if doempty then empty_buffer i p2 else p2)))"

definition port_send :: "u8 list \<Rightarrow> u32 \<Rightarrow> input_port \<Rightarrow> input_port outcome" where
  "port_send data fl p = bind_ok (send_choose p) (\<lambda>(i, doempty). send_fill i doempty data fl p)"

definition in_callback :: "nat \<Rightarrow> input_port \<Rightarrow> input_port" where
  "in_callback i p =
     (let p1 = p\<lparr>ip_count := ip_count p + 1, ip_bufs := (ip_bufs p)[i := (ip_bufs p ! i)\<lparr>bx_flags := 0\<rparr>]\<rparr>;
          j = (if i = 0 then middle p else 0)
      in if bx_copyed (ip_bufs p1 ! j) then empty_buffer j p1 else p1)"

subsection \<open>The output port\<close>

record picture =
  img_width :: nat
  img_height :: nat
  img_stride :: nat
  img_data :: "u8 list"

record output_port =
  op_bufs :: "bufex list"
  op_cur :: nat
  op_count :: u32
  op_width :: nat
  op_height :: nat
  op_stride :: nat
  op_filled :: "nat list"

definition fill_buffer :: "nat \<Rightarrow> output_port \<Rightarrow> output_port" where
  "fill_buffer i p = p\<lparr>op_bufs := (op_bufs p)[i := set_used True ((op_bufs p ! i)\<lparr>bx_nflags := 0, bx_data := []\<rparr>)],
     op_filled := op_filled p @ [i]\<rparr>"

definition fill_one :: "output_port \<Rightarrow> output_port" where
  "fill_one p = (let i = find_free (op_bufs p) in if i = length (op_bufs p) then p else fill_buffer i p)"

definition out_callback :: "nat \<Rightarrow> output_port \<Rightarrow> output_port" where
  "out_callback i p = fill_buffer i p"

definition out_ready :: "output_port \<Rightarrow> output_port" where
  "out_ready p = p\<lparr>op_cur := 0\<rparr>"

definition out_poll :: "output_port \<Rightarrow> picture option \<times> output_port" where
  "out_poll p =
     (let b = op_bufs p ! op_cur p in
      if bx_data b = [] then (None, p)
      else (Some \<lparr>img_width = op_width p, img_height = op_height p, img_stride = op_stride p, img_data = bx_data b\<rparr>,
            p\<lparr>op_cur := (if op_cur p + 1 = length (op_bufs p) then 0 else op_cur p + 1), op_count := op_count p + 1\<rparr>))"

text \<open>The component writes a picture into a buffer it holds.\<close>

definition component_writes :: "nat \<Rightarrow> u8 list \<Rightarrow> output_port \<Rightarrow> output_port" where
  "component_writes i x p = p\<lparr>op_bufs := (op_bufs p)[i := (op_bufs p ! i)\<lparr>bx_data := x\<rparr>]\<rparr>"

subsection \<open>Stages and callbacks\<close>

record ildec =
  il_stage :: nat
  il_in :: input_port
  il_out :: output_port
  il_command :: nat
  il_bufempty :: nat


definition FillBufferDone :: "nat \<Rightarrow> ildec \<Rightarrow> ildec" where
  "FillBufferDone i d =
     (if il_stage d > 2 then d
      else if il_stage d = 2 then d\<lparr>il_out := out_callback i (il_out d)\<rparr>
      else let d1 = d\<lparr>il_out := (il_out d)\<lparr>op_bufs := (op_bufs (il_out d))[i := (op_bufs (il_out d) ! i)\<lparr>bx_flags := 0\<rparr>]\<rparr>\<rparr>
           in if il_stage d = 1 \<or> countf MSK_USED (op_bufs (il_out d1)) = 0
              then d1\<lparr>il_command := il_command d1 + 1\<rparr> else d1)"

datatype omx_event = Cmd_state_set | Cmd_port_disable | Cmd_port_enable | Cmd_flush | Cmd_other
  | Port_settings_changed | Buffer_flag | Omx_error | Event_other

definition cbEventHandler :: "omx_event \<Rightarrow> ildec \<Rightarrow> ildec outcome" where
  "cbEventHandler e d = (case e of
     Buffer_flag \<Rightarrow> Inl (Err_exit ''OMX_EventBufferFlag'')
   | Omx_error \<Rightarrow> Inl (Err_exit ''OMX_EventError'')
   | Cmd_other \<Rightarrow> Inr d
   | Event_other \<Rightarrow> Inr d
   | _ \<Rightarrow> Inr (d\<lparr>il_command := il_command d + 1\<rparr>))"


text \<open>\<open>outpoll\<close> waits while no more pictures are due; \<open>None\<close> is one more turn of the wait.\<close>

definition outpoll :: "bool \<Rightarrow> ildec \<Rightarrow> (picture option \<times> ildec) option" where
  "outpoll interrupt d =
     (if op_count (il_out d) \<ge> ip_count (il_in d) \<and> \<not> interrupt then None
      else if interrupt then Some (None, d)
      else case out_poll (il_out d) of (r, p) \<Rightarrow> Some (r, d\<lparr>il_out := p\<rparr>))"

text \<open>The end of \<open>setup\<close>: every output buffer is handed out.\<close>

definition enter_stage2 :: "ildec \<Rightarrow> ildec" where
  "enter_stage2 d =
     (let q = out_ready (fold fill_buffer [0..<length (op_bufs (il_out d))] (il_out d))
      in d\<lparr>il_stage := 2, il_out := q\<lparr>op_count := 0\<rparr>, il_in := (il_in d)\<lparr>ip_count := 0\<rparr>\<rparr>)"

definition omxbufs_deinit :: "bufex list \<Rightarrow> bufex list" where
  "omxbufs_deinit bs = []"

definition omxbufs_reinit :: "nat \<Rightarrow> nat \<Rightarrow> bufex list \<Rightarrow> bufex list" where
  "omxbufs_reinit n alloc bs = replicate n \<lparr>bx_flags = 0, bx_nflags = 0, bx_data = [], bx_alloc = alloc\<rparr>"


subsection \<open>Flags\<close>

lemmas flag_defs = bx_used_def bx_copyed_def set_used_def set_copyed_def flags_set_def MSK_USED_def MSK_COPYED_def

lemma flag_simps [simp]:
  "bx_used (set_used True b)" "bx_copyed (set_used True b) = bx_copyed b" "bx_copyed (set_copyed True b)" "bx_used (set_copyed True b) = bx_used b"
  "\<not> bx_used (b\<lparr>bx_flags := 0\<rparr>)" "\<not> bx_copyed (b\<lparr>bx_flags := 0\<rparr>)"
  "bx_data (set_used y b) = bx_data b" "bx_data (set_copyed y b) = bx_data b"
  "bx_alloc (set_used y b) = bx_alloc b" "bx_alloc (set_copyed y b) = bx_alloc b"
  "bx_used (b\<lparr>bx_nflags := f, bx_data := d\<rparr>) = bx_used b" "bx_copyed (b\<lparr>bx_nflags := f, bx_data := d\<rparr>) = bx_copyed b"
  by (auto simp: flag_defs bit.conj_disj_distrib2)

subsection \<open>A mailbox for one frame\<close>

text \<open>
  What the two buffers are for: one frame is in the decoder, at most one waits, and a newer
  frame takes the place of the one that waits.
\<close>

record mailbox =
  mx_busy :: bool
  mx_next :: "u8 list option"
  mx_sent :: "u8 list list"

definition mail_put :: "u8 list \<Rightarrow> mailbox \<Rightarrow> mailbox" where
  "mail_put x m = (if mx_busy m then m\<lparr>mx_next := Some x\<rparr> else m\<lparr>mx_busy := True, mx_sent := mx_sent m @ [x]\<rparr>)"

definition mail_done :: "mailbox \<Rightarrow> mailbox" where
  "mail_done m = (case mx_next m of
     None \<Rightarrow> m\<lparr>mx_busy := False\<rparr> | Some x \<Rightarrow> m\<lparr>mx_next := None, mx_sent := mx_sent m @ [x]\<rparr>)"

text \<open>\<open>A\<close> is the size of the buffers the component has allocated.\<close>

definition port_ok :: "nat \<Rightarrow> input_port \<Rightarrow> bool" where
  "port_ok A p \<longleftrightarrow>
     (let a = ip_bufs p ! 0; b = ip_bufs p ! middle p in
      2 \<le> length (ip_bufs p) \<and> (\<forall>x \<in> set (ip_bufs p). bx_alloc x = A) \<and> \<not> (bx_used a \<and> bx_used b) \<and>
      (\<not> bx_used a \<and> \<not> bx_used b \<longrightarrow> \<not> bx_copyed a \<and> \<not> bx_copyed b))"

definition port_waits :: "input_port \<Rightarrow> u8 list option" where
  "port_waits p =
     (let a = ip_bufs p ! 0; b = ip_bufs p ! middle p in
      if \<not> bx_used a \<and> bx_copyed a then Some (bx_data a) else if \<not> bx_used b \<and> bx_copyed b then Some (bx_data b) else None)"

definition port_abs :: "input_port \<Rightarrow> mailbox" where
  "port_abs p = \<lparr>mx_busy = bx_used (ip_bufs p ! 0) \<or> bx_used (ip_bufs p ! middle p), mx_next = port_waits p, mx_sent = ip_sent p\<rparr>"

lemma middle_inside: "2 \<le> length (ip_bufs p) \<Longrightarrow> 0 < middle p \<and> middle p < length (ip_bufs p)"
  by (auto simp: middle_def)

lemma middle_cong: "length (ip_bufs p) = length (ip_bufs q) \<Longrightarrow> middle p = middle q"
  by (simp add: middle_def)

text \<open>The buffers of a port that has two: the first, the middle one, and the others.\<close>

lemma port_send_refines:
  assumes "port_ok A p" "length x \<le> A"
  shows "\<exists>p'. port_send x fl p = Inr p' \<and> port_ok A p' \<and> port_abs p' = mail_put x (port_abs p)"
proof -
  define bs where "bs = ip_bufs p"
  define j where "j = middle p"
  have j: "0 < j" "j < length bs" "bs \<noteq> []" "j \<noteq> 0"
    using middle_inside [of p] assms(1) by (auto simp: port_ok_def Let_def bs_def j_def)
  have al: "bx_alloc (bs ! 0) = A" "bx_alloc (bs ! j) = A" "\<forall>b \<in> set bs. bx_alloc b = A"
    using assms(1) j by (auto simp: port_ok_def Let_def bs_def)
  have u: "\<not> (bx_used (bs ! 0) \<and> bx_used (bs ! j))" "\<not> bx_used (bs ! 0) \<and> \<not> bx_used (bs ! j) \<longrightarrow> \<not> bx_copyed (bs ! 0) \<and> \<not> bx_copyed (bs ! j)"
    using assms(1) by (auto simp: port_ok_def Let_def bs_def j_def)
  have mid: "middle (q::input_port) = j" if "length (ip_bufs q) = length bs" for q
    using that by (simp add: middle_def j_def bs_def)
  show ?thesis
    using j al u assms(2) mid
    by (cases "bx_used (bs ! 0)"; cases "bx_used (bs ! j)")
      (auto simp: port_send_def send_choose_def send_fill_def copydata_def empty_buffer_def port_ok_def port_abs_def
        port_waits_def mail_put_def Let_def bs_def [symmetric] j_def [symmetric] nth_list_update
        dest: in_set_conv_nth [THEN iffD1] dest!: subsetD [OF set_update_subset_insert])
qed

lemma in_callback_refines:
  assumes "port_ok A p" "k = 0 \<or> k = middle p" "bx_used (ip_bufs p ! k)"
  shows "port_ok A (in_callback k p) \<and> port_abs (in_callback k p) = mail_done (port_abs p)"
proof -
  define bs where "bs = ip_bufs p"
  define j where "j = middle p"
  have j: "0 < j" "j < length bs" "bs \<noteq> []" "j \<noteq> 0"
    using middle_inside [of p] assms(1) by (auto simp: port_ok_def Let_def bs_def j_def)
  have al: "bx_alloc (bs ! 0) = A" "bx_alloc (bs ! j) = A" "\<forall>b \<in> set bs. bx_alloc b = A"
    using assms(1) j by (auto simp: port_ok_def Let_def bs_def)
  have u: "\<not> (bx_used (bs ! 0) \<and> bx_used (bs ! j))"
    using assms(1) by (auto simp: port_ok_def Let_def bs_def j_def)
  have mid: "middle (q::input_port) = j" if "length (ip_bufs q) = length bs" for q
    using that by (simp add: middle_def j_def bs_def)
  have k: "k = 0 \<or> k = j" "bx_used (bs ! k)" using assms(2,3) by (auto simp: j_def bs_def)
  then show ?thesis
    using j al u mid
    by (elim disjE)
      (auto simp: in_callback_def empty_buffer_def port_ok_def port_abs_def
        port_waits_def mail_done_def Let_def bs_def [symmetric] j_def [symmetric] nth_list_update
        dest!: subsetD [OF set_update_subset_insert])
qed


text \<open>
  C10: the two buffers of the input port implement the mailbox: a frame that is sent is put,
  and a buffer that comes back from the component is done. Neither call is undefined, and
  \<open>both used\<close> never ends the process.
\<close>
theorem port_refines_mailbox:
  assumes "port_ok A p"
  shows "(length x \<le> A \<longrightarrow> (\<exists>p'. port_send x fl p = Inr p' \<and> port_ok A p' \<and> port_abs p' = mail_put x (port_abs p))) \<and>
    (k \<in> {0, middle p} \<and> bx_used (ip_bufs p ! k) \<longrightarrow>
       port_ok A (in_callback k p) \<and> port_abs (in_callback k p) = mail_done (port_abs p))"
  using port_send_refines [OF assms] in_callback_refines [OF assms] by blast

definition port_new :: "nat \<Rightarrow> nat \<Rightarrow> input_port" where
  "port_new n A = \<lparr>ip_bufs = omxbufs_reinit n A [], ip_count = 0, ip_replaced = 0, ip_sent = []\<rparr>"

lemma port_ok_new: "2 \<le> n \<Longrightarrow> port_ok A (port_new n A)"
  by (auto simp: port_ok_def port_new_def omxbufs_reinit_def middle_def Let_def flag_defs)

theorem port_refines_mailbox_witness:
  "\<exists>p'. port_send [1, 2] 0 (port_new 2 8) = Inr p' \<and> port_ok 8 p' \<and> port_abs p' = mail_put [1, 2] (port_abs (port_new 2 8))"
  using port_refines_mailbox [OF port_ok_new [of 2 8], of "[1, 2]" 0] by simp

subsection \<open>Runs of the input port\<close>
















text \<open>\<open>x\<close> is sent; while \<open>y\<close> is, its buffer comes back; then \<open>z\<close> is sent, and the buffer comes back again.\<close>

definition unlocked_run :: "u8 list \<Rightarrow> u8 list \<Rightarrow> u8 list \<Rightarrow> u32 \<Rightarrow> input_port \<Rightarrow> u8 list list outcome" where
  "unlocked_run x y z fl p =
     bind_ok (port_send x fl p) (\<lambda>p1.
     bind_ok (send_choose p1) (\<lambda>(i, e).
     bind_ok (send_fill i e y fl (in_callback 0 p1)) (\<lambda>p2.
     bind_ok (port_send z fl p2) (\<lambda>p3. Inr (ip_sent (in_callback 0 p3))))))"

text \<open>
  C32: the lock in \<open>send\<close> is a comment. When the callback of the first buffer runs between the
  look at the flags and the copy, the frame waits although nothing is out, the next frame
  overtakes it, and the component gets the older one last.
\<close>
theorem unlocked_send_reorders:
  assumes "port_ok A p" "\<not> bx_used (ip_bufs p ! 0)" "\<not> bx_used (ip_bufs p ! middle p)"
    and "length x \<le> A" "length y \<le> A" "length z \<le> A"
  shows "unlocked_run x y z fl p = Inr (ip_sent p @ [x, z, y])"
proof -
  define bs where "bs = ip_bufs p"
  define j where "j = middle p"
  have j: "0 < j" "j < length bs" "bs \<noteq> []" "j \<noteq> 0"
    using middle_inside [of p] assms(1) by (auto simp: port_ok_def Let_def bs_def j_def)
  have al: "bx_alloc (bs ! 0) = A" "bx_alloc (bs ! j) = A"
    using assms(1) j by (auto simp: port_ok_def Let_def bs_def)
  have u: "\<not> bx_used (bs ! 0)" "\<not> bx_used (bs ! j)" "\<not> bx_copyed (bs ! 0)" "\<not> bx_copyed (bs ! j)"
    using assms(1-3) by (auto simp: port_ok_def Let_def bs_def j_def)
  have mid: "middle (q::input_port) = j" if "length (ip_bufs q) = length bs" for q
    using that by (simp add: middle_def j_def bs_def)
  show ?thesis
    using j al u assms(4-6) mid
    by (simp add: unlocked_run_def port_send_def send_choose_def send_fill_def copydata_def empty_buffer_def in_callback_def
        Let_def bs_def [symmetric] j_def [symmetric] nth_list_update)
qed

theorem unlocked_send_reorders_witness:
  "unlocked_run [1] [2] [3] 0 (port_new 2 8) = Inr (ip_sent (port_new 2 8) @ [[1], [3], [2]])"
proof (rule unlocked_send_reorders [of 8])
  show "port_ok 8 (port_new 2 8)" by (rule port_ok_new) simp
qed (simp_all add: port_new_def omxbufs_reinit_def middle_def flag_defs)

subsection \<open>The decoder while it runs\<close>

definition il_ok :: "nat \<Rightarrow> ildec \<Rightarrow> bool" where
  "il_ok A d \<longleftrightarrow> il_stage d = 2 \<and> port_ok A (il_in d) \<and> op_cur (il_out d) < length (op_bufs (il_out d))"













text \<open>
  in stage 2 the callback of an output buffer hands it out again at once, with its length
  set to zero. A picture that was not taken between the component's write and that callback
  is gone: \<open>outpoll\<close> returns nothing for it, and the thread that polls ends.
\<close>
theorem picture_gone_after_callback:
  assumes "il_ok A d" "i = op_cur (il_out d)"
  shows "\<forall>r d'. outpoll False (FillBufferDone i (d\<lparr>il_out := component_writes i x (il_out d)\<rparr>)) = Some (r, d') \<longrightarrow> r = None"
  using assms
  by (auto simp: il_ok_def FillBufferDone_def out_callback_def fill_buffer_def component_writes_def outpoll_def out_poll_def
      set_used_def Let_def split: if_splits)

definition demo_dec :: ildec where
  "demo_dec = enter_stage2 \<lparr>il_stage = 1, il_in = port_new 2 8,
     il_out = \<lparr>op_bufs = omxbufs_reinit 2 16 [], op_cur = 0, op_count = 0, op_width = 2, op_height = 2, op_stride = 2, op_filled = []\<rparr>,
     il_command = 0, il_bufempty = 0\<rparr>"

lemma demo_dec_ok: "il_ok 8 demo_dec"
  using port_ok_new [of 2 8]
  by (simp add: demo_dec_def il_ok_def enter_stage2_def out_ready_def fill_buffer_def omxbufs_reinit_def Let_def port_ok_def
      middle_def port_new_def eval_nat_numeral)


definition demo_due :: ildec where
  "demo_due = demo_dec\<lparr>il_in := (il_in demo_dec)\<lparr>ip_count := 1\<rparr>\<rparr>"

lemma demo_due_ok: "il_ok 8 demo_due"
  using demo_dec_ok by (simp add: demo_due_def il_ok_def port_ok_def middle_def Let_def)

lemma demo_due_polls: "\<exists>r d'. outpoll False (FillBufferDone 0 (demo_due\<lparr>il_out := component_writes 0 [5] (il_out demo_due)\<rparr>)) = Some (r, d')"
  by (simp add: demo_due_def demo_dec_def enter_stage2_def out_ready_def fill_buffer_def omxbufs_reinit_def outpoll_def
      FillBufferDone_def out_callback_def component_writes_def Let_def split: prod.split)

theorem picture_gone_after_callback_witness:
  "\<exists>d'. outpoll False (FillBufferDone 0 (demo_due\<lparr>il_out := component_writes 0 [5] (il_out demo_due)\<rparr>)) = Some (None, d')"
proof -
  have "0 = op_cur (il_out demo_due)" by code_simp
  then show ?thesis using picture_gone_after_callback [OF demo_due_ok, of 0 "[5]"] demo_due_polls by blast
qed

end
