(* ===== verification/Hgs_Jni.thy ===== *)
theory Hgs_Jni
  imports Rtp_H264 Glex Wap_Text
begin

section \<open>Between the network and the decoder (hgs-jni.cpp)\<close>

text \<open>
  \<open>nwk_dataincoming\<close> gets the NAL units of the camera. The first ones give the parameter
  sets, with which the decoder is set up and its thread started; from then on the key frames
  go to the decoder. The global pointers \<open>tmpargs_\<close> and \<open>main_\<close> and the global \<open>stage_\<close>
  are fields of \<open>jni\<close>; the calls to the decoder, which may refuse the set-up, are recorded.
  \<open>h264nalu_reader\<close> cuts a file of units with start codes, as the test program does.
\<close>

unbundle bit_operations_syntax

definition startbytes :: "u8 list" where
  "startbytes = [0, 0, 0, 1]"

subsection \<open>A file of units\<close>

type_synonym range2 = "nat \<times> nat"

definition find_unit :: "u8 list \<Rightarrow> nat \<Rightarrow> range2" where
  "find_unit f e = (if e + 4 < length f then (e, search_in startbytes f (e + 4) (length f)) else (e, e))"

lemma find_unit_bounds:
  assumes "find_unit f p = (b, e)" "b \<noteq> e"
  shows "b = p" "p + 4 \<le> e" "e \<le> length f"
proof -
  have l: "p + 4 < length f" "b = p" "e = search_in startbytes f (p + 4) (length f)"
    using assms by (auto simp: find_unit_def split: if_splits)
  then show "b = p" "p + 4 \<le> e" "e \<le> length f" using search_in_bounds [of "p + 4" "length f" startbytes f] by auto
qed

lemma find_unit_less: "(b, e) = find_unit f p \<Longrightarrow> b \<noteq> e \<Longrightarrow> length f - e < length f - p"
  using find_unit_bounds [of f p b e] by auto

text \<open>The next unit of the wanted type, 0 for any; units of low importance are passed over.\<close>

function next_unit :: "u8 list \<Rightarrow> nat \<Rightarrow> u8 \<Rightarrow> range2" where
  "next_unit f p t =
     (case find_unit f p of (b, e) \<Rightarrow>
        if b = e then (b, e)
        else if nal_nri (f ! (b + 4)) < 3 \<or> (t \<noteq> 0 \<and> nal_type (f ! (b + 4)) \<noteq> t) then next_unit f e t
        else (b, e))"
  by pat_completeness auto
termination by (relation "measure (\<lambda>(f, p, t). length f - p)") (auto dest: find_unit_less)

declare next_unit.simps [simp del]

lemma next_unit_bounds:
  assumes "next_unit f p t = (b, e)" "b \<noteq> e"
  shows "p < e \<and> e \<le> length f"
  using assms
proof (induction f p t rule: next_unit.induct)
  case (1 f p t)
  obtain c d where f: "find_unit f p = (c, d)" by (cases "find_unit f p")
  show ?case
  proof (cases "c = d")
    case True
    then show ?thesis using 1 f by (subst (asm) (2) next_unit.simps) simp
  next
    case False
    note k = find_unit_bounds [OF f False] and ne = False
    show ?thesis
    proof (cases "nal_nri (f ! (c + 4)) < 3 \<or> (t \<noteq> 0 \<and> nal_type (f ! (c + 4)) \<noteq> t)")
      case True
      then have "next_unit f d t = (b, e)" using 1(2) f ne by (subst (asm) next_unit.simps) simp
      then show ?thesis using 1(1) [OF f [symmetric] ne True] 1(3) k by simp
    next
      case False
      then have "(c, d) = (b, e)" using 1(2) f ne by (subst (asm) next_unit.simps) (auto split: if_splits)
      then show ?thesis using k by simp
    qed
  qed
qed

lemma next_unit_less: "(b, e) = next_unit f p t \<Longrightarrow> b \<noteq> e \<Longrightarrow> length f - e < length f - p"
  using next_unit_bounds [of f p t b e] by auto

definition first_unit :: "u8 list \<Rightarrow> u8 \<Rightarrow> range2" where
  "first_unit f t = next_unit f 0 t"

text \<open>\<open>make_mbuffer\<close> leaves the start code away.\<close>

definition unit_at :: "u8 list \<Rightarrow> range2 \<Rightarrow> u8 list" where
  "unit_at f r = slice f (fst r + 4) (snd r)"

text \<open>The loop of the test: the units of a type, one after the other.\<close>

function units_from :: "u8 list \<Rightarrow> nat \<Rightarrow> u8 \<Rightarrow> u8 list list" where
  "units_from f p t =
     (case next_unit f p t of (b, e) \<Rightarrow> if b = e then [] else unit_at f (b, e) # units_from f e t)"
  by pat_completeness auto
termination by (relation "measure (\<lambda>(f, p, t). length f - p)") (auto dest: next_unit_less)

declare units_from.simps [simp del]

subsection \<open>Set-up and input\<close>

record args =
  ar_sps :: "u8 list"
  ar_pps :: "u8 list"
  ar_width :: nat
  ar_height :: nat
  ar_setup_ok :: bool
  ar_renderer_ok :: bool

datatype dcall = Setup nat nat "u8 list" "u8 list" | Input "u8 list"

text \<open>The network session \<open>rtph264_\<close>: whom it talks to, and whether its thread runs.\<close>

record session =
  ss_ip :: string
  ss_port :: int
  ss_uri :: string
  ss_running :: bool

text \<open>
  The globals of the library, the calls to the decoder and the actions posted to the network
  thread (true to tear down, false to stop).
\<close>

record jni =
  jn_stage :: int
  jn_tmpargs :: "args option"
  jn_main :: "args option"
  jn_session :: "session option"
  jn_calls :: "dcall list"
  jn_posted :: "bool list"

definition with_start :: "mbuffer \<Rightarrow> u8 list" where
  "with_start b = startbytes @ mb_content b"

definition nal_header :: "mbuffer \<Rightarrow> u8" where
  "nal_header b = hd (mb_content b)"

text \<open>\<open>Args::init\<close>: true when both sets are there.\<close>

definition args_init :: "mbuffer \<Rightarrow> args \<Rightarrow> bool \<times> args" where
  "args_init b a =
     (let h = nal_header b in
      if nal_nri h < 3 then (False, a)
      else if nal_type h = 7 \<or> nal_type h = 8 then
        (let a1 = (if nal_type h = 7 then a\<lparr>ar_sps := with_start b\<rparr> else a\<lparr>ar_pps := with_start b\<rparr>)
         in (ar_sps a1 \<noteq> [] \<and> ar_pps a1 \<noteq> [], a1))
      else (False, a))"

text \<open>The constructor of \<open>Main\<close>; \<open>ok\<close> is the answer of the decoder.\<close>

definition main_make :: "bool \<Rightarrow> args \<Rightarrow> jni \<Rightarrow> jni" where
  "main_make ok a j = j\<lparr>jn_tmpargs := None, jn_main := Some (a\<lparr>ar_setup_ok := ok\<rparr>),
     jn_calls := jn_calls j @ [Setup (ar_width a) (ar_height a) (ar_sps a) (ar_pps a)]\<rparr>"

definition main_input :: "mbuffer \<Rightarrow> jni \<Rightarrow> jni" where
  "main_input b j =
     (let h = nal_header b in
      if nal_nri h < 3 \<or> nal_type h \<noteq> 5 then j else j\<lparr>jn_calls := jn_calls j @ [Input (with_start b)]\<rparr>)"

definition nwk_dataincoming :: "bool \<Rightarrow> mbuffer \<Rightarrow> jni \<Rightarrow> jni outcome" where
  "nwk_dataincoming ok b j =
     (case jn_main j of
        Some m \<Rightarrow> Inr (main_input b j)
      | None \<Rightarrow>
          (case jn_tmpargs j of
             None \<Rightarrow> Inl (Err_exit ''error'')
           | Some a \<Rightarrow> (case args_init b a of (full, a1) \<Rightarrow>
               Inr (if full then main_make ok a1 j else j\<lparr>jn_tmpargs := Some a1\<rparr>))))"

subsection \<open>The calls from Java\<close>

definition jni_new :: jni where
  "jni_new = \<lparr>jn_stage = 0, jn_tmpargs = None, jn_main = None, jn_session = None, jn_calls = [], jn_posted = []\<rparr>"

text \<open>\<open>vWidth\<close> and \<open>vHeight\<close> are \<open>unsigned short\<close>.\<close>

definition hgs_init :: "int \<Rightarrow> int \<Rightarrow> bool \<Rightarrow> jni \<Rightarrow> jni" where
  "hgs_init w h window j = j\<lparr>jn_tmpargs := Some \<lparr>ar_sps = [], ar_pps = [], ar_width = nat (w mod 65536),
     ar_height = nat (h mod 65536), ar_setup_ok = False, ar_renderer_ok = window\<rparr>\<rparr>"

definition jni_stage :: "int \<Rightarrow> jni \<Rightarrow> int \<times> jni" where
  "jni_stage y j = (jn_stage j, j\<lparr>jn_stage := y\<rparr>)"

definition hgsnwk_init :: "string \<Rightarrow> int \<Rightarrow> string \<Rightarrow> jni \<Rightarrow> jni outcome" where
  "hgsnwk_init ip port uri j =
     (if jn_session j \<noteq> None then Inl Assertion
      else Inr (j\<lparr>jn_session := Some \<lparr>ss_ip = ip, ss_port = port, ss_uri = uri, ss_running = False\<rparr>\<rparr>))"

definition hgsnwk_run :: "jni \<Rightarrow> jni outcome" where
  "hgsnwk_run j =
     (case jn_session j of
        None \<Rightarrow> Inl Assertion
      | Some s \<Rightarrow> Inr (j\<lparr>jn_session := Some (s\<lparr>ss_running := True\<rparr>)\<rparr>))"

definition hgsnwk_exit :: "bool \<Rightarrow> jni \<Rightarrow> jni outcome" where
  "hgsnwk_exit preexit j =
     (case jn_session j of
        None \<Rightarrow> Inl Assertion
      | Some s \<Rightarrow>
          (let j1 = j\<lparr>jn_posted := jn_posted j @ [preexit]\<rparr>
           in Inr (if preexit then j1 else j1\<lparr>jn_session := None\<rparr>)))"

text \<open>The URI is written into 256 characters.\<close>

definition hgs_uri :: "string \<Rightarrow> int \<Rightarrow> string \<Rightarrow> string" where
  "hgs_uri ip port path =
     take 255 (if port = 554 then ''rtsp://'' @ ip @ path else ''rtsp://'' @ ip @ '':'' @ show_int port @ path)"

definition hgs_start :: "string \<Rightarrow> int \<Rightarrow> string \<Rightarrow> jni \<Rightarrow> jni outcome" where
  "hgs_start ip port path j =
     bind_ok (hgsnwk_init ip port (hgs_uri ip port path) (snd (jni_stage 1 j))) hgsnwk_run"

definition hgs_stop :: "jni \<Rightarrow> jni outcome" where
  "hgs_stop j =
     bind_ok (if 0 < jn_stage j
              then bind_ok (hgsnwk_exit True (snd (jni_stage 0 j))) (hgsnwk_exit False)
              else Inr j)
       (\<lambda>j1. case jn_main j1 of None \<Rightarrow> Inl Undefined | Some m \<Rightarrow> Inr (j1\<lparr>jn_main := None\<rparr>))"

text \<open>What the network thread hands over, one unit after the other.\<close>

fun incoming_all :: "bool \<Rightarrow> mbuffer list \<Rightarrow> jni \<Rightarrow> jni outcome" where
  "incoming_all ok [] j = Inr j"
| "incoming_all ok (b # bs) j = bind_ok (nwk_dataincoming ok b j) (incoming_all ok bs)"


subsection \<open>A file comes apart as it was put together\<close>

definition unit_ok :: "u8 list \<Rightarrow> bool" where
  "unit_ok n \<longleftrightarrow> n \<noteq> [] \<and> (\<forall>i. \<not> hit startbytes n i (length n))"

definition wanted :: "u8 \<Rightarrow> u8 list \<Rightarrow> bool" where
  "wanted t n \<longleftrightarrow> \<not> nal_nri (hd n) < 3 \<and> (t = 0 \<or> nal_type (hd n) = t)"

definition unit_file :: "u8 list list \<Rightarrow> u8 list" where
  "unit_file ns = concat (map (\<lambda>n. startbytes @ n) ns)"

lemma unit_file_simps [simp]: "unit_file [] = []" "unit_file (n # ns) = startbytes @ n @ unit_file ns"
  by (simp_all add: unit_file_def)

lemma slice_shift: "slice (u @ x) (length u + i) (length u + k) = slice x i k"
  by (simp add: slice_def)

lemma startbytes_ne [simp]: "startbytes \<noteq> []"
  by (simp add: startbytes_def)

lemma length_startbytes [simp]: "length startbytes = 4"
  by (simp add: startbytes_def)

lemma startbytes_nth: "k < 3 \<Longrightarrow> startbytes ! k = 0" "startbytes ! 3 = 1"
  by (simp_all add: startbytes_def nth_Cons' numeral_2_eq_2)

lemma hit_start: "hit startbytes x i e \<longleftrightarrow> i + 4 \<le> e \<and> slice x i (i + 4) = startbytes"
  by (auto simp: hit_def)

lemma no_hit_across:
  assumes "unit_ok n" "i < length n"
  shows "slice (n @ unit_file ns) i (i + 4) \<noteq> startbytes"
proof (cases "i + 4 \<le> length n")
  case True
  have "\<not> hit startbytes n i (length n)" using assms(1) by (simp add: unit_ok_def)
  then have "slice n i (i + 4) \<noteq> startbytes" using True by (simp add: hit_start)
  moreover have "slice (n @ unit_file ns) i (i + 4) = slice n i (i + 4)" using True by (simp add: slice_def)
  ultimately show ?thesis by simp
next
  case False
  show ?thesis
  proof
    assume h: "slice (n @ unit_file ns) i (i + 4) = startbytes"
    then have "length (slice (n @ unit_file ns) i (i + 4)) = 4" by simp
    then have l: "i + 4 \<le> length (n @ unit_file ns)" by (simp add: slice_def)
    then have "ns \<noteq> []" using False by (cases ns) auto
    then obtain y where y: "unit_file ns = startbytes @ y" by (cases ns) auto
    have "slice (n @ unit_file ns) i (i + 4) ! 3 = (n @ unit_file ns) ! (i + 3)" using l by (simp add: slice_def del: drop_append take_append)
    also have "\<dots> = unit_file ns ! (i + 3 - length n)" using False by (simp add: nth_append)
    also have "\<dots> = 0"
    proof -
      have "i + 3 - length n < 3" using assms(2) False by linarith
      then show ?thesis unfolding y by (simp add: nth_append startbytes_nth(1))
    qed
    finally show False using h by (simp add: startbytes_nth(2))
  qed
qed

lemma find_unit_file:
  assumes "unit_ok n"
  shows "find_unit (u @ unit_file (n # ns)) (length u) = (length u, length u + 4 + length n)"
proof -
  define f where "f = u @ unit_file (n # ns)"
  let ?v = "u @ startbytes"
  let ?p = "length u + 4"
  have v: "f = ?v @ n @ unit_file ns" "length ?v = ?p" by (simp_all add: f_def)
  have len: "length f = ?p + length n + length (unit_file ns)" by (simp add: f_def)
  have n: "n \<noteq> []" using assms by (simp add: unit_ok_def)
  define k where "k = search_in startbytes f ?p (length f)"
  have none: "\<not> hit startbytes f i (length f)" if "?p \<le> i" "i < ?p + length n" for i
  proof -
    define d where "d = i - ?p"
    then have d: "i = ?p + d" using that(1) by simp
    then have "d < length n" using that(2) by simp
    then have "slice (n @ unit_file ns) d (d + 4) \<noteq> startbytes" using no_hit_across [OF assms] by blast
    moreover have "slice f i (i + 4) = slice (n @ unit_file ns) d (d + 4)"
    proof -
      have "i = length ?v + d" "i + 4 = length ?v + (d + 4)" using v(2) d by simp_all
      then show ?thesis unfolding v(1) by (simp only: slice_shift)
    qed
    ultimately show ?thesis by (simp add: hit_start)
  qed
  have spec: "(k < length f \<and> ?p \<le> k \<and> hit startbytes f k (length f) \<and>
      (\<forall>i. ?p \<le> i \<and> i < k \<longrightarrow> \<not> hit startbytes f i (length f))) \<or>
      (k = length f \<and> (\<forall>i. ?p \<le> i \<longrightarrow> \<not> hit startbytes f i (length f)))"
    unfolding k_def by (rule search_in_spec) (use len in simp_all)
  have "k = ?p + length n"
  proof (cases ns)
    case Nil
    then have l: "length f = ?p + length n" using len by simp
    then have "\<not> (k < length f \<and> ?p \<le> k \<and> hit startbytes f k (length f))" using none [of k] by auto
    then show ?thesis using spec l by blast
  next
    case (Cons m ms)
    have "slice f (?p + length n) (?p + length n + 4) = startbytes"
      using slice_shift [of "?v @ n" "unit_file ns" 0 4] Cons v(1) by (simp add: slice_def)
    then have hit: "hit startbytes f (?p + length n) (length f)"
      using len Cons by (simp add: hit_start)
    have le: "?p \<le> ?p + length n" by simp
    from spec show ?thesis
    proof
      assume s: "k < length f \<and> ?p \<le> k \<and> hit startbytes f k (length f) \<and>
        (\<forall>i. ?p \<le> i \<and> i < k \<longrightarrow> \<not> hit startbytes f i (length f))"
      have "\<not> k < ?p + length n" using none s by blast
      moreover have "\<not> ?p + length n < k" using s hit le by blast
      ultimately show ?thesis by linarith
    next
      assume "k = length f \<and> (\<forall>i. ?p \<le> i \<longrightarrow> \<not> hit startbytes f i (length f))"
      then show ?thesis using hit le by blast
    qed
  qed
  moreover have "?p < length f" using len n by simp
  ultimately show ?thesis unfolding f_def [symmetric] using k_def by (simp add: find_unit_def)
qed

lemma find_unit_last: "find_unit f (length f) = (length f, length f)"
  by (simp add: find_unit_def)

lemma header_of_unit: "n \<noteq> [] \<Longrightarrow> unit_file (n # ns) ! 4 = hd n"
  by (cases n) (simp_all add: nth_append)

lemma unit_at_file: "unit_at (u @ unit_file (n # ns)) (length u, length u + 4 + length n) = n"
proof -
  have "slice ((u @ startbytes) @ n @ unit_file ns) (length (u @ startbytes) + 0) (length (u @ startbytes) + length n) = slice (n @ unit_file ns) 0 (length n)"
    by (rule slice_shift)
  then show ?thesis by (simp add: unit_at_def slice_def)
qed

lemma next_unit_skip:
  assumes "unit_ok n" "\<not> wanted t n"
  shows "next_unit (u @ unit_file (n # ns)) (length u) t =
    next_unit (u @ unit_file (n # ns)) (length u + 4 + length n) t"
proof -
  have "n \<noteq> []" using assms(1) by (simp add: unit_ok_def)
  then have h: "unit_file (n # ns) ! 4 = hd n" by (rule header_of_unit)
  have w: "nal_nri (hd n) < 3 \<or> (t \<noteq> 0 \<and> nal_type (hd n) \<noteq> t)" using assms(2) by (auto simp: wanted_def)
  show ?thesis
    using w by (subst next_unit.simps) (auto simp del: unit_file_simps simp: find_unit_file [OF assms(1)] h)
qed

lemma next_unit_take:
  assumes "unit_ok n" "wanted t n"
  shows "next_unit (u @ unit_file (n # ns)) (length u) t = (length u, length u + 4 + length n)"
proof -
  have "n \<noteq> []" using assms(1) by (simp add: unit_ok_def)
  then have h: "unit_file (n # ns) ! 4 = hd n" by (rule header_of_unit)
  have w: "\<not> (nal_nri (hd n) < 3 \<or> (t \<noteq> 0 \<and> nal_type (hd n) \<noteq> t))" using assms(2) by (auto simp: wanted_def)
  show ?thesis
    using w by (subst next_unit.simps) (auto simp del: unit_file_simps simp: find_unit_file [OF assms(1)] h)
qed

lemma units_file:
  "list_all unit_ok ns \<Longrightarrow> units_from (u @ unit_file ns) (length u) t = filter (wanted t) ns"
proof (induction ns arbitrary: u)
  case Nil
  have "next_unit u (length u) t = (length u, length u)"
    by (subst next_unit.simps) (simp add: find_unit_last)
  then show ?case by (subst units_from.simps) simp
next
  case (Cons n ns)
  let ?f = "u @ unit_file (n # ns)"
  have ok: "unit_ok n" and oks: "list_all unit_ok ns" using Cons.prems by simp_all
  have IH: "units_from ?f (length u + 4 + length n) t = filter (wanted t) ns"
    using Cons.IH [OF oks, of "u @ startbytes @ n"] by (simp add: add.assoc)
  show ?case
  proof (cases "wanted t n")
    case True
    have "units_from ?f (length u) t = n # units_from ?f (length u + 4 + length n) t"
      by (subst units_from.simps) (simp del: unit_file_simps add: next_unit_take [OF ok True] unit_at_file)
    then show ?thesis using IH True by simp
  next
    case False
    have "units_from ?f (length u) t = units_from ?f (length u + 4 + length n) t"
      unfolding units_from.simps [of ?f "length u"] next_unit_skip [OF ok False]
      by (subst (2) units_from.simps) (rule refl)
    then show ?thesis using IH False by simp
  qed
qed

text \<open>
  a file made of units with start codes is read back as exactly the units of the wanted
  type that matter, in order and unchanged, as long as no unit holds a start code itself.
\<close>
theorem unit_file_roundtrip:
  assumes "list_all unit_ok ns"
  shows "units_from (unit_file ns) 0 t = filter (wanted t) ns"
  using units_file [OF assms, of "[]"] by simp

theorem unit_file_roundtrip_witness:
  "units_from (unit_file [[0x67, 1], [0x65, 9, 0, 0], [0x41, 3], [0x65, 7]]) 0 5 = [[0x65, 9, 0, 0], [0x65, 7]]"
proof -
  have "list_all unit_ok [[0x67, 1], [0x65, 9, 0, 0], [0x41, 3], [0x65, 7]]"
    by (simp add: unit_ok_def hit_start) (auto simp: slice_def startbytes_def)
  from unit_file_roundtrip [OF this, of 5] show ?thesis by (simp add: wanted_def nal_nri_def nal_type_def)
qed

subsection \<open>From the first unit to the decoder\<close>

definition is_set :: "u8 \<Rightarrow> mbuffer \<Rightarrow> bool" where
  "is_set t b \<longleftrightarrow> \<not> nal_nri (nal_header b) < 3 \<and> nal_type (nal_header b) = t"

definition last_set :: "u8 \<Rightarrow> mbuffer list \<Rightarrow> u8 list" where
  "last_set t bs = (if filter (is_set t) bs = [] then [] else with_start (last (filter (is_set t) bs)))"

definition incomplete :: "mbuffer list \<Rightarrow> bool" where
  "incomplete bs \<longleftrightarrow> last_set 7 bs = [] \<or> last_set 8 bs = []"

lemma with_start_ne [simp]: "with_start b \<noteq> []"
  by (simp add: with_start_def)

lemma last_set_Nil [simp]: "last_set t [] = []"
  by (simp add: last_set_def)

lemma last_set_snoc: "last_set t (bs @ [b]) = (if is_set t b then with_start b else last_set t bs)"
  by (simp add: last_set_def)

lemma incomplete_butlast: "incomplete (bs @ [b]) \<Longrightarrow> incomplete bs"
  by (auto simp: incomplete_def last_set_snoc split: if_splits)

lemma incoming_Cons: "incoming_all ok (b # bs) = (\<lambda>j. bind_ok (nwk_dataincoming ok b j) (incoming_all ok bs))"
  by (rule ext) simp

lemma incoming_append:
  "incoming_all ok (bs @ cs) j = bind_ok (incoming_all ok bs j) (incoming_all ok cs)"
  by (induction bs arbitrary: j) (auto simp: bind_ok_def split: sum.splits)

text \<open>What \<open>init\<close> makes of the sets seen so far.\<close>

definition with_sets :: "mbuffer list \<Rightarrow> args \<Rightarrow> args" where
  "with_sets bs a = a\<lparr>ar_sps := last_set 7 bs, ar_pps := last_set 8 bs\<rparr>"

lemma with_sets_simps [simp]:
  "ar_sps (with_sets bs a) = last_set 7 bs" "ar_pps (with_sets bs a) = last_set 8 bs"
  "ar_width (with_sets bs a) = ar_width a" "ar_height (with_sets bs a) = ar_height a"
  by (simp_all add: with_sets_def)

lemma args_init_step:
  "args_init b (with_sets bs a) =
     ((is_set 7 b \<or> is_set 8 b) \<and> \<not> incomplete (bs @ [b]), with_sets (bs @ [b]) a)"
  by (auto simp: args_init_def with_sets_def last_set_snoc is_set_def incomplete_def Let_def)

lemma gather_sets:
  assumes "incomplete bs" "jn_main j = None" "jn_tmpargs j = Some (with_sets [] a)"
  shows "incoming_all ok bs j = Inr (j\<lparr>jn_tmpargs := Some (with_sets bs a)\<rparr>)"
  using assms(1)
proof (induction bs rule: rev_induct)
  case Nil
  then show ?case using assms(3) by (cases j) simp
next
  case (snoc b bs)
  then have "incoming_all ok bs j = Inr (j\<lparr>jn_tmpargs := Some (with_sets bs a)\<rparr>)"
    using incomplete_butlast by blast
  then show ?case using snoc.prems assms(2)
    by (simp add: incoming_append bind_ok_def nwk_dataincoming_def args_init_step)
qed

lemma input_units:
  assumes "jn_main j = Some m"
  shows "incoming_all ok cs j = Inr (j\<lparr>jn_calls := jn_calls j @ map (\<lambda>b. Input (with_start b)) (filter (is_set 5) cs)\<rparr>)"
  using assms
proof (induction cs arbitrary: j)
  case (Cons c cs)
  then show ?case
    by (auto simp: nwk_dataincoming_def bind_ok_def main_input_def is_set_def Let_def)
qed simp

lemma set_up_and_feed:
  assumes "incomplete bs" "\<not> incomplete (bs @ [b])" "jn_main j = None" "jn_tmpargs j = Some (with_sets [] a)"
  shows "incoming_all ok (bs @ b # cs) j =
    Inr (j\<lparr>jn_tmpargs := None, jn_main := Some ((with_sets (bs @ [b]) a)\<lparr>ar_setup_ok := ok\<rparr>),
      jn_calls := jn_calls j @ Setup (ar_width a) (ar_height a) (last_set 7 (bs @ [b])) (last_set 8 (bs @ [b])) #
        map (\<lambda>b. Input (with_start b)) (filter (is_set 5) cs)\<rparr>)"
proof -
  have n: "is_set 7 b \<or> is_set 8 b" using assms(1,2) by (auto simp: incomplete_def last_set_snoc split: if_splits)
  have "incoming_all ok (bs @ b # cs) j = bind_ok (incoming_all ok bs j) (incoming_all ok (b # cs))"
    by (rule incoming_append)
  then show ?thesis using assms(2,3) n
    by (simp add: gather_sets [OF assms(1,3,4)] bind_ok_def nwk_dataincoming_def args_init_step main_make_def input_units)
qed

lemma start_state:
  "hgs_start ip port path (hgs_init w h win jni_new) =
     Inr ((hgs_init w h win jni_new)\<lparr>jn_stage := 1, jn_session :=
       Some \<lparr>ss_ip = ip, ss_port = port, ss_uri = hgs_uri ip port path, ss_running = True\<rparr>\<rparr>)"
  by (simp add: hgs_start_def hgsnwk_init_def hgsnwk_run_def jni_stage_def bind_ok_def hgs_init_def jni_new_def)

lemma init_args:
  "jn_main (hgs_init w h win jni_new) = None"
  "jn_calls (hgs_init w h win jni_new) = []" "jn_session (hgs_init w h win jni_new) = None"
  "jn_tmpargs (hgs_init w h win jni_new) = Some (with_sets [] \<lparr>ar_sps = [], ar_pps = [],
     ar_width = nat (w mod 65536), ar_height = nat (h mod 65536), ar_setup_ok = False, ar_renderer_ok = win\<rparr>)"
  by (simp_all add: hgs_init_def jni_new_def with_sets_def)

definition jni_play :: "int \<times> int \<times> bool \<Rightarrow> string \<times> int \<times> string \<Rightarrow> bool \<Rightarrow> mbuffer list \<Rightarrow> jni outcome" where
  "jni_play x y ok bs = (case x of (w, h, win) \<Rightarrow> case y of (ip, port, path) \<Rightarrow>
     bind_ok (hgs_start ip port path (hgs_init w h win jni_new)) (incoming_all ok bs))"

text \<open>
  C29: however the camera mixes its units, the decoder is set up once, with the last sequence
  and picture parameter sets that came up to the unit which completed the pair, and then gets
  exactly the key frames that follow, in order, each behind a start code.
\<close>
theorem decoder_fed_in_order:
  assumes "incomplete bs" "\<not> incomplete (bs @ [b])"
  shows "\<exists>j. jni_play (w, h, win) y ok (bs @ b # cs) = Inr j \<and> jn_calls j =
    Setup (nat (w mod 65536)) (nat (h mod 65536)) (last_set 7 (bs @ [b])) (last_set 8 (bs @ [b])) #
      map (\<lambda>b. Input (with_start b)) (filter (is_set 5) cs)"
proof -
  obtain ip port path where y: "y = (ip, port, path)" by (cases y)
  show ?thesis
    unfolding y jni_play_def by (simp add: start_state bind_ok_def set_up_and_feed [OF assms] init_args)
qed

text \<open>
  \<open>hgs_stop\<close> goes through the pointer to the decoder thread without a test: when it is
  called before both parameter sets have come, this is undefined.
\<close>
theorem stop_before_parameters:
  assumes "incomplete bs"
  shows "bind_ok (jni_play (w, h, win) y ok bs) hgs_stop = Inl Undefined"
proof -
  obtain ip port path where y: "y = (ip, port, path)" by (cases y)
  show ?thesis
    unfolding y jni_play_def
    by (simp add: start_state bind_ok_def gather_sets [OF assms] init_args hgs_stop_def hgsnwk_exit_def jni_stage_def Let_def)
qed

text \<open>
  after a stop the arguments are used up: a new start without \<open>hgs_init\<close> is accepted,
  and the first unit that comes in ends the process.
\<close>
theorem restart_ends_process:
  assumes "incomplete bs" "\<not> incomplete (bs @ [b])"
  shows "bind_ok (bind_ok (bind_ok (jni_play (w, h, win) y ok (bs @ b # cs)) hgs_stop)
     (hgs_start ip2 port2 path2)) (nwk_dataincoming ok d) = Inl (Err_exit ''error'')"
proof -
  obtain ip port path where y: "y = (ip, port, path)" by (cases y)
  show ?thesis
    unfolding y jni_play_def
    by (simp add: start_state bind_ok_def set_up_and_feed [OF assms] init_args hgs_stop_def hgsnwk_exit_def
      jni_stage_def Let_def hgs_start_def hgsnwk_init_def hgsnwk_run_def nwk_dataincoming_def)
qed

definition unit_buf :: "u8 list \<Rightarrow> mbuffer" where
  "unit_buf x = \<lparr>mb_base = Some (rtp_header_zero, x), mb_size = of_nat (20 + length x), mb_capacity = 2048\<rparr>"

lemmas set_defs = incomplete_def last_set_def is_set_def nal_header_def unit_buf_def mb_content_def with_start_def
  nal_nri_def nal_type_def

theorem decoder_fed_in_order_witness:
  "\<exists>j. jni_play (640, 65537, True) (''10.0.0.1'', 554, ''/live'') True
     (map unit_buf [[0x65, 0], [0x68, 1], [0x65, 1], [0x68, 2]] @ unit_buf [0x67, 3] # map unit_buf [[0x41, 4], [0x65, 5], [0x67, 6], [0x65, 7]]) = Inr j \<and>
   jn_calls j = [Setup 640 1 (startbytes @ [0x67, 3]) (startbytes @ [0x68, 2]), Input (startbytes @ [0x65, 5]), Input (startbytes @ [0x65, 7])]"
proof -
  have "incomplete (map unit_buf [[0x65, 0], [0x68, 1], [0x65, 1], [0x68, 2]])"
    "\<not> incomplete (map unit_buf [[0x65, 0], [0x68, 1], [0x65, 1], [0x68, 2]] @ [unit_buf [0x67, 3]])"
    by (simp_all add: set_defs)
  from decoder_fed_in_order [OF this, of 640 65537 True "(''10.0.0.1'', 554, ''/live'')" True "map unit_buf [[0x41, 4], [0x65, 5], [0x67, 6], [0x65, 7]]"]
  show ?thesis by (simp add: set_defs)
qed

theorem stop_before_parameters_witness:
  "bind_ok (jni_play (640, 480, True) (''10.0.0.1'', 554, ''/live'') True (map unit_buf [[0x67, 3], [0x67, 4], [0x65, 5]])) hgs_stop
    = Inl Undefined"
proof -
  have "incomplete (map unit_buf [[0x67, 3], [0x67, 4], [0x65, 5]])" by (simp add: set_defs)
  from stop_before_parameters [OF this] show ?thesis .
qed

theorem restart_ends_process_witness:
  "bind_ok (bind_ok (bind_ok (jni_play (640, 480, True) (''10.0.0.1'', 554, ''/live'') True
     ([unit_buf [0x67, 3]] @ unit_buf [0x68, 4] # [unit_buf [0x65, 5]])) hgs_stop)
     (hgs_start ''10.0.0.2'' 8554 ''/live'')) (nwk_dataincoming True (unit_buf [0x67, 3])) = Inl (Err_exit ''error'')"
proof -
  have "incomplete [unit_buf [0x67, 3]]" "\<not> incomplete ([unit_buf [0x67, 3]] @ [unit_buf [0x68, 4]])"
    by (simp_all add: set_defs)
  from restart_ends_process [OF this] show ?thesis .
qed

subsection \<open>The test program\<close>

text \<open>
  \<open>make_mbuffer\<close> on the bytes of a unit behind its start code, and \<open>TestMain::run\<close>, which
  plays a file: the first sequence parameters, the next picture parameters, then all key
  frames from the beginning of the file. An empty range has no header to read.
\<close>

definition make_mbuffer :: "u8 list \<Rightarrow> mbuffer outcome" where
  "make_mbuffer n = (case n of [] \<Rightarrow> Inl Undefined | h # p \<Rightarrow> mb_make rtp_header_zero h p)"

definition feed_unit :: "bool \<Rightarrow> u8 list \<Rightarrow> jni \<Rightarrow> jni outcome" where
  "feed_unit ok n j = bind_ok (make_mbuffer n) (\<lambda>b. nwk_dataincoming ok b j)"

fun feed_units :: "bool \<Rightarrow> u8 list list \<Rightarrow> jni \<Rightarrow> jni outcome" where
  "feed_units ok [] j = Inr j"
| "feed_units ok (n # ns) j = bind_ok (feed_unit ok n j) (feed_units ok ns)"

definition test_run :: "bool \<Rightarrow> u8 list \<Rightarrow> jni \<Rightarrow> jni outcome" where
  "test_run ok f j =
     (let p = first_unit f 7; q = next_unit f (snd p) 8 in
      bind_ok (feed_unit ok (unit_at f p) j) (\<lambda>j1.
      bind_ok (feed_unit ok (unit_at f q) j1) (feed_units ok (units_from f 0 5))))"

lemma next_unit_file:
  "list_all unit_ok as \<Longrightarrow> list_all (\<lambda>a. \<not> wanted t a) as \<Longrightarrow> unit_ok n \<Longrightarrow> wanted t n \<Longrightarrow>
   next_unit (u @ unit_file (as @ n # ns)) (length u) t =
     (length (u @ unit_file as), length (u @ unit_file as) + 4 + length n)"
proof (induction as arbitrary: u)
  case Nil
  then show ?case using next_unit_take [of n t u ns] by simp
next
  case (Cons a as)
  have "next_unit (u @ unit_file (a # as @ n # ns)) (length u) t =
      next_unit (u @ unit_file (a # as @ n # ns)) (length u + 4 + length a) t"
    using Cons.prems by (intro next_unit_skip) simp_all
  moreover have "next_unit ((u @ startbytes @ a) @ unit_file (as @ n # ns)) (length (u @ startbytes @ a)) t =
      (length ((u @ startbytes @ a) @ unit_file as), length ((u @ startbytes @ a) @ unit_file as) + 4 + length n)"
    using Cons.prems by (intro Cons.IH) simp_all
  ultimately show ?case by (simp add: add.assoc)
qed

lemma unit_file_append: "unit_file (as @ bs) = unit_file as @ unit_file bs"
  by (simp add: unit_file_def)

definition small :: "u8 list \<Rightarrow> bool" where
  "small n \<longleftrightarrow> n \<noteq> [] \<and> length n < 1900000000"

lemma make_mbuffer_ok:
  assumes "small n"
  shows "\<exists>b. make_mbuffer n = Inr b \<and> mb_content b = n"
proof -
  obtain h p where n: "n = h # p" using assms by (cases n) (auto simp: small_def)
  then obtain b where "mb_make rtp_header_zero h p = Inr b" "mb_base b = Some (rtp_header_zero, h # p)"
    using mb_make_ok [of p rtp_header_zero h] assms by (auto simp: small_def)
  then show ?thesis using n by (simp add: make_mbuffer_def mb_content_def)
qed

lemma feed_unit_ok:
  assumes "small n"
  obtains b where "mb_content b = n" "\<And>j. feed_unit ok n j = nwk_dataincoming ok b j"
  using make_mbuffer_ok [OF assms] by (auto simp: feed_unit_def bind_ok_def)

lemma feed_units_ok:
  "list_all small ns \<Longrightarrow> \<exists>bs. map mb_content bs = ns \<and> feed_units ok ns = incoming_all ok bs"
proof (induction ns)
  case (Cons n ns)
  then obtain bs where bs: "map mb_content bs = ns" "feed_units ok ns = incoming_all ok bs" by auto
  have "small n" using Cons.prems by simp
  then obtain b where b: "mb_content b = n" "\<And>j. feed_unit ok n j = nwk_dataincoming ok b j"
    using feed_unit_ok by blast
  have "feed_units ok (n # ns) = incoming_all ok (b # bs)" by (rule ext) (simp add: bs(2) b(2))
  then show ?case using bs(1) b(1) by (intro exI [of _ "b # bs"]) simp
qed (auto simp: fun_eq_iff)

lemma last_set_others: "list_all (\<lambda>b. \<not> is_set t b) bs \<Longrightarrow> last_set t bs = []"
  by (simp add: last_set_def filter_empty_conv list_all_iff)

lemma wanted_is_set: "mb_content b = n \<Longrightarrow> t \<noteq> 0 \<Longrightarrow> wanted t n = is_set t b"
  by (simp add: wanted_def is_set_def nal_header_def)

lemma inputs_of_units:
  "map mb_content cs = ns \<Longrightarrow>
   map (\<lambda>b. Input (with_start b)) (filter (is_set 5) cs) = map (\<lambda>n. Input (startbytes @ n)) (filter (wanted 5) ns)"
  by (induction cs arbitrary: ns) (auto simp: wanted_is_set with_start_def)

text \<open>
  C16: the test program plays a file. If the file is made of units with start codes, has a
  sequence parameter set and a picture parameter set behind it, the decoder is set up with the
  first of these and gets every key frame of the file, wherever it stands, in order.
\<close>
theorem test_plays_file:
  assumes "ns = as @ s # bs @ q # cs" "list_all unit_ok ns" "list_all small ns"
    "list_all (\<lambda>n. \<not> wanted 7 n) as" "wanted 7 s" "list_all (\<lambda>n. \<not> wanted 8 n) bs" "wanted 8 q"
  shows "\<exists>j. test_run ok (unit_file ns) (hgs_init w h win jni_new) = Inr j \<and> jn_calls j =
    Setup (nat (w mod 65536)) (nat (h mod 65536)) (startbytes @ s) (startbytes @ q) #
      map (\<lambda>n. Input (startbytes @ n)) (filter (wanted 5) ns)"
proof -
  let ?f = "unit_file ns" and ?j = "hgs_init w h win jni_new"
  let ?u = "unit_file as" and ?v = "unit_file (as @ s # bs)"
  have p: "next_unit ?f 0 7 = (length ?u, length ?u + 4 + length s)"
    using next_unit_file [of as 7 s "[]" "bs @ q # cs"] assms by simp
  have q: "next_unit ?f (length ?u + 4 + length s) 8 = (length ?v, length ?v + 4 + length q)"
    using next_unit_file [of bs 8 q "unit_file as @ startbytes @ s" cs] assms
    by (simp add: unit_file_append add.assoc)
  have us: "unit_at ?f (length ?u, length ?u + 4 + length s) = s"
    using unit_at_file [of ?u s "bs @ q # cs"] assms(1) by (simp add: unit_file_append)
  have uq: "unit_at ?f (length ?v, length ?v + 4 + length q) = q"
    using unit_at_file [of ?v q cs] assms(1) by (simp add: unit_file_append)
  have sm: "small s" "small q" "list_all small (filter (wanted 5) ns)"
    using assms(1,3) by (auto simp: list_all_iff)
  obtain b1 where b1: "mb_content b1 = s" "\<And>j. feed_unit ok s j = nwk_dataincoming ok b1 j"
    using feed_unit_ok [OF sm(1)] by blast
  obtain b2 where b2: "mb_content b2 = q" "\<And>j. feed_unit ok q j = nwk_dataincoming ok b2 j"
    using feed_unit_ok [OF sm(2)] by blast
  obtain xs where xs: "map mb_content xs = filter (wanted 5) ns"
      "feed_units ok (filter (wanted 5) ns) = incoming_all ok xs"
    using feed_units_ok [OF sm(3)] by blast
  have e: "units_from ?f 0 5 = filter (wanted 5) ns" using units_file [OF assms(2), of "[]"] by simp
  have run: "test_run ok ?f ?j = incoming_all ok ([b1] @ b2 # xs) ?j"
    by (simp only: test_run_def first_unit_def Let_def p q us uq b1(2) b2(2) e xs(2) snd_conv append.simps
      incoming_all.simps(2) incoming_Cons)
  have k: "is_set 7 b1" "is_set 8 b2" using assms(5,7) b1(1) b2(1) wanted_is_set by auto
  then have o: "\<not> is_set 8 b1" "\<not> is_set 7 b2" by (auto simp: is_set_def)
  have i: "incomplete [b1]" "\<not> incomplete ([b1] @ [b2])"
    "last_set 7 ([b1] @ [b2]) = startbytes @ s" "last_set 8 ([b1] @ [b2]) = startbytes @ q"
    using k o b1(1) b2(1) by (simp_all add: incomplete_def last_set_def with_start_def)
  show ?thesis
    unfolding run set_up_and_feed [OF i(1,2) init_args(1,4)] i(3,4) inputs_of_units [OF xs(1)]
    by (simp add: init_args)
qed

theorem test_plays_file_witness:
  "\<exists>j. test_run True (unit_file [[0x65, 1], [0x67, 2], [0x65, 3], [0x68, 4], [0x41, 5], [0x65, 6]])
     (hgs_init 640 480 False jni_new) = Inr j \<and>
   jn_calls j = [Setup 640 480 (startbytes @ [0x67, 2]) (startbytes @ [0x68, 4]),
     Input (startbytes @ [0x65, 1]), Input (startbytes @ [0x65, 3]), Input (startbytes @ [0x65, 6])]"
proof -
  let ?ns = "[[0x65, 1], [0x67, 2], [0x65, 3], [0x68, 4], [0x41, 5], [0x65, 6]] :: u8 list list"
  have ok: "list_all unit_ok ?ns" by (simp add: unit_ok_def hit_start)
  have e: "?ns = [[0x65, 1]] @ [0x67, 2] # [[0x65, 3]] @ [0x68, 4] # [[0x41, 5], [0x65, 6]]" by simp
  have sm: "list_all small ?ns" by (simp add: small_def)
  have w: "list_all (\<lambda>n. \<not> wanted 7 n) [[0x65, 1]]" "wanted 7 [0x67, 2]" "list_all (\<lambda>n. \<not> wanted 8 n) [[0x65, 3]]" "wanted 8 [0x68, 4]"
    by (simp_all add: wanted_def nal_nri_def nal_type_def)
  from test_plays_file [OF e ok sm w, of True 640 480 False]
  show ?thesis by (simp add: wanted_def nal_nri_def nal_type_def)
qed

subsection \<open>The stage and the session\<close>

inductive jni_step :: "bool \<Rightarrow> jni \<Rightarrow> jni \<Rightarrow> bool" for ok where
  J_init: "jni_step ok j (hgs_init w h win j)"
| J_start: "hgs_start ip port path j = Inr j1 \<Longrightarrow> jni_step ok j j1"
| J_unit: "\<exists>s. jn_session j = Some s \<and> ss_running s \<Longrightarrow> nwk_dataincoming ok b j = Inr j1 \<Longrightarrow> jni_step ok j j1"
| J_stop: "hgs_stop j = Inr j1 \<Longrightarrow> jni_step ok j j1"

definition jni_ok :: "jni \<Rightarrow> bool" where
  "jni_ok j \<longleftrightarrow> (case jn_session j of None \<Rightarrow> jn_stage j = 0 | Some s \<Rightarrow> jn_stage j = 1 \<and> ss_running s)"

lemma jni_step_ok: "jni_step ok j j1 \<Longrightarrow> jni_ok j \<Longrightarrow> jni_ok j1"
proof (induction rule: jni_step.induct)
  case (J_unit j b j1)
  then have "jn_session j1 = jn_session j \<and> jn_stage j1 = jn_stage j"
    by (auto simp: nwk_dataincoming_def main_input_def main_make_def Let_def split: option.splits prod.splits if_splits)
  then show ?case using J_unit by (auto simp: jni_ok_def)
qed (auto simp: jni_ok_def hgs_init_def hgs_start_def hgsnwk_init_def hgsnwk_run_def hgs_stop_def hgsnwk_exit_def
  jni_stage_def bind_ok_def Let_def split: option.splits sum.splits if_splits)

lemma jni_reachable_ok: "(jni_step ok)\<^sup>*\<^sup>* j j1 \<Longrightarrow> jni_ok j \<Longrightarrow> jni_ok j1"
  by (induction rule: rtranclp_induct) (auto intro: jni_step_ok)

text \<open>
  in every state the library can be brought into, the stage says whether there is a
  session, so \<open>hgs_stop\<close> never fails an assertion, and \<open>hgs_start\<close> does exactly when it is
  called a second time without a stop.
\<close>
theorem stage_is_session:
  assumes "(jni_step ok)\<^sup>*\<^sup>* jni_new j"
  shows "(jn_stage j = 1 \<longleftrightarrow> jn_session j \<noteq> None) \<and> hgs_stop j \<noteq> Inl Assertion \<and>
    (hgs_start ip port path j = Inl Assertion \<longleftrightarrow> jn_stage j = 1)"
proof -
  have "jni_ok j" using jni_reachable_ok [OF assms] by (simp add: jni_ok_def jni_new_def)
  then show ?thesis
    by (auto simp: jni_ok_def hgs_start_def hgsnwk_init_def hgsnwk_run_def hgs_stop_def hgsnwk_exit_def
      jni_stage_def bind_ok_def Let_def split: option.splits)
qed

theorem stage_is_session_witness:
  "jn_stage (hgs_init 640 480 True jni_new) = 0 \<and> hgs_stop (hgs_init 640 480 True jni_new) \<noteq> Inl Assertion"
proof -
  have "(jni_step True)\<^sup>*\<^sup>* jni_new (hgs_init 640 480 True jni_new)" using J_init by blast
  from stage_is_session [OF this] show ?thesis by (simp add: hgs_init_def jni_new_def)
qed

end
