(* ===== verification/Video_Render.thy ===== *)
theory Video_Render
  imports Omx_Ports
begin

section \<open>Drawing a picture (VideoRender.cpp)\<close>

text \<open>
  \<open>VideoRender\<close> copies the brightness plane of a picture of the decoder into the buffer of a
  window, one 32-bit pixel for each byte, in its size or made smaller by a factor that depends
  on the width. Addresses are offsets from the beginning of the picture, in bytes, and of the
  window, in pixels; an access outside either is \<open>Undefined\<close>. That the \<open>int\<close> functions return
  nothing is left out, and so is the table of cards, whose image is never loaded.
\<close>

unbundle bit_operations_syntax

definition gray_px :: "u8 \<Rightarrow> u32" where
  "gray_px v = push_bit 16 (ucast v) OR push_bit 8 (ucast v) OR ucast v"

subsection \<open>The loops over pixels\<close>

text \<open>Four pixels for each word of the picture.\<close>

primrec gray_cols :: "nat \<Rightarrow> u8 list \<Rightarrow> nat \<Rightarrow> nat \<Rightarrow> u32 list \<Rightarrow> u32 list outcome" where
  "gray_cols 0 s i j d = Inr d"
| "gray_cols (Suc n) s i j d =
     (if length s < i + 4 \<or> length d < j + 4 then Inl Undefined
      else gray_cols n s (i + 4) (j + 4)
        (d[j := gray_px (s ! i), j + 1 := gray_px (s ! (i + 1)), j + 2 := gray_px (s ! (i + 2)), j + 3 := gray_px (s ! (i + 3))]))"

primrec gray_rows :: "nat \<Rightarrow> nat \<Rightarrow> nat \<Rightarrow> nat \<Rightarrow> u8 list \<Rightarrow> nat \<Rightarrow> nat \<Rightarrow> u32 list \<Rightarrow> u32 list outcome" where
  "gray_rows 0 nb si so s i j d = Inr d"
| "gray_rows (Suc n) nb si so s i j d = bind_ok (gray_cols nb s i j d) (gray_rows n nb si so s (i + si) (j + so))"

definition renderGraytoRGBX :: "u8 list \<Rightarrow> nat \<Rightarrow> nat \<Rightarrow> nat \<Rightarrow> nat \<Rightarrow> int \<Rightarrow> int \<Rightarrow> u32 list \<Rightarrow> u32 list outcome" where
  "renderGraytoRGBX s i si j so w h d = gray_rows (nat h) (nat ((w + 3) div 4)) si so s i j d"

text \<open>Three pixels for each word, and the rows whose number is a multiple of four left out.\<close>

primrec frac_cols :: "nat \<Rightarrow> u8 list \<Rightarrow> nat \<Rightarrow> nat \<Rightarrow> u32 list \<Rightarrow> u32 list outcome" where
  "frac_cols 0 s i j d = Inr d"
| "frac_cols (Suc n) s i j d =
     (if length s < i + 4 \<or> length d < j + 3 then Inl Undefined
      else frac_cols n s (i + 4) (j + 3)
        (d[j := gray_px (s ! i), j + 1 := gray_px (s ! (i + 1)), j + 2 := gray_px (s ! (i + 2))]))"

primrec frac_rows :: "nat \<Rightarrow> nat \<Rightarrow> nat \<Rightarrow> nat \<Rightarrow> nat \<Rightarrow> u8 list \<Rightarrow> nat \<Rightarrow> nat \<Rightarrow> u32 list \<Rightarrow> u32 list outcome" where
  "frac_rows 0 y nb si so s i j d = Inr d"
| "frac_rows (Suc n) y nb si so s i j d =
     (if y mod 4 \<noteq> 0 then bind_ok (frac_cols nb s i j d) (frac_rows n (y + 1) nb si so s (i + si) (j + so))
      else frac_rows n (y + 1) nb si so s (i + si) j d)"

definition renderto4of3RGBX :: "u8 list \<Rightarrow> nat \<Rightarrow> nat \<Rightarrow> nat \<Rightarrow> nat \<Rightarrow> int \<Rightarrow> int \<Rightarrow> u32 list \<Rightarrow> u32 list outcome" where
  "renderto4of3RGBX s i si j so w h d = frac_rows (nat h) 0 (nat ((w + 3) div 4)) si so s i j d"

text \<open>One pixel for each \<open>q\<close> bytes of each \<open>q\<close>-th row.\<close>

primrec step_cols :: "nat \<Rightarrow> nat \<Rightarrow> u8 list \<Rightarrow> nat \<Rightarrow> nat \<Rightarrow> u32 list \<Rightarrow> u32 list outcome" where
  "step_cols q 0 s i j d = Inr d"
| "step_cols q (Suc n) s i j d =
     (if length s \<le> i \<or> length d \<le> j then Inl Undefined
      else step_cols q n s (i + q) (j + 1) (d[j := gray_px (s ! i)]))"

primrec step_rows :: "nat \<Rightarrow> nat \<Rightarrow> nat \<Rightarrow> nat \<Rightarrow> nat \<Rightarrow> u8 list \<Rightarrow> nat \<Rightarrow> nat \<Rightarrow> u32 list \<Rightarrow> u32 list outcome" where
  "step_rows q 0 nc si so s i j d = Inr d"
| "step_rows q (Suc n) nc si so s i j d = bind_ok (step_cols q nc s i j d) (step_rows q n nc si so s (i + q * si) (j + so))"

definition renderto3of1RGBX :: "u8 list \<Rightarrow> nat \<Rightarrow> nat \<Rightarrow> nat \<Rightarrow> nat \<Rightarrow> int \<Rightarrow> int \<Rightarrow> u32 list \<Rightarrow> u32 list outcome" where
  "renderto3of1RGBX s i si j so w h d =
     (let h1 = cdiv h 3 * 3; w1 = cdiv w 3 * 3 in step_rows 3 (nat ((h1 + 2) div 3)) (nat ((w1 + 2) div 3)) si so s i j d)"

definition renderto2of1RGBX :: "u8 list \<Rightarrow> nat \<Rightarrow> nat \<Rightarrow> nat \<Rightarrow> nat \<Rightarrow> int \<Rightarrow> int \<Rightarrow> u32 list \<Rightarrow> u32 list outcome" where
  "renderto2of1RGBX s i si j so w h d = step_rows 2 (nat ((h + 1) div 2)) (nat ((w + 1) div 2)) si so s i j d"

subsection \<open>A frame\<close>

record window =
  wb_format :: int
  wb_width :: nat
  wb_height :: nat
  wb_stride :: nat
  wb_bits :: "u32 list"

datatype scale = Scale_none | Scale_3P4 | Scale_1P2 | Scale_1P3

definition scale_type :: "nat \<Rightarrow> scale" where
  "scale_type w =
     (if w < 600 then Scale_none else if w \<le> 800 then Scale_3P4 else if w \<le> 1280 then Scale_1P2
      else if w \<le> 1600 then Scale_1P3 else Scale_none)"

text \<open>
  Where to begin in the picture and in the window, and how many columns of the picture to
  take: all, or as many as fill the window.
\<close>

definition place :: "int \<Rightarrow> int \<Rightarrow> int \<Rightarrow> int \<Rightarrow> nat \<times> nat \<times> int" where
  "place dstw srcw whole part =
     (let offset = cdiv (dstw - srcw) 2
      in if offset > 0 then (0, nat offset, whole) else (nat (- offset), 0, part))"

definition wipe :: "nat \<Rightarrow> nat \<Rightarrow> u32 list \<Rightarrow> u32 list outcome" where
  "wipe a n d = (if length d < a + n then Inl Undefined else Inr (take a d @ replicate n 0 @ drop (a + n) d))"

definition draw :: "picture \<Rightarrow> window \<Rightarrow> u32 list outcome" where
  "draw p b =
     (let w = int (img_width p); h = int (img_height p); dstw = int (wb_width b); dsth = int (wb_height b);
          s = img_data p; si = img_stride p; so = wb_stride b; d = wb_bits b
      in case scale_type (img_width p) of
           Scale_3P4 \<Rightarrow>
             (case place dstw (w * 3 div 4) w (dstw * 4 div 3) of (i, j, minw) \<Rightarrow>
                renderto4of3RGBX s i si j so minw (if dsth > h * 3 div 4 then h else dsth * 4 div 3) d)
         | Scale_1P3 \<Rightarrow>
             (case place dstw (w div 3) w (dstw * 3) of (i, j, minw) \<Rightarrow>
                renderto3of1RGBX s i si j so minw (if dsth > h div 3 then h else dsth * 3) d)
         | Scale_1P2 \<Rightarrow>
             (case place dstw (w div 2) w (dstw * 2) of (i, j, minw) \<Rightarrow>
                renderto2of1RGBX s i si j so minw (if dsth > h div 2 then h else dsth * 2) d)
         | Scale_none \<Rightarrow>
             (case place dstw w w dstw of (i, j, minw) \<Rightarrow>
                bind_ok (renderGraytoRGBX s i si j so minw (if dsth > h then h else dsth) d) (\<lambda>d1.
                  if dsth > h then wipe (img_height p * so) ((wb_height b - img_height p) * so) d1 else Inr d1)))"

text \<open>\<open>locked\<close> is the answer of \<open>ANativeWindow_lock\<close>; both accepted formats are 1.\<close>

definition renderFrame :: "bool \<Rightarrow> picture option \<Rightarrow> window option \<Rightarrow> window option outcome" where
  "renderFrame locked po wo =
     (case (po, wo) of
        (Some p, Some b) \<Rightarrow>
          (if \<not> locked \<or> wb_format b \<noteq> 1 then Inr wo else bind_ok (draw p b) (\<lambda>d. Inr (Some (b\<lparr>wb_bits := d\<rparr>))))
      | _ \<Rightarrow> Inr wo)"

subsection \<open>Results\<close>

record results =
  rs_cut :: int
  rs_revs :: int
  rs_len :: int
  rs_cards :: "int list"

text \<open>\<open>mResult\<close> has \<open>MAX_RESULT_CARDS\<close>, that is one, element.\<close>

definition setResult :: "int list option \<Rightarrow> int \<Rightarrow> results \<Rightarrow> (int \<times> results) outcome" where
  "setResult po len r =
     (case po of
        None \<Rightarrow> Inr (-1, r)
      | Some p \<Rightarrow>
          (if len < 0 \<or> int (length p) \<le> len + 1 then Inl Undefined
           else let n = (if len > 162 then 162 else len)
                in if nat n > length (rs_cards r) then Inl Undefined
                   else Inr (0, r\<lparr>rs_cut := p ! nat len, rs_revs := p ! nat (len + 1), rs_len := n,
                                   rs_cards := take (nat n) p @ drop (nat n) (rs_cards r)\<rparr>)))"

subsection \<open>Writes, one after the other\<close>

text \<open>A list of source and destination addresses, worked off from the left.\<close>

definition paint :: "(nat \<times> nat) list \<Rightarrow> u8 list \<Rightarrow> u32 list \<Rightarrow> u32 list" where
  "paint ps s d = fold (\<lambda>p d. d[snd p := gray_px (s ! fst p)]) ps d"

lemma paint_simps [simp]:
  "paint [] s d = d" "paint (p # ps) s d = paint ps s (d[snd p := gray_px (s ! fst p)])"
  "paint (ps @ qs) s d = paint qs s (paint ps s d)"
  by (simp_all add: paint_def)

lemma length_paint [simp]: "length (paint ps s d) = length d"
  by (induction ps arbitrary: d) simp_all

lemma paint_other: "a \<notin> snd ` set ps \<Longrightarrow> paint ps s d ! a = d ! a"
  by (induction ps arbitrary: d) auto

lemma paint_at:
  "(i, a) \<in> set ps \<Longrightarrow> (\<And>i'. (i', a) \<in> set ps \<Longrightarrow> i' = i) \<Longrightarrow> a < length d \<Longrightarrow> paint ps s d ! a = gray_px (s ! i)"
proof (induction ps arbitrary: d)
  case (Cons p ps)
  show ?case
  proof (cases "a \<in> snd ` set ps")
    case True
    then obtain i' where "(i', a) \<in> set ps" by auto
    then have m: "(i, a) \<in> set ps" using Cons.prems(2) [of i'] by simp
    have "paint ps s (d[snd p := gray_px (s ! fst p)]) ! a = gray_px (s ! i)"
    proof (rule Cons.IH [OF m])
      show "i' = i" if "(i', a) \<in> set ps" for i' using Cons.prems(2) [of i'] that by simp
    qed (use Cons.prems(3) in simp)
    then show ?thesis by simp
  next
    case False
    then have "p = (i, a)" using Cons.prems(1) by force
    then show ?thesis using False Cons.prems(3) by (simp add: paint_other)
  qed
qed simp

text \<open>A rectangle: \<open>n\<close> rows and \<open>m\<close> columns, with the steps of both sides.\<close>

definition row_of :: "nat \<Rightarrow> nat \<Rightarrow> nat \<Rightarrow> nat \<Rightarrow> (nat \<times> nat) list" where
  "row_of q m i j = map (\<lambda>x. (i + q * x, j + x)) [0..<m]"

primrec grid :: "nat \<Rightarrow> nat \<Rightarrow> nat \<Rightarrow> nat \<Rightarrow> nat \<Rightarrow> nat \<Rightarrow> nat \<Rightarrow> (nat \<times> nat) list" where
  "grid q 0 m si so i j = []"
| "grid q (Suc n) m si so i j = row_of q m i j @ grid q n m si so (i + si) (j + so)"

lemma row_of_Suc: "row_of q (Suc m) i j = (i, j) # row_of q m (i + q) (j + 1)"
proof -
  have "[0..<Suc m] = 0 # map Suc [0..<m]" by (simp add: upt_conv_Cons map_Suc_upt)
  then show ?thesis by (simp add: row_of_def add.assoc)
qed

lemma row_of_four: "row_of 1 (4 + m) i j = [(i, j), (i + 1, j + 1), (i + 2, j + 2), (i + 3, j + 3)] @ row_of 1 m (i + 4) (j + 4)"
  by (simp add: row_of_Suc eval_nat_numeral)

lemma set_row_of: "set (row_of q m i j) = {(i + q * x, j + x) | x. x < m}"
  by (auto simp: row_of_def)

lemma set_grid: "set (grid q n m si so i j) = {(i + y * si + q * x, j + y * so + x) | x y. x < m \<and> y < n}"
proof (induction n arbitrary: i j)
  case (Suc n)
  have "p \<in> set (grid q (Suc n) m si so i j) \<longleftrightarrow> (\<exists>x y. p = (i + y * si + q * x, j + y * so + x) \<and> x < m \<and> y < Suc n)" for p
  proof
    assume "p \<in> set (grid q (Suc n) m si so i j)"
    then consider "p \<in> set (row_of q m i j)" | "p \<in> set (grid q n m si so (i + si) (j + so))" by auto
    then show "\<exists>x y. p = (i + y * si + q * x, j + y * so + x) \<and> x < m \<and> y < Suc n"
    proof cases
      case 1
      then show ?thesis by (force simp: set_row_of)
    next
      case 2
      then obtain x y where "p = (i + si + y * si + q * x, j + so + y * so + x)" "x < m" "y < n" using Suc by auto
      then show ?thesis by (intro exI [of _ x] exI [of _ "Suc y"]) simp
    qed
  next
    assume "\<exists>x y. p = (i + y * si + q * x, j + y * so + x) \<and> x < m \<and> y < Suc n"
    then obtain x y where p: "p = (i + y * si + q * x, j + y * so + x)" "x < m" "y < Suc n" by blast
    show "p \<in> set (grid q (Suc n) m si so i j)"
    proof (cases y)
      case 0
      then show ?thesis using p by (auto simp: set_row_of)
    next
      case (Suc z)
      then have "p = (i + si + z * si + q * x, j + so + z * so + x)" "z < n" using p by simp_all
      then have "p \<in> set (grid q n m si so (i + si) (j + so))" using Suc.IH p(2) unfolding Suc.IH by blast
      then show ?thesis by simp
    qed
  qed
  then show ?case by blast
qed simp

lemma gray_cols_row:
  "i + 4 * n \<le> length s \<Longrightarrow> j + 4 * n \<le> length d \<Longrightarrow> gray_cols n s i j d = Inr (paint (row_of 1 (4 * n) i j) s d)"
proof (induction n arbitrary: i j d)
  case 0
  then show ?case by (simp add: row_of_def)
next
  case (Suc n)
  have "4 * Suc n = 4 + 4 * n" by simp
  then have r: "row_of 1 (4 * Suc n) i j = [(i, j), (i + 1, j + 1), (i + 2, j + 2), (i + 3, j + 3)] @ row_of 1 (4 * n) (i + 4) (j + 4)"
    using row_of_four [of "4 * n" i j] by (simp only:)
  show ?case unfolding r using Suc by simp
qed

lemma step_cols_row:
  "(\<And>x. x < n \<Longrightarrow> i + q * x < length s) \<Longrightarrow> j + n \<le> length d \<Longrightarrow> step_cols q n s i j d = Inr (paint (row_of q n i j) s d)"
proof (induction n arbitrary: i j d)
  case 0
  then show ?case by (simp add: row_of_def)
next
  case (Suc n)
  have "i + q + q * x < length s" if "x < n" for x using Suc.prems(1) [of "Suc x"] that by simp
  then show ?case using Suc.IH [of "i + q" "j + 1"] Suc.prems(1) [of 0] Suc.prems(2) by (simp add: row_of_Suc)
qed

lemma gray_rows_grid:
  "(\<And>y. y < n \<Longrightarrow> i + y * si + 4 * m \<le> length s) \<Longrightarrow> (\<And>y. y < n \<Longrightarrow> j + y * so + 4 * m \<le> length d) \<Longrightarrow>
   gray_rows n m si so s i j d = Inr (paint (grid 1 n (4 * m) si so i j) s d)"
proof (induction n arbitrary: i j d)
  case (Suc n)
  have "i + si + y * si + 4 * m \<le> length s" "j + so + y * so + 4 * m \<le> length d" if "y < n" for y
    using Suc.prems(1) [of "Suc y"] Suc.prems(2) [of "Suc y"] that by simp_all
  then show ?case using Suc.IH [of "i + si" "j + so" "paint (row_of 1 (4 * m) i j) s d"] Suc.prems(1) [of 0] Suc.prems(2) [of 0]
    by (simp add: gray_cols_row)
qed simp

lemma step_rows_grid:
  "(\<And>x y. x < m \<Longrightarrow> y < n \<Longrightarrow> i + y * (q * si) + q * x < length s) \<Longrightarrow> (\<And>y. y < n \<Longrightarrow> j + y * so + m \<le> length d) \<Longrightarrow>
   step_rows q n m si so s i j d = Inr (paint (grid q n m (q * si) so i j) s d)"
proof (induction n arbitrary: i j d)
  case (Suc n)
  have "i + q * si + y * (q * si) + q * x < length s" if "x < m" "y < n" for x y
    using Suc.prems(1) [of x "Suc y"] that by (simp add: algebra_simps)
  moreover have "j + so + y * so + m \<le> length d" if "y < n" for y
    using Suc.prems(2) [of "Suc y"] that by simp
  ultimately have "step_rows q n m si so s (i + q * si) (j + so) d' =
      Inr (paint (grid q n m (q * si) so (i + q * si) (j + so)) s d')" if "length d' = length d" for d'
    using Suc.IH [of "i + q * si" "j + so" d'] that by simp
  moreover have "step_cols q m s i j d = Inr (paint (row_of q m i j) s d)"
    using Suc.prems(1) [of _ 0] Suc.prems(2) [of 0] by (intro step_cols_row) simp_all
  ultimately show ?case by simp
qed simp

lemma grid_inj:
  assumes "y * so + x = y' * so + (x'::nat)" "x < so" "x' < so"
  shows "y = y' \<and> x = x'"
proof -
  have "(y * so + x) div so = y" "(y' * so + x') div so = y'" using assms(2,3) by (simp_all add: div_add1_eq)
  then show ?thesis using assms(1) by auto
qed

text \<open>What a rectangle leaves in the window.\<close>

lemma grid_pixels:
  assumes "j + m \<le> so" "0 < so"
  shows "x < m \<Longrightarrow> y < n \<Longrightarrow> j + y * so + x < length d \<Longrightarrow>
      paint (grid q n m si so i j) s d ! (j + y * so + x) = gray_px (s ! (i + y * si + q * x))"
    and "(\<And>x y. x < m \<Longrightarrow> y < n \<Longrightarrow> a \<noteq> j + y * so + x) \<Longrightarrow> paint (grid q n m si so i j) s d ! a = d ! a"
proof -
  assume p: "x < m" "y < n" "j + y * so + x < length d"
  show "paint (grid q n m si so i j) s d ! (j + y * so + x) = gray_px (s ! (i + y * si + q * x))"
  proof (rule paint_at)
    show "(i + y * si + q * x, j + y * so + x) \<in> set (grid q n m si so i j)" using p by (auto simp: set_grid)
  next
    fix i'
    assume "(i', j + y * so + x) \<in> set (grid q n m si so i j)"
    then obtain x' y' where e: "i' = i + y' * si + q * x'" "j + y * so + x = j + y' * so + x'" "x' < m" by (auto simp: set_grid)
    have "y = y' \<and> x = x'" using e(2,3) p(1) assms by (intro grid_inj [of _ so]) simp_all
    then show "i' = i + y * si + q * x" using e(1) by simp
  qed (use p in simp)
next
  assume free: "\<And>x y. x < m \<Longrightarrow> y < n \<Longrightarrow> a \<noteq> j + y * so + x"
  have "a \<notin> snd ` set (grid q n m si so i j)"
  proof
    assume "a \<in> snd ` set (grid q n m si so i j)"
    then obtain x y where "a = j + y * so + x" "x < m" "y < n" unfolding set_grid by force
    then show False using free by blast
  qed
  then show "paint (grid q n m si so i j) s d ! a = d ! a" by (rule paint_other)
qed

subsection \<open>A picture made smaller\<close>

definition picture_ok :: "picture \<Rightarrow> bool" where
  "picture_ok p \<longleftrightarrow> img_width p \<le> img_stride p \<and> img_height p * img_stride p \<le> length (img_data p)"

definition window_ok :: "window \<Rightarrow> bool" where
  "window_ok b \<longleftrightarrow> wb_width b \<le> wb_stride b \<and> length (wb_bits b) = wb_height b * wb_stride b"

text \<open>Where a picture that is \<open>S\<close> pixels wide begins in a window of \<open>D\<close>, and what is cut off.\<close>

definition view_left :: "nat \<Rightarrow> nat \<Rightarrow> nat" where
  "view_left S D = (if S + 2 \<le> D then (D - S) div 2 else 0)"

definition view_cut :: "nat \<Rightarrow> nat \<Rightarrow> nat" where
  "view_cut S D = (S - D) div 2"

lemma place_nat:
  "place (int D) (int S) w v = (view_cut S D, view_left S D, if S + 2 \<le> D then w else v)"
proof -
  consider "S + 2 \<le> D" | "D = S + 1" | "D \<le> S" by linarith
  then show ?thesis
  proof cases
    case 1
    have "int D - int S = int (D - S)" "0 < D - S" using 1 by simp_all
    then have "cdiv (int D - int S) 2 = int ((D - S) div 2)" by (simp add: zdiv_int)
    moreover have "0 < (D - S) div 2" using 1 by (simp add: div_greater_zero_iff)
    ultimately show ?thesis using 1 by (simp add: place_def view_cut_def view_left_def Let_def)
  next
    case 2
    then show ?thesis by (simp add: place_def cdiv_def view_cut_def view_left_def Let_def)
  next
    case 3
    have "int D - int S = - int (S - D)" using 3 by simp
    then have "cdiv (int D - int S) 2 = - int ((S - D) div 2)"
      by (cases "S = D") (simp_all add: cdiv_def zdiv_int 3 sgn_if)
    then show ?thesis using 3 by (simp add: place_def view_cut_def view_left_def Let_def)
  qed
qed

text \<open>How many pixels of a row (rows of a picture) are taken: every second, or every third that is whole.\<close>

definition taken :: "nat \<Rightarrow> nat \<Rightarrow> nat" where
  "taken q k = (if q = 2 then (k + 1) div 2 else k div 3)"

definition cols :: "nat \<Rightarrow> nat \<Rightarrow> nat \<Rightarrow> nat" where
  "cols q w D = (if w div q + 2 \<le> D then taken q w else D)"

definition rows :: "nat \<Rightarrow> nat \<Rightarrow> nat \<Rightarrow> nat" where
  "rows q h H = (if h div q < H then taken q h else H)"

lemma renderto2_steps: "renderto2of1RGBX s i si j so (int w) (int h) d = step_rows 2 (taken 2 h) (taken 2 w) si so s i j d"
proof -
  have "nat ((int k + 1) div 2) = (k + 1) div 2" for k by (simp add: nat_div_distrib)
  then show ?thesis by (simp add: renderto2of1RGBX_def taken_def)
qed

lemma renderto3_steps: "renderto3of1RGBX s i si j so (int w) (int h) d = step_rows 3 (taken 3 h) (taken 3 w) si so s i j d"
proof -
  have "nat ((cdiv (int k) 3 * 3 + 2) div 3) = k div 3" for k
  proof -
    have a: "(int a * 3 + 2) div 3 = int a" for a by presburger
    have "cdiv (int k) 3 = int (k div 3)" by (simp add: zdiv_int)
    then show ?thesis by (simp only: a nat_int)
  qed
  then show ?thesis by (simp add: renderto3of1RGBX_def taken_def)
qed

lemma taken_whole: "q = 2 \<or> q = 3 \<Longrightarrow> taken q (k * q) = k"
  by (auto simp: taken_def)

lemma draw_scaled:
  assumes "800 < img_width p" "img_width p \<le> 1600" "q = (if img_width p \<le> 1280 then 2 else 3)"
  shows "draw p b = step_rows q (rows q (img_height p) (wb_height b)) (cols q (img_width p) (wb_width b)) (img_stride p) (wb_stride b)
    (img_data p) (view_cut (img_width p div q) (wb_width b)) (view_left (img_width p div q) (wb_width b)) (wb_bits b)"
proof -
  have 2: "int k div 2 = int (k div 2)" "int k div 3 = int (k div 3)" "int k * 2 = int (k * 2)" "int k * 3 = int (k * 3)" for k
    by (simp_all add: zdiv_int)
  have j: "(if c then int a else int e) = int (if c then a else e)" for c a e by simp
  show ?thesis
  proof (cases "img_width p \<le> 1280")
    case True
    then have q: "q = 2" and sc: "scale_type (img_width p) = Scale_1P2" using assms by (simp_all add: scale_type_def)
    have tk: "taken 2 (if c then a else e * 2) = (if c then taken 2 a else e)" for c a e using taken_whole [of 2 e] by simp
    show ?thesis
      unfolding q rows_def cols_def
      by (simp only: draw_def Let_def sc scale.case 2 place_nat prod.case j of_nat_less_iff renderto2_steps tk)
  next
    case False
    then have q: "q = 3" and sc: "scale_type (img_width p) = Scale_1P3" using assms by (simp_all add: scale_type_def)
    have tk: "taken 3 (if c then a else e * 3) = (if c then taken 3 a else e)" for c a e using taken_whole [of 3 e] by simp
    show ?thesis
      unfolding q rows_def cols_def
      by (simp only: draw_def Let_def sc scale.case 2 place_nat prod.case j of_nat_less_iff renderto3_steps tk)
  qed
qed

lemma cols_fit:
  assumes "q = 2 \<or> q = 3" "D \<noteq> w div q + 1"
  shows "view_left (w div q) D + cols q w D \<le> D" and "x < cols q w D \<Longrightarrow> view_cut (w div q) D + q * x < w"
proof -
  show "view_left (w div q) D + cols q w D \<le> D"
    using assms by (auto simp: view_left_def cols_def taken_def)
  assume x: "x < cols q w D"
  show "view_cut (w div q) D + q * x < w"
  proof (cases "w div q + 2 \<le> D")
    case True
    then show ?thesis using x assms(1) by (auto simp: view_cut_def cols_def taken_def)
  next
    case False
    then have "D \<le> w div q" using assms(2) by linarith
    then show ?thesis using x False assms(1) by (auto simp: view_cut_def cols_def)
  qed
qed

lemma rows_fit:
  assumes "q = 2 \<or> q = 3"
  shows "rows q h H \<le> H" and "y < rows q h H \<Longrightarrow> q * y < h"
  using assms by (auto simp: rows_def taken_def split: if_splits)

lemma inside_rect: "y < h \<Longrightarrow> x < w \<Longrightarrow> w \<le> st \<Longrightarrow> y * st + x < h * (st::nat)"
proof -
  assume "y < h" "x < w" "w \<le> st"
  then have "Suc y * st \<le> h * st" "x < st" using mult_le_mono1 [of "Suc y" h st] by simp_all
  then show "y * st + x < h * st" by simp
qed

text \<open>
  C11: a picture that is wider than 800 and not wider than 1600 is drawn without leaving the
  picture or the window, when the window is not exactly one column wider than the picture made
  smaller by two (up to 1280) or three. Each pixel that is drawn has the brightness of its source, a pixel of every second (every
  third) row and column, the others are left as they were. In a window narrower than the
  picture the first column that is shown is the number of missing columns, halved, also when
  one column of the window is two or three of the picture.
\<close>
theorem scaled_pixels:
  assumes "picture_ok p" "window_ok b" "800 < img_width p" "img_width p \<le> 1600"
    and "q = (if img_width p \<le> 1280 then 2 else 3)" and "wb_width b \<noteq> img_width p div q + 1"
  shows "\<exists>d. draw p b = Inr d \<and> length d = length (wb_bits b) \<and>
    (\<forall>y < rows q (img_height p) (wb_height b). \<forall>x < cols q (img_width p) (wb_width b).
       d ! (view_left (img_width p div q) (wb_width b) + y * wb_stride b + x) =
         gray_px (img_data p ! (q * y * img_stride p + view_cut (img_width p div q) (wb_width b) + q * x))) \<and>
    (\<forall>a. (\<forall>y < rows q (img_height p) (wb_height b). \<forall>x < cols q (img_width p) (wb_width b).
       a \<noteq> view_left (img_width p div q) (wb_width b) + y * wb_stride b + x) \<longrightarrow> d ! a = wb_bits b ! a)"
proof -
  let ?n = "rows q (img_height p) (wb_height b)" and ?m = "cols q (img_width p) (wb_width b)"
  let ?i = "view_cut (img_width p div q) (wb_width b)" and ?j = "view_left (img_width p div q) (wb_width b)"
  let ?si = "img_stride p" and ?so = "wb_stride b" and ?s = "img_data p" and ?d = "wb_bits b"
  have q: "q = 2 \<or> q = 3" using assms(5) by auto
  have fit: "?j + ?m \<le> ?so" using cols_fit(1) [OF q assms(6)] assms(2) by (simp add: window_ok_def)
  have so: "0 < ?so" if "0 < ?m" using fit that by linarith
  have src: "?i + y * (q * ?si) + q * x < length ?s" if "x < ?m" "y < ?n" for x y
  proof -
    have "(q * y) * ?si + (?i + q * x) < img_height p * ?si"
      using rows_fit(2) [OF q that(2)] cols_fit(2) [OF q assms(6) that(1)] assms(1)
      by (intro inside_rect [of _ _ _ "img_width p"]) (simp_all add: picture_ok_def)
    then show ?thesis using assms(1) by (simp add: picture_ok_def algebra_simps)
  qed
  have dst: "?j + y * ?so + ?m \<le> length ?d" if "y < ?n" for y
  proof -
    have "Suc y * ?so \<le> wb_height b * ?so" using that rows_fit(1) [OF q, of "img_height p" "wb_height b"] by (intro mult_le_mono1) simp
    then show ?thesis using fit assms(2) by (simp add: window_ok_def)
  qed
  have "draw p b = Inr (paint (grid q ?n ?m (q * ?si) ?so ?i ?j) ?s ?d)"
    unfolding draw_scaled [OF assms(3-5)] using src dst by (intro step_rows_grid) simp_all
  moreover have "paint (grid q ?n ?m (q * ?si) ?so ?i ?j) ?s ?d ! (?j + y * ?so + x) = gray_px (?s ! (q * y * ?si + ?i + q * x))"
    if "y < ?n" "x < ?m" for x y
    using grid_pixels(1) [OF fit so, of x y ?n ?d q "q * ?si" ?i ?s] dst [OF that(1)] that by (simp add: algebra_simps)
  moreover have "paint (grid q ?n ?m (q * ?si) ?so ?i ?j) ?s ?d ! a = ?d ! a"
    if "\<forall>y < ?n. \<forall>x < ?m. a \<noteq> ?j + y * ?so + x" for a
    using that by (intro paint_other) (force simp: set_grid)
  ultimately show ?thesis by auto
qed

subsection \<open>A picture in its size\<close>

lemma draw_native:
  assumes "img_width p < 600 \<or> 1600 < img_width p" "4 dvd img_width p" "4 dvd wb_width b"
  shows "draw p b =
    bind_ok (gray_rows (if img_height p < wb_height b then img_height p else wb_height b)
      ((if img_width p + 2 \<le> wb_width b then img_width p else wb_width b) div 4) (img_stride p) (wb_stride b)
      (img_data p) (view_cut (img_width p) (wb_width b)) (view_left (img_width p) (wb_width b)) (wb_bits b))
     (\<lambda>d. if img_height p < wb_height b then wipe (img_height p * wb_stride b) ((wb_height b - img_height p) * wb_stride b) d
           else Inr d)"
proof -
  have sc: "scale_type (img_width p) = Scale_none" using assms(1) by (auto simp: scale_type_def)
  have j: "(if c then int a else int e) = int (if c then a else e)" for c a e by simp
  have b: "nat ((int k + 3) div 4) = k div 4" if "4 dvd k" for k using that by (elim dvdE) simp
  have "4 dvd (if img_width p + 2 \<le> wb_width b then img_width p else wb_width b)" using assms(2,3) by simp
  then show ?thesis
    by (simp only: draw_def Let_def sc scale.case place_nat prod.case j of_nat_less_iff renderGraytoRGBX_def b nat_int)
qed

lemma native_columns:
  assumes "4 dvd W" "4 dvd (D::nat)"
  shows "(if W + 2 \<le> D then W else D) = min W D" "4 * (min W D div 4) = min W D"
    "view_left W D + min W D \<le> D" "view_cut W D + min W D \<le> W"
proof -
  obtain a b where "W = 4 * a" "D = 4 * b" using assms by (elim dvdE)
  then show "(if W + 2 \<le> D then W else D) = min W D" "4 * (min W D div 4) = min W D"
    "view_left W D + min W D \<le> D" "view_cut W D + min W D \<le> W"
    by (auto simp: view_left_def view_cut_def min_def)
qed

text \<open>
  a small (or very large) picture is drawn in its size: when its width and that of the
  window are multiples of four, nothing outside is touched, every pixel shows the brightness
  of the picture, centred, the margins beside it stay and the rows below it become black.
\<close>
theorem native_pixels:
  assumes "picture_ok p" "window_ok b" "img_width p < 600 \<or> 1600 < img_width p" "4 dvd img_width p" "4 dvd wb_width b"
    and "w = min (img_width p) (wb_width b)" "h = min (img_height p) (wb_height b)"
  shows "\<exists>d. draw p b = Inr d \<and> length d = length (wb_bits b) \<and>
    (\<forall>y < h. \<forall>x < w. d ! (view_left (img_width p) (wb_width b) + y * wb_stride b + x) =
       gray_px (img_data p ! (y * img_stride p + view_cut (img_width p) (wb_width b) + x))) \<and>
    (\<forall>y < h. \<forall>x < wb_stride b. x < view_left (img_width p) (wb_width b) \<or> view_left (img_width p) (wb_width b) + w \<le> x \<longrightarrow>
       d ! (y * wb_stride b + x) = wb_bits b ! (y * wb_stride b + x)) \<and>
    (\<forall>a < length d. h * wb_stride b \<le> a \<longrightarrow> d ! a = 0)"
proof -
  let ?i = "view_cut (img_width p) (wb_width b)" and ?j = "view_left (img_width p) (wb_width b)"
  let ?si = "img_stride p" and ?so = "wb_stride b" and ?s = "img_data p" and ?d = "wb_bits b"
  have len: "img_height p * ?si \<le> length ?s" "length ?d = wb_height b * ?so" and le: "img_width p \<le> ?si" "wb_width b \<le> ?so"
    using assms(1,2) by (simp_all add: picture_ok_def window_ok_def)
  let ?P = "paint (grid 1 h w ?si ?so ?i ?j) ?s ?d"
  have w: "(if img_width p + 2 \<le> wb_width b then img_width p else wb_width b) = w" "4 * (w div 4) = w"
    "?j + w \<le> ?so" "?i + w \<le> ?si"
    using native_columns [OF assms(4,5)] assms(6) le by auto
  have hh: "(if img_height p < wb_height b then img_height p else wb_height b) = h" using assms(7) by simp
  have row: "Suc y * ?si \<le> img_height p * ?si" "Suc y * ?so \<le> wb_height b * ?so" "Suc y * ?so \<le> h * ?so" if "y < h" for y
    using that assms(7) by (intro mult_le_mono1; simp)+
  have g: "gray_rows h (w div 4) ?si ?so ?s ?i ?j ?d = Inr ?P"
  proof -
    have "?i + y * ?si + 4 * (w div 4) \<le> length ?s" "?j + y * ?so + 4 * (w div 4) \<le> length ?d" if "y < h" for y
      using row [OF that] w(2-4) len by simp_all
    then show ?thesis using gray_rows_grid [of h ?i ?si "w div 4" ?s ?j ?so ?d] unfolding w(2) by blast
  qed
  have px: "?P ! (?j + y * ?so + x) = gray_px (?s ! (y * ?si + ?i + x))" if "y < h" "x < w" for x y
    using grid_pixels(1) [OF w(3), of x y h ?d 1 ?si ?i ?s] row(2) [OF that(1)] that w(3) len(2) by (simp add: algebra_simps)
  have side: "?P ! (y * ?so + x) = ?d ! (y * ?so + x)" if "y < h" "x < ?so" "x < ?j \<or> ?j + w \<le> x" for x y
  proof (rule grid_pixels(2) [OF w(3)])
    fix x' y'
    assume x': "x' < w"
    show "y * ?so + x \<noteq> ?j + y' * ?so + x'"
    proof
      assume "y * ?so + x = ?j + y' * ?so + x'"
      then have "y * ?so + x = y' * ?so + (?j + x')" by simp
      then have "x = ?j + x'" using grid_inj that(2) w(3) x' by (metis add_less_cancel_left order_less_le_trans)
      then show False using that(3) x' by linarith
    qed
  qed (use that in linarith)
  have inner: "y * ?so + x < h * ?so" if "y < h" "x < ?so" for x y using row(3) [OF that(1)] that(2) by simp
  define d where "d = (if img_height p < wb_height b then take (h * ?so) ?P @ replicate ((wb_height b - h) * ?so) 0 else ?P)"
  have dr: "draw p b = Inr d"
  proof (cases "img_height p < wb_height b")
    case True
    then have h: "h = img_height p" using assms(7) by simp
    have "h * ?so + (wb_height b - h) * ?so = length ?P" using True h len(2) by (simp add: add_mult_distrib [symmetric])
    then have "wipe (h * ?so) ((wb_height b - h) * ?so) ?P = Inr d" unfolding wipe_def d_def using True by (simp only:) simp
    then show ?thesis unfolding draw_native [OF assms(3-5)] w(1) hh g using True by (simp add: h)
  next
    case False
    then show ?thesis unfolding draw_native [OF assms(3-5)] w(1) hh g by (simp add: d_def)
  qed
  have ld: "length d = length ?d"
  proof (cases "img_height p < wb_height b")
    case True
    then have "h * ?so + (wb_height b - h) * ?so = length ?P" using assms(7) len(2) by (simp add: add_mult_distrib [symmetric])
    then have "h * ?so \<le> length ?P" "(wb_height b - h) * ?so = length ?P - h * ?so" by linarith+
    then show ?thesis using True by (simp add: d_def min_def)
  qed (simp add: d_def)
  have hP: "h * ?so \<le> length ?P" using assms(7) len(2) by (simp add: mult_le_mono1)
  have low: "d ! a = ?P ! a" if "a < h * ?so" for a
    using that hP by (simp add: d_def nth_append)
  have high: "d ! a = 0" if "a < length d" "h * ?so \<le> a" for a
  proof (cases "img_height p < wb_height b")
    case True
    then have "a - h * ?so < (wb_height b - h) * ?so" using that hP by (simp add: d_def)
    then show ?thesis using True that hP by (simp add: d_def nth_append)
  next
    case False
    then show ?thesis using that assms(7) len(2) by (simp add: d_def min_def split: if_splits)
  qed
  show ?thesis
  proof (intro exI [of _ d] conjI allI impI dr ld)
    fix y x assume "y < h" "x < w"
    then show "d ! (?j + y * ?so + x) = gray_px (?s ! (y * ?si + ?i + x))"
      using px [of y x] low [of "?j + y * ?so + x"] inner [of y "?j + x"] w(3) by (simp add: add.assoc add.left_commute)
  next
    fix y x assume "y < h" "x < ?so" "x < ?j \<or> ?j + w \<le> x"
    then show "d ! (y * ?so + x) = ?d ! (y * ?so + x)" using side low inner by simp
  qed (use high in blast)
qed

subsection \<open>Three quarters\<close>

text \<open>How many of the first \<open>z\<close> rows of the picture are drawn.\<close>

definition drawn :: "nat \<Rightarrow> nat" where
  "drawn z = z - (z + 3) div 4"

lemma drawn_block: "drawn (4 * k) = 3 * k" "r < 3 \<Longrightarrow> drawn (4 * k + r + 1) = 3 * k + r"
proof -
  show "drawn (4 * k) = 3 * k" by (simp add: drawn_def)
  assume r: "r < 3"
  then have "(4 * k + r + 1 + 3) div 4 = k + 1" by (simp add: div_add1_eq)
  then show "drawn (4 * k + r + 1) = 3 * k + r" by (simp add: drawn_def)
qed

lemma drawn_cases:
  obtains (skipped) k where "z = 4 * k" "z mod 4 = 0" "drawn z = 3 * k"
  | (row) k r where "r < 3" "z = 4 * k + r + 1" "z mod 4 \<noteq> 0" "drawn z = 3 * k + r"
proof (cases "z mod 4 = 0")
  case True
  then have "z = 4 * (z div 4)" by presburger
  then show thesis using skipped [of "z div 4"] True drawn_block(1) [of "z div 4"] by simp
next
  case False
  have "z = 4 * (z div 4) + (z mod 4 - 1) + 1" "z mod 4 - 1 < 3" using False mod_less_divisor [of 4 z] by simp_all
  then show thesis using row False drawn_block(2) by metis
qed

lemma three_cases:
  obtains k r :: nat where "y = 3 * k + r" "r < 3" "y div 3 = k"
  using mod_less_divisor [of 3 y] mult_div_mod_eq [of 3 y] by (metis zero_less_numeral)

lemma drawn_Suc: "drawn (Suc z) = (if z mod 4 = 0 then drawn z else Suc (drawn z))"
proof (cases z rule: drawn_cases)
  case (skipped k)
  then show ?thesis using drawn_block(2) [of 0 k] by simp
next
  case (row k r)
  show ?thesis
  proof (cases "r = 2")
    case True
    then have "Suc z = 4 * (k + 1)" using row by simp
    then show ?thesis using row True drawn_block(1) [of "k + 1"] by (simp only:) simp
  next
    case False
    then show ?thesis using row drawn_block(2) [of "r + 1" k] by simp
  qed
qed

lemma drawn_0 [simp]: "drawn 0 = 0"
  by (simp add: drawn_def)

lemma drawn_row: "z mod 4 \<noteq> 0 \<Longrightarrow> z = drawn z + drawn z div 3 + 1"
  by (cases z rule: drawn_cases) (simp_all add: div_add1_eq)

lemma drawn_inverse: "drawn (y + y div 3 + 1) = y" "(y + y div 3 + 1) mod 4 \<noteq> (0::nat)"
proof -
  obtain k r where y: "y = 3 * k + r" "r < 3" "y div 3 = k" by (rule three_cases)
  then have e: "y + y div 3 + 1 = 4 * k + r + 1" by simp
  show "drawn (y + y div 3 + 1) = y" unfolding e using y drawn_block(2) by simp
  show "(y + y div 3 + 1) mod 4 \<noteq> 0" unfolding e using y(2) by presburger
qed

lemma less_drawn: "y < drawn n \<longleftrightarrow> y + y div 3 + 1 < n"
proof -
  obtain k r where y: "y = 3 * k + r" "r < 3" "y div 3 = k" by (rule three_cases)
  show ?thesis using y by (cases n rule: drawn_cases) linarith+
qed

definition frac_row :: "nat \<Rightarrow> nat \<Rightarrow> nat \<Rightarrow> (nat \<times> nat) list" where
  "frac_row n i j = map (\<lambda>x. (i + x + x div 3, j + x)) [0..<3 * n]"

primrec frac_grid :: "nat \<Rightarrow> nat \<Rightarrow> nat \<Rightarrow> nat \<Rightarrow> nat \<Rightarrow> nat \<Rightarrow> nat \<Rightarrow> (nat \<times> nat) list" where
  "frac_grid 0 y nb si so i j = []"
| "frac_grid (Suc n) y nb si so i j =
     (if y mod 4 \<noteq> 0 then frac_row nb i j @ frac_grid n (Suc y) nb si so (i + si) (j + so)
      else frac_grid n (Suc y) nb si so (i + si) j)"

lemma frac_row_Suc: "frac_row (Suc n) i j = [(i, j), (i + 1, j + 1), (i + 2, j + 2)] @ frac_row n (i + 4) (j + 3)"
proof -
  have "3 * Suc n = Suc (Suc (Suc (3 * n)))" by simp
  moreover have "[0..<Suc m] = 0 # map Suc [0..<m]" for m by (simp add: upt_conv_Cons map_Suc_upt)
  moreover have "Suc (Suc (Suc x)) div 3 = Suc (x div 3)" for x by simp
  ultimately show ?thesis by (simp only: frac_row_def list.map map_map o_def) simp
qed

text \<open>The loops either write all of their pixels or leave the buffers.\<close>

lemma frac_cols_all:
  "frac_cols n s i j d =
     (if n = 0 \<or> i + 4 * n \<le> length s \<and> j + 3 * n \<le> length d then Inr (paint (frac_row n i j) s d) else Inl Undefined)"
proof (induction n arbitrary: i j d)
  case (Suc n)
  have "length s < i + 4 \<or> length d < j + 3 \<longleftrightarrow> \<not> (i + 4 \<le> length s \<and> j + 3 \<le> length d)" by linarith
  then show ?case by (cases "n = 0") (simp_all add: Suc.IH frac_row_Suc, simp_all add: frac_row_def)
qed (simp add: frac_row_def)

definition frac_fits :: "nat \<Rightarrow> nat \<Rightarrow> nat \<Rightarrow> nat \<Rightarrow> nat \<Rightarrow> nat \<Rightarrow> nat \<Rightarrow> nat \<Rightarrow> bool" where
  "frac_fits nb si so i j ls ld y \<longleftrightarrow>
     y mod 4 = 0 \<or> nb = 0 \<or> i + y * si + 4 * nb \<le> ls \<and> j + drawn y * so + 3 * nb \<le> ld"

lemma frac_rows_all:
  "frac_rows n z nb si so s (i + z * si) (j + drawn z * so) d =
     (if \<forall>y \<in> {z..<z + n}. frac_fits nb si so i j (length s) (length d) y
      then Inr (paint (frac_grid n z nb si so (i + z * si) (j + drawn z * so)) s d) else Inl Undefined)"
proof (induction n arbitrary: z d)
  case (Suc n)
  have r: "{z..<z + Suc n} = insert z {Suc z..<Suc z + n}" by auto
  have e: "i + z * si + si = i + Suc z * si" by simp
  show ?case
  proof (cases "z mod 4 = 0")
    case True
    then have "drawn z = drawn (Suc z)" "frac_fits nb si so i j (length s) (length d) z" by (simp_all add: drawn_Suc frac_fits_def)
    then show ?thesis using True Suc.IH [of "Suc z" d] unfolding r by (simp add: e)
  next
    case False
    then have j: "j + drawn z * so + so = j + drawn (Suc z) * so" by (simp add: drawn_Suc)
    have fit: "frac_fits nb si so i j (length s) (length d) z \<longleftrightarrow>
        nb = 0 \<or> i + z * si + 4 * nb \<le> length s \<and> j + drawn z * so + 3 * nb \<le> length d"
      using False by (simp add: frac_fits_def)
    show ?thesis
    proof (cases "nb = 0 \<or> i + z * si + 4 * nb \<le> length s \<and> j + drawn z * so + 3 * nb \<le> length d")
      case True
      then show ?thesis using Suc.IH [of "Suc z" "paint (frac_row nb (i + z * si) (j + drawn z * so)) s d"] False fit
        unfolding r frac_rows.simps frac_grid.simps frac_cols_all e j Suc_eq_plus1 [symmetric]
        by (simp only: if_True bind_ok_Inr ball_simps paint_simps length_paint simp_thms if_not_P if_P refl)
    next
      case no: False
      then have "\<not> (\<forall>y \<in> {z..<z + Suc n}. frac_fits nb si so i j (length s) (length d) y)" using fit unfolding r by blast
      then show ?thesis using False no unfolding frac_rows.simps frac_cols_all by (simp only: if_True if_False bind_ok_Inl not_False_eq_True)
    qed
  qed
qed simp

lemma set_frac_row: "set (frac_row n i j) = {(i + x + x div 3, j + x) | x. x < 3 * n}"
  by (auto simp: frac_row_def)

lemma set_frac_grid:
  "set (frac_grid n z nb si so (i + z * si) (j + drawn z * so)) =
     {(i + y * si + x + x div 3, j + drawn y * so + x) | x y. x < 3 * nb \<and> y \<in> {z..<z + n} \<and> y mod 4 \<noteq> 0}"
proof (induction n arbitrary: z)
  case (Suc n)
  have r: "y \<in> {z..<z + Suc n} \<longleftrightarrow> y = z \<or> y \<in> {Suc z..<Suc z + n}" for y by auto
  have e: "i + z * si + si = i + Suc z * si" by simp
  show ?case
  proof (cases "z mod 4 = 0")
    case True
    then have "drawn z = drawn (Suc z)" by (simp add: drawn_Suc)
    then show ?thesis using True Suc.IH [of "Suc z"] unfolding frac_grid.simps e r by auto
  next
    case False
    then have "j + drawn z * so + so = j + drawn (Suc z) * so" by (simp add: drawn_Suc)
    then show ?thesis using False unfolding frac_grid.simps e r by (simp only: if_True set_append Suc.IH set_frac_row not_False_eq_True) blast
  qed
qed simp

text \<open>The pairs of a rectangle of the window, each with its source.\<close>

lemma set_frac_rect:
  "set (frac_grid n 0 nb si so i j) =
     {(i + (y + y div 3 + 1) * si + x + x div 3, j + y * so + x) | x y. x < 3 * nb \<and> y < drawn n}" (is "?L = ?R")
proof -
  have L: "?L = {(i + y * si + x + x div 3, j + drawn y * so + x) | x y. x < 3 * nb \<and> y \<in> {0..<n} \<and> y mod 4 \<noteq> 0}"
    using set_frac_grid [of n 0 nb si so i j] by simp
  have "p \<in> ?L \<longleftrightarrow> p \<in> ?R" for p
  proof
    assume "p \<in> ?L"
    then obtain x y where p: "p = (i + y * si + x + x div 3, j + drawn y * so + x)" "x < 3 * nb" "y < n" "y mod 4 \<noteq> 0"
      unfolding L by auto
    have y: "drawn y + drawn y div 3 + 1 = y" using drawn_row [OF p(4)] by simp
    then have "drawn y < drawn n" using p(3) by (simp add: less_drawn)
    then show "p \<in> ?R" using p(1,2) y by (intro CollectI exI [of _ x] exI [of _ "drawn y"]) (simp only: simp_thms)
  next
    assume "p \<in> ?R"
    then obtain x y where p: "p = (i + (y + y div 3 + 1) * si + x + x div 3, j + y * so + x)" "x < 3 * nb" "y < drawn n" by blast
    then show "p \<in> ?L" unfolding L using drawn_inverse [of y] less_drawn [of y n]
      by (intro CollectI exI [of _ x] exI [of _ "y + y div 3 + 1"]) (simp only: simp_thms atLeastLessThan_iff zero_le)
  qed
  then show ?thesis by blast
qed

text \<open>How many words of a row, and how many rows of the picture, the loops go through.\<close>

definition frac_words :: "nat \<Rightarrow> nat \<Rightarrow> nat" where
  "frac_words w D = ((if w * 3 div 4 + 2 \<le> D then w else D * 4 div 3) + 3) div 4"

definition frac_height :: "nat \<Rightarrow> nat \<Rightarrow> nat" where
  "frac_height h H = (if h * 3 div 4 < H then h else H * 4 div 3)"

lemma draw_three_quarters:
  assumes "600 \<le> img_width p" "img_width p \<le> 800"
  shows "draw p b = frac_rows (frac_height (img_height p) (wb_height b)) 0 (frac_words (img_width p) (wb_width b)) (img_stride p)
    (wb_stride b) (img_data p) (view_cut (img_width p * 3 div 4) (wb_width b)) (view_left (img_width p * 3 div 4) (wb_width b))
    (wb_bits b)"
proof -
  have sc: "scale_type (img_width p) = Scale_3P4" using assms by (simp add: scale_type_def)
  have i: "int k * 3 div 4 = int (k * 3 div 4)" "int k * 4 div 3 = int (k * 4 div 3)" "nat ((int k + 3) div 4) = (k + 3) div 4" for k
    by (simp_all add: zdiv_int nat_div_distrib)
  have j: "(if c then int a else int e) = int (if c then a else e)" for c a e by simp
  show ?thesis
    by (simp only: draw_def Let_def sc scale.case i place_nat prod.case j of_nat_less_iff renderto4of3RGBX_def nat_int
        frac_words_def frac_height_def)
qed

lemma frac_words_fit:
  assumes "4 dvd W" "3 dvd (D::nat)"
  shows "3 * frac_words W D = min (W * 3 div 4) D" "view_left (W * 3 div 4) D + 3 * frac_words W D \<le> D"
    "view_cut (W * 3 div 4) D + 4 * frac_words W D \<le> W"
proof -
  obtain a e where W: "W = 4 * a" and D: "D = 3 * e" using assms by (elim dvdE)
  have i: "W * 3 div 4 = 3 * a" "D * 4 div 3 = 4 * e" "(4 * c + 3) div 4 = c" for c :: nat by (simp_all add: W D)
  have f: "frac_words W D = min a e" unfolding frac_words_def i(1,2) by (cases "a < e") (auto simp: W D i(3) min_def)
  show "3 * frac_words W D = min (W * 3 div 4) D" unfolding f i(1) by (simp add: D min_def)
  show "view_left (W * 3 div 4) D + 3 * frac_words W D \<le> D"
    unfolding f i(1) unfolding D view_left_def min_def by auto
  show "view_cut (W * 3 div 4) D + 4 * frac_words W D \<le> W"
    unfolding f i(1) unfolding D W view_cut_def min_def by auto
qed

lemma frac_height_fit:
  assumes "y < frac_height h H" "y mod 4 \<noteq> 0"
  shows "y < h \<and> drawn y < H"
proof (cases "h * 3 div 4 < H")
  case True
  then have y: "y < h" "h * 3 < 4 * H" using assms(1) by (simp_all add: frac_height_def)
  then show ?thesis using assms(2) by (cases y rule: drawn_cases) simp_all
next
  case False
  then have "y < H * 4 div 3" "4 * H \<le> h * 3" using assms(1) by (simp_all add: frac_height_def)
  then have y: "3 * Suc y \<le> 4 * H" "4 * H \<le> h * 3" by (simp_all add: less_eq_div_iff_mult_less_eq Suc_le_eq [symmetric])
  then show ?thesis using assms(2) by (cases y rule: drawn_cases) simp_all
qed

lemma rect_fits: "y < h \<Longrightarrow> a + n \<le> w \<Longrightarrow> w \<le> st \<Longrightarrow> a + y * st + n \<le> h * (st::nat)"
proof -
  assume "y < h" "a + n \<le> w" "w \<le> st"
  then have "Suc y * st \<le> h * st" "a + n \<le> st" using mult_le_mono1 [of "Suc y" h st] by simp_all
  then show "a + y * st + n \<le> h * st" by simp
qed

text \<open>
  C34: a picture between 600 and 800 wide, of a width that is a multiple of four, is drawn in three
  quarters of its size in a window whose width is a multiple of three: nothing outside the
  picture and the window is touched, the pixel in row \<open>y\<close> and column \<open>x\<close> comes from row
  \<open>y + y / 3 + 1\<close> and column \<open>x + x / 3\<close>, so every fourth row and column is left out, the
  first of the rows and the last of the columns, and all other pixels stay.
\<close>
theorem three_quarter_pixels:
  assumes "picture_ok p" "window_ok b" "600 \<le> img_width p" "img_width p \<le> 800" "4 dvd img_width p" "3 dvd wb_width b"
    and "n = drawn (frac_height (img_height p) (wb_height b))" "m = min (img_width p * 3 div 4) (wb_width b)"
    and "i = view_cut (img_width p * 3 div 4) (wb_width b)" "j = view_left (img_width p * 3 div 4) (wb_width b)"
  shows "\<exists>d. draw p b = Inr d \<and> length d = length (wb_bits b) \<and>
    (\<forall>y < n. \<forall>x < m. d ! (j + y * wb_stride b + x) =
       gray_px (img_data p ! (i + (y + y div 3 + 1) * img_stride p + x + x div 3))) \<and>
    (\<forall>a. (\<forall>y < n. \<forall>x < m. a \<noteq> j + y * wb_stride b + x) \<longrightarrow> d ! a = wb_bits b ! a)"
proof -
  let ?nb = "frac_words (img_width p) (wb_width b)" and ?h = "frac_height (img_height p) (wb_height b)"
  let ?si = "img_stride p" and ?so = "wb_stride b" and ?s = "img_data p" and ?d = "wb_bits b"
  let ?ps = "frac_grid ?h 0 ?nb ?si ?so i j"
  have len: "img_height p * ?si \<le> length ?s" "length ?d = wb_height b * ?so" and le: "img_width p \<le> ?si" "wb_width b \<le> ?so"
    using assms(1,2) by (simp_all add: picture_ok_def window_ok_def)
  note f = frac_words_fit [OF assms(5,6)]
  have m: "3 * ?nb = m" and fit: "j + m \<le> ?so" using f le(2) assms(8,10) by simp_all
  have "frac_fits ?nb ?si ?so i j (length ?s) (length ?d) y" if "y < ?h" for y
  proof (cases "y mod 4 = 0")
    case False
    have "i + 4 * ?nb \<le> img_width p" "j + 3 * ?nb \<le> wb_width b" using f(2,3) assms(9,10) by simp_all
    then have "i + y * ?si + 4 * ?nb \<le> img_height p * ?si" "j + drawn y * ?so + 3 * ?nb \<le> wb_height b * ?so"
      using frac_height_fit [OF that False] le by (blast intro: rect_fits)+
    then show ?thesis using len by (simp add: frac_fits_def)
  qed (simp add: frac_fits_def)
  then have dr: "draw p b = Inr (paint ?ps ?s ?d)"
    using frac_rows_all [of ?h 0 ?nb ?si ?so ?s i j ?d] assms(9,10)
    unfolding draw_three_quarters [OF assms(3,4)] by simp
  note set = set_frac_rect [of ?h ?nb ?si ?so i j, unfolded m assms(7) [symmetric]]
  have px: "paint ?ps ?s ?d ! (j + y * ?so + x) = gray_px (?s ! (i + (y + y div 3 + 1) * ?si + x + x div 3))" if "y < n" "x < m" for x y
  proof (rule paint_at)
    show "(i + (y + y div 3 + 1) * ?si + x + x div 3, j + y * ?so + x) \<in> set ?ps" using that unfolding set by blast
    have "y < wb_height b"
      using that(1) frac_height_fit [OF _ drawn_inverse(2), of y] unfolding assms(7) less_drawn drawn_inverse(1) by blast
    then have "y * ?so + (j + x) < wb_height b * ?so" using that(2) fit by (intro inside_rect [of _ _ _ ?so]) simp_all
    then show "j + y * ?so + x < length ?d" by (simp add: len)
  next
    fix i' assume "(i', j + y * ?so + x) \<in> set ?ps"
    then obtain x' y' where e: "i' = i + (y' + y' div 3 + 1) * ?si + x' + x' div 3" "j + y * ?so + x = j + y' * ?so + x'" "x' < m"
      unfolding set by blast
    have "y = y' \<and> x = x'" using e(2,3) that(2) fit by (intro grid_inj [of _ ?so]) simp_all
    then show "i' = i + (y + y div 3 + 1) * ?si + x + x div 3" using e(1) by simp
  qed
  have rest: "paint ?ps ?s ?d ! a = ?d ! a" if "\<forall>y < n. \<forall>x < m. a \<noteq> j + y * ?so + x" for a
    using that by (intro paint_other) (force simp: set)
  show ?thesis using dr px rest by (intro exI [of _ "paint ?ps ?s ?d"]) simp
qed

subsection \<open>Windows that do not fit\<close>

lemma frac_words_over:
  assumes "D \<le> W * 3 div 4" "\<not> 3 dvd (D::nat)"
  shows "D < 3 * frac_words W D"
proof -
  obtain e r where D: "D = 3 * e + r" "r = 1 \<or> r = 2"
    using assms(2) three_cases [of D] by (metis dvd_triv_left add.right_neutral less_Suc_eq numeral_3_eq_3 One_nat_def less_one numeral_2_eq_2)
  then have "(D * 4 div 3 + 3) div 4 = e + 1" by (elim disjE) (simp_all add: div_add1_eq)
  then show ?thesis using D assms(1) by (auto simp: frac_words_def)
qed

text \<open>
  C39: the loop of three quarters writes whole groups of three pixels. So when a picture between
  600 and 800 wide is drawn into a window whose rows have no padding, that is no wider than three
  quarters of the picture and of a width that is no multiple of three, and whose height is
  positive, a multiple of three and at most three quarters of the picture's, the last row is
  written past the end of the window.
\<close>
theorem three_quarter_overruns:
  assumes "600 \<le> img_width p" "img_width p \<le> 800" "window_ok b" "wb_stride b = wb_width b"
    and "wb_width b \<le> img_width p * 3 div 4" "\<not> 3 dvd wb_width b"
    and "0 < wb_height b" "3 dvd wb_height b" "wb_height b \<le> img_height p * 3 div 4"
  shows "draw p b = Inl Undefined"
proof -
  obtain k where H: "wb_height b = 3 * k" using assms(8) by (elim dvdE)
  let ?y = "4 * (k - 1) + 2 + 1" and ?j = "view_left (img_width p * 3 div 4) (wb_width b)"
  have y: "?y < frac_height (img_height p) (wb_height b)" "?y mod 4 \<noteq> 0" "drawn ?y = 3 * (k - 1) + 2"
    using assms(7,9) H drawn_block(2) [of 2 "k - 1"] by (auto simp: frac_height_def)
  have over: "wb_width b < 3 * frac_words (img_width p) (wb_width b)" using frac_words_over assms(5,6) by blast
  have "length (wb_bits b) = Suc (drawn ?y) * wb_stride b" using assms(3,7) H unfolding y(3) by (cases k) (simp_all add: window_ok_def algebra_simps)
  then have "length (wb_bits b) < ?j + drawn ?y * wb_stride b + 3 * frac_words (img_width p) (wb_width b)"
    using over assms(4) by simp
  then have "\<not> frac_fits (frac_words (img_width p) (wb_width b)) (img_stride p) (wb_stride b) i ?j ls (length (wb_bits b)) ?y" for i ls
    using y(2) over by (simp add: frac_fits_def)
  then show ?thesis
    using frac_rows_all [of "frac_height (img_height p) (wb_height b)" 0] y(1) unfolding draw_three_quarters [OF assms(1,2)] by fastforce
qed

lemma step_cols_beyond: "x < n \<Longrightarrow> length s \<le> i + q * x \<Longrightarrow> step_cols q n s i j d = Inl Undefined"
proof (induction n arbitrary: x i j d)
  case (Suc n)
  then show ?case using Suc.IH [of "x - 1" "i + q"] by (cases x) auto
qed simp

lemma step_cols_outcome: "step_cols q n s i j d = Inl Undefined \<or> (\<exists>d'. step_cols q n s i j d = Inr d')"
  by (induction n arbitrary: i j d) auto

lemma step_rows_beyond:
  "y < n \<Longrightarrow> x < m \<Longrightarrow> length s \<le> i + y * (q * si) + q * x \<Longrightarrow> step_rows q n m si so s i j d = Inl Undefined"
proof (induction n arbitrary: y i j d)
  case (Suc n)
  show ?case
  proof (cases y)
    case 0
    then show ?thesis using Suc.prems step_cols_beyond by simp
  next
    case (Suc z)
    then have "step_rows q n m si so s (i + q * si) (j + so) d' = Inl Undefined" for d'
      using Suc.prems by (intro Suc.IH [of z]) (simp_all add: algebra_simps)
    then show ?thesis using step_cols_outcome [of q m s i j d] by auto
  qed
qed simp

text \<open>
  in a window one column wider than half of the picture the loop takes a column more than
  there is: the last row is read past the end of a picture without padding and without
  anything behind its rows.
\<close>
theorem one_column_wider_reads_past_end:
  assumes "800 < img_width p" "img_width p \<le> 1280" "even (img_width p)" "odd (img_height p)"
    and "img_stride p = img_width p" "length (img_data p) = img_height p * img_stride p"
    and "wb_width b = img_width p div 2 + 1" "img_height p div 2 < wb_height b"
  shows "draw p b = Inl Undefined"
proof -
  obtain w h where W: "img_width p = 2 * w" and H: "img_height p = 2 * h + 1" using assms(3,4) by (elim evenE oddE)
  have c: "rows 2 (img_height p) (wb_height b) = h + 1" "cols 2 (img_width p) (wb_width b) = w + 1"
    "view_cut (img_width p div 2) (wb_width b) = 0"
    using assms(7,8) by (simp_all add: rows_def cols_def taken_def view_cut_def W H)
  have "length (img_data p) = h * (2 * img_stride p) + 2 * w"
    using assms(5,6) by (simp add: W H algebra_simps)
  then have "step_rows 2 (h + 1) (w + 1) (img_stride p) so (img_data p) 0 j d = Inl Undefined" for so j d
    by (intro step_rows_beyond [of h _ w]) simp_all
  then show ?thesis using draw_scaled [OF assms(1) _ refl, of b] assms(2) by (simp add: c)
qed

subsection \<open>Examples\<close>

definition demo_pic :: "nat \<Rightarrow> nat \<Rightarrow> picture" where
  "demo_pic w h = \<lparr>img_width = w, img_height = h, img_stride = w, img_data = replicate (h * w) 7\<rparr>"

definition demo_win :: "nat \<Rightarrow> nat \<Rightarrow> window" where
  "demo_win w h = \<lparr>wb_format = 1, wb_width = w, wb_height = h, wb_stride = w, wb_bits = replicate (h * w) 5\<rparr>"

lemma demo_pic_simps [simp]:
  "img_width (demo_pic w h) = w" "img_height (demo_pic w h) = h" "img_stride (demo_pic w h) = w"
  "img_data (demo_pic w h) = replicate (h * w) 7" "picture_ok (demo_pic w h)"
  by (simp_all add: demo_pic_def picture_ok_def)

lemma demo_win_simps [simp]:
  "wb_width (demo_win w h) = w" "wb_height (demo_win w h) = h" "wb_stride (demo_win w h) = w"
  "wb_bits (demo_win w h) = replicate (h * w) 5" "window_ok (demo_win w h)"
  by (simp_all add: demo_win_def window_ok_def)

theorem scaled_pixels_witness:
  "\<exists>d. draw (demo_pic 802 2) (demo_win 400 2) = Inr d \<and> length d = 800 \<and> d ! 399 = gray_px 7 \<and> d ! 401 = 5"
proof -
  have r: "rows 2 2 2 = 1" "cols 2 802 400 = 400" "view_left (802 div 2) 400 = 0" "view_cut (802 div 2) 400 = 0"
    by (simp_all add: rows_def cols_def taken_def view_left_def view_cut_def)
  have "\<exists>d. draw (demo_pic 802 2) (demo_win 400 2) = Inr d \<and> length d = length (replicate (2 * 400) (5 :: u32)) \<and>
      (\<forall>y < 1. \<forall>x < 400. d ! (0 + y * 400 + x) = gray_px (replicate (2 * 802) 7 ! (2 * y * 802 + 0 + 2 * x))) \<and>
      (\<forall>a. (\<forall>y < 1. \<forall>x < 400. a \<noteq> 0 + y * 400 + x) \<longrightarrow> d ! a = replicate (2 * 400) 5 ! a)"
    by (rule scaled_pixels [of "demo_pic 802 2" "demo_win 400 2" 2, unfolded demo_pic_simps demo_win_simps r]) simp_all
  then obtain d where d: "draw (demo_pic 802 2) (demo_win 400 2) = Inr d" "length d = length (replicate (2 * 400) (5 :: u32))"
    and px: "\<forall>y < 1. \<forall>x < 400. d ! (0 + y * 400 + x) = gray_px (replicate (2 * 802) 7 ! (2 * y * 802 + 0 + 2 * x))"
    and rest: "\<forall>a. (\<forall>y < 1. \<forall>x < 400. a \<noteq> 0 + y * 400 + x) \<longrightarrow> d ! a = replicate (2 * 400) 5 ! a"
    by (elim exE conjE) (rule that)
  have "d ! 399 = gray_px 7" using px [rule_format, of 0 399] by simp
  moreover have "d ! 401 = 5" using rest [rule_format, of 401] by simp
  ultimately show ?thesis using d by simp
qed

theorem native_pixels_witness:
  "\<exists>d. draw (demo_pic 8 1) (demo_win 4 2) = Inr d \<and> d ! 3 = gray_px 7 \<and> d ! 4 = 0"
  using native_pixels [of "demo_pic 8 1" "demo_win 4 2" 4 1] by (auto simp: view_left_def view_cut_def)

theorem three_quarter_pixels_witness:
  "\<exists>d. draw (demo_pic 600 4) (demo_win 450 4) = Inr d \<and> length d = 1800 \<and> d ! 449 = gray_px 7"
proof -
  have r: "drawn (frac_height 4 4) = 3" "600 * 3 div 4 = (450 :: nat)" "view_left 450 450 = 0" "view_cut 450 450 = 0"
    by (simp_all add: drawn_def frac_height_def view_left_def view_cut_def)
  have "\<exists>d. draw (demo_pic 600 4) (demo_win 450 4) = Inr d \<and> length d = length (replicate (4 * 450) (5 :: u32)) \<and>
      (\<forall>y < 3. \<forall>x < 450. d ! (0 + y * 450 + x) = gray_px (replicate (4 * 600) 7 ! (0 + (y + y div 3 + 1) * 600 + x + x div 3))) \<and>
      (\<forall>a. (\<forall>y < 3. \<forall>x < 450. a \<noteq> 0 + y * 450 + x) \<longrightarrow> d ! a = replicate (4 * 450) 5 ! a)"
    by (rule three_quarter_pixels [of "demo_pic 600 4" "demo_win 450 4" 3 450 0 0, unfolded demo_pic_simps demo_win_simps r]) simp_all
  then obtain d where d: "draw (demo_pic 600 4) (demo_win 450 4) = Inr d" "length d = length (replicate (4 * 450) (5 :: u32))"
    and px: "\<forall>y < 3. \<forall>x < 450. d ! (0 + y * 450 + x) = gray_px (replicate (4 * 600) 7 ! (0 + (y + y div 3 + 1) * 600 + x + x div 3))"
    by (elim exE conjE) (rule that)
  have "d ! 449 = gray_px 7" using px [rule_format, of 0 449] by simp
  then show ?thesis using d by simp
qed

theorem three_quarter_overruns_witness: "draw (demo_pic 600 4) (demo_win 448 3) = Inl Undefined"
  by (rule three_quarter_overruns) simp_all

theorem one_column_wider_reads_past_end_witness: "draw (demo_pic 802 3) (demo_win 402 3) = Inl Undefined"
  by (rule one_column_wider_reads_past_end) simp_all

end
