(* ===== verification/Relay_Push.thy ===== *)
theory Relay_Push
  imports Prelude "HOL-Library.Sublist"
begin

section \<open>The relay (relay.cpp)\<close>

text \<open>
  An earlier program than the push proxy: \<open>apple_push\<close> connects to the gateway by itself, keeps
  one queue of messages for all clients and answers a message before it writes the next. The
  requests are read and parsed as in \<open>apple_push_proxy.cpp\<close>; here a connection only says that
  one has come. A connection is named by the number of its acceptance, a message by the number
  in which it was queued; the number is for the statements only. \<open>socket_.close\<close> ends what is
  under way on the socket: those handlers get \<open>operation_aborted\<close>, and the handler of an older
  \<open>async_connect\<close> runs before that of a newer one. A write of no bytes never reaches the
  socket: its handler is queued at once, with success, and nothing cancels it.
\<close>

datatype rl_stage = Zero | Opening | Ready | Sending | Replying

text \<open>The pointer to the connection is \<open>None\<close> when it was cleared.\<close>

record rl_entry =
  re_conn :: "nat option"
  re_data :: string
  re_no :: nat

record rl_conn =
  rc_server :: bool
  rc_mapped :: bool
  rc_messager :: bool
  rc_reading :: bool

text \<open>
  \<open>rl_opening\<close>, \<open>rl_reads\<close>, \<open>rl_writes\<close> and \<open>rl_replies\<close> are the operations under way, a write
  with its data and a flag that says it was cancelled; \<open>rl_stale\<close> counts the cancelled attempts to connect.
  \<open>rl_wire\<close> and \<open>rl_answers\<close> are what the gateway and the clients were sent.
\<close>

record relay =
  rl_listening :: bool
  rl_next :: nat
  rl_conns :: "nat \<Rightarrow> rl_conn option"
  rl_posted :: "nat list"
  rl_state :: rl_stage
  rl_bufs :: "rl_entry list"
  rl_replybuf :: string
  rl_stale :: nat
  rl_opening :: bool
  rl_reads :: nat
  rl_writes :: "(nat \<times> string \<times> bool) list"
  rl_replies :: nat
  rl_count :: nat
  rl_wire :: "(nat \<times> string) list"
  rl_answers :: "(nat \<times> nat \<times> string) list"

subsection \<open>Writing to the gateway\<close>

definition rl_connect :: "relay \<Rightarrow> relay" where
  "rl_connect s = s\<lparr>rl_state := Opening, rl_stale := (if rl_opening s then rl_stale s + 1 else rl_stale s),
     rl_opening := True, rl_writes := map (\<lambda>(n, d, cx). (n, d, cx \<or> d \<noteq> [])) (rl_writes s)\<rparr>"

definition rl_new :: relay where
  "rl_new = rl_connect \<lparr>rl_listening = True, rl_next = 0, rl_conns = (\<lambda>_. None), rl_posted = [], rl_state = Zero,
     rl_bufs = [], rl_replybuf = [], rl_stale = 0, rl_opening = False, rl_reads = 0, rl_writes = [], rl_replies = 0,
     rl_count = 0, rl_wire = [], rl_answers = []\<rparr>"

definition rl_write_msg :: "relay \<Rightarrow> relay" where
  "rl_write_msg s =
     (case rl_bufs s of
        [] \<Rightarrow> s
      | e # es \<Rightarrow> (if rl_state s \<noteq> Ready then s
          else s\<lparr>rl_state := Sending, rl_writes := rl_writes s @ [(re_no e, re_data e, False)],
                 rl_wire := rl_wire s @ [(re_no e, re_data e)]\<rparr>))"

definition rl_handle_connect :: "bool \<Rightarrow> relay \<Rightarrow> relay" where
  "rl_handle_connect ec s =
     (let s1 = s\<lparr>rl_state := Zero\<rparr> in
      if ec then s1 else rl_write_msg (s1\<lparr>rl_state := Ready, rl_reads := rl_reads s + 1\<rparr>))"

definition rl_handle_read :: "bool \<Rightarrow> relay \<Rightarrow> relay" where
  "rl_handle_read ec s = (if ec then rl_connect s else s\<lparr>rl_reads := rl_reads s + 1\<rparr>)"

definition rl_handle_reply :: "relay \<Rightarrow> relay outcome" where
  "rl_handle_reply s =
     (case rl_bufs s of
        [] \<Rightarrow> Inl Undefined
      | e # es \<Rightarrow> Inr (rl_write_msg (s\<lparr>rl_state := Ready, rl_bufs := es\<rparr>)))"

text \<open>\<open>connection::send\<close> through a pointer that may not be valid any more.\<close>

definition rl_conn_send :: "nat \<Rightarrow> nat \<Rightarrow> relay \<Rightarrow> relay outcome" where
  "rl_conn_send i n s =
     (case rl_conns s i of
        None \<Rightarrow> Inl Undefined
      | Some c \<Rightarrow> Inr (s\<lparr>rl_replies := rl_replies s + 1, rl_answers := rl_answers s @ [(i, n, rl_replybuf s)]\<rparr>))"

datatype rl_result = Sent | Not_sent | Cancelled

definition rl_handle_write :: "rl_result \<Rightarrow> relay \<Rightarrow> relay outcome" where
  "rl_handle_write ec s =
     (case rl_bufs s of
        [] \<Rightarrow> Inl Assertion
      | e # es \<Rightarrow>
          (let s1 = s\<lparr>rl_state := Ready\<rparr> in
           if ec = Cancelled then Inr s1
           else let s2 = s1\<lparr>rl_replybuf := (if ec = Sent then ''OK'' else ''FAIL'')\<rparr>
                in case re_conn e of
                     Some i \<Rightarrow> rl_conn_send i (re_no e) (s2\<lparr>rl_state := Replying\<rparr>)
                   | None \<Rightarrow> rl_handle_reply s2))"

subsection \<open>Messages\<close>

text \<open>\<open>request::encode\<close>\<close>

definition rl_encode :: string where
  "rl_encode = []"

text \<open>What an error does to the queue: the first entry of the connection goes, or loses it.\<close>

definition rl_forget :: "nat \<Rightarrow> rl_entry list \<Rightarrow> rl_entry list" where
  "rl_forget i bs =
     (case bs of
        [] \<Rightarrow> []
      | e # es \<Rightarrow>
          (if re_conn e = Some i then e\<lparr>re_conn := None\<rparr> # es
           else e # takeWhile (\<lambda>x. re_conn x \<noteq> Some i) es @ tl (dropWhile (\<lambda>x. re_conn x \<noteq> Some i) es)))"

text \<open>\<open>True\<close> is a message that stands for an error.\<close>

definition rl_pushmsg :: "bool \<Rightarrow> nat \<Rightarrow> relay \<Rightarrow> relay" where
  "rl_pushmsg err i s =
     (if err then s\<lparr>rl_bufs := rl_forget i (rl_bufs s)\<rparr>
      else let s1 = s\<lparr>rl_bufs := rl_bufs s @ [\<lparr>re_conn = Some i, re_data = rl_encode, re_no = rl_count s\<rparr>],
                      rl_count := rl_count s + 1\<rparr>
           in if rl_state s1 = Ready then rl_write_msg s1
              else if rl_state s1 = Zero \<or> rl_state s1 = Opening then rl_connect s1
              else s1)"

subsection \<open>Connections\<close>

definition rl_accept :: "bool \<Rightarrow> relay \<Rightarrow> relay" where
  "rl_accept ec s =
     (if ec then s\<lparr>rl_listening := False\<rparr>
      else s\<lparr>rl_conns := (rl_conns s)(rl_next s \<mapsto> \<lparr>rc_server = True, rc_mapped = True, rc_messager = False, rc_reading = True\<rparr>),
             rl_next := rl_next s + 1\<rparr>)"

definition rl_destroy :: "nat \<Rightarrow> rl_conn \<Rightarrow> relay \<Rightarrow> relay" where
  "rl_destroy i c s =
     (if rc_mapped c then s\<lparr>rl_conns := (rl_conns s)(i \<mapsto> c\<lparr>rc_mapped := False\<rparr>), rl_posted := rl_posted s @ [i]\<rparr>
      else s)"

text \<open>\<open>_request\<close>: the first message fetches the function that takes the later ones.\<close>

definition rl_request :: "bool \<Rightarrow> nat \<Rightarrow> rl_conn \<Rightarrow> relay \<Rightarrow> relay" where
  "rl_request err i c s =
     (if \<not> rc_server c then s
      else rl_pushmsg err i (s\<lparr>rl_conns := (rl_conns s)(i \<mapsto> c\<lparr>rc_messager := True\<rparr>)\<rparr>))"

text \<open>A request has been read: \<open>handle_content\<close> without an error.\<close>

definition rl_content :: "nat \<Rightarrow> rl_conn \<Rightarrow> relay \<Rightarrow> relay" where
  "rl_content i c s =
     (let s1 = rl_request False i (c\<lparr>rc_reading := False\<rparr>) s
      in case rl_conns s1 i of
           None \<Rightarrow> s1
         | Some c1 \<Rightarrow> (if \<not> rc_server c1 then s1 else s1\<lparr>rl_conns := (rl_conns s1)(i \<mapsto> c1\<lparr>rc_reading := True\<rparr>)\<rparr>))"

definition rl_handle_error :: "nat \<Rightarrow> rl_conn \<Rightarrow> relay \<Rightarrow> relay" where
  "rl_handle_error i c s =
     (let s1 = rl_request True i (c\<lparr>rc_reading := False\<rparr>) s
      in case rl_conns s1 i of None \<Rightarrow> s1 | Some c1 \<Rightarrow> rl_destroy i c1 s1)"

text \<open>The posted \<open>reset\<close> runs the destructor, which reports the error once more.\<close>

definition rl_release :: "nat \<Rightarrow> rl_conn \<Rightarrow> relay \<Rightarrow> relay" where
  "rl_release i c s =
     (let s1 = (if rc_server c then rl_request True i c s else s) in s1\<lparr>rl_conns := (rl_conns s1)(i := None)\<rparr>)"

subsection \<open>The next handler\<close>

text \<open>\<open>closing\<close> says whether the gateway may close the connection.\<close>

inductive rl_step :: "bool \<Rightarrow> relay \<Rightarrow> relay \<Rightarrow> bool" for closing where
  R_accept: "rl_listening s \<Longrightarrow> rl_step closing s (rl_accept ec s)"
| R_content: "rl_conns s i = Some c \<Longrightarrow> rc_reading c \<Longrightarrow> rl_step closing s (rl_content i c s)"
| R_error: "rl_conns s i = Some c \<Longrightarrow> rc_reading c \<Longrightarrow> rl_step closing s (rl_handle_error i c s)"
| R_release: "rl_posted s = i # ps \<Longrightarrow> rl_conns s i = Some c \<Longrightarrow> rl_step closing s (rl_release i c (s\<lparr>rl_posted := ps\<rparr>))"
| R_stale: "rl_stale s = Suc n \<Longrightarrow> rl_step closing s (rl_handle_connect True (s\<lparr>rl_stale := n\<rparr>))"
| R_connect: "rl_stale s = 0 \<Longrightarrow> rl_opening s \<Longrightarrow> rl_step closing s (rl_handle_connect ec (s\<lparr>rl_opening := False\<rparr>))"
| R_read: "rl_reads s = Suc n \<Longrightarrow> rl_step closing s (rl_handle_read False (s\<lparr>rl_reads := n\<rparr>))"
| R_closed: "closing \<Longrightarrow> rl_reads s = Suc n \<Longrightarrow> rl_step closing s (rl_handle_read True (s\<lparr>rl_reads := n\<rparr>))"
| R_write: "rl_writes s = (n, d, cx) # ws \<Longrightarrow> (if d = [] then ec = Sent else cx = (ec = Cancelled)) \<Longrightarrow> rl_handle_write ec (s\<lparr>rl_writes := ws\<rparr>) = Inr s1 \<Longrightarrow>
    rl_step closing s s1"
| R_reply: "rl_replies s = Suc n \<Longrightarrow> rl_handle_reply (s\<lparr>rl_replies := n\<rparr>) = Inr s1 \<Longrightarrow> rl_step closing s s1"

inductive_cases rl_stepE: "rl_step closing s s'"

subsection \<open>In order and once while the gateway stays\<close>

text \<open>The entries no write has been started for.\<close>

definition rl_unsent :: "relay \<Rightarrow> rl_entry list" where
  "rl_unsent s = (if rl_state s = Sending \<or> rl_state s = Replying then tl (rl_bufs s) else rl_bufs s)"

definition rl_unanswered :: "relay \<Rightarrow> rl_entry list" where
  "rl_unanswered s = (if rl_state s = Replying then tl (rl_bufs s) else rl_bufs s)"

definition rl_phase :: "relay \<Rightarrow> bool" where
  "rl_phase s \<longleftrightarrow>
     (case rl_state s of
        Ready \<Rightarrow> rl_bufs s = [] \<and> rl_writes s = [] \<and> rl_replies s = 0 \<and> \<not> rl_opening s
      | Sending \<Rightarrow> rl_bufs s \<noteq> [] \<and> rl_writes s = [(re_no (hd (rl_bufs s)), re_data (hd (rl_bufs s)), False)] \<and> rl_replies s = 0 \<and> \<not> rl_opening s
      | Replying \<Rightarrow> rl_bufs s \<noteq> [] \<and> rl_writes s = [] \<and> rl_replies s = 1 \<and> \<not> rl_opening s
      | Opening \<Rightarrow> rl_writes s = [] \<and> rl_replies s = 0 \<and> rl_opening s
      | Zero \<Rightarrow> rl_writes s = [] \<and> rl_replies s = 0) \<and>
     (0 < rl_stale s \<longrightarrow> rl_opening s)"

definition rl_ok :: "relay \<Rightarrow> bool" where
  "rl_ok s \<longleftrightarrow> rl_phase s \<and>
     sorted_wrt (<) (map re_no (rl_bufs s)) \<and> (\<forall>e \<in> set (rl_bufs s). re_no e < rl_count s) \<and>
     sorted_wrt (<) (map fst (rl_wire s) @ map re_no (rl_unsent s)) \<and> (\<forall>w \<in> set (rl_wire s). fst w < rl_count s) \<and>
     sorted_wrt (<) (map (fst \<circ> snd) (rl_answers s) @ map re_no (rl_unanswered s)) \<and>
     (rl_state s = Sending \<or> rl_state s = Replying \<longrightarrow> re_no (hd (rl_bufs s)) \<in> fst ` set (rl_wire s)) \<and>
     (\<forall>a \<in> set (rl_answers s). fst (snd a) \<in> fst ` set (rl_wire s))"

lemmas rl_state_defs = rl_ok_def rl_phase_def rl_unsent_def rl_unanswered_def

lemma rl_ok_new: "rl_ok rl_new"
  by (simp add: rl_state_defs rl_new_def rl_connect_def)

text \<open>Fields the invariant does not look at.\<close>

lemma rl_ok_other [simp]:
  "rl_ok (s\<lparr>rl_conns := c\<rparr>) = rl_ok s" "rl_ok (s\<lparr>rl_next := n\<rparr>) = rl_ok s" "rl_ok (s\<lparr>rl_posted := p\<rparr>) = rl_ok s"
  "rl_ok (s\<lparr>rl_listening := b\<rparr>) = rl_ok s" "rl_ok (s\<lparr>rl_reads := k\<rparr>) = rl_ok s" "rl_ok (s\<lparr>rl_replybuf := x\<rparr>) = rl_ok s"
  by (simp_all add: rl_state_defs split: rl_stage.splits)

lemma forget_shape:
  "rl_bufs s = e # es \<Longrightarrow> \<exists>e' es'. rl_forget i (e # es) = e' # es' \<and> re_no e' = re_no e \<and> re_data e' = re_data e \<and> subseq es' es"
proof -
  have "subseq (takeWhile P es @ tl (dropWhile P es)) es" for P
  proof -
    have "subseq (tl (dropWhile P es)) (dropWhile P es)" by (cases "dropWhile P es") auto
    then have "subseq (takeWhile P es @ tl (dropWhile P es)) (takeWhile P es @ dropWhile P es)"
      by (intro list_emb_append_mono) auto
    then show ?thesis by simp
  qed
  then show ?thesis by (auto simp: rl_forget_def)
qed

lemma subseq_sorted: "subseq xs ys \<Longrightarrow> sorted_wrt P ys \<Longrightarrow> sorted_wrt P xs"
proof (induction rule: list_emb.induct)
  case (list_emb_Cons2 x y xs ys)
  then show ?case by (auto dest: list_emb_set)
qed auto

lemma forget_ok:
  assumes "rl_ok s"
  shows "rl_ok (s\<lparr>rl_bufs := rl_forget i (rl_bufs s)\<rparr>)"
proof (cases "rl_bufs s")
  case Nil
  then have "s\<lparr>rl_bufs := rl_forget i (rl_bufs s)\<rparr> = s" by (cases s) (simp add: rl_forget_def)
  then show ?thesis using assms by simp
next
  case (Cons e es)
  obtain e' es' where f: "rl_forget i (e # es) = e' # es'" "re_no e' = re_no e" "subseq es' es" "re_data e' = re_data e"
    using forget_shape [OF Cons] by blast
  have m: "subseq (map re_no es') (map re_no es)" using f(3) by (rule subseq_map)
  have t: "subseq (w @ map re_no es') (w @ map re_no es)" "subseq (w @ re_no e # map re_no es') (w @ re_no e # map re_no es)" for w
    using m by (simp_all add: subseq_append')
  have "set es' \<subseteq> set es" using f(3) by (auto dest: list_emb_set)
  then show ?thesis
    using assms Cons f(1,2,4) subseq_sorted [OF t(1)] subseq_sorted [OF t(2)] subseq_sorted [OF m]
    by (auto simp: rl_state_defs split: rl_stage.splits)
qed

lemma rl_write_msg_ok:
  assumes "rl_state s = Ready" "rl_writes s = []" "rl_replies s = 0" "\<not> rl_opening s" "rl_stale s = 0"
    "sorted_wrt (<) (map re_no (rl_bufs s))" "\<forall>e \<in> set (rl_bufs s). re_no e < rl_count s"
    "sorted_wrt (<) (map fst (rl_wire s) @ map re_no (rl_bufs s))" "\<forall>w \<in> set (rl_wire s). fst w < rl_count s"
    "sorted_wrt (<) (map (fst \<circ> snd) (rl_answers s) @ map re_no (rl_bufs s))"
    "\<forall>a \<in> set (rl_answers s). fst (snd a) \<in> fst ` set (rl_wire s)"
  shows "rl_ok (rl_write_msg s)"
  using assms by (cases "rl_bufs s") (auto simp: rl_write_msg_def rl_state_defs)

lemma connect_ok:
  assumes "rl_ok s" "rl_state s = Zero \<or> rl_state s = Opening"
  shows "rl_ok (rl_connect s)"
  using assms by (auto simp: rl_state_defs rl_connect_def)

lemma handle_connect_ok:
  assumes "rl_ok s" "rl_opening s" "rl_stale s = 0"
  shows "rl_ok (rl_handle_connect ec (s\<lparr>rl_opening := False\<rparr>))"
proof -
  have st: "rl_state s = Zero \<or> rl_state s = Opening"
    using assms by (auto simp: rl_state_defs split: rl_stage.splits)
  then show ?thesis
  proof (cases ec)
    case True
    then show ?thesis using assms st by (auto simp: rl_state_defs rl_handle_connect_def Let_def)
  next
    case False
    have "rl_ok (rl_write_msg (s\<lparr>rl_opening := False, rl_state := Ready, rl_reads := rl_reads s + 1\<rparr>))"
      using assms st by (intro rl_write_msg_ok) (auto simp: rl_state_defs)
    then show ?thesis using False by (simp add: rl_handle_connect_def Let_def)
  qed
qed

lemma stale_ok:
  assumes "rl_ok s" "rl_stale s = Suc n"
  shows "rl_ok (rl_handle_connect True (s\<lparr>rl_stale := n\<rparr>))"
proof -
  have st: "rl_opening s" "rl_state s = Zero \<or> rl_state s = Opening"
    using assms by (auto simp: rl_state_defs split: rl_stage.splits)
  then show ?thesis using assms by (auto simp: rl_state_defs rl_handle_connect_def Let_def)
qed

lemma handle_reply_ok:
  assumes "rl_ok s" "rl_handle_reply (s\<lparr>rl_replies := n\<rparr>) = Inr s1" "rl_replies s = Suc n"
  shows "rl_ok s1"
proof -
  have st: "rl_state s = Replying" "n = 0" using assms(1,3) by (auto simp: rl_state_defs split: rl_stage.splits)
  obtain e es where b: "rl_bufs s = e # es" using assms(1) st by (cases "rl_bufs s") (auto simp: rl_state_defs)
  have "rl_ok (rl_write_msg (s\<lparr>rl_replies := n, rl_state := Ready, rl_bufs := es\<rparr>))"
    using assms(1) st b by (intro rl_write_msg_ok) (auto simp: rl_state_defs)
  then show ?thesis using assms(2) b by (simp add: rl_handle_reply_def)
qed

lemma handle_write_ok:
  assumes "rl_ok s" "rl_writes s = (n, d, cx) # ws" "if d = [] then ec = Sent else cx = (ec = Cancelled)" "rl_handle_write ec (s\<lparr>rl_writes := ws\<rparr>) = Inr s1"
  shows "rl_ok s1"
proof -
  have st: "rl_state s = Sending" "ws = []" "ec \<noteq> Cancelled" using assms(1-3) by (auto simp: rl_state_defs split: rl_stage.splits if_splits)
  obtain e es where b: "rl_bufs s = e # es" using assms(1) st by (cases "rl_bufs s") (auto simp: rl_state_defs)
  show ?thesis
  proof (cases "re_conn e")
    case None
    define r where "r = (if ec = Sent then ''OK'' else ''FAIL'')"
    have "rl_ok (rl_write_msg (s\<lparr>rl_writes := ws, rl_replybuf := r, rl_state := Ready, rl_bufs := es\<rparr>))"
      using assms(1) st b by (intro rl_write_msg_ok) (auto simp: rl_state_defs sorted_wrt_append)
    moreover have "s1 = rl_write_msg (s\<lparr>rl_writes := ws, rl_replybuf := r, rl_state := Ready, rl_bufs := es\<rparr>)"
      using assms(4) st(3) b None by (simp add: rl_handle_write_def rl_handle_reply_def Let_def r_def split: if_splits)
    ultimately show ?thesis by simp
  next
    case (Some i)
    define r where "r = (if ec = Sent then ''OK'' else ''FAIL'')"
    have s1: "s1 = s\<lparr>rl_writes := ws, rl_replybuf := r, rl_state := Replying, rl_replies := rl_replies s + 1,
        rl_answers := rl_answers s @ [(i, re_no e, r)]\<rparr>"
      using assms(4) st(3) b Some by (auto simp: rl_handle_write_def rl_conn_send_def Let_def r_def split: option.splits)
    have "sorted_wrt (<) (map (fst \<circ> snd) (rl_answers s) @ re_no e # map re_no es)"
      using assms(1) st b by (simp add: rl_state_defs)
    then have "sorted_wrt (<) (map (fst \<circ> snd) (rl_answers s1) @ map re_no es)" by (simp add: s1)
    moreover have "rl_stale s = 0" using assms(1) st by (auto simp: rl_state_defs)
    ultimately show ?thesis using assms(1) st b unfolding s1 by (simp add: rl_state_defs)
  qed
qed

lemma pushmsg_ok:
  assumes "rl_ok s"
  shows "rl_ok (rl_pushmsg err i s)"
proof (cases err)
  case True
  then show ?thesis using forget_ok [OF assms] by (simp add: rl_pushmsg_def)
next
  case False
  let ?e = "\<lparr>re_conn = Some i, re_data = rl_encode, re_no = rl_count s\<rparr>"
  define s1 where "s1 = s\<lparr>rl_bufs := rl_bufs s @ [?e], rl_count := rl_count s + 1\<rparr>"
  have below: "\<forall>e \<in> set (rl_bufs s). re_no e < rl_count s" "\<forall>w \<in> set (rl_wire s). fst w < rl_count s"
    using assms by (auto simp: rl_ok_def)
  have answered: "n < rl_count s" if "(k, n, x) \<in> set (rl_answers s)" for k n x
  proof -
    have "fst (snd (k, n, x)) \<in> fst ` set (rl_wire s)" using assms that unfolding rl_ok_def by blast
    then show ?thesis using below(2) by auto
  qed
  have in_tl: "x \<in> set (tl (rl_bufs s)) \<Longrightarrow> x \<in> set (rl_bufs s)" for x by (cases "rl_bufs s") auto
  have "rl_ok (if rl_state s1 = Ready then rl_write_msg s1
      else if rl_state s1 = Zero \<or> rl_state s1 = Opening then rl_connect s1 else s1)"
  proof (cases "rl_state s = Ready")
    case True
    then have "rl_bufs s = []" using assms by (simp add: rl_state_defs)
    then have b: "rl_bufs s1 = [?e]" by (simp add: s1_def)
    have ph: "rl_writes s1 = []" "rl_replies s1 = 0" "\<not> rl_opening s1" "rl_stale s1 = 0" "rl_state s1 = Ready"
      using assms True by (auto simp: s1_def rl_ok_def rl_phase_def)
    have so: "sorted_wrt (<) (map fst (rl_wire s))" "sorted_wrt (<) (map (fst \<circ> snd) (rl_answers s))"
      using assms True unfolding rl_ok_def sorted_wrt_append by blast+
    have "sorted_wrt (<) (map fst (rl_wire s1) @ map re_no (rl_bufs s1))"
      "sorted_wrt (<) (map (fst \<circ> snd) (rl_answers s1) @ map re_no (rl_bufs s1))"
      unfolding b sorted_wrt_append using so below(2) answered by (auto simp: s1_def)
    moreover have "\<forall>a \<in> set (rl_answers s1). fst (snd a) \<in> fst ` set (rl_wire s1)"
      using assms by (simp add: rl_ok_def s1_def)
    ultimately have "rl_ok (rl_write_msg s1)"
      using ph below(2) by (intro rl_write_msg_ok) (simp_all add: b, simp_all add: s1_def less_SucI)
    then show ?thesis using True by (simp add: s1_def)
  next
    case False
    have ne: "rl_bufs s \<noteq> []" if "rl_state s = Sending \<or> rl_state s = Replying"
      using assms that by (auto simp: rl_ok_def rl_phase_def)
    have q: "rl_unsent s1 = rl_unsent s @ [?e]" "rl_unanswered s1 = rl_unanswered s @ [?e]"
      using ne by (simp_all add: rl_unsent_def rl_unanswered_def s1_def)
    have h: "hd (rl_bufs s1) = hd (rl_bufs s)" if "rl_state s = Sending \<or> rl_state s = Replying"
      using ne [OF that] by (simp add: s1_def)
    have ph: "rl_phase s1"
      using assms False h ne unfolding rl_ok_def rl_phase_def by (cases "rl_state s") (auto simp: s1_def)
    have fr: "\<forall>x \<in> set (map fst (rl_wire s) @ map re_no (rl_unsent s)). x < rl_count s"
      "\<forall>x \<in> set (map (fst \<circ> snd) (rl_answers s) @ map re_no (rl_unanswered s)). x < rl_count s"
      using below in_tl by (auto simp: rl_unsent_def rl_unanswered_def dest: answered)
    have "sorted_wrt (<) ((map fst (rl_wire s) @ map re_no (rl_unsent s)) @ [rl_count s])"
      "sorted_wrt (<) ((map (fst \<circ> snd) (rl_answers s) @ map re_no (rl_unanswered s)) @ [rl_count s])"
      using assms fr by (simp_all only: sorted_wrt_append [of _ _ "[rl_count s]"] rl_ok_def) simp_all
    then have so: "sorted_wrt (<) (map fst (rl_wire s1) @ map re_no (rl_unsent s1))"
      "sorted_wrt (<) (map (fst \<circ> snd) (rl_answers s1) @ map re_no (rl_unanswered s1))"
      unfolding q by (simp_all add: s1_def)
    have "sorted_wrt (<) (map re_no (rl_bufs s))" using assms by (simp add: rl_ok_def)
    then have bu: "sorted_wrt (<) (map re_no (rl_bufs s1))" "\<forall>e \<in> set (rl_bufs s1). re_no e < rl_count s1"
      using below(1) by (auto simp: s1_def sorted_wrt_append less_SucI)
    have wi: "rl_wire s1 = rl_wire s" "rl_answers s1 = rl_answers s" "rl_state s1 = rl_state s" "rl_count s1 = Suc (rl_count s)"
      by (simp_all add: s1_def)
    have ok: "rl_ok s1"
      unfolding rl_ok_def
    proof (intro conjI)
      show "\<forall>w \<in> set (rl_wire s1). fst w < rl_count s1" using below(2) wi by auto
      show "rl_state s1 = Sending \<or> rl_state s1 = Replying \<longrightarrow> re_no (hd (rl_bufs s1)) \<in> fst ` set (rl_wire s1)"
        using assms h wi unfolding rl_ok_def by metis
      show "\<forall>a \<in> set (rl_answers s1). fst (snd a) \<in> fst ` set (rl_wire s1)" using assms wi by (simp add: rl_ok_def)
    qed (fact ph bu so)+
    then show ?thesis using False connect_ok [OF ok] by (auto simp: s1_def)
  qed
  then show ?thesis using False by (simp only: rl_pushmsg_def if_False Let_def s1_def simp_thms)
qed

lemma request_ok: "rl_ok s \<Longrightarrow> rl_ok (rl_request err i c s)"
  by (auto simp: rl_request_def intro: pushmsg_ok)

lemma rl_step_ok: "rl_step False s s1 \<Longrightarrow> rl_ok s \<Longrightarrow> rl_ok s1"
proof (induction rule: rl_step.induct)
  case (R_stale s n)
  then show ?case using stale_ok by blast
next
  case (R_connect s ec)
  then show ?case using handle_connect_ok by blast
next
  case (R_write s n d cx ws ec s1)
  then show ?case using handle_write_ok by blast
next
  case (R_reply s n s1)
  then show ?case using handle_reply_ok by blast
next
  case (R_content s i c)
  then show ?case using request_ok by (auto simp: rl_content_def Let_def split: option.splits)
next
  case (R_error s i c)
  then show ?case using request_ok by (auto simp: rl_handle_error_def rl_destroy_def Let_def split: option.splits)
next
  case (R_release s i ps c)
  then show ?case using request_ok by (auto simp: rl_release_def Let_def)
qed (auto simp: rl_accept_def rl_handle_read_def)

lemma rl_reachable_ok: "(rl_step False)\<^sup>*\<^sup>* s s1 \<Longrightarrow> rl_ok s \<Longrightarrow> rl_ok s1"
  by (induction rule: rtranclp_induct) (auto intro: rl_step_ok)

lemma sorted_front: "sorted_wrt P (xs @ ys) \<Longrightarrow> sorted_wrt P xs"
  by (simp add: sorted_wrt_append)

text \<open>
  C18: as long as the gateway does not close the connection, the relay writes the messages in
  the order in which they came and none of them twice, answers in that order, only what it has
  written and not twice, and no handler of a write or of a reply fails an assertion or pops an
  empty queue.
\<close>
theorem relay_in_order:
  assumes "(rl_step False)\<^sup>*\<^sup>* rl_new s"
  shows "sorted_wrt (<) (map fst (rl_wire s)) \<and> sorted_wrt (<) (map (fst \<circ> snd) (rl_answers s)) \<and>
    (fst \<circ> snd) ` set (rl_answers s) \<subseteq> fst ` set (rl_wire s) \<and>
    (rl_writes s \<noteq> [] \<or> 0 < rl_replies s \<longrightarrow> rl_bufs s \<noteq> []) \<and> length (rl_writes s) + rl_replies s \<le> 1"
proof -
  have ok: "rl_ok s" using rl_reachable_ok [OF assms rl_ok_new] .
  have "(rl_writes s \<noteq> [] \<or> 0 < rl_replies s \<longrightarrow> rl_bufs s \<noteq> []) \<and> length (rl_writes s) + rl_replies s \<le> 1"
    using ok by (auto simp: rl_ok_def rl_phase_def split: rl_stage.splits)
  moreover have "sorted_wrt (<) (map fst (rl_wire s))" "sorted_wrt (<) (map (fst \<circ> snd) (rl_answers s))"
    "(fst \<circ> snd) ` set (rl_answers s) \<subseteq> fst ` set (rl_wire s)"
    using ok by (auto simp: rl_ok_def intro: sorted_front)
  ultimately show ?thesis by blast
qed

lemma rl_conns_push [simp]: "rl_conns (rl_pushmsg err i s) = rl_conns s"
  by (simp add: rl_pushmsg_def rl_write_msg_def rl_connect_def Let_def split: list.splits)

subsection \<open>A client that goes away\<close>

definition of_conn :: "nat \<Rightarrow> rl_entry list \<Rightarrow> rl_entry list" where
  "of_conn i bs = filter (\<lambda>e. re_conn e = Some i) bs"

lemma forget_first: "of_conn i (rl_forget i bs) = tl (of_conn i bs)"
proof -
  have "filter (\<lambda>e. re_conn e = Some i) (takeWhile (\<lambda>x. re_conn x \<noteq> Some i) es @ tl (dropWhile (\<lambda>x. re_conn x \<noteq> Some i) es)) =
      tl (filter (\<lambda>e. re_conn e = Some i) es)" for es
    by (induction es) auto
  then show ?thesis by (cases bs) (auto simp: of_conn_def rl_forget_def)
qed

definition rl_attached :: "relay \<Rightarrow> bool" where
  "rl_attached s \<longleftrightarrow> (\<forall>i c. rl_conns s i = Some c \<longrightarrow> rc_server c \<and> (rc_reading c \<longrightarrow> rc_mapped c))"

lemma rl_conns_write_msg [simp]: "rl_conns (rl_write_msg s) = rl_conns s"
  by (simp add: rl_write_msg_def split: list.splits)

lemma rl_conns_handlers [simp]:
  "rl_conns (rl_connect s) = rl_conns s" "rl_conns (rl_handle_connect ec s) = rl_conns s" "rl_conns (rl_handle_read ec s) = rl_conns s"
  "rl_handle_reply s = Inr s1 \<Longrightarrow> rl_conns s1 = rl_conns s" "rl_handle_write wc s = Inr s1 \<Longrightarrow> rl_conns s1 = rl_conns s"
  by (auto simp: rl_connect_def rl_handle_connect_def rl_handle_read_def rl_handle_reply_def rl_handle_write_def rl_conn_send_def
      Let_def split: list.splits option.splits if_splits)

lemma rl_attached_step: "rl_step closing s s1 \<Longrightarrow> rl_attached s \<Longrightarrow> rl_attached s1"
proof (induction rule: rl_step.induct)
  case (R_write s n d cx ws ec s1)
  then show ?case using rl_conns_handlers(5) [of ec "s\<lparr>rl_writes := ws\<rparr>" s1] by (simp add: rl_attached_def)
next
  case (R_reply s n s1)
  then show ?case using rl_conns_handlers(4) [of "s\<lparr>rl_replies := n\<rparr>" s1] by (simp add: rl_attached_def)
qed (auto simp: rl_attached_def rl_accept_def rl_content_def rl_handle_error_def rl_release_def rl_request_def rl_destroy_def
  Let_def split: if_splits)

lemma rl_attached_reachable: "(rl_step closing)\<^sup>*\<^sup>* rl_new s \<Longrightarrow> rl_attached s"
proof (induction rule: rtranclp_induct)
  case base
  then show ?case by (simp add: rl_attached_def rl_new_def)
next
  case (step y z)
  then show ?case using rl_attached_step by blast
qed

lemma bufs_of_request: "rc_server c \<Longrightarrow> rl_bufs (rl_request True i c s) = rl_forget i (rl_bufs s)"
  by (simp add: rl_request_def rl_pushmsg_def)

lemma bufs_destroy [simp]: "rl_bufs (rl_destroy i c s) = rl_bufs s"
  by (simp add: rl_destroy_def)

text \<open>
  a client's failure is reported twice, by the handler of the read and by the destructor,
  and each report takes one entry off the queue. So from every state with a connection that is
  being read, in which no other release is pending, there is a run in which it fails and is destroyed, and all its messages but the
  first two are still in the queue, with a pointer to it.
\<close>
theorem third_message_stays:
  assumes "(rl_step closing)\<^sup>*\<^sup>* rl_new s" "rl_conns s i = Some c" "rc_reading c" "rl_posted s = []"
  shows "\<exists>s1. (rl_step closing)\<^sup>*\<^sup>* s s1 \<and> rl_conns s1 i = None \<and> of_conn i (rl_bufs s1) = drop 2 (of_conn i (rl_bufs s))"
proof -
  have c: "rc_server c" "rc_mapped c" using rl_attached_reachable [OF assms(1)] assms(2,3) by (auto simp: rl_attached_def)
  define a where "a = rl_handle_error i c s"
  let ?c1 = "c\<lparr>rc_reading := False, rc_messager := True\<rparr>"
  have a: "rl_conns a i = Some (?c1\<lparr>rc_mapped := False\<rparr>)" "rl_posted a = [i]" "rl_bufs a = rl_forget i (rl_bufs s)"
    using c assms(4) by (simp_all add: a_def rl_handle_error_def rl_request_def rl_pushmsg_def rl_destroy_def Let_def)
  define b where "b = rl_release i (?c1\<lparr>rc_mapped := False\<rparr>) (a\<lparr>rl_posted := []\<rparr>)"
  have b: "rl_conns b i = None" "rl_bufs b = rl_forget i (rl_bufs a)"
    using c by (simp_all add: b_def rl_release_def bufs_of_request Let_def)
  have "rl_step closing s a" unfolding a_def using assms(2,3) by (rule R_error)
  moreover have "rl_step closing a b" unfolding b_def using a(2,1) by (rule R_release)
  ultimately have "(rl_step closing)\<^sup>*\<^sup>* s b" by (meson converse_rtranclp_into_rtranclp rtranclp.rtrancl_refl)
  moreover have "of_conn i (rl_bufs b) = drop 2 (of_conn i (rl_bufs s))"
    by (simp add: b a forget_first tl_drop numeral_2_eq_2 drop_Suc)
  ultimately show ?thesis using b(1) by blast
qed

text \<open>
  the answer to a message whose connection is gone goes through the pointer to it: it is
  undefined, whatever became of the write.
\<close>
theorem answer_to_the_gone:
  assumes "rl_bufs s = e # es" "re_conn e = Some i" "rl_conns s i = None"
  shows "rl_handle_write Sent s = Inl Undefined \<and> rl_handle_write Not_sent s = Inl Undefined"
  using assms by (simp add: rl_handle_write_def rl_conn_send_def Let_def)

subsection \<open>Nothing is sent\<close>

definition rl_empty :: "relay \<Rightarrow> bool" where
  "rl_empty s \<longleftrightarrow> (\<forall>e \<in> set (rl_bufs s). re_data e = []) \<and> (\<forall>w \<in> set (rl_wire s). snd w = [])"

lemma rl_empty_other [simp]:
  "rl_empty (s\<lparr>rl_conns := c\<rparr>) = rl_empty s" "rl_empty (s\<lparr>rl_next := n\<rparr>) = rl_empty s" "rl_empty (s\<lparr>rl_posted := p\<rparr>) = rl_empty s"
  "rl_empty (s\<lparr>rl_listening := b\<rparr>) = rl_empty s" "rl_empty (s\<lparr>rl_reads := k\<rparr>) = rl_empty s" "rl_empty (s\<lparr>rl_replybuf := x\<rparr>) = rl_empty s"
  "rl_empty (s\<lparr>rl_stale := k\<rparr>) = rl_empty s" "rl_empty (s\<lparr>rl_opening := b\<rparr>) = rl_empty s" "rl_empty (s\<lparr>rl_state := st\<rparr>) = rl_empty s"
  "rl_empty (s\<lparr>rl_writes := w\<rparr>) = rl_empty s" "rl_empty (s\<lparr>rl_replies := k\<rparr>) = rl_empty s" "rl_empty (s\<lparr>rl_answers := a\<rparr>) = rl_empty s"
  "rl_empty (rl_connect s) = rl_empty s"
  by (simp_all add: rl_empty_def rl_connect_def)

lemma rl_empty_write_msg: "rl_empty s \<Longrightarrow> rl_empty (rl_write_msg s)"
  by (auto simp: rl_write_msg_def rl_empty_def split: list.splits)

lemma rl_empty_forget: "rl_empty s \<Longrightarrow> rl_empty (s\<lparr>rl_bufs := rl_forget i (rl_bufs s)\<rparr>)"
proof (cases "rl_bufs s")
  case (Cons e es)
  assume e: "rl_empty s"
  obtain e' es' where f: "rl_forget i (e # es) = e' # es'" "subseq es' es" using forget_shape [OF Cons] by blast
  have "re_data e' = re_data e" using f(1) by (auto simp: rl_forget_def split: if_splits)
  moreover have "set es' \<subseteq> set es" using f(2) by (auto dest: list_emb_set)
  ultimately show ?thesis using e Cons f(1) by (auto simp: rl_empty_def)
qed (simp add: rl_empty_def rl_forget_def)

lemma rl_empty_handlers:
  assumes "rl_empty s"
  shows "rl_handle_reply s = Inr s1 \<Longrightarrow> rl_empty s1" "rl_handle_write ec s = Inr s1 \<Longrightarrow> rl_empty s1"
    "rl_empty (rl_pushmsg err i s)" "rl_empty (rl_request err i c s)"
proof -
  have reply: "rl_empty s1" if "rl_handle_reply s = Inr s1" "rl_empty s" for s s1
  proof -
    have "rl_bufs s \<noteq> []" using that(1) by (auto simp: rl_handle_reply_def)
    then obtain e es where b: "rl_bufs s = e # es" by (auto simp: neq_Nil_conv)
    then have "s1 = rl_write_msg (s\<lparr>rl_state := Ready, rl_bufs := es\<rparr>)" using that(1) by (simp add: rl_handle_reply_def)
    moreover have "rl_empty (s\<lparr>rl_state := Ready, rl_bufs := es\<rparr>)" using that(2) b by (simp add: rl_empty_def)
    ultimately show ?thesis using rl_empty_write_msg by blast
  qed
  have push: "rl_empty (rl_pushmsg err i s)" if "rl_empty s" for s
  proof -
    have "rl_empty (s\<lparr>rl_bufs := rl_bufs s @ [\<lparr>re_conn = Some i, re_data = rl_encode, re_no = rl_count s\<rparr>], rl_count := rl_count s + 1\<rparr>)"
      using that by (simp add: rl_empty_def rl_encode_def)
    then show ?thesis using that rl_empty_write_msg rl_empty_forget by (simp add: rl_pushmsg_def Let_def)
  qed
  show "rl_handle_reply s = Inr s1 \<Longrightarrow> rl_empty s1" using reply assms by blast
  show "rl_empty (rl_pushmsg err i s)" using push assms by blast
  show "rl_empty (rl_request err i c s)" using push assms by (simp add: rl_request_def)
  assume w: "rl_handle_write ec s = Inr s1"
  then obtain e es where b: "rl_bufs s = e # es" by (cases "rl_bufs s") (auto simp: rl_handle_write_def)
  show "rl_empty s1"
  proof (cases "ec = Cancelled \<or> re_conn e \<noteq> None")
    case True
    then show ?thesis using w b assms
      by (auto simp: rl_handle_write_def rl_conn_send_def Let_def split: if_splits option.splits)
  next
    case False
    then have "rl_handle_reply (s\<lparr>rl_state := Ready, rl_replybuf := (if ec = Sent then ''OK'' else ''FAIL'')\<rparr>) = Inr s1"
      using w b by (simp add: rl_handle_write_def Let_def)
    then show ?thesis by (rule reply) (simp add: assms)
  qed
qed

lemma rl_empty_step: "rl_step closing s s1 \<Longrightarrow> rl_empty s \<Longrightarrow> rl_empty s1"
proof (induction rule: rl_step.induct)
  case (R_write s n d cx ws ec s1)
  then show ?case using rl_empty_handlers(2) [of "s\<lparr>rl_writes := ws\<rparr>"] by simp
next
  case (R_reply s n s1)
  then show ?case using rl_empty_handlers(1) [of "s\<lparr>rl_replies := n\<rparr>"] by simp
next
  case (R_stale s n)
  then show ?case by (simp add: rl_handle_connect_def Let_def)
next
  case (R_connect s ec)
  then show ?case using rl_empty_write_msg by (simp add: rl_handle_connect_def Let_def)
next
  case (R_content s i c)
  then show ?case using rl_empty_handlers(4) by (simp add: rl_content_def Let_def split: option.split)
next
  case (R_error s i c)
  then show ?case using rl_empty_handlers(4) by (simp add: rl_handle_error_def rl_destroy_def Let_def split: option.split)
next
  case (R_release s i ps c)
  then show ?case using rl_empty_handlers(4) by (simp add: rl_release_def Let_def)
qed (simp_all add: rl_accept_def rl_handle_read_def)

lemma rl_empty_reachable: "(rl_step closing)\<^sup>*\<^sup>* rl_new s \<Longrightarrow> rl_empty s"
proof (induction rule: rtranclp_induct)
  case base
  then show ?case by (simp add: rl_new_def) (simp add: rl_empty_def)
next
  case (step y z)
  then show ?case using rl_empty_step by blast
qed

text \<open>
  \<open>encode\<close> is not written: no run of the relay, however long, gives the gateway a single
  byte of a message, although every client that stays is told that it was sent.
\<close>
theorem relay_sends_nothing:
  assumes "(rl_step closing)\<^sup>*\<^sup>* rl_new s"
  shows "concat (map snd (rl_wire s)) = []"
  using rl_empty_reachable [OF assms] by (simp add: rl_empty_def)

subsection \<open>The gateway closes while a message is being written\<close>


subsection \<open>A run\<close>

definition demo_ask :: "nat \<Rightarrow> relay \<Rightarrow> relay" where
  "demo_ask i s = rl_content i (the (rl_conns s i)) s"

definition demo_ready :: relay where
  "demo_ready = rl_accept False (rl_accept False (rl_handle_connect False (rl_new\<lparr>rl_opening := False\<rparr>)))"

definition demo_relay :: relay where
  "demo_relay = demo_ask 0 demo_ready"

definition demo_three :: relay where
  "demo_three = demo_ask 0 (demo_ask 0 demo_relay)"

lemma demo_asked:
  "rl_conns s i = Some c \<Longrightarrow> rc_reading c \<Longrightarrow> rl_step closing s (demo_ask i s)"
  unfolding demo_ask_def by (simp add: R_content)

lemma demo_ready_eq: "demo_ready = rl_new\<lparr>rl_opening := False, rl_state := Ready, rl_reads := 1, rl_next := 2,
    rl_conns := [0 \<mapsto> \<lparr>rc_server = True, rc_mapped = True, rc_messager = False, rc_reading = True\<rparr>,
      1 \<mapsto> \<lparr>rc_server = True, rc_mapped = True, rc_messager = False, rc_reading = True\<rparr>]\<rparr>"
  by (simp add: demo_ready_def rl_accept_def rl_handle_connect_def rl_write_msg_def rl_new_def rl_connect_def Let_def)

lemma demo_ready_reached: "(rl_step closing)\<^sup>*\<^sup>* rl_new demo_ready"
proof -
  let ?a = "rl_handle_connect False (rl_new\<lparr>rl_opening := False\<rparr>)"
  have "rl_step closing rl_new ?a" by (intro R_connect) (simp_all add: rl_new_def rl_connect_def)
  moreover have "rl_step closing ?a (rl_accept False ?a)"
    by (intro R_accept) (simp add: rl_handle_connect_def rl_write_msg_def rl_new_def rl_connect_def Let_def)
  moreover have "rl_step closing (rl_accept False ?a) demo_ready" unfolding demo_ready_def
    by (intro R_accept) (simp add: rl_accept_def rl_handle_connect_def rl_write_msg_def rl_new_def rl_connect_def Let_def)
  ultimately show ?thesis by (meson converse_rtranclp_into_rtranclp rtranclp.rtrancl_refl)
qed

lemma demo_relay_eq: "demo_relay = demo_ready\<lparr>rl_state := Sending, rl_count := 1, rl_wire := [(0, [])], rl_writes := [(0, [], False)],
    rl_bufs := [\<lparr>re_conn = Some 0, re_data = [], re_no = 0\<rparr>],
    rl_conns := (rl_conns demo_ready)(0 \<mapsto> \<lparr>rc_server = True, rc_mapped = True, rc_messager = True, rc_reading = True\<rparr>)\<rparr>"
  by (simp add: demo_relay_def demo_ask_def demo_ready_eq rl_content_def rl_request_def rl_pushmsg_def rl_write_msg_def rl_new_def
      rl_connect_def rl_encode_def Let_def)

lemma demo_three_eq: "demo_three = demo_relay\<lparr>rl_count := 3, rl_bufs := [\<lparr>re_conn = Some 0, re_data = [], re_no = 0\<rparr>,
    \<lparr>re_conn = Some 0, re_data = [], re_no = 1\<rparr>, \<lparr>re_conn = Some 0, re_data = [], re_no = 2\<rparr>]\<rparr>"
  by (simp add: demo_three_def demo_ask_def demo_relay_eq demo_ready_eq rl_content_def rl_request_def rl_pushmsg_def rl_encode_def
      rl_new_def rl_connect_def Let_def)

lemma demo_relay_reached: "(rl_step closing)\<^sup>*\<^sup>* rl_new demo_relay"
  unfolding demo_relay_def
  by (rule rtranclp.rtrancl_into_rtrancl [OF demo_ready_reached
      demo_asked [where c = "\<lparr>rc_server = True, rc_mapped = True, rc_messager = False, rc_reading = True\<rparr>"]])
    (simp_all add: demo_ready_eq)

lemma demo_three_reached: "(rl_step closing)\<^sup>*\<^sup>* rl_new demo_three"
proof -
  have "rl_step closing demo_relay (demo_ask 0 demo_relay)"
    by (rule demo_asked [where c = "\<lparr>rc_server = True, rc_mapped = True, rc_messager = True, rc_reading = True\<rparr>"])
      (simp_all add: demo_relay_eq)
  moreover have "rl_step closing (demo_ask 0 demo_relay) demo_three" unfolding demo_three_def
    by (rule demo_asked [where c = "\<lparr>rc_server = True, rc_mapped = True, rc_messager = True, rc_reading = True\<rparr>"])
      (simp_all add: demo_ask_def demo_relay_eq demo_ready_eq rl_content_def rl_request_def rl_pushmsg_def rl_new_def rl_connect_def Let_def)
  ultimately show ?thesis using demo_relay_reached
    by (meson rtranclp.rtrancl_into_rtrancl)
qed

theorem relay_in_order_witness:
  "sorted_wrt (<) (map fst (rl_wire demo_three)) \<and> rl_bufs demo_three \<noteq> [] \<and> length (rl_writes demo_three) = 1"
proof -
  have "rl_writes demo_three = [(0, [], False)]" by (simp add: demo_three_eq demo_relay_eq)
  then show ?thesis using relay_in_order [OF demo_three_reached] by simp
qed


theorem third_message_stays_witness:
  "\<exists>s1. (rl_step False)\<^sup>*\<^sup>* demo_three s1 \<and> rl_conns s1 0 = None \<and>
    of_conn 0 (rl_bufs s1) = [\<lparr>re_conn = Some 0, re_data = [], re_no = 2\<rparr>]"
proof -
  have "rl_conns demo_three 0 = Some \<lparr>rc_server = True, rc_mapped = True, rc_messager = True, rc_reading = True\<rparr>"
    "rl_posted demo_three = []"
    by (simp_all add: demo_three_eq demo_relay_eq demo_ready_eq rl_new_def rl_connect_def)
  from third_message_stays [OF demo_three_reached this(1) _ this(2)] show ?thesis
    by (simp add: demo_three_eq of_conn_def)
qed

theorem relay_sends_nothing_witness: "concat (map snd (rl_wire demo_relay)) = [] \<and> length (rl_wire demo_relay) = 1"
  using relay_sends_nothing [OF demo_relay_reached] by (simp add: demo_relay_eq)

theorem answer_to_the_gone_witness:
  "rl_handle_write Sent (demo_three\<lparr>rl_conns := \<lambda>_. None\<rparr>) = Inl Undefined"
  using answer_to_the_gone [of "demo_three\<lparr>rl_conns := \<lambda>_. None\<rparr>" _ _ 0] by (simp add: demo_three_eq)

end
