(* ===== verification/Spec2Isabelle.thy ===== *)
theory Spec2Isabelle
  imports Tetris_Rules Queue_Threads Net_Thread Net_Tcp Net_App Wap_Server Rtsp Push_Proxy Js_Sax Http_Echo Im_Client
    Omx_Ports Hgs_Jni Video_Render Relay_Push
begin

section \<open>A verification library for cpp-snippets\<close>

text \<open>
  The repository is a collection of C++ programs, each of them independent of the others. The
  library models those that have behaviour of their own; each program is a group of theories
  on top of \<open>Prelude\<close>, and this theory collects them.

  \<^bold>\<open>Conventions.\<close> A struct or class is a record, an enumeration a datatype, a member
  function a function from the state to the new state. What the language leaves undefined, a
  failed assertion, an exception and the end of the process are values of \<open>fault\<close>, and an
  operation that can come to one has the type \<open>outcome\<close>. Unsigned arithmetic that can wrap is
  done on words or with the modulus written out; signed integers are integers where they stay
  in range, and \<open>Undefined\<close> where they can leave it. Pointers and iterators are offsets.
  Output that is only printed is left out. System calls, the clock, \<open>rand\<close> and third-party
  libraries (Boost, OpenSSL, iconv, gmlib, the JSON and regular expression engines) are
  arguments of the definitions, or records of functions named \<open>_env\<close>; no law is assumed of
  them unless a theorem names it as a hypothesis. An asynchronous program (Boost.Asio, libev,
  epoll) is a relation \<open>_step\<close> whose rules are the handlers that can run next; a property of
  such a program is proved of every reachable state.

  \<^bold>\<open>Falling blocks\<close> (\<open>multi_array_tetris.cpp\<close>). \<open>Tetris_Board\<close>: \<open>Array2d\<close> as the list of its
  rows and the in-place rotation \<open>rotate90_right\<close>. \<open>Tetris_Game\<close>: cells outside the board,
  \<open>is_collision\<close>, \<open>or_assign\<close>, and \<open>Main\<close> with \<open>new_game\<close>, \<open>next_round\<close>, \<open>Move\<close>, \<open>rotate\<close>,
  \<open>collapse\<close>. \<open>Tetris_Rules\<close>: the rotation is a quarter turn, \<open>collapse\<close> deletes exactly the
  completed rows, and every pass of the main loop ends and keeps the well-formedness of the
  board, from which it follows that no access leaves a matrix.

  \<^bold>\<open>Video transport\<close> (\<open>network/epoll\<close>). \<open>Net_Clock\<close> (\<open>clock.hpp\<close>), \<open>Net_Thread\<close> (\<open>thread.hpp\<close>),
  \<open>Net_Buffer\<close> and \<open>Cycle_Queue\<close> (\<open>buffer.hpp\<close>), \<open>Net_Socket\<close>, \<open>Net_Udp\<close> and \<open>Net_Tcp\<close>
  (\<open>epoll.hpp\<close>), \<open>Net_App\<close> (\<open>main.cpp\<close>, \<open>enc.hpp\<close>). The queue is shared by two threads:
  \<open>Cycle_Queue\<close> has its operations as the thread that calls them sees them, \<open>Queue_Threads\<close>
  both threads step by step, because \<open>done\<close> takes no mutex and its assignments can fall into
  a search of \<open>wait\<close>. As long as nothing is handed over during a search, the frames that are taken are a
  subsequence, in order, of those handed over; in every run in which the reader gives back what it took
  with \<open>done\<close> each is taken at most once, but a frame handed over during a search can
  overtake an older one. The UDP layer cuts a
  frame into numbered datagrams and puts it together again; one theorem follows a
  picture from the hand-over to the queue of the server through the datagrams into the file of
  the client, and its \<open>PadInfo\<close> into the queue of the client.

  \<^bold>\<open>Text extraction\<close> (\<open>glex.hpp\<close>). \<open>Glex\<close>: the searches of the standard library with their
  specifications (used by the text theories below), \<open>psearch\<close>, \<open>globex\<close>, \<open>glex\<close> and
  \<open>subst\<close>. \<open>psearch\<close> is proved sound and complete for patterns with stars.

  \<^bold>\<open>WAP session server\<close> (\<open>chs.cc\<close>). \<open>Std_Map\<close>: \<open>std::map\<close> as a sorted list, with the interface
  \<open>kv_store\<close>. \<open>Wap_Text\<close>: requests, responses, header lines, cookies. \<open>Wap_Binary\<close>: the
  records of the phones. \<open>Wap_Steps\<close>: the steps and laps of a session and the commands of a
  request. \<open>Wap_Server\<close>: the list of sessions with its index, the scoped references, and the
  archive, one value after the other as the functions \<open>serialize\<close> name them. A session is followed answer by
  answer through its steps and laps. The registry refines a map from client ids to sessions.

  \<^bold>\<open>Camera client\<close> (\<open>android/jni-01/hgs.hpp\<close>, \<open>hgs-rtph264.cpp\<close>). \<open>Rtp_Packet\<close>: headers and the
  growing buffer. \<open>Rtp_H264\<close>: NAL units out of packets, with the callback of the statistics
  as the interface \<open>rtp_observer\<close>. \<open>Rtcp\<close>: the statistics that implement it, and the reports.
  \<open>Rtsp\<close>: the requests of a session, its responses, the queued handlers and the teardown;
  what is passed to the socket is a beginning of the script until a teardown is tried.

  \<^bold>\<open>Camera library\<close> (\<open>android/jni-01/ildec.cpp\<close>, \<open>hgs-jni.cpp\<close>, \<open>VideoRender.cpp\<close>). \<open>Omx_Ports\<close>: the two ports of
  the decoder and the callbacks of the component; the lock in \<open>send\<close> is a comment, so in a run it has two halves
  with callbacks between them. The input port refines a mailbox that keeps the newest frame as
  long as none falls there. \<open>Hgs_Jni\<close>: from the first NAL unit to the decoder, the calls that start and
  stop the library, and the test program with its reader of H.264 files. \<open>Video_Render\<close>: a
  picture drawn into a window in its size, in three quarters, a half or a third of it; which
  pixel comes from where, and the widths for which the loops leave the buffers.

  \<^bold>\<open>Push proxy\<close> (\<open>apple_push_proxy.cpp\<close>). \<open>Push_Http\<close>: requests, parameters, responses, the
  binary message for the gateway. \<open>Push_Proxy\<close>: connections, the queue of messages, the
  gateway's state machine.

  \<^bold>\<open>Relay\<close> (\<open>relay.cpp\<close>). \<open>Relay_Push\<close>: an earlier program with a queue and a gateway machine of
  its own, which keeps the order as long as the gateway stays and not longer.

  \<^bold>\<open>JSON reader\<close> (\<open>js.cc\<close>). \<open>Js_Sax\<close>: the event driven reader; it accepts exactly a reference
  grammar and makes exactly the calls of the value it has read.

  \<^bold>\<open>HTTP echo server\<close> (\<open>as.cpp\<close>). \<open>Http_Echo\<close>: reading of requests and the registry of writers.

  \<^bold>\<open>Message client\<close> (\<open>asio/ter.cpp\<close>). \<open>Im_Client\<close>: log-in, stages, frames and the write queue.

  \<^bold>\<open>Interfaces.\<close> \<open>kv_store\<close> states what a keyed container promises (what is found after an
  insertion, and that the invariant stays); it is interpreted by \<open>std::map\<close>, by the headers
  of a response and by the headers of the echo server. \<open>rtp_observer\<close> states what the
  receiver relies on when it hands a packet to the statistics, \<open>frame_source\<close> what the reading
  thread relies on while the other one works on the queue.

  \<^bold>\<open>Kinds of lemmas.\<close> Each component has an invariant (\<open>game_ok\<close>, \<open>cq_ok\<close>, \<open>registry_ok\<close>,
  \<open>threads_ok\<close>, \<open>mb_ok\<close>, \<open>session_ok\<close>, \<open>proxy_ok\<close>, \<open>echo_ok\<close>, \<open>im_ok\<close>, \<open>port_ok\<close>, \<open>il_sound\<close>, \<open>jni_ok\<close>,
  \<open>rl_ok\<close> and others) with a lemma for each
  operation that keeps it; lemmas on what an operation returns on each of its branches; and
  the properties, each after a text block with its claim. Where the code has an error, the
  property states what the code does.

  \<^bold>\<open>Fuel and termination.\<close> Loops are total functions with a measure. The recursion of the JSON
  reader, whose measure depends on the positions its own calls return, has fuel: three times
  the length of the buffer and one are shown to be enough from every position. Loops that do
  not end for some inputs (\<open>process_loop\<close>, \<open>commands_loop\<close>, \<open>malloc_assign\<close>, \<open>hard_drop\<close>)
  are partial functions with \<open>None\<close> for no result, and the inputs for which they end are part
  of the theorems; \<open>unescape_loop\<close> has fuel, and it is shown for which width some fuel is
  enough and for which none is.

  \<^bold>\<open>Not modelled.\<close> \<open>apple_push_relay.cpp\<close> is an earlier version of the push proxy (and the request
  parser of \<open>relay.cpp\<close> the one of the proxy), \<open>chat_client.cpp\<close> of the message client, \<open>udp-io.cpp\<close> and \<open>udp-io2.cpp\<close> of
  \<open>epoll.hpp\<close>. Setting up the OpenMAX component, rendering with OpenGL ES, the table of cards, the Java bindings, the OpenGL and
  frame buffer programs are calls into the system with no state of their own to reason about. \<open>js2.cc\<close>,
  \<open>json_parser_read.cpp\<close>, \<open>spirit-1.cc\<close>, \<open>tetris_fsm.cpp\<close> and the message programs are
  expression templates and tables for Boost engines that are not in the repository. The small
  files show features of the language. Of the modelled programs, logging, command lines,
  signal handling, and the set-up of sockets, TLS and the encoder are left out.
\<close>

end
